(* ===== verification/Errno.thy ===== *)
theory Errno
  imports Kernel_Prelude
begin

text \<open>
  \<open>src/src/syscall/error.rs\<close>: the errno values of the system call layer. \<open>syscall_error\<close> has the
  variants of \<open>SyscallError\<close>, \<open>errno\<close> their discriminants, \<open>err\<close> and \<open>usize_of_error\<close> the two
  conversions to the values system calls return, and \<open>error_of_fork\<close>, \<open>error_of_task_alloc\<close> the
  \<open>From\<close> instances for the errors of task creation. Every other theory returns its errors in this
  type.
\<close>

datatype (plugins only: code) syscall_error =
    EPERM | ENOENT | ESRCH | EINTR | EIO | ENXIO | E2BIG
  | ENOEXEC | EBADF | ECHILD | ENOMEM | EACCES | EFAULT | ENOTBLK
  | EBUSY | EEXIST | EXDEV | ENODEV | ENOTDIR | EISDIR | EINVAL
  | ENFILE | EMFILE | ENOTTY | ETXTBSY | EFBIG | ENOSPC | ESPIPE
  | EROFS | EMLINK | EPIPE | EDOM | ERANGE | EDEADLK | ENAMETOOLONG
  | ENOLCK | ENOSYS | ENOTEMPTY | ELOOP | EAGAIN | ENOMSG | EIDRM
  | ENODATA | ENOPKG | EOVERFLOW | EBADFD | ENOTSOCK | EDESTADDRREQ | EMSGSIZE
  | ENOPROTOOPT | EPROTONOSUPPORT | EOPNOTSUPP | EPFNOSUPPORT | EAFNOSUPPORT | EADDRINUSE | EADDRNOTAVAIL
  | ENETDOWN | ENETUNREACH | ENOBUFS | EISCONN | ENOTCONN | ETIMEDOUT | ECONNREFUSED
  | EALREADY | ECANCELED | EKEYREJECTED

fun errno :: "syscall_error \<Rightarrow> int" where
  "errno EPERM = 1"
| "errno ENOENT = 2"
| "errno ESRCH = 3"
| "errno EINTR = 4"
| "errno EIO = 5"
| "errno ENXIO = 6"
| "errno E2BIG = 7"
| "errno ENOEXEC = 8"
| "errno EBADF = 9"
| "errno ECHILD = 10"
| "errno ENOMEM = 12"
| "errno EACCES = 13"
| "errno EFAULT = 14"
| "errno ENOTBLK = 15"
| "errno EBUSY = 16"
| "errno EEXIST = 17"
| "errno EXDEV = 18"
| "errno ENODEV = 19"
| "errno ENOTDIR = 20"
| "errno EISDIR = 21"
| "errno EINVAL = 22"
| "errno ENFILE = 23"
| "errno EMFILE = 24"
| "errno ENOTTY = 25"
| "errno ETXTBSY = 26"
| "errno EFBIG = 27"
| "errno ENOSPC = 28"
| "errno ESPIPE = 29"
| "errno EROFS = 30"
| "errno EMLINK = 31"
| "errno EPIPE = 32"
| "errno EDOM = 33"
| "errno ERANGE = 34"
| "errno EDEADLK = 35"
| "errno ENAMETOOLONG = 36"
| "errno ENOLCK = 37"
| "errno ENOSYS = 38"
| "errno ENOTEMPTY = 39"
| "errno ELOOP = 40"
| "errno EAGAIN = 11"
| "errno ENOMSG = 42"
| "errno EIDRM = 43"
| "errno ENODATA = 61"
| "errno ENOPKG = 65"
| "errno EOVERFLOW = 75"
| "errno EBADFD = 77"
| "errno ENOTSOCK = 88"
| "errno EDESTADDRREQ = 89"
| "errno EMSGSIZE = 90"
| "errno ENOPROTOOPT = 92"
| "errno EPROTONOSUPPORT = 93"
| "errno EOPNOTSUPP = 95"
| "errno EPFNOSUPPORT = 96"
| "errno EAFNOSUPPORT = 97"
| "errno EADDRINUSE = 98"
| "errno EADDRNOTAVAIL = 99"
| "errno ENETDOWN = 100"
| "errno ENETUNREACH = 101"
| "errno ENOBUFS = 105"
| "errno EISCONN = 106"
| "errno ENOTCONN = 107"
| "errno ETIMEDOUT = 110"
| "errno ECONNREFUSED = 111"
| "errno EALREADY = 114"
| "errno ECANCELED = 125"
| "errno EKEYREJECTED = 129"

definition err :: "syscall_error \<Rightarrow> int" where
  "err e = - errno e"

definition usize_of_error :: "syscall_error \<Rightarrow> usize" where
  "usize_of_error e = word_of_int (err e)"

datatype fork_error = PidExhausted | RlimitNprocExceeded | CgroupPidsMaxExceeded
  | KernelStackOom | TrapCxAllocFailed | VmCloneOom

fun error_of_fork :: "fork_error \<Rightarrow> syscall_error" where
  "error_of_fork PidExhausted = EAGAIN"
| "error_of_fork RlimitNprocExceeded = EAGAIN"
| "error_of_fork CgroupPidsMaxExceeded = EAGAIN"
| "error_of_fork KernelStackOom = ENOMEM"
| "error_of_fork TrapCxAllocFailed = ENOMEM"
| "error_of_fork VmCloneOom = ENOMEM"

datatype task_alloc_error = TaskTrapCxAllocFailed | TaskKernelStackOom

fun error_of_task_alloc :: "task_alloc_error \<Rightarrow> syscall_error" where
  "error_of_task_alloc TaskTrapCxAllocFailed = ENOMEM"
| "error_of_task_alloc TaskKernelStackOom = ENOMEM"

lemma errno_range: "1 \<le> errno e \<and> errno e \<le> 129"
  by (cases e) simp_all

lemma err_negative: "err e < 0"
  using errno_range [of e] by (simp add: err_def)

definition all_errors :: "syscall_error list" where
  "all_errors =
    [EPERM, ENOENT, ESRCH, EINTR, EIO, ENXIO, E2BIG, ENOEXEC, EBADF,
     ECHILD, ENOMEM, EACCES, EFAULT, ENOTBLK, EBUSY, EEXIST, EXDEV, ENODEV,
     ENOTDIR, EISDIR, EINVAL, ENFILE, EMFILE, ENOTTY, ETXTBSY, EFBIG, ENOSPC,
     ESPIPE, EROFS, EMLINK, EPIPE, EDOM, ERANGE, EDEADLK, ENAMETOOLONG, ENOLCK,
     ENOSYS, ENOTEMPTY, ELOOP, EAGAIN, ENOMSG, EIDRM, ENODATA, ENOPKG, EOVERFLOW,
     EBADFD, ENOTSOCK, EDESTADDRREQ, EMSGSIZE, ENOPROTOOPT, EPROTONOSUPPORT, EOPNOTSUPP, EPFNOSUPPORT, EAFNOSUPPORT,
     EADDRINUSE, EADDRNOTAVAIL, ENETDOWN, ENETUNREACH, ENOBUFS, EISCONN, ENOTCONN, ETIMEDOUT, ECONNREFUSED,
     EALREADY, ECANCELED, EKEYREJECTED]"

lemma all_errors: "e \<in> set all_errors"
  by (cases e) (simp_all add: all_errors_def)

lemma errno_distinct: "distinct (map errno all_errors)"
  by code_simp

text \<open>Two errors with the same number are the same error: the numbering has no clash, although the
  variants are not listed in numeric order.\<close>

lemma errno_inject: "errno a = errno b \<Longrightarrow> a = b"
  using errno_distinct all_errors by (auto simp: distinct_map dest: inj_onD)

text \<open>An error value read back from a system call's unsigned return register is in the last
  page-sized window of the address range, and so distinct from every pointer or count below it.\<close>

lemma usize_of_error_window:
  "unat (usize_of_error e) = 2 ^ 64 - nat (errno e)"
  by (cases e) (simp_all add: usize_of_error_def err_def unat_all_ones)

end
