(* ===== verification/Address.thy ===== *)
theory Address
  imports Kernel_Prelude
begin

text \<open>
  \<open>src/src/mm/address.rs\<close>: physical and virtual addresses and page numbers, the conversions
  between them (with the masking of the \<open>From\<close> instances and the sign extension of virtual
  addresses), rounding to pages, the three page-table indexes of a virtual page number and the
  page ranges the mapping code iterates over. A failed \<open>assert!\<close> is \<open>None\<close>. The raw pointer
  accessors (\<open>get_mut\<close>, \<open>get_pte_array\<close>, \<open>get_bytes_array\<close>) have no counterpart here.
\<close>

datatype arch = Riscv64 | Loongarch64

definition PAGE_SIZE :: usize where
  "PAGE_SIZE = 0x1000"

definition PAGE_SIZE_BITS :: nat where
  "PAGE_SIZE_BITS = 0xc"

fun PA_WIDTH :: "arch \<Rightarrow> nat" where
  "PA_WIDTH Loongarch64 = 48"
| "PA_WIDTH Riscv64 = 56"

definition VA_WIDTH :: nat where
  "VA_WIDTH = 39"

definition PPN_WIDTH :: "arch \<Rightarrow> nat" where
  "PPN_WIDTH a = PA_WIDTH a - PAGE_SIZE_BITS"

definition VPN_WIDTH :: nat where
  "VPN_WIDTH = VA_WIDTH - PAGE_SIZE_BITS"

datatype phys_addr = PhysAddr (pa_val: usize)
datatype virt_addr = VirtAddr (va_val: usize)
datatype phys_page_num = PhysPageNum (ppn_val: usize)
datatype virt_page_num = VirtPageNum (vpn_val: usize)

text \<open>\<open>low_bits n\<close> is \<open>(1 << n) - 1\<close>.\<close>

definition low_bits :: "nat \<Rightarrow> usize" where
  "low_bits n = push_bit n 1 - 1"

section \<open>Conversions\<close>

definition pa_from_usize :: "arch \<Rightarrow> usize \<Rightarrow> phys_addr" where
  "pa_from_usize a v = PhysAddr (v AND low_bits (PA_WIDTH a))"

definition ppn_from_usize :: "arch \<Rightarrow> usize \<Rightarrow> phys_page_num" where
  "ppn_from_usize a v = PhysPageNum (v AND low_bits (PPN_WIDTH a))"

definition va_from_usize :: "usize \<Rightarrow> virt_addr" where
  "va_from_usize v = VirtAddr (v AND low_bits VA_WIDTH)"

definition vpn_from_usize :: "usize \<Rightarrow> virt_page_num" where
  "vpn_from_usize v = VirtPageNum (v AND low_bits VPN_WIDTH)"

definition usize_of_pa :: "phys_addr \<Rightarrow> usize" where
  "usize_of_pa v = pa_val v"

definition usize_of_ppn :: "phys_page_num \<Rightarrow> usize" where
  "usize_of_ppn v = ppn_val v"

definition usize_of_va :: "virt_addr \<Rightarrow> usize" where
  "usize_of_va v =
     (if va_val v \<ge> push_bit (VA_WIDTH - 1) 1 then va_val v OR NOT (low_bits VA_WIDTH)
      else va_val v)"

definition usize_of_vpn :: "virt_page_num \<Rightarrow> usize" where
  "usize_of_vpn v = vpn_val v"

section \<open>Pages\<close>

definition va_floor :: "virt_addr \<Rightarrow> virt_page_num" where
  "va_floor v = VirtPageNum (va_val v div PAGE_SIZE)"

definition va_ceil :: "virt_addr \<Rightarrow> virt_page_num" where
  "va_ceil v =
     (if va_val v = 0 then VirtPageNum 0
      else VirtPageNum ((va_val v - 1 + PAGE_SIZE) div PAGE_SIZE))"

definition va_page_offset :: "virt_addr \<Rightarrow> usize" where
  "va_page_offset v = va_val v AND (PAGE_SIZE - 1)"

definition va_aligned :: "virt_addr \<Rightarrow> bool" where
  "va_aligned v \<longleftrightarrow> va_page_offset v = 0"

definition vpn_from_va :: "virt_addr \<Rightarrow> virt_page_num option" where
  "vpn_from_va v = (if va_page_offset v = 0 then Some (va_floor v) else None)"

definition va_from_vpn :: "virt_page_num \<Rightarrow> virt_addr" where
  "va_from_vpn v = VirtAddr (push_bit PAGE_SIZE_BITS (vpn_val v))"

definition pa_floor :: "phys_addr \<Rightarrow> phys_page_num" where
  "pa_floor v = PhysPageNum (pa_val v div PAGE_SIZE)"

definition pa_ceil :: "phys_addr \<Rightarrow> phys_page_num" where
  "pa_ceil v =
     (if pa_val v = 0 then PhysPageNum 0
      else PhysPageNum ((pa_val v - 1 + PAGE_SIZE) div PAGE_SIZE))"

definition pa_page_offset :: "phys_addr \<Rightarrow> usize" where
  "pa_page_offset v = pa_val v AND (PAGE_SIZE - 1)"

definition pa_aligned :: "phys_addr \<Rightarrow> bool" where
  "pa_aligned v \<longleftrightarrow> pa_page_offset v = 0"

definition ppn_from_pa :: "phys_addr \<Rightarrow> phys_page_num option" where
  "ppn_from_pa v = (if pa_page_offset v = 0 then Some (pa_floor v) else None)"

definition pa_from_ppn :: "phys_page_num \<Rightarrow> phys_addr" where
  "pa_from_ppn v = PhysAddr (push_bit PAGE_SIZE_BITS (ppn_val v))"

text \<open>The loop of \<open>indexes\<close> fills the array from its last entry, nine bits at a time.\<close>

fun indexes_loop :: "nat \<Rightarrow> usize \<Rightarrow> usize list \<Rightarrow> usize list" where
  "indexes_loop 0 vpn idx = idx"
| "indexes_loop (Suc i) vpn idx = indexes_loop i (drop_bit 9 vpn) (idx[i := vpn AND 511])"

definition indexes :: "virt_page_num \<Rightarrow> usize list" where
  "indexes v = indexes_loop 3 (vpn_val v) [0, 0, 0]"

section \<open>Page ranges\<close>

record vpn_range =
  range_l :: virt_page_num
  range_r :: virt_page_num

definition vpn_step :: "virt_page_num \<Rightarrow> virt_page_num" where
  "vpn_step v = VirtPageNum (vpn_val v + 1)"

definition ppn_step :: "phys_page_num \<Rightarrow> phys_page_num" where
  "ppn_step v = PhysPageNum (ppn_val v + 1)"

definition vpn_range_new :: "virt_page_num \<Rightarrow> virt_page_num \<Rightarrow> vpn_range option" where
  "vpn_range_new s e =
     (if vpn_val s \<le> vpn_val e then Some \<lparr>range_l = s, range_r = e\<rparr> else None)"

definition range_next :: "vpn_range \<Rightarrow> (virt_page_num \<times> vpn_range) option" where
  "range_next it =
     (if range_l it = range_r it then None
      else Some (range_l it, it\<lparr>range_l := vpn_step (range_l it)\<rparr>))"

text \<open>The pages a \<open>for\<close> loop over the range visits.\<close>

function range_pages :: "vpn_range \<Rightarrow> virt_page_num list" where
  "range_pages it =
     (case range_next it of None \<Rightarrow> [] | Some (p, it') \<Rightarrow> p # range_pages it')"
  by pat_completeness auto
termination
proof (relation "measure (\<lambda>it. unat (vpn_val (range_r it) - vpn_val (range_l it)))")
  fix it :: vpn_range and x y it'
  assume "range_next it = Some x" and "(y, it') = x"
  then have ne: "vpn_val (range_l it) \<noteq> vpn_val (range_r it)"
    and it': "it' = it\<lparr>range_l := vpn_step (range_l it)\<rparr>"
    by (auto simp: range_next_def virt_page_num.expand split: if_splits)
  have "vpn_val (range_r it') - vpn_val (range_l it') =
      vpn_val (range_r it) - vpn_val (range_l it) - 1"
    by (simp add: it' vpn_step_def)
  then show "(it', it) \<in> measure (\<lambda>it. unat (vpn_val (range_r it) - vpn_val (range_l it)))"
    using ne by (simp add: measure_unat)
qed simp

declare range_pages.simps [simp del]

section \<open>Masks and pages as arithmetic\<close>

lemma low_bits_mask: "low_bits n = mask n"
  by (simp add: low_bits_def mask_eq_exp_minus_1 push_bit_eq_mult)

lemma unat_and_low_bits: "unat (v AND low_bits n) = unat v mod 2 ^ n"
proof -
  have "unat (v AND low_bits n) = take_bit n (unat v)"
    by (simp add: low_bits_mask unsigned_take_bit_eq flip: take_bit_eq_mask)
  then show ?thesis by (simp only: take_bit_eq_mod)
qed

lemma unat_page_offset: "unat (v AND (PAGE_SIZE - 1)) = unat v mod 4096"
proof -
  have "PAGE_SIZE - 1 = low_bits 12" by (simp add: PAGE_SIZE_def low_bits_def)
  then show ?thesis using unat_and_low_bits [of v 12] by simp
qed

lemma unat_div_page: "unat (v div PAGE_SIZE) = unat v div 4096"
  by (simp add: unat_div PAGE_SIZE_def)

lemma page_offset_0_iff: "v AND (PAGE_SIZE - 1) = 0 \<longleftrightarrow> 4096 dvd unat v"
  using unat_page_offset [of v] by (metis dvd_eq_mod_eq_0 unat_0_iff)

lemma unat_va_from_usize: "unat (va_val (va_from_usize v)) = unat v mod 2 ^ 39"
  by (simp add: va_from_usize_def unat_and_low_bits VA_WIDTH_def)

lemma unat_vpn_from_usize: "unat (vpn_val (vpn_from_usize v)) = unat v mod 2 ^ 27"
  by (simp add: vpn_from_usize_def unat_and_low_bits VPN_WIDTH_def VA_WIDTH_def PAGE_SIZE_BITS_def)

lemma unat_ceil_page:
  assumes "unat v < 2 ^ 64 - 4096"
  shows "unat (if v = 0 then 0 else (v - 1 + PAGE_SIZE) div PAGE_SIZE) = (unat v + 4095) div 4096"
proof (cases "v = 0")
  case True
  then show ?thesis by simp
next
  case False
  then have "0 < unat v" by (simp add: unat_gt_0)
  have "unat (v - 1) = unat v - 1" using False by (rule unat_minus_one)
  then have "unat (v - 1 + PAGE_SIZE) = unat v - 1 + 4096"
    using assms \<open>0 < unat v\<close> by (subst unat_add_small) (simp_all add: PAGE_SIZE_def)
  then show ?thesis using False \<open>0 < unat v\<close> by (simp add: unat_div_page)
qed

lemma unat_va_ceil:
  "unat (va_val v) < 2 ^ 64 - 4096 \<Longrightarrow> unat (vpn_val (va_ceil v)) = (unat (va_val v) + 4095) div 4096"
  using unat_ceil_page [of "va_val v"] by (auto simp: va_ceil_def)

lemma unat_pa_ceil:
  "unat (pa_val v) < 2 ^ 64 - 4096 \<Longrightarrow> unat (ppn_val (pa_ceil v)) = (unat (pa_val v) + 4095) div 4096"
  using unat_ceil_page [of "pa_val v"] by (auto simp: pa_ceil_def)

lemma unat_va_floor: "unat (vpn_val (va_floor v)) = unat (va_val v) div 4096"
  by (simp add: va_floor_def unat_div_page)

lemma unat_pa_floor: "unat (ppn_val (pa_floor v)) = unat (pa_val v) div 4096"
  by (simp add: pa_floor_def unat_div_page)

lemma va_aligned_iff: "va_aligned v \<longleftrightarrow> 4096 dvd unat (va_val v)"
  by (simp add: va_aligned_def va_page_offset_def page_offset_0_iff)

lemma ceil_page_cases: "((n::nat) + 4095) div 4096 = n div 4096 + (if 4096 dvd n then 0 else 1)"
proof -
  let ?q = "n div 4096" and ?r = "n mod 4096"
  have "n + 4095 = 4096 * ?q + (?r + 4095)" by simp
  then have "(n + 4095) div 4096 = ?q + (?r + 4095) div 4096" by (metis div_mult_self4 zero_neq_numeral)
  moreover have "(?r + 4095) div 4096 = (if ?r = 0 then 0 else 1)"
  proof (cases "?r = 0")
    case False
    then have "(?r + 4095) = 4096 + (?r - 1)" by simp
    moreover have "?r - 1 < 4096" by (simp add: less_imp_diff_less)
    ultimately show ?thesis using False by simp
  qed simp
  ultimately show ?thesis by (simp add: dvd_eq_mod_eq_0)
qed

section \<open>Virtual addresses\<close>

text \<open>The sign extension on values: what \<open>usize_of_va\<close> computes from the masked 39 bits.\<close>

lemma unat_usize_of_va:
  assumes "unat (va_val a) < 2 ^ 39"
  shows "unat (usize_of_va a) =
    (if 2 ^ 38 \<le> unat (va_val a) then 2 ^ 64 - 2 ^ 39 + unat (va_val a) else unat (va_val a))"
proof (cases "2 ^ 38 \<le> unat (va_val a)")
  case True
  let ?h = "NOT (low_bits VA_WIDTH) :: usize"
  have h: "unat ?h = 2 ^ 64 - 2 ^ 39"
    by (simp add: VA_WIDTH_def low_bits_def)
  have "va_val a = va_val a AND low_bits 39"
    using assms unat_and_low_bits [of "va_val a" 39] by (simp add: word_unat_eq_iff)
  then have "va_val a AND ?h = va_val a AND (low_bits 39 AND NOT (low_bits 39))"
    by (metis (no_types) VA_WIDTH_def and.assoc)
  then have disj: "va_val a AND ?h = 0" by simp
  then have "va_val a OR ?h = va_val a + ?h"
    by (simp add: disjunctive_add_eq_or)
  moreover have "unat (va_val a + ?h) = unat (va_val a) + unat ?h"
    using assms h by (simp add: unat_word_ariths)
  moreover have "push_bit 38 1 \<le> va_val a"
    using True by (simp add: word_le_nat_alt)
  ultimately show ?thesis
    using True h by (simp add: usize_of_va_def VA_WIDTH_def)
next
  case False
  then have "\<not> push_bit 38 1 \<le> va_val a" by (simp add: word_le_nat_alt)
  with False show ?thesis by (simp add: usize_of_va_def VA_WIDTH_def)
qed

section \<open>The page-table walk\<close>

lemma and_511: "unat (v AND 511) = unat (v :: usize) mod 512"
  using unat_and_low_bits [of v 9] by (simp add: low_bits_def)

lemma indexes_digits:
  "map unat (indexes v) =
    [unat (vpn_val v) div 2 ^ 18 mod 512, unat (vpn_val v) div 2 ^ 9 mod 512, unat (vpn_val v) mod 512]"
  by (simp add: indexes_def numeral_3_eq_3 and_511 unat_drop_bit_eq drop_bit_eq_div [where ?'a = nat])

lemma base_512_digits:
  assumes "(n::nat) < 2 ^ 27"
  shows "n div 2 ^ 18 mod 512 * 2 ^ 18 + n div 2 ^ 9 mod 512 * 2 ^ 9 + n mod 512 = n"
proof -
  define a b c where "a = n div 512 div 512" and "b = n div 512 mod 512" and "c = n mod 512"
  have n: "n = 512 * (512 * a + b) + c" by (simp add: a_def b_def c_def)
  have top: "n div 2 ^ 18 = a" by (simp add: a_def flip: div_mult2_eq)
  have "a < 512" using assms by (simp add: a_def div_less_iff_less_mult flip: div_mult2_eq)
  with top have "n div 2 ^ 18 mod 512 * 2 ^ 18 + n div 2 ^ 9 mod 512 * 2 ^ 9 + n mod 512 =
      a * 2 ^ 18 + b * 2 ^ 9 + c"
    by (simp add: b_def c_def)
  also have "\<dots> = n" using n by simp
  finally show ?thesis .
qed

section \<open>Iteration over a page range\<close>

lemma range_pages_between:
  "unat (vpn_val (range_l it)) \<le> unat (vpn_val (range_r it)) \<Longrightarrow>
   map (unat \<circ> vpn_val) (range_pages it) = [unat (vpn_val (range_l it))..<unat (vpn_val (range_r it))]"
proof (induction it rule: range_pages.induct)
  case (1 it)
  let ?l = "vpn_val (range_l it)" and ?r = "vpn_val (range_r it)"
  show ?case
  proof (cases "range_l it = range_r it")
    case True
    then show ?thesis by (simp add: range_pages.simps [of it] range_next_def)
  next
    case False
    then have "?l \<noteq> ?r" using virt_page_num.expand by blast
    with "1.prems" have less: "unat ?l < unat ?r" by (metis le_neq_implies_less word_unat_eq_iff)
    then have "unat (?l + 1) = unat ?l + 1"
      using unat_less_pow [of ?r] by (simp add: unat_word_ariths)
    moreover from False have nxt: "range_next it = Some (range_l it, it\<lparr>range_l := vpn_step (range_l it)\<rparr>)"
      by (simp add: range_next_def)
    moreover note "1.IH" [OF nxt refl]
    ultimately have "map (unat \<circ> vpn_val) (range_pages (it\<lparr>range_l := vpn_step (range_l it)\<rparr>)) =
        [unat ?l + 1..<unat ?r]"
      using less by (simp add: vpn_step_def comp_def)
    with nxt less show ?thesis
      by (simp add: range_pages.simps [of it] upt_conv_Cons comp_def)
  qed
qed

section \<open>Properties\<close>

text \<open>C31: Converting a machine address to a \<open>VirtAddr\<close> (which keeps 39 bits) and back (which sign
  extends bit 38) gives the address back exactly when it is canonical: in the low 256 GiB or in the
  high 256 GiB of the 64-bit space.\<close>

theorem va_roundtrip_iff:
  "usize_of_va (va_from_usize v) = v \<longleftrightarrow> unat v < 2 ^ 38 \<or> 2 ^ 64 - 2 ^ 38 \<le> unat v"
proof -
  define q where "q = unat v div 2 ^ 39"
  define m where "m = unat v mod 2 ^ 39"
  have split: "unat v = 2 ^ 39 * q + m" by (simp add: q_def m_def)
  have m: "m < 2 ^ 39" by (simp add: m_def)
  have q: "q < 2 ^ 25"
    using unat_less_pow [of v] by (simp add: q_def div_less_iff_less_mult)
  have "unat (usize_of_va (va_from_usize v)) = (if 2 ^ 38 \<le> m then 2 ^ 64 - 2 ^ 39 + m else m)"
    using unat_usize_of_va [of "va_from_usize v"] unat_va_from_usize [of v] m
    by (simp add: m_def)
  then have "usize_of_va (va_from_usize v) = v \<longleftrightarrow>
      (if 2 ^ 38 \<le> m then 2 ^ 64 - 2 ^ 39 + m else m) = 2 ^ 39 * q + m"
    by (simp add: word_unat_eq_iff split)
  also have "\<dots> \<longleftrightarrow> (if 2 ^ 38 \<le> m then q = 2 ^ 25 - 1 else q = 0)"
    by auto
  also have "\<dots> \<longleftrightarrow> 2 ^ 39 * q + m < 2 ^ 38 \<or> 2 ^ 64 - 2 ^ 38 \<le> 2 ^ 39 * q + m"
    using q m by auto
  finally show ?thesis by (simp add: split)
qed

text \<open>The three indexes of a virtual page number are below 512 and are its base-512 digits, root
  index first: a walk with them distinguishes every two of the \<open>2 ^ 27\<close> pages.\<close>

theorem indexes_determine_vpn:
  "list_all (\<lambda>i. unat i < 512) (indexes (vpn_from_usize v)) \<and>
   (case map unat (indexes (vpn_from_usize v)) of
      [i0, i1, i2] \<Rightarrow> i0 * 2 ^ 18 + i1 * 2 ^ 9 + i2 = unat (vpn_val (vpn_from_usize v))
    | _ \<Rightarrow> False)"
proof -
  let ?n = "unat (vpn_val (vpn_from_usize v))"
  have n: "?n < 2 ^ 27" by (simp add: unat_vpn_from_usize)
  have "list_all (\<lambda>i. i < 512) (map unat (indexes (vpn_from_usize v)))"
    unfolding indexes_digits by simp
  moreover have "(case map unat (indexes (vpn_from_usize v)) of
      [i0, i1, i2] \<Rightarrow> i0 * 2 ^ 18 + i1 * 2 ^ 9 + i2 = ?n | _ \<Rightarrow> False)"
    unfolding indexes_digits using base_512_digits [OF n] by (simp only: list.case)
  ultimately show ?thesis by (simp add: list.pred_map comp_def)
qed

text \<open>Rounding an address of the 39-bit space down and up brackets it between page boundaries no
  more than one page apart, and the two agree exactly on page-aligned addresses.\<close>

theorem va_floor_ceil:
  "let a = va_from_usize v; lo = unat (vpn_val (va_floor a)); hi = unat (vpn_val (va_ceil a)) in
     lo * 4096 \<le> unat (va_val a) \<and> unat (va_val a) \<le> hi * 4096 \<and>
     hi = lo + (if va_aligned a then 0 else 1)"
proof -
  let ?a = "unat (va_val (va_from_usize v))"
  have "?a < 2 ^ 39" by (simp add: unat_va_from_usize)
  then have hi: "unat (vpn_val (va_ceil (va_from_usize v))) = (?a + 4095) div 4096"
    by (simp add: unat_va_ceil)
  have "?a \<le> (?a + 4095) div 4096 * 4096"
    using div_mult_mod_eq [of "?a + 4095" 4096] mod_less_divisor [of 4096 "?a + 4095"] by linarith
  then show ?thesis
    by (simp add: Let_def hi unat_va_floor va_aligned_iff ceil_page_cases)
qed

text \<open>A loop over a page range that passes the constructor's assertion ends and visits every page
  from its start up to, and not including, its end, once and in ascending order.\<close>

theorem range_pages_ascending:
  assumes "vpn_range_new s e = Some r"
  shows "map (unat \<circ> vpn_val) (range_pages r) = [unat (vpn_val s)..<unat (vpn_val e)]"
proof -
  from assms have "vpn_val s \<le> vpn_val e" and "r = \<lparr>range_l = s, range_r = e\<rparr>"
    by (auto simp: vpn_range_new_def split: if_splits)
  then show ?thesis using range_pages_between [of r] by (simp add: word_le_nat_alt)
qed

theorem range_pages_ascending_witness:
  "vpn_range_new (VirtPageNum 5) (VirtPageNum 8) =
     Some \<lparr>range_l = VirtPageNum 5, range_r = VirtPageNum 8\<rparr> \<and>
   map (unat \<circ> vpn_val) (range_pages \<lparr>range_l = VirtPageNum 5, range_r = VirtPageNum 8\<rparr>) = [5, 6, 7]"
proof -
  have h: "vpn_range_new (VirtPageNum 5) (VirtPageNum 8) =
      Some \<lparr>range_l = VirtPageNum 5, range_r = VirtPageNum 8\<rparr>"
    by (simp add: vpn_range_new_def)
  show ?thesis using h range_pages_ascending [OF h] by (simp add: upt_rec)
qed

end
