(* ===== verification/Ranges.thy ===== *)
theory Ranges
  imports Address
begin

text \<open>
  \<open>src/src/mm/memory_set/range.rs\<close> and the locked-memory accounting of
  \<open>src/src/mm/memory_set.rs\<close> that is built on it: half-open address ranges kept as a vector of
  \<open>(start, end)\<close> pairs, their merging, trimming and measuring, page rounding, the placement
  jitter of \<open>mmap\<close>, and the \<open>mlock\<close> state of an address space (\<open>mlock_state\<close>, the fields
  \<open>mlocked_ranges\<close> and \<open>mlockall_future\<close> of \<open>MemorySet\<close>).

  \<open>covers\<close> is the set of addresses a vector of ranges stands for; the lemmas show that the
  operations compute the set operations their callers mean.
\<close>

type_synonym ranges = "(usize \<times> usize) list"

definition push_range_merged :: "ranges \<Rightarrow> usize \<Rightarrow> usize \<Rightarrow> ranges" where
  "push_range_merged ranges start end =
     (if end \<le> start then ranges
      else if ranges \<noteq> [] \<and> start \<le> snd (last ranges)
        then butlast ranges @ [(fst (last ranges), max (snd (last ranges)) end)]
      else ranges @ [(start, end)])"

fun merge_all :: "ranges \<Rightarrow> ranges \<Rightarrow> ranges" where
  "merge_all merged [] = merged"
| "merge_all merged (r # rs) = merge_all (push_range_merged merged (fst r) (snd r)) rs"

text \<open>\<open>sort_unstable_by_key\<close> leaves the order of ranges with equal starts open; \<open>sort_key\<close> is one
  of its results, and \<open>merge_all_any_order\<close> below shows that the merged vector is the same for
  every other one.\<close>

definition normalize_ranges :: "ranges \<Rightarrow> ranges" where
  "normalize_ranges ranges = merge_all [] (sort_key fst ranges)"

fun trim_each :: "ranges \<Rightarrow> usize \<Rightarrow> usize \<Rightarrow> ranges" where
  "trim_each [] start end = []"
| "trim_each (r # rs) start end =
     (if end \<le> fst r \<or> start \<ge> snd r then [r]
      else (if start > fst r then [(fst r, start)] else []) @
           (if end < snd r then [(end, snd r)] else [])) @ trim_each rs start end"

definition trim_ranges :: "ranges \<Rightarrow> usize \<Rightarrow> usize \<Rightarrow> ranges" where
  "trim_ranges ranges start end =
     (if end \<le> start then ranges else normalize_ranges (trim_each ranges start end))"

definition ranges_total_len :: "ranges \<Rightarrow> usize" where
  "ranges_total_len ranges = sum_list (map (\<lambda>(s, e). saturating_sub e s) ranges)"

definition ranges_overlap :: "ranges \<Rightarrow> usize \<Rightarrow> usize \<Rightarrow> bool" where
  "ranges_overlap ranges start end \<longleftrightarrow>
     list_ex (\<lambda>(r_start, r_end). end > r_start \<and> start < r_end) ranges"

definition range_overlap_len :: "usize \<Rightarrow> usize \<Rightarrow> usize \<Rightarrow> usize \<Rightarrow> usize" where
  "range_overlap_len start end other_start other_end =
     saturating_sub (min end other_end) (max start other_start)"

definition range_overlaps_except ::
  "usize \<Rightarrow> usize \<Rightarrow> usize \<Rightarrow> usize \<Rightarrow> (usize \<times> usize) option \<Rightarrow> bool" where
  "range_overlaps_except start end other_start other_end exclude =
     (if end \<le> other_start \<or> start \<ge> other_end then False
      else case exclude of None \<Rightarrow> True
      | Some (exclude_start, exclude_end) \<Rightarrow>
          (let left_end = min other_end exclude_start;
               right_start = max other_start exclude_end
           in if other_start < left_end \<and> end > other_start \<and> start < left_end then True
              else right_start < other_end \<and> end > right_start \<and> start < other_end))"

definition align_down_to_page :: "usize \<Rightarrow> usize" where
  "align_down_to_page addr = addr AND NOT (PAGE_SIZE - 1)"

definition align_up_to_page :: "usize \<Rightarrow> usize" where
  "align_up_to_page len = saturating_add len (PAGE_SIZE - 1) div PAGE_SIZE * PAGE_SIZE"

definition mix_mmap_aslr_seed :: "usize \<Rightarrow> usize" where
  "mix_mmap_aslr_seed seed =
     (let s1 = seed XOR push_bit 13 seed;
          s2 = s1 XOR drop_bit 7 s1
      in s2 XOR push_bit 17 s2)"

definition MMAP_ASLR_RANGE :: usize where
  "MMAP_ASLR_RANGE = 256 * 1024 * 1024"

text \<open>\<open>get_time\<close> is the clock read by the caller; the counter \<open>MMAP_ASLR_SEQ\<close> is threaded through.\<close>

definition next_mmap_aslr_offset :: "usize \<Rightarrow> usize \<Rightarrow> usize \<times> usize" where
  "next_mmap_aslr_offset get_time mmap_aslr_seq =
     (let pages = MMAP_ASLR_RANGE div PAGE_SIZE in
      if pages = 0 then (0, mmap_aslr_seq)
      else let seq = mmap_aslr_seq + 1;
               seed = get_time XOR word_rotl 11 seq
           in (mix_mmap_aslr_seed seed mod pages * PAGE_SIZE, seq))"

section \<open>Locked memory of an address space\<close>

record mlock_state =
  mlocked_ranges :: ranges
  mlockall_future :: bool

definition set_mlockall_future :: "bool \<Rightarrow> mlock_state \<Rightarrow> mlock_state" where
  "set_mlockall_future enabled m = m\<lparr>mlockall_future := enabled\<rparr>"

definition locked_bytes :: "mlock_state \<Rightarrow> usize" where
  "locked_bytes m = ranges_total_len (mlocked_ranges m)"

definition locked_overlap_bytes :: "mlock_state \<Rightarrow> usize \<Rightarrow> usize \<Rightarrow> usize" where
  "locked_overlap_bytes m start end =
     sum_list (map (\<lambda>(lock_start, lock_end). range_overlap_len start end lock_start lock_end)
       (mlocked_ranges m))"

definition locked_ranges_overlap :: "mlock_state \<Rightarrow> usize \<Rightarrow> usize \<Rightarrow> bool" where
  "locked_ranges_overlap m start end = ranges_overlap (mlocked_ranges m) start end"

definition locked_bytes_after_add :: "mlock_state \<Rightarrow> usize \<Rightarrow> usize \<Rightarrow> usize" where
  "locked_bytes_after_add m start end =
     ranges_total_len (normalize_ranges (mlocked_ranges m @ [(start, end)]))"

definition add_locked_range :: "usize \<Rightarrow> usize \<Rightarrow> mlock_state \<Rightarrow> mlock_state" where
  "add_locked_range start end m =
     m\<lparr>mlocked_ranges := normalize_ranges (mlocked_ranges m @ [(start, end)])\<rparr>"

definition trim_locked_ranges :: "usize \<Rightarrow> usize \<Rightarrow> mlock_state \<Rightarrow> mlock_state" where
  "trim_locked_ranges start end m = m\<lparr>mlocked_ranges := trim_ranges (mlocked_ranges m) start end\<rparr>"

fun move_each :: "ranges \<Rightarrow> usize \<Rightarrow> usize \<Rightarrow> usize \<Rightarrow> ranges" where
  "move_each [] old_addr old_end new_start = []"
| "move_each (r # rs) old_addr old_end new_start =
     (let lock_start = fst r; lock_end = snd r in
      if old_end \<le> lock_start \<or> old_addr \<ge> lock_end then [r]
      else (if old_addr > lock_start then [(lock_start, old_addr)] else []) @
           [(saturating_add new_start (saturating_sub (max lock_start old_addr) old_addr),
             saturating_add new_start (saturating_sub (min lock_end old_end) old_addr))] @
           (if old_end < lock_end then [(old_end, lock_end)] else []))
     @ move_each rs old_addr old_end new_start"

definition move_locked_ranges :: "usize \<Rightarrow> usize \<Rightarrow> usize \<Rightarrow> mlock_state \<Rightarrow> mlock_state" where
  "move_locked_ranges old_addr old_len new_start m =
     (let old_end = saturating_add old_addr old_len in
      if old_end \<le> old_addr then m
      else m\<lparr>mlocked_ranges :=
             normalize_ranges (move_each (mlocked_ranges m) old_addr old_end new_start)\<rparr>)"

text \<open>\<open>user_mapped_ranges\<close> and \<open>heap_start\<close> are read from the rest of the address space.\<close>

definition locked_ranges_with_current_mappings ::
  "mlock_state \<Rightarrow> ranges \<Rightarrow> usize \<Rightarrow> ranges" where
  "locked_ranges_with_current_mappings m user_mapped_ranges heap_start =
     (let all = mlocked_ranges m @ user_mapped_ranges;
          all = (if all = [] then [(heap_start, saturating_add heap_start PAGE_SIZE)] else all)
      in normalize_ranges all)"

definition locked_bytes_after_mlockall_current :: "mlock_state \<Rightarrow> ranges \<Rightarrow> usize \<Rightarrow> usize" where
  "locked_bytes_after_mlockall_current m user_mapped_ranges heap_start =
     ranges_total_len (locked_ranges_with_current_mappings m user_mapped_ranges heap_start)"

definition lock_current_mappings :: "ranges \<Rightarrow> usize \<Rightarrow> mlock_state \<Rightarrow> mlock_state" where
  "lock_current_mappings user_mapped_ranges heap_start m =
     m\<lparr>mlocked_ranges := locked_ranges_with_current_mappings m user_mapped_ranges heap_start\<rparr>"

definition clear_mlock_state :: "mlock_state \<Rightarrow> mlock_state" where
  "clear_mlock_state m = m\<lparr>mlocked_ranges := [], mlockall_future := False\<rparr>"

section \<open>What ranges stand for\<close>

definition covers :: "ranges \<Rightarrow> usize set" where
  "covers rs = (\<Union>r\<in>set rs. {fst r..<snd r})"

definition normal_ranges :: "ranges \<Rightarrow> bool" where
  "normal_ranges rs \<longleftrightarrow> sorted_wrt (\<lambda>a b. snd a < fst b) rs \<and> list_all (\<lambda>r. fst r < snd r) rs"

lemma covers_simps [simp]:
  "covers [] = {}"
  "covers (r # rs) = {fst r..<snd r} \<union> covers rs"
  "covers (rs @ ss) = covers rs \<union> covers ss"
  by (auto simp: covers_def)

lemma covers_cong: "set rs = set ss \<Longrightarrow> covers rs = covers ss"
  by (simp add: covers_def)

lemma covers_butlast_last: "rs \<noteq> [] \<Longrightarrow> covers rs = covers (butlast rs) \<union> {fst (last rs)..<snd (last rs)}"
  using covers_simps(3) [of "butlast rs" "[last rs]"] by simp

text \<open>The invariant of the merging loop: the vector built so far is normal and every start in it is
  at most the next one.\<close>

definition merging :: "ranges \<Rightarrow> usize \<Rightarrow> bool" where
  "merging rs s \<longleftrightarrow> normal_ranges rs \<and> list_all (\<lambda>r. fst r \<le> s) rs"

lemma normal_ranges_append:
  "normal_ranges (rs @ ss) \<longleftrightarrow> normal_ranges rs \<and> normal_ranges ss \<and>
    (\<forall>a\<in>set rs. \<forall>b\<in>set ss. snd a < fst b)"
  by (auto simp: normal_ranges_def sorted_wrt_append)

lemma normal_ranges_single [simp]: "normal_ranges [r] \<longleftrightarrow> fst r < snd r"
  by (simp add: normal_ranges_def)

lemma normal_last_greatest: "normal_ranges rs \<Longrightarrow> r \<in> set rs \<Longrightarrow> snd r \<le> snd (last rs)"
proof (induction rs rule: rev_induct)
  case (snoc x rs)
  then have "r \<in> set rs \<Longrightarrow> snd r < fst x" and "fst x < snd x"
    by (auto simp: normal_ranges_append)
  then have "r \<in> set rs \<Longrightarrow> snd r \<le> snd x"
    using order.strict_trans less_imp_le by blast
  with snoc.prems show ?case by auto
qed simp

lemma push_range_merged_correct:
  assumes "merging rs s"
  shows "covers (push_range_merged rs s e) = covers rs \<union> {s..<e} \<and>
    merging (push_range_merged rs s e) s"
proof (cases "e \<le> s \<or> rs = [] \<or> \<not> s \<le> snd (last rs)")
  case True
  have below: "\<forall>r\<in>set rs. snd r < s" if "rs \<noteq> []" "\<not> s \<le> snd (last rs)"
    using that normal_last_greatest [of rs] assms unfolding merging_def
    by (meson le_less_trans not_le)
  show ?thesis
  proof (cases "e \<le> s")
    case False
    with True have new: "rs = [] \<or> \<not> s \<le> snd (last rs)" by blast
    with False have push: "push_range_merged rs s e = rs @ [(s, e)]"
      by (auto simp: push_range_merged_def)
    have "\<forall>r\<in>set rs. snd r < s" using new below by (cases "rs = []") simp_all
    with push False assms show ?thesis by (simp add: merging_def normal_ranges_append)
  qed (use assms in \<open>simp add: push_range_merged_def\<close>)
next
  case False
  then obtain init l h where rs: "rs = init @ [(l, h)]" by (metis rev_exhaust surj_pair)
  with False have s: "s \<le> h" "s < e" by auto
  have l: "l \<le> s" "l < h" and init: "normal_ranges init" "\<forall>a\<in>set init. snd a < l"
    "\<forall>a\<in>set init. fst a \<le> s"
    using assms by (auto simp: rs merging_def normal_ranges_append list_all_iff)
  have push: "push_range_merged rs s e = init @ [(l, max h e)]"
    using s by (simp add: push_range_merged_def rs)
  have "{l..<max h e} = {l..<h} \<union> {s..<e}" using l s by (auto simp: max_def)
  then have "covers (init @ [(l, max h e)]) = covers rs \<union> {s..<e}"
    by (simp add: rs Un_assoc)
  moreover have "merging (init @ [(l, max h e)]) s"
    using l init by (simp add: merging_def normal_ranges_append list_all_iff less_max_iff_disj)
  ultimately show ?thesis by (simp add: push)
qed

lemma merging_mono: "merging rs s \<Longrightarrow> s \<le> t \<Longrightarrow> merging rs t"
  by (auto simp: merging_def list_all_iff)

lemma merge_all_correct:
  "merging merged s \<Longrightarrow> sorted (map fst rs) \<Longrightarrow> \<forall>r\<in>set rs. s \<le> fst r \<Longrightarrow>
   covers (merge_all merged rs) = covers merged \<union> covers rs \<and> normal_ranges (merge_all merged rs)"
proof (induction rs arbitrary: merged s)
  case Nil
  then show ?case by (simp add: merging_def)
next
  case (Cons r rs)
  then have "merging merged (fst r)" by (auto intro: merging_mono)
  note push = push_range_merged_correct [OF this, of "snd r"]
  have "covers (merge_all (push_range_merged merged (fst r) (snd r)) rs) =
      covers (push_range_merged merged (fst r) (snd r)) \<union> covers rs \<and>
      normal_ranges (merge_all (push_range_merged merged (fst r) (snd r)) rs)"
    by (rule Cons.IH [of _ "fst r"]) (use push Cons.prems in auto)
  with push show ?case by auto
qed

lemma merging_Nil: "merging [] s"
  by (simp add: merging_def normal_ranges_def)

lemma merge_sorted:
  assumes "sorted (map fst rs)"
  shows "covers (merge_all [] rs) = covers rs \<and> normal_ranges (merge_all [] rs)"
  using merge_all_correct [OF merging_Nil [of 0] assms] by simp

lemma normalize_ranges_correct:
  "covers (normalize_ranges rs) = covers rs \<and> normal_ranges (normalize_ranges rs)"
  using merge_sorted [of "sort_key fst rs"] covers_cong [of "sort_key fst rs" rs]
  by (simp add: normalize_ranges_def)

text \<open>Normal vectors are canonical: the set of addresses determines them.\<close>

lemma normal_ranges_tail_above:
  "normal_ranges (r # rs) \<Longrightarrow> x \<in> covers rs \<Longrightarrow> snd r < x"
  by (auto simp: normal_ranges_def covers_def dest: less_le_trans)

lemma normal_ranges_head: "normal_ranges (r # rs) \<Longrightarrow> fst r < snd r \<and> normal_ranges rs"
  by (simp add: normal_ranges_def)

lemma normal_ranges_unique:
  "normal_ranges rs \<Longrightarrow> normal_ranges ss \<Longrightarrow> covers rs = covers ss \<Longrightarrow> rs = ss"
proof (induction rs arbitrary: ss)
  case Nil
  then show ?case by (cases ss) (auto simp: normal_ranges_def)
next
  case (Cons r rs)
  have r: "fst r < snd r" and above_r: "x \<in> covers rs \<Longrightarrow> snd r < x" for x
    using Cons.prems(1) normal_ranges_head normal_ranges_tail_above by blast+
  then have "fst r \<in> covers ss" using Cons.prems(3) by auto
  then obtain t ts where ss: "ss = t # ts" by (cases ss) auto
  have t: "fst t < snd t" and above_t: "x \<in> covers ts \<Longrightarrow> snd t < x" for x
    using Cons.prems(2) normal_ranges_head normal_ranges_tail_above unfolding ss by blast+
  have eq: "x \<in> {fst r..<snd r} \<union> covers rs \<longleftrightarrow> x \<in> {fst t..<snd t} \<union> covers ts" for x
    using Cons.prems(3) by (simp add: ss)
  have start: "fst r = fst t"
  proof (rule order.antisym)
    show "fst r \<le> fst t" using eq [of "fst t"] t r above_r [of "fst t"] by auto
    show "fst t \<le> fst r" using eq [of "fst r"] t r above_t [of "fst r"] by auto
  qed
  have "\<not> snd r < snd t"
    using eq [of "snd r"] above_r [of "snd r"] r start by auto
  moreover have "\<not> snd t < snd r"
    using eq [of "snd t"] above_t [of "snd t"] t start by auto
  ultimately have "snd r = snd t" by auto
  with start have "r = t" by (simp add: prod_eq_iff)
  have "covers rs = covers ts"
  proof (rule set_eqI)
    fix x
    show "x \<in> covers rs \<longleftrightarrow> x \<in> covers ts"
      using eq [of x] above_r [of x] above_t [of x] \<open>r = t\<close> by auto
  qed
  with \<open>r = t\<close> have "rs = ts"
    using Cons.IH Cons.prems(1,2) by (simp add: ss normal_ranges_def)
  with \<open>r = t\<close> show ?case by (simp add: ss)
qed

lemma merge_all_any_order:
  assumes "mset rs = mset ss" and "sorted (map fst rs)" and "sorted (map fst ss)"
  shows "merge_all [] rs = merge_all [] ss"
  using assms merge_sorted [of rs] merge_sorted [of ss] covers_cong [of rs ss]
  by (metis normal_ranges_unique set_mset_mset)

section \<open>Trimming, measuring, overlapping\<close>

lemma interval_trim:
  fixes a b s e :: "'a::linorder"
  assumes "s < e"
  shows "(if e \<le> a \<or> s \<ge> b then {a..<b}
          else (if s > a then {a..<s} else {}) \<union> (if e < b then {e..<b} else {})) = {a..<b} - {s..<e}"
  using assms by auto

lemma covers_trim_each:
  assumes "start < end"
  shows "covers (trim_each rs start end) = covers rs - {start..<end}"
proof (induction rs)
  case (Cons r rs)
  have "covers (trim_each (r # rs) start end) =
      (if end \<le> fst r \<or> start \<ge> snd r then {fst r..<snd r}
       else (if start > fst r then {fst r..<start} else {}) \<union> (if end < snd r then {end..<snd r} else {}))
      \<union> covers (trim_each rs start end)"
    by simp
  also have "\<dots> = ({fst r..<snd r} - {start..<end}) \<union> (covers rs - {start..<end})"
    by (simp only: interval_trim [OF assms] Cons.IH)
  finally show ?case by (simp add: Un_Diff)
qed simp

lemma trim_ranges_correct:
  "normal_ranges rs \<Longrightarrow>
   covers (trim_ranges rs start end) = covers rs - {start..<end} \<and> normal_ranges (trim_ranges rs start end)"
  using normalize_ranges_correct [of "trim_each rs start end"]
  by (auto simp: trim_ranges_def covers_trim_each)

lemma card_word_interval: "card {a..<b :: 'a::len word} = unat b - unat a"
proof -
  have "unat ` {a..<b} = {unat a..<unat b}"
  proof
    show "unat ` {a..<b} \<subseteq> {unat a..<unat b}"
      by (auto simp: word_le_nat_alt word_less_nat_alt)
    show "{unat a..<unat b} \<subseteq> unat ` {a..<b}"
    proof
      fix n assume n: "n \<in> {unat a..<unat b}"
      then have "n < unat b" by simp
      then have "n < 2 ^ LENGTH('a)" using unat_less_pow [of b] by (rule order.strict_trans)
      then have "unat (of_nat n :: 'a word) = n" by (rule unat_of_nat_small)
      with n show "n \<in> unat ` {a..<b}"
        by (intro image_eqI [of _ _ "of_nat n"]) (auto simp: word_le_nat_alt word_less_nat_alt)
    qed
  qed
  moreover have "card (unat ` {a..<b}) = card {a..<b}"
    by (intro card_image inj_onI) (simp add: word_unat_eq_iff)
  ultimately show ?thesis by (metis card_atLeastLessThan)
qed

lemma finite_word_set [simp]: "finite (A :: 'a::len word set)"
  by simp

lemma card_covers: "normal_ranges rs \<Longrightarrow> card (covers rs) = sum_list (map (\<lambda>r. unat (snd r) - unat (fst r)) rs)"
proof (induction rs)
  case (Cons r rs)
  then have "{fst r..<snd r} \<inter> covers rs = {}"
    using normal_ranges_tail_above [of r rs] by (fastforce dest: order.strict_trans)
  then have "card (covers (r # rs)) = card {fst r..<snd r} + card (covers rs)"
    by (simp add: card_Un_disjoint)
  with Cons show ?case by (simp add: card_word_interval normal_ranges_def)
qed simp

lemma unat_sum_list_le:
  "sum_list (map (unat \<circ> f) xs) < 2 ^ 64 \<Longrightarrow> unat (sum_list (map f xs) :: usize) = sum_list (map (unat \<circ> f) xs)"
  by (induction xs) (simp_all add: unat_add_small)

lemma covers_bounded: "- 1 \<notin> covers rs"
  by (auto simp: covers_def)

lemma card_covers_less: "card (covers rs) < 2 ^ 64"
proof -
  have "covers rs \<subset> UNIV" using covers_bounded by blast
  then have "card (covers rs) < card (UNIV :: usize set)" by (simp add: psubset_card_mono)
  then show ?thesis by (simp add: card_word)
qed

lemma ranges_total_len_card:
  assumes "normal_ranges rs"
  shows "unat (ranges_total_len rs) = card (covers rs)"
proof -
  have sum: "sum_list (map (unat \<circ> (\<lambda>(s, e). saturating_sub e s)) rs) = card (covers rs)"
    using card_covers [OF assms] by (simp add: comp_def case_prod_beta unat_saturating_sub)
  then have "sum_list (map (unat \<circ> (\<lambda>(s, e). saturating_sub e s)) rs) < 2 ^ 64"
    using card_covers_less [of rs] by simp
  then show ?thesis unfolding ranges_total_len_def using sum by (simp only: unat_sum_list_le)
qed

lemma ranges_overlap_iff: "start < end \<Longrightarrow> ranges_overlap rs start end \<longleftrightarrow> (\<exists>r\<in>set rs. fst r < end \<and> start < snd r)"
  by (simp add: ranges_overlap_def list_ex_iff case_prod_beta)

lemma interval_meets:
  fixes a b s e :: "'a::linorder"
  assumes "s < e" and "a < b"
  shows "(a < e \<and> s < b) \<longleftrightarrow> {s..<e} \<inter> {a..<b} \<noteq> {}"
  using assms by (auto simp: ivl_disj_int_two not_less)

lemma normal_ranges_nonempty: "normal_ranges rs \<Longrightarrow> r \<in> set rs \<Longrightarrow> fst r < snd r"
  by (simp add: normal_ranges_def list_all_iff)

lemma ranges_overlap_covers:
  assumes "normal_ranges rs" and "start < end"
  shows "ranges_overlap rs start end \<longleftrightarrow> {start..<end} \<inter> covers rs \<noteq> {}"
proof -
  have "(fst r < end \<and> start < snd r) \<longleftrightarrow> {start..<end} \<inter> {fst r..<snd r} \<noteq> {}" if "r \<in> set rs" for r
    using interval_meets [OF assms(2) normal_ranges_nonempty [OF assms(1) that]] by simp
  then have "ranges_overlap rs start end \<longleftrightarrow> (\<exists>r\<in>set rs. {start..<end} \<inter> {fst r..<snd r} \<noteq> {})"
    using ranges_overlap_iff [OF assms(2)] by blast
  then show ?thesis unfolding covers_def by blast
qed

lemma interval_inter:
  fixes a b s e :: "'a::linorder"
  shows "{s..<e} \<inter> {a..<b} = {max s a..<min e b}"
  by (rule Int_atLeastLessThan)

lemma unat_range_overlap_len:
  "unat (range_overlap_len s e a b) = card ({s..<e} \<inter> {a..<b})"
  by (simp only: range_overlap_len_def unat_saturating_sub interval_inter card_word_interval)

text \<open>Bytes of a normal vector inside a window, as \<open>locked_overlap_bytes\<close> sums them.\<close>

lemma card_covers_inter:
  "normal_ranges rs \<Longrightarrow>
   card ({s..<e} \<inter> covers rs) = sum_list (map (\<lambda>r. card ({s..<e} \<inter> {fst r..<snd r})) rs)"
proof (induction rs)
  case (Cons r rs)
  have "({s..<e} \<inter> {fst r..<snd r}) \<inter> ({s..<e} \<inter> covers rs) = {}"
    using normal_ranges_tail_above [OF Cons.prems] by (fastforce dest: order.strict_trans)
  then have "card ({s..<e} \<inter> covers (r # rs)) =
      card ({s..<e} \<inter> {fst r..<snd r}) + card ({s..<e} \<inter> covers rs)"
    by (simp add: Int_Un_distrib card_Un_disjoint)
  with Cons normal_ranges_head [OF Cons.prems] show ?case by simp
qed simp

lemma locked_overlap_bytes_card:
  assumes "normal_ranges (mlocked_ranges m)"
  shows "unat (locked_overlap_bytes m s e) = card ({s..<e} \<inter> covers (mlocked_ranges m))"
proof -
  let ?f = "\<lambda>(a, b). range_overlap_len s e a b"
  have sum: "sum_list (map (unat \<circ> ?f) (mlocked_ranges m)) = card ({s..<e} \<inter> covers (mlocked_ranges m))"
    unfolding card_covers_inter [OF assms] by (simp add: comp_def case_prod_beta unat_range_overlap_len)
  have "card ({s..<e} \<inter> covers (mlocked_ranges m)) \<le> card (covers (mlocked_ranges m))"
    by (rule card_mono) auto
  with sum card_covers_less [of "mlocked_ranges m"]
  have "sum_list (map (unat \<circ> ?f) (mlocked_ranges m)) < 2 ^ 64" by linarith
  then show ?thesis unfolding locked_overlap_bytes_def using sum by (simp only: unat_sum_list_le)
qed

section \<open>Page rounding and placement\<close>

lemma unat_align_up:
  "unat (align_up_to_page len) = min (unat len + 4095) (2 ^ 64 - 1) div 4096 * 4096"
proof -
  let ?n = "min (unat len + 4095) (2 ^ 64 - 1)"
  have "unat (saturating_add len (PAGE_SIZE - 1) div PAGE_SIZE) = ?n div 4096"
    unfolding unat_div_page by (simp add: unat_saturating_add PAGE_SIZE_def)
  moreover have "?n div 4096 * 4096 < 2 ^ 64"
    by (rule le_less_trans [OF div_times_less_eq_dividend]) simp
  ultimately show ?thesis
    by (simp add: align_up_to_page_def unat_word_ariths(2) PAGE_SIZE_def)
qed

lemma unat_align_down: "unat (align_down_to_page addr) = unat addr div 4096 * 4096"
proof -
  have "addr AND NOT (mask 12) = push_bit 12 (drop_bit 12 addr)"
    by (rule bit_eqI) (auto simp: bit_simps)
  then have "unat (align_down_to_page addr) = unat (push_bit 12 (drop_bit 12 addr))"
    by (simp add: align_down_to_page_def PAGE_SIZE_def mask_eq_exp_minus_1)
  also have "\<dots> = unat addr div 4096 * 4096 mod 2 ^ 64"
    using unat_less_pow [of addr] by (simp add: unsigned_push_bit_eq unsigned_drop_bit_eq take_bit_eq_mod [where ?'a = nat]
        push_bit_eq_mult [where ?'a = nat] drop_bit_eq_div [where ?'a = nat])
  also have "\<dots> = unat addr div 4096 * 4096"
    using le_less_trans [OF div_times_less_eq_dividend [of "unat addr" 4096] unat_less_pow [of addr]] by simp
  finally show ?thesis .
qed

lemma aslr_offset_small:
  "unat (fst (next_mmap_aslr_offset t q)) < 256 * 1024 * 1024 \<and>
   4096 dvd unat (fst (next_mmap_aslr_offset t q))"
proof -
  define m where "m = unat (mix_mmap_aslr_seed (t XOR word_rotl 11 (q + 1))) mod 65536"
  have "m < 65536" by (simp add: m_def)
  then have "unat (fst (next_mmap_aslr_offset t q)) = m * 4096"
    by (simp add: next_mmap_aslr_offset_def MMAP_ASLR_RANGE_def PAGE_SIZE_def Let_def
        unat_word_ariths(2) unat_mod_distrib m_def)
  with \<open>m < 65536\<close> show ?thesis by simp
qed

section \<open>Moving locked ranges\<close>

lemma unat_shift:
  fixes new old y :: usize
  assumes "old \<le> y" and "unat new + (unat y - unat old) < 2 ^ 64"
  shows "unat (new + (y - old)) = unat new + (unat y - unat old)"
proof -
  have "unat (y - old) = unat y - unat old" using assms(1) by (rule unat_sub)
  with assms(2) show ?thesis by (simp add: unat_add_small)
qed

lemma saturating_shift:
  fixes new old y :: usize
  assumes "old \<le> y" and "unat new + (unat y - unat old) < 2 ^ 64"
  shows "saturating_add new (saturating_sub y old) = new + (y - old)"
  using assms by (simp add: word_unat_eq_iff unat_saturating_add unat_saturating_sub unat_shift min_def)

lemma shift_interval:
  fixes new old a b :: usize
  assumes "old \<le> a" and "a \<le> b" and fits: "unat new + (unat b - unat old) < 2 ^ 64"
  shows "{saturating_add new (saturating_sub a old)..<saturating_add new (saturating_sub b old)} =
    (\<lambda>y. new + (y - old)) ` {a..<b}" (is "?L = ?f ` _")
proof -
  have ab: "unat old \<le> unat a" "unat a \<le> unat b" using assms by (simp_all add: word_le_nat_alt)
  have f: "unat (?f y) = unat new + (unat y - unat old)" if "a \<le> y" "y \<le> b" for y
    using that ab fits by (intro unat_shift) (auto simp: word_le_nat_alt)
  have L: "?L = {?f a..<?f b}"
    using assms(1,2) ab fits by (simp add: saturating_shift)
  show ?thesis unfolding L
  proof (intro equalityI subsetI)
    fix x assume "x \<in> {?f a..<?f b}"
    then have x: "unat new + (unat a - unat old) \<le> unat x" "unat x < unat new + (unat b - unat old)"
      using f [of a] f [of b] assms(2) by (auto simp: word_le_nat_alt word_less_nat_alt)
    define y where "y = x - new + old"
    have "unat (x - new) = unat x - unat new"
      using x by (intro unat_sub) (simp add: word_le_nat_alt)
    then have y: "unat y = unat x - unat new + unat old"
      unfolding y_def using x ab unat_less_pow [of b] by (subst unat_add_small) simp_all
    have "y \<in> {a..<b}" using x y ab by (auto simp: word_le_nat_alt word_less_nat_alt)
    moreover have "x = ?f y" by (simp add: y_def)
    ultimately show "x \<in> ?f ` {a..<b}" by blast
  next
    fix x assume "x \<in> ?f ` {a..<b}"
    then obtain y where "y \<in> {a..<b}" "x = ?f y" by blast
    then show "x \<in> {?f a..<?f b}"
      using f [of a] f [of b] f [of y] assms(2) ab
      by (auto simp: word_le_nat_alt word_less_nat_alt)
  qed
qed

lemma interval_split3:
  fixes a b s e :: "'a::linorder"
  assumes "\<not> (e \<le> a \<or> s \<ge> b)" and "s < e"
  shows "(if s > a then {a..<s} else {}) \<union> (if e < b then {e..<b} else {}) = {a..<b} - {s..<e}"
    and "{max a s..<min b e} = {a..<b} \<inter> {s..<e}"
  using assms by auto

lemma covers_if: "covers (if b then [r] else []) = (if b then {fst r..<snd r} else {})"
  by simp

lemma covers_move_each:
  fixes old_addr old_end new_start :: usize
  defines "f \<equiv> \<lambda>y. new_start + (y - old_addr)"
  assumes "old_addr < old_end" and fits: "unat new_start + (unat old_end - unat old_addr) < 2 ^ 64"
  shows "list_all (\<lambda>r. fst r < snd r) rs \<Longrightarrow> covers (move_each rs old_addr old_end new_start) =
    (covers rs - {old_addr..<old_end}) \<union> f ` (covers rs \<inter> {old_addr..<old_end})"
proof (induction rs)
  case (Cons r rs)
  let ?w = "{old_addr..<old_end}" and ?r = "{fst r..<snd r}"
  have r: "fst r < snd r" using Cons.prems by simp
  have step: "covers (move_each (r # rs) old_addr old_end new_start) =
      (?r - ?w) \<union> f ` (?r \<inter> ?w) \<union> covers (move_each rs old_addr old_end new_start)"
  proof (cases "old_end \<le> fst r \<or> old_addr \<ge> snd r")
    case True
    then have "?r \<inter> ?w = {}" by auto
    then have "?r - ?w = ?r" and "f ` (?r \<inter> ?w) = {}" by auto
    with True show ?thesis
      by (simp only: move_each.simps Let_def if_True covers_simps fst_conv snd_conv Un_empty_right)
  next
    case False
    let ?a = "max (fst r) old_addr" and ?b = "min (snd r) old_end"
    have "old_addr \<le> ?a" "?a \<le> ?b" using False r assms(2) by auto
    moreover have "unat new_start + (unat ?b - unat old_addr) < 2 ^ 64"
      using fits by (auto simp: min_def word_le_nat_alt)
    ultimately have mid: "{saturating_add new_start (saturating_sub ?a old_addr)..<
        saturating_add new_start (saturating_sub ?b old_addr)} = f ` (?r \<inter> ?w)"
      unfolding f_def interval_split3(2) [OF False assms(2), symmetric] by (rule shift_interval)
    have "covers (move_each (r # rs) old_addr old_end new_start) =
        (if old_addr > fst r then {fst r..<old_addr} else {}) \<union> f ` (?r \<inter> ?w) \<union>
        (if old_end < snd r then {old_end..<snd r} else {}) \<union>
        covers (move_each rs old_addr old_end new_start)"
      using False by (simp only: move_each.simps Let_def if_False covers_simps covers_if fst_conv snd_conv
          mid Un_assoc Un_empty_right)
    then show ?thesis unfolding interval_split3(1) [OF False assms(2), symmetric] by blast
  qed
  show ?case unfolding step using Cons by (simp add: Int_Un_distrib2 Un_Diff image_Un Un_ac)
qed simp

lemma move_locked_ranges_covers:
  assumes "normal_ranges (mlocked_ranges m)"
    and "unat old_addr + unat old_len < 2 ^ 64" and "unat new_start + unat old_len < 2 ^ 64"
  shows "covers (mlocked_ranges (move_locked_ranges old_addr old_len new_start m)) =
    (covers (mlocked_ranges m) - {old_addr..<old_addr + old_len}) \<union>
    (\<lambda>y. new_start + (y - old_addr)) ` (covers (mlocked_ranges m) \<inter> {old_addr..<old_addr + old_len})"
proof -
  have stop: "saturating_add old_addr old_len = old_addr + old_len"
    using assms(2) by (simp add: word_unat_eq_iff unat_saturating_add unat_add_small)
  have u: "unat (old_addr + old_len) = unat old_addr + unat old_len"
    using assms(2) by (simp add: unat_add_small)
  show ?thesis
  proof (cases "old_addr + old_len \<le> old_addr")
    case True
    then have "{old_addr..<old_addr + old_len} = {}" by simp
    with True show ?thesis by (simp add: move_locked_ranges_def stop)
  next
    case False
    then have lt: "old_addr < old_addr + old_len" by simp
    have "unat new_start + (unat (old_addr + old_len) - unat old_addr) < 2 ^ 64"
      using assms(3) u by simp
    note moved = covers_move_each [OF lt this, of "mlocked_ranges m"]
    from assms(1) False moved show ?thesis
      by (simp add: move_locked_ranges_def stop Let_def normalize_ranges_correct normal_ranges_def)
  qed
qed

section \<open>Properties\<close>

text \<open>C32: \<open>normalize_ranges\<close> computes the normal form of a vector of ranges and nothing else: its
  result is the only vector of non-empty, strictly separated, ascending ranges that stands for the
  same set of addresses as its argument.\<close>

theorem normalize_ranges_canonical:
  "normalize_ranges rs = ns \<longleftrightarrow> normal_ranges ns \<and> covers ns = covers rs"
  using normalize_ranges_correct [of rs] normal_ranges_unique by metis

text \<open>The states the \<open>mlock\<close> operations reach from the one a new address space starts in.\<close>

inductive mlock_reach :: "mlock_state \<Rightarrow> bool" where
  new: "mlock_reach \<lparr>mlocked_ranges = [], mlockall_future = False\<rparr>"
| future: "mlock_reach m \<Longrightarrow> mlock_reach (set_mlockall_future b m)"
| add: "mlock_reach m \<Longrightarrow> mlock_reach (add_locked_range s e m)"
| trim: "mlock_reach m \<Longrightarrow> mlock_reach (trim_locked_ranges s e m)"
| move: "mlock_reach m \<Longrightarrow> mlock_reach (move_locked_ranges a l n m)"
| current: "mlock_reach m \<Longrightarrow> mlock_reach (lock_current_mappings user heap m)"
| clear: "mlock_reach m \<Longrightarrow> mlock_reach (clear_mlock_state m)"

lemma mlock_reach_normal: "mlock_reach m \<Longrightarrow> normal_ranges (mlocked_ranges m)"
proof (induction rule: mlock_reach.induct)
  case (move m a l n)
  then show ?case by (simp add: move_locked_ranges_def Let_def normalize_ranges_correct)
qed (simp_all add: set_mlockall_future_def add_locked_range_def trim_locked_ranges_def
    lock_current_mappings_def locked_ranges_with_current_mappings_def clear_mlock_state_def
    normalize_ranges_correct trim_ranges_correct, simp_all add: normal_ranges_def)

text \<open>C33: In every state the \<open>mlock\<close> calls reach, the byte count charged against
  \<open>RLIMIT_MEMLOCK\<close> is the number of distinct locked addresses, the count projected for a new range
  is the number of addresses locked after adding it, and the overlap count is the number of locked
  addresses in the window: nothing is counted twice and nothing wraps.\<close>

theorem mlock_accounting_exact:
  assumes "mlock_reach m"
  shows "unat (locked_bytes m) = card (covers (mlocked_ranges m)) \<and>
    unat (locked_bytes_after_add m s e) = card (covers (mlocked_ranges m) \<union> {s..<e}) \<and>
    unat (locked_overlap_bytes m s e) = card ({s..<e} \<inter> covers (mlocked_ranges m))"
  using mlock_reach_normal [OF assms]
  by (simp add: locked_bytes_def locked_bytes_after_add_def ranges_total_len_card
      normalize_ranges_correct locked_overlap_bytes_card)

theorem mlock_accounting_exact_witness:
  "unat (locked_bytes (add_locked_range 0x1000 0x3000 \<lparr>mlocked_ranges = [], mlockall_future = False\<rparr>)) =
     card (covers [(0x1000, 0x3000)])"
proof -
  have "mlock_reach (add_locked_range 0x1000 0x3000 \<lparr>mlocked_ranges = [], mlockall_future = False\<rparr>)"
    by (intro mlock_reach.intros)
  from mlock_accounting_exact [OF this] show ?thesis
    by (simp add: add_locked_range_def normalize_ranges_def push_range_merged_def)
qed

text \<open>Each operation changes the locked addresses as its caller means: adding a range unions it
  in, trimming removes it, and moving a mapping carries the locks inside it to the new place and
  leaves the others alone.\<close>

theorem mlock_operations_correct:
  assumes "mlock_reach m"
    and "unat old_addr + unat old_len < 2 ^ 64" and "unat new_start + unat old_len < 2 ^ 64"
  shows "covers (mlocked_ranges (add_locked_range s e m)) = covers (mlocked_ranges m) \<union> {s..<e} \<and>
    covers (mlocked_ranges (trim_locked_ranges s e m)) = covers (mlocked_ranges m) - {s..<e} \<and>
    covers (mlocked_ranges (move_locked_ranges old_addr old_len new_start m)) =
      (covers (mlocked_ranges m) - {old_addr..<old_addr + old_len}) \<union>
      (\<lambda>y. new_start + (y - old_addr)) ` (covers (mlocked_ranges m) \<inter> {old_addr..<old_addr + old_len})"
  using move_locked_ranges_covers [OF mlock_reach_normal [OF assms(1)] assms(2,3)]
    trim_ranges_correct [OF mlock_reach_normal [OF assms(1)]]
  by (simp add: add_locked_range_def trim_locked_ranges_def normalize_ranges_correct)

theorem mlock_operations_correct_witness:
  "covers (mlocked_ranges (move_locked_ranges 0x1000 0x1000 0x8000
     (add_locked_range 0x1000 0x3000 \<lparr>mlocked_ranges = [], mlockall_future = False\<rparr>))) =
   ({0x1000..<0x3000} - {0x1000..<0x2000}) \<union> (\<lambda>y. 0x8000 + (y - 0x1000)) ` {0x1000..<0x2000}"
proof -
  let ?m = "add_locked_range 0x1000 0x3000 \<lparr>mlocked_ranges = [], mlockall_future = False\<rparr>"
  have "mlock_reach ?m" by (intro mlock_reach.intros)
  then have "covers (mlocked_ranges (move_locked_ranges 0x1000 0x1000 0x8000 ?m)) =
      (covers (mlocked_ranges ?m) - {0x1000..<0x1000 + 0x1000}) \<union>
      (\<lambda>y. 0x8000 + (y - 0x1000)) ` (covers (mlocked_ranges ?m) \<inter> {0x1000..<0x1000 + 0x1000})"
    using mlock_operations_correct [of ?m "0x1000" "0x1000" "0x8000"] by simp
  moreover have "covers (mlocked_ranges ?m) = {0x1000..<0x3000}"
    by (simp add: add_locked_range_def normalize_ranges_def push_range_merged_def)
  ultimately show ?thesis by (simp only: Int_atLeastLessThan) simp
qed

end
