(* ===== verification/Ordered_Maps.thy ===== *)
theory Ordered_Maps
  imports Kernel_Prelude "HOL-Library.List_Lexorder" "HOL-Library.Product_Lexorder"
begin

text \<open>
  \<open>alloc::collections::BTreeMap\<close> and \<open>BTreeSet\<close> of the Rust standard library, as the strictly
  ordered association lists and lists their iterators walk. The kernel keeps most of its tables in
  them (frame reference counts, BPF hash maps, record locks, run queues), and some code depends on
  the iteration order, so the order is part of the model.

  The locale \<open>ordered_dict\<close> states what the kernel relies on; it is interpreted once, on the
  list model, and the component theories use the facts of that interpretation (\<open>btm.\<dots>\<close>).
\<close>

type_synonym ('k, 'v) btree_map = "('k \<times> 'v) list"

definition btm_inv :: "('k::linorder, 'v) btree_map \<Rightarrow> bool" where
  "btm_inv m \<longleftrightarrow> sorted_wrt (<) (map fst m)"

definition btm_get :: "('k::linorder, 'v) btree_map \<Rightarrow> 'k \<Rightarrow> 'v option" where
  "btm_get m k = map_of m k"

fun btm_insert :: "'k::linorder \<Rightarrow> 'v \<Rightarrow> ('k, 'v) btree_map \<Rightarrow> ('k, 'v) btree_map" where
  "btm_insert k v [] = [(k, v)]"
| "btm_insert k v (e # m) =
     (if fst e < k then e # btm_insert k v m
      else if fst e = k then (k, v) # m
      else (k, v) # e # m)"

definition btm_remove :: "'k::linorder \<Rightarrow> ('k, 'v) btree_map \<Rightarrow> ('k, 'v) btree_map" where
  "btm_remove k m = filter (\<lambda>e. fst e \<noteq> k) m"

definition btm_contains :: "('k::linorder, 'v) btree_map \<Rightarrow> 'k \<Rightarrow> bool" where
  "btm_contains m k \<longleftrightarrow> btm_get m k \<noteq> None"

section \<open>The contract\<close>

locale ordered_dict =
  fixes inv :: "'m \<Rightarrow> bool"
    and get :: "'m \<Rightarrow> 'k \<Rightarrow> 'v option"
    and ins :: "'k \<Rightarrow> 'v \<Rightarrow> 'm \<Rightarrow> 'm"
    and rem :: "'k \<Rightarrow> 'm \<Rightarrow> 'm"
    and len :: "'m \<Rightarrow> nat"
  assumes inv_ins: "inv m \<Longrightarrow> inv (ins k v m)"
    and inv_rem: "inv m \<Longrightarrow> inv (rem k m)"
    and get_ins: "get (ins k v m) k' = (if k' = k then Some v else get m k')"
    and get_rem: "get (rem k m) k' = (if k' = k then None else get m k')"
    and finite_get: "finite (dom (get m))"
    and len_card: "inv m \<Longrightarrow> len m = card (dom (get m))"
begin

lemma dom_ins: "dom (get (ins k v m)) = insert k (dom (get m))"
  by (auto simp: get_ins split: if_splits)

lemma dom_rem: "dom (get (rem k m)) = dom (get m) - {k}"
  by (auto simp: get_rem split: if_splits)

lemma len_ins:
  "inv m \<Longrightarrow> len (ins k v m) = (if get m k = None then Suc (len m) else len m)"
  by (simp add: len_card inv_ins dom_ins finite_get card_insert_if domIff)

lemma len_rem:
  "inv m \<Longrightarrow> len (rem k m) = (if get m k = None then len m else len m - 1)"
  by (simp add: len_card inv_rem dom_rem finite_get card_Diff_singleton_if domIff)

lemma len_pos: "inv m \<Longrightarrow> get m k = Some v \<Longrightarrow> 0 < len m"
  by (auto simp: len_card card_gt_0_iff finite_get)

end

section \<open>The list model satisfies it\<close>

lemma btm_insert_keys: "set (map fst (btm_insert k v m)) = insert k (set (map fst m))"
  by (induction m) auto

lemma btm_inv_insert: "btm_inv m \<Longrightarrow> btm_inv (btm_insert k v m)"
proof (induction m)
  case Nil
  show ?case by (simp add: btm_inv_def)
next
  case (Cons e m)
  have keys: "\<forall>x \<in> set (btm_insert k v m). fst x = k \<or> fst x \<in> fst ` set m"
    using btm_insert_keys [of k v m] by (metis image_eqI image_set insert_iff)
  from Cons have "btm_inv (btm_insert k v m)" by (simp add: btm_inv_def)
  with Cons.prems keys show ?case
    by (fastforce simp: btm_inv_def)
qed

lemma btm_get_insert: "btm_get (btm_insert k v m) k' = (if k' = k then Some v else btm_get m k')"
  by (induction m) (auto simp: btm_get_def)

lemma btm_inv_filter: "btm_inv m \<Longrightarrow> btm_inv (filter P m)"
  by (induction m) (auto simp: btm_inv_def)

lemma btm_get_remove: "btm_get (btm_remove k m) k' = (if k' = k then None else btm_get m k')"
  by (induction m) (auto simp: btm_get_def btm_remove_def)

lemma btm_inv_distinct: "btm_inv m \<Longrightarrow> distinct (map fst m)"
  by (simp add: btm_inv_def strict_sorted_iff)

lemma dom_btm_get: "dom (btm_get m) = fst ` set m"
  by (force simp: btm_get_def dom_def map_of_eq_None_iff dest: map_of_SomeD)

lemma btm_length: "btm_inv m \<Longrightarrow> length m = card (dom (btm_get m))"
  using distinct_card [OF btm_inv_distinct, of m] by (simp add: dom_btm_get)

interpretation btm: ordered_dict btm_inv btm_get btm_insert btm_remove length
proof
  show "btm_inv m \<Longrightarrow> btm_inv (btm_insert k v m)" for m :: "('a, 'b) btree_map" and k v
    by (rule btm_inv_insert)
  show "btm_inv m \<Longrightarrow> btm_inv (btm_remove k m)" for m :: "('a, 'b) btree_map" and k
    by (simp add: btm_remove_def btm_inv_filter)
  show "finite (dom (btm_get m))" for m :: "('a, 'b) btree_map"
    by (simp add: dom_btm_get)
qed (simp_all add: btm_get_insert btm_get_remove btm_length)

lemma btm_inv_Nil [simp]: "btm_inv []"
  by (simp add: btm_inv_def)

lemma btm_get_Nil [simp]: "btm_get [] k = None"
  by (simp add: btm_get_def)

lemmas btm_simps [simp] = btm_get_insert btm_get_remove

lemma set_btm_insert: "e \<in> set (btm_insert k v m) \<Longrightarrow> e = (k, v) \<or> e \<in> set m"
  by (induction m) (auto split: if_splits)

lemma btm_remove_absent: "btm_get m k = None \<Longrightarrow> btm_remove k m = m"
  by (force simp: btm_remove_def btm_get_def map_of_eq_None_iff filter_id_conv)

lemma btm_get_in_set: "btm_get m k = Some v \<Longrightarrow> (k, v) \<in> set m"
  by (simp add: btm_get_def map_of_SomeD)

lemma btm_get_iff: "btm_inv m \<Longrightarrow> btm_get m k = Some v \<longleftrightarrow> (k, v) \<in> set m"
  by (simp add: btm_get_def btm_inv_distinct)

section \<open>Sets\<close>

type_synonym 'k btree_set = "'k list"

definition bts_inv :: "'k::linorder btree_set \<Rightarrow> bool" where
  "bts_inv s \<longleftrightarrow> sorted_wrt (<) s"

fun bts_insert :: "'k::linorder \<Rightarrow> 'k btree_set \<Rightarrow> 'k btree_set" where
  "bts_insert k [] = [k]"
| "bts_insert k (x # s) =
     (if x < k then x # bts_insert k s else if x = k then x # s else k # x # s)"

definition bts_remove :: "'k::linorder \<Rightarrow> 'k btree_set \<Rightarrow> 'k btree_set" where
  "bts_remove k s = filter (\<lambda>x. x \<noteq> k) s"

lemma set_bts_insert [simp]: "set (bts_insert k s) = insert k (set s)"
  by (induction s) auto

lemma set_bts_remove [simp]: "set (bts_remove k s) = set s - {k}"
  by (auto simp: bts_remove_def)

lemma bts_inv_Nil [simp]: "bts_inv []"
  by (simp add: bts_inv_def)

lemma bts_inv_insert: "bts_inv s \<Longrightarrow> bts_inv (bts_insert k s)"
proof (induction s)
  case Nil
  show ?case by (simp add: bts_inv_def)
next
  case (Cons x s)
  then show ?case by (fastforce simp: bts_inv_def)
qed

lemma bts_inv_remove: "bts_inv s \<Longrightarrow> bts_inv (bts_remove k s)"
  by (induction s) (auto simp: bts_inv_def bts_remove_def)

lemma bts_inv_distinct: "bts_inv s \<Longrightarrow> distinct s"
  by (simp add: bts_inv_def strict_sorted_iff)

end
