(* ===== verification/Frames.thy ===== *)
theory Frames
  imports Ordered_Maps Ranges "HOL-Library.Multiset"
begin

text \<open>
  \<open>src/src/mm/frame_allocator.rs\<close>: the physical frame allocator \<open>StackFrameAllocator\<close>, its
  construction from the memory map at boot, and the reference-counted handles \<open>FrameTracker\<close> through
  which the rest of the kernel holds frames.

  The globals \<open>FRAME_ALLOCATOR\<close> and \<open>FRAME_REFCOUNTS\<close> and the contents of physical pages are the
  fields of \<open>frame_state\<close>; a tracker is its page number. A panic is \<open>None\<close>. The locale
  \<open>frame_pool\<close> is the contract between the allocator and the trackers; \<open>frame_step\<close> interleaves the
  critical sections of the operations of any number of harts.
\<close>

section \<open>The allocator\<close>

record frame_range =
  fr_start :: usize
  fr_current :: usize
  fr_end :: usize

record stack_frame_allocator =
  fa_ranges :: "frame_range list"
  recycled :: "usize list"
  recycled_set :: "usize btree_set"
  managed_pages :: usize

definition allocator_new :: stack_frame_allocator where
  "allocator_new = \<lparr>fa_ranges = [], recycled = [], recycled_set = [], managed_pages = 0\<rparr>"

definition add_range :: "phys_page_num \<Rightarrow> phys_page_num \<Rightarrow> stack_frame_allocator \<Rightarrow> stack_frame_allocator" where
  "add_range l r a =
     (if ppn_val r \<le> ppn_val l then a
      else a\<lparr>managed_pages := saturating_add (managed_pages a) (saturating_sub (ppn_val r) (ppn_val l)),
             fa_ranges := fa_ranges a @
               [\<lparr>fr_start = ppn_val l, fr_current = ppn_val l, fr_end = ppn_val r\<rparr>]\<rparr>)"

definition allocator_init ::
  "phys_page_num \<Rightarrow> phys_page_num \<Rightarrow> stack_frame_allocator \<Rightarrow> stack_frame_allocator" where
  "allocator_init l r a =
     add_range l r (a\<lparr>fa_ranges := [], recycled := [], recycled_set := [], managed_pages := 0\<rparr>)"

fun take_contiguous :: "usize \<Rightarrow> frame_range list \<Rightarrow> (usize \<times> frame_range list) option" where
  "take_contiguous pages [] = None"
| "take_contiguous pages (r # rs) =
     (if saturating_add (fr_current r) pages \<le> fr_end r
      then Some (fr_current r, r\<lparr>fr_current := fr_current r + pages\<rparr> # rs)
      else map_option (\<lambda>(p, rs'). (p, r # rs')) (take_contiguous pages rs))"

definition alloc_contiguous ::
  "arch \<Rightarrow> usize \<Rightarrow> stack_frame_allocator \<Rightarrow> phys_page_num option \<times> stack_frame_allocator" where
  "alloc_contiguous ar pages a =
     (if pages = 0 then (None, a)
      else case take_contiguous pages (fa_ranges a) of
        None \<Rightarrow> (None, a)
      | Some (start, rs) \<Rightarrow> (Some (ppn_from_usize ar start), a\<lparr>fa_ranges := rs\<rparr>))"

definition was_allocated :: "stack_frame_allocator \<Rightarrow> usize \<Rightarrow> bool" where
  "was_allocated a ppn \<longleftrightarrow> list_ex (\<lambda>r. fr_start r \<le> ppn \<and> ppn < fr_current r) (fa_ranges a)"

fun take_first :: "frame_range list \<Rightarrow> (usize \<times> frame_range list) option" where
  "take_first [] = None"
| "take_first (r # rs) =
     (if fr_current r < fr_end r then Some (fr_current r, r\<lparr>fr_current := fr_current r + 1\<rparr> # rs)
      else map_option (\<lambda>(p, rs'). (p, r # rs')) (take_first rs))"

definition alloc ::
  "arch \<Rightarrow> stack_frame_allocator \<Rightarrow> phys_page_num option \<times> stack_frame_allocator" where
  "alloc ar a =
     (if recycled a \<noteq> [] then
        (let ppn = last (recycled a) in
         (Some (ppn_from_usize ar ppn),
          a\<lparr>recycled := butlast (recycled a), recycled_set := bts_remove ppn (recycled_set a)\<rparr>))
      else case take_first (fa_ranges a) of
        None \<Rightarrow> (None, a)
      | Some (ppn, rs) \<Rightarrow> (Some (ppn_from_usize ar ppn), a\<lparr>fa_ranges := rs\<rparr>))"

definition dealloc :: "phys_page_num \<Rightarrow> stack_frame_allocator \<Rightarrow> stack_frame_allocator option" where
  "dealloc p a =
     (let ppn = ppn_val p in
      if \<not> was_allocated a ppn \<or> ppn \<in> set (recycled_set a) then None
      else Some (a\<lparr>recycled_set := bts_insert ppn (recycled_set a), recycled := recycled a @ [ppn]\<rparr>))"

definition available_pages :: "stack_frame_allocator \<Rightarrow> usize" where
  "available_pages a = of_nat (length (recycled a)) +
     sum_list (map (\<lambda>r. saturating_sub (fr_end r) (fr_current r)) (fa_ranges a))"

section \<open>Construction from the memory map\<close>

definition MAX_RESERVED_MEMORY_REGIONS :: nat where
  "MAX_RESERVED_MEMORY_REGIONS = 16"

text \<open>The array \<open>exclusions\<close> has \<open>MAX_RESERVED_MEMORY_REGIONS + 1\<close> slots, of which the first
  \<open>exclusion_count\<close> are used: the list holds the used ones.\<close>

definition add_exclusion :: "arch \<Rightarrow> usize \<Rightarrow> usize \<Rightarrow> ranges \<Rightarrow> ranges option" where
  "add_exclusion ar start end exclusions =
     (let start = ppn_val (pa_floor (pa_from_usize ar start));
          end = ppn_val (pa_ceil (pa_from_usize ar end))
      in if end \<le> start then Some exclusions
         else if length exclusions < MAX_RESERVED_MEMORY_REGIONS + 1 then Some (exclusions @ [(start, end)])
         else None)"

fun add_exclusions :: "arch \<Rightarrow> ranges \<Rightarrow> ranges \<Rightarrow> ranges option" where
  "add_exclusions ar [] exclusions = Some exclusions"
| "add_exclusions ar (r # rs) exclusions =
     Option.bind (add_exclusion ar (fst r) (snd r) exclusions) (add_exclusions ar rs)"

text \<open>The merge overwrites the array it reads: \<open>merged_count\<close> never exceeds \<open>index\<close>.\<close>

fun merge_in_place :: "ranges \<Rightarrow> nat list \<Rightarrow> nat \<Rightarrow> ranges \<times> nat" where
  "merge_in_place ex [] merged_count = (ex, merged_count)"
| "merge_in_place ex (index # is) merged_count =
     (let (start, end) = ex ! index in
      if merged_count \<noteq> 0 \<and> start \<le> snd (ex ! (merged_count - 1)) then
        merge_in_place (ex[merged_count - 1 :=
          (fst (ex ! (merged_count - 1)), max (snd (ex ! (merged_count - 1))) end)]) is merged_count
      else merge_in_place (ex[merged_count := (start, end)]) is (merged_count + 1))"

definition merged_exclusions :: "ranges \<Rightarrow> ranges" where
  "merged_exclusions ex =
     (let (ex', n) = merge_in_place (sort_key fst ex) [0..<length ex] 0 in take n ex')"

text \<open>The inner loop over the merged exclusions, with its two \<open>break\<close>s: the cursor at its end.\<close>

fun carve_loop ::
  "usize \<Rightarrow> ranges \<Rightarrow> usize \<Rightarrow> stack_frame_allocator \<Rightarrow> usize \<times> stack_frame_allocator" where
  "carve_loop end_ppn [] cursor a = (cursor, a)"
| "carve_loop end_ppn (e # es) cursor a =
     (if snd e \<le> cursor then carve_loop end_ppn es cursor a
      else if fst e \<ge> end_ppn then (cursor, a)
      else let a' = (if cursor < fst e
                     then add_range (PhysPageNum cursor) (PhysPageNum (min (fst e) end_ppn)) a else a);
               cursor' = max cursor (snd e)
           in if cursor' \<ge> end_ppn then (cursor', a') else carve_loop end_ppn es cursor' a')"

definition carve :: "arch \<Rightarrow> ranges \<Rightarrow> usize \<times> usize \<Rightarrow> stack_frame_allocator \<Rightarrow> stack_frame_allocator" where
  "carve ar ex mem a =
     (let start_ppn = ppn_val (pa_ceil (pa_from_usize ar (fst mem)));
          end_ppn = ppn_val (pa_floor (pa_from_usize ar (snd mem)))
      in if end_ppn \<le> start_ppn then a
         else let (cursor, a') = carve_loop end_ppn ex start_ppn a
              in if cursor < end_ppn then add_range (PhysPageNum cursor) (PhysPageNum end_ppn) a' else a')"

text \<open>\<open>stext\<close>, \<open>ekernel\<close> and the reserved and physical ranges come from the linker and the device
  tree.\<close>

definition init_frame_allocator ::
  "arch \<Rightarrow> usize \<Rightarrow> usize \<Rightarrow> ranges \<Rightarrow> ranges \<Rightarrow> stack_frame_allocator option" where
  "init_frame_allocator ar stext ekernel reserved mem =
     map_option (\<lambda>ex. fold (carve ar (merged_exclusions ex)) mem
                   (allocator_init (PhysPageNum 0) (PhysPageNum 0) allocator_new))
       (add_exclusions ar ((stext, ekernel) # reserved) [])"

section \<open>Trackers\<close>

record frame_state =
  frame_allocator :: stack_frame_allocator
  frame_refcounts :: "(usize, usize) btree_map"
  frame_bytes :: "usize \<Rightarrow> u8 list"

type_synonym frame_tracker = phys_page_num

definition tracker_new :: "phys_page_num \<Rightarrow> 'a frame_state_scheme \<Rightarrow> 'a frame_state_scheme" where
  "tracker_new p s =
     s\<lparr>frame_bytes := (frame_bytes s)(ppn_val p := replicate (unat PAGE_SIZE) 0),
       frame_refcounts := btm_insert (ppn_val p) 1 (frame_refcounts s)\<rparr>"

definition tracker_clone :: "frame_tracker \<Rightarrow> 'a frame_state_scheme \<Rightarrow> 'a frame_state_scheme" where
  "tracker_clone p s =
     (let e = (case btm_get (frame_refcounts s) (ppn_val p) of None \<Rightarrow> 0 | Some n \<Rightarrow> n)
      in s\<lparr>frame_refcounts := btm_insert (ppn_val p) (e + 1) (frame_refcounts s)\<rparr>)"

definition frame_dealloc :: "phys_page_num \<Rightarrow> 'a frame_state_scheme \<Rightarrow> 'a frame_state_scheme option" where
  "frame_dealloc p s =
     map_option (\<lambda>a. s\<lparr>frame_allocator := a\<rparr>) (dealloc p (frame_allocator s))"

text \<open>The part of \<open>drop\<close> under the reference-count lock; the result says whether \<open>frame_dealloc\<close>
  follows, after the lock is released.\<close>

definition tracker_release :: "frame_tracker \<Rightarrow> 'a frame_state_scheme \<Rightarrow> bool \<times> 'a frame_state_scheme" where
  "tracker_release p s =
     (case btm_get (frame_refcounts s) (ppn_val p) of
        None \<Rightarrow> (False, s)
      | Some cnt \<Rightarrow>
          if cnt \<le> 1 then (True, s\<lparr>frame_refcounts := btm_remove (ppn_val p) (frame_refcounts s)\<rparr>)
          else (False, s\<lparr>frame_refcounts := btm_insert (ppn_val p) (cnt - 1) (frame_refcounts s)\<rparr>))"

definition tracker_drop :: "frame_tracker \<Rightarrow> 'a frame_state_scheme \<Rightarrow> 'a frame_state_scheme option" where
  "tracker_drop p s =
     (let (last_ref, s') = tracker_release p s in if last_ref then frame_dealloc p s' else Some s')"

definition alloc_tracked :: "arch \<Rightarrow> 'a frame_state_scheme \<Rightarrow> frame_tracker option \<times> 'a frame_state_scheme" where
  "alloc_tracked ar s =
     (case alloc ar (frame_allocator s) of
        (None, a) \<Rightarrow> (None, s)
      | (Some p, a) \<Rightarrow> (Some p, tracker_new p (s\<lparr>frame_allocator := a\<rparr>)))"

text \<open>\<open>reclaim\<close> is \<open>reclaim_shared_file_page_cache\<close>; \<open>Page_Cache\<close> defines it over a state that
  extends this one. It may panic, as dropping a frame may.\<close>

definition frame_alloc ::
  "arch \<Rightarrow> ('a frame_state_scheme \<Rightarrow> (nat \<times> 'a frame_state_scheme) option) \<Rightarrow> 'a frame_state_scheme \<Rightarrow>
   (frame_tracker option \<times> 'a frame_state_scheme) option" where
  "frame_alloc ar reclaim s =
     (case alloc_tracked ar s of
        (Some p, s') \<Rightarrow> Some (Some p, s')
      | (None, s') \<Rightarrow>
          (case reclaim s' of
             None \<Rightarrow> None
           | Some (reclaimed, s'') \<Rightarrow>
               if reclaimed > 0 then Some (alloc_tracked ar s'') else Some (None, s'')))"

definition frame_refcount_entries :: "'a frame_state_scheme \<Rightarrow> nat" where
  "frame_refcount_entries s = length (frame_refcounts s)"

definition frame_refcount :: "'a frame_state_scheme \<Rightarrow> phys_page_num \<Rightarrow> usize" where
  "frame_refcount s p = (case btm_get (frame_refcounts s) (ppn_val p) of None \<Rightarrow> 0 | Some n \<Rightarrow> n)"

definition frame_available_pages :: "'a frame_state_scheme \<Rightarrow> usize" where
  "frame_available_pages s = available_pages (frame_allocator s)"

definition frame_managed_pages :: "'a frame_state_scheme \<Rightarrow> usize" where
  "frame_managed_pages s = managed_pages (frame_allocator s)"

definition contiguous_pages :: "phys_page_num \<Rightarrow> usize \<Rightarrow> phys_page_num list" where
  "contiguous_pages start pages = map (\<lambda>i. PhysPageNum (ppn_val start + of_nat i)) [0..<unat pages]"

definition frame_alloc_contiguous ::
  "arch \<Rightarrow> usize \<Rightarrow> 'a frame_state_scheme \<Rightarrow> frame_tracker list option \<times> 'a frame_state_scheme" where
  "frame_alloc_contiguous ar pages s =
     (case alloc_contiguous ar pages (frame_allocator s) of
        (None, a) \<Rightarrow> (None, s\<lparr>frame_allocator := a\<rparr>)
      | (Some start, a) \<Rightarrow>
          (let frames = contiguous_pages start pages
           in (Some frames, fold tracker_new frames (s\<lparr>frame_allocator := a\<rparr>))))"

section \<open>Invariant of the allocator\<close>

definition span :: "frame_range \<Rightarrow> usize set" where
  "span r = {fr_start r..<fr_end r}"

definition used :: "frame_range \<Rightarrow> usize set" where
  "used r = {fr_start r..<fr_current r}"

definition frange_wf :: "arch \<Rightarrow> frame_range \<Rightarrow> bool" where
  "frange_wf ar r \<longleftrightarrow> fr_start r \<le> fr_current r \<and> fr_current r \<le> fr_end r \<and>
     unat (fr_end r) \<le> 2 ^ PPN_WIDTH ar"

definition franges_wf :: "arch \<Rightarrow> frame_range list \<Rightarrow> bool" where
  "franges_wf ar rs \<longleftrightarrow> list_all (frange_wf ar) rs \<and> sorted_wrt (\<lambda>a b. span a \<inter> span b = {}) rs"

definition spans :: "frame_range list \<Rightarrow> usize set" where
  "spans rs = (\<Union>r\<in>set rs. span r)"

definition used_pages :: "frame_range list \<Rightarrow> usize set" where
  "used_pages rs = (\<Union>r\<in>set rs. used r)"

definition live :: "stack_frame_allocator \<Rightarrow> usize set" where
  "live a = used_pages (fa_ranges a) - set (recycled a)"

definition fa_inv :: "arch \<Rightarrow> stack_frame_allocator \<Rightarrow> bool" where
  "fa_inv ar a \<longleftrightarrow> franges_wf ar (fa_ranges a) \<and> distinct (recycled a) \<and> bts_inv (recycled_set a) \<and>
     set (recycled a) = set (recycled_set a) \<and> set (recycled a) \<subseteq> used_pages (fa_ranges a) \<and>
     unat (managed_pages a) = card (spans (fa_ranges a))"

lemma pages_simps [simp]:
  "spans [] = {}" "spans (r # rs) = span r \<union> spans rs" "spans (rs @ ss) = spans rs \<union> spans ss"
  "used_pages [] = {}" "used_pages (r # rs) = used r \<union> used_pages rs"
  "used_pages (rs @ ss) = used_pages rs \<union> used_pages ss"
  by (auto simp: spans_def used_pages_def)

lemma used_subset_span: "frange_wf ar r \<Longrightarrow> used r \<subseteq> span r"
  by (auto simp: frange_wf_def used_def span_def)

lemma used_subset_spans: "franges_wf ar rs \<Longrightarrow> used_pages rs \<subseteq> spans rs"
  using used_subset_span by (fastforce simp: franges_wf_def list_all_iff used_pages_def spans_def)

lemma was_allocated_iff: "was_allocated a p \<longleftrightarrow> p \<in> used_pages (fa_ranges a)"
  by (auto simp: was_allocated_def used_pages_def used_def list_ex_iff)

lemma ppn_width_small: "2 ^ PPN_WIDTH ar \<le> (2 ^ 44 :: nat)"
  by (cases ar) (simp_all add: PPN_WIDTH_def PAGE_SIZE_BITS_def)

lemma ppn_from_usize_id: "unat p < 2 ^ PPN_WIDTH ar \<Longrightarrow> ppn_from_usize ar p = PhysPageNum p"
  by (simp add: ppn_from_usize_def word_unat_eq_iff unat_and_low_bits)

lemma span_in_width: "frange_wf ar r \<Longrightarrow> p \<in> span r \<Longrightarrow> unat p < 2 ^ PPN_WIDTH ar"
  by (auto simp: frange_wf_def span_def word_less_nat_alt)

lemma spans_in_width: "franges_wf ar rs \<Longrightarrow> p \<in> spans rs \<Longrightarrow> unat p < 2 ^ PPN_WIDTH ar"
  using span_in_width by (auto simp: franges_wf_def list_all_iff spans_def)

lemma card_spans_le:
  assumes "franges_wf ar rs"
  shows "card (spans rs) \<le> 2 ^ 44"
proof -
  have "card (unat ` spans rs) \<le> card {..<2 ^ PPN_WIDTH ar :: nat}"
    using spans_in_width [OF assms] by (intro card_mono) auto
  moreover have "card (unat ` spans rs) = card (spans rs)"
    by (intro card_image inj_onI) (simp add: word_unat_eq_iff)
  ultimately show ?thesis using ppn_width_small [of ar] by simp
qed

text \<open>Both ways of taking fresh pages advance the cursor of one range.\<close>

lemma take_first_split:
  "take_first rs = Some (p, rs') \<Longrightarrow>
   \<exists>xs r ys. rs = xs @ r # ys \<and> p = fr_current r \<and> fr_current r < fr_end r \<and>
     rs' = xs @ r\<lparr>fr_current := fr_current r + 1\<rparr> # ys"
proof (induction rs arbitrary: rs')
  case (Cons r rs)
  show ?case
  proof (cases "fr_current r < fr_end r")
    case True
    with Cons.prems show ?thesis by (intro exI [of _ "[]"]) auto
  next
    case False
    with Cons.prems obtain rs'' where "take_first rs = Some (p, rs'')" "rs' = r # rs''" by auto
    with Cons.IH show ?thesis by (metis append_Cons)
  qed
qed simp

lemma take_contiguous_split:
  "take_contiguous n rs = Some (p, rs') \<Longrightarrow>
   \<exists>xs r ys. rs = xs @ r # ys \<and> p = fr_current r \<and> saturating_add (fr_current r) n \<le> fr_end r \<and>
     rs' = xs @ r\<lparr>fr_current := fr_current r + n\<rparr> # ys"
proof (induction rs arbitrary: rs')
  case (Cons r rs)
  show ?case
  proof (cases "saturating_add (fr_current r) n \<le> fr_end r")
    case True
    with Cons.prems show ?thesis by (intro exI [of _ "[]"]) auto
  next
    case False
    with Cons.prems obtain rs'' where "take_contiguous n rs = Some (p, rs'')" "rs' = r # rs''" by auto
    with Cons.IH show ?thesis by (metis append_Cons)
  qed
qed simp

lemma advance:
  assumes wf: "franges_wf ar (xs @ r # ys)" and c: "fr_current r \<le> c" "c \<le> fr_end r"
  defines "rs' \<equiv> xs @ r\<lparr>fr_current := c\<rparr> # ys"
  shows "franges_wf ar rs' \<and> spans rs' = spans (xs @ r # ys) \<and>
    used_pages rs' = used_pages (xs @ r # ys) \<union> {fr_current r..<c} \<and>
    used_pages (xs @ r # ys) \<inter> {fr_current r..<c} = {}"
proof -
  let ?r = "r\<lparr>fr_current := c\<rparr>"
  have wfr: "frange_wf ar r" and wfs: "list_all (frange_wf ar) xs" "list_all (frange_wf ar) ys"
    and disj: "\<forall>x\<in>set xs. span x \<inter> span r = {}" "\<forall>y\<in>set ys. span r \<inter> span y = {}"
    using wf by (auto simp: franges_wf_def sorted_wrt_append)
  have span: "span ?r = span r" by (simp add: span_def)
  have used: "used ?r = used r \<union> {fr_current r..<c}"
    using wfr c by (auto simp: used_def frange_wf_def)
  have new: "{fr_current r..<c} \<subseteq> span r"
    using wfr c by (auto simp: span_def frange_wf_def)
  have "frange_wf ar ?r" using wfr c by (auto simp: frange_wf_def)
  then have "franges_wf ar rs'"
    using wf span by (simp add: franges_wf_def rs'_def sorted_wrt_append)
  moreover have "used_pages xs \<inter> span r = {}" "used_pages ys \<inter> span r = {}"
    using disj wfs used_subset_span unfolding used_pages_def list_all_iff by blast+
  moreover have "used r \<inter> {fr_current r..<c} = {}" by (auto simp: used_def)
  ultimately show ?thesis using new span used by (auto simp: rs'_def)
qed

lemma live_in_spans: "fa_inv ar a \<Longrightarrow> live a \<subseteq> spans (fa_ranges a)"
  using used_subset_spans by (auto simp: fa_inv_def live_def)

lemma word_succ_interval:
  fixes c e :: "'a::len word"
  assumes "c < e"
  shows "c \<le> c + 1" "c + 1 \<le> e" "{c..<c + 1} = {c}"
proof -
  have u: "unat (c + 1) = unat c + 1"
  proof (subst unat_add_small)
    show "unat c + unat (1 :: 'a word) < 2 ^ LENGTH('a)"
      using assms by (intro le_less_trans [OF _ unat_less_pow [of e]]) (simp add: word_less_nat_alt)
  qed simp
  show "c \<le> c + 1" "c + 1 \<le> e" using u assms by (simp_all add: word_le_nat_alt word_less_nat_alt)
  show "{c..<c + 1} = {c}"
    using u by (auto simp: word_le_nat_alt word_less_nat_alt word_unat_eq_iff)
qed

lemma ppn_from_span: "fa_inv ar a \<Longrightarrow> p \<in> spans (fa_ranges a) \<Longrightarrow> ppn_from_usize ar p = PhysPageNum p"
  unfolding fa_inv_def by (blast intro: ppn_from_usize_id spans_in_width)

lemma alloc_fresh:
  assumes inv: "fa_inv ar a" and al: "alloc ar a = (Some f, a')"
  shows "fa_inv ar a' \<and> ppn_val f \<notin> live a \<and> live a' = insert (ppn_val f) (live a) \<and>
    spans (fa_ranges a') = spans (fa_ranges a)"
proof (cases "recycled a = []")
  case False
  let ?p = "last (recycled a)"
  have rec: "recycled a = butlast (recycled a) @ [?p]" using False by simp
  have "distinct (butlast (recycled a) @ [?p])" using inv False by (simp add: fa_inv_def)
  then have p: "?p \<notin> set (butlast (recycled a))" and d: "distinct (butlast (recycled a))" by auto
  have set: "set (recycled a) = insert ?p (set (butlast (recycled a)))" using rec by (metis Un_insert_right list.simps(15) set_append sup_bot.right_neutral list.set(1))
  have used: "?p \<in> used_pages (fa_ranges a)" using inv False by (auto simp: fa_inv_def)
  then have "unat ?p < 2 ^ PPN_WIDTH ar"
    using inv used_subset_spans spans_in_width by (fastforce simp: fa_inv_def)
  then have f: "f = PhysPageNum ?p" and a': "a' = a\<lparr>recycled := butlast (recycled a),
      recycled_set := bts_remove ?p (recycled_set a)\<rparr>"
    using al False by (auto simp: alloc_def Let_def ppn_from_usize_id)
  show ?thesis
    using inv used p d set by (auto simp: f a' fa_inv_def live_def bts_inv_remove)
next
  case True
  then obtain p rs where tf: "take_first (fa_ranges a) = Some (p, rs)"
    and f': "f = ppn_from_usize ar p" and a': "a' = a\<lparr>fa_ranges := rs\<rparr>"
    using al by (auto simp: alloc_def split: option.splits)
  then obtain xs r ys where rs: "fa_ranges a = xs @ r # ys" "p = fr_current r" "fr_current r < fr_end r"
      "rs = xs @ r\<lparr>fr_current := fr_current r + 1\<rparr> # ys"
    using take_first_split by blast
  note succ = word_succ_interval [OF rs(3)]
  have p: "p \<in> spans (fa_ranges a)" using rs inv by (auto simp: span_def fa_inv_def franges_wf_def frange_wf_def)
  then have f: "f = PhysPageNum p" using f' ppn_from_span [OF inv] by simp
  have wf: "franges_wf ar (xs @ r # ys)" using inv rs(1) by (simp add: fa_inv_def)
  from advance [OF wf succ(1,2)] inv True show ?thesis
    by (simp add: f a' rs succ(3) fa_inv_def live_def)
qed

lemma unat_contiguous:
  fixes c n e :: usize
  assumes "saturating_add c n \<le> e" and "unat e \<le> 2 ^ 44"
  shows "unat (c + n) = unat c + unat n" and "c + n \<le> e" and "c \<le> c + n"
proof -
  have le: "min (unat c + unat n) (2 ^ 64 - 1) \<le> unat e"
    using assms(1) by (simp add: word_le_nat_alt unat_saturating_add)
  then have "unat c + unat n < 2 ^ 64" using assms(2) by simp
  then show u: "unat (c + n) = unat c + unat n" by (simp add: unat_add_small)
  show "c + n \<le> e" "c \<le> c + n" using u le assms(2) by (simp_all add: word_le_nat_alt)
qed

lemma contiguous_pages_interval:
  assumes "unat (c + n) = unat c + unat n"
  shows "ppn_val ` set (contiguous_pages (PhysPageNum c) n) = {c..<c + n}"
    and "distinct (map ppn_val (contiguous_pages (PhysPageNum c) n))"
proof -
  have small: "unat c + unat n < 2 ^ 64" using assms unat_less_pow [of "c + n"] by simp
  have u: "unat (c + of_nat i) = unat c + i" if "i < unat n" for i
    using that small by (subst unat_add_small) (simp_all add: unat_of_nat_small)
  show "ppn_val ` set (contiguous_pages (PhysPageNum c) n) = {c..<c + n}"
  proof (intro equalityI subsetI)
    fix x assume "x \<in> {c..<c + n}"
    then have "unat x - unat c < unat n" "unat c \<le> unat x"
      using assms by (auto simp: word_le_nat_alt word_less_nat_alt)
    then have "x = c + of_nat (unat x - unat c)" using u by (simp add: word_unat_eq_iff)
    with \<open>unat x - unat c < unat n\<close> show "x \<in> ppn_val ` set (contiguous_pages (PhysPageNum c) n)"
      by (force simp: contiguous_pages_def)
  qed (use u assms in \<open>auto simp: contiguous_pages_def word_le_nat_alt word_less_nat_alt\<close>)
  show "distinct (map ppn_val (contiguous_pages (PhysPageNum c) n))"
    using u by (auto simp: contiguous_pages_def comp_def distinct_map inj_on_def word_unat_eq_iff)
qed

lemma alloc_contiguous_fresh:
  assumes inv: "fa_inv ar a" and al: "alloc_contiguous ar n a = (Some f, a')"
  shows "fa_inv ar a' \<and> ppn_val ` set (contiguous_pages f n) \<inter> live a = {} \<and>
    distinct (map ppn_val (contiguous_pages f n)) \<and>
    live a' = live a \<union> ppn_val ` set (contiguous_pages f n) \<and> spans (fa_ranges a') = spans (fa_ranges a)"
proof -
  from al obtain p rs where "n \<noteq> 0" and tf: "take_contiguous n (fa_ranges a) = Some (p, rs)"
    and f': "f = ppn_from_usize ar p" and a': "a' = a\<lparr>fa_ranges := rs\<rparr>"
    by (auto simp: alloc_contiguous_def split: if_splits option.splits)
  from tf obtain xs r ys where rs: "fa_ranges a = xs @ r # ys" "p = fr_current r"
      "saturating_add (fr_current r) n \<le> fr_end r" "rs = xs @ r\<lparr>fr_current := fr_current r + n\<rparr> # ys"
    using take_contiguous_split by blast
  have wf: "franges_wf ar (xs @ r # ys)" using inv rs(1) by (simp add: fa_inv_def)
  then have wfr: "fr_start r \<le> fr_current r" "unat (fr_end r) \<le> 2 ^ 44"
    using ppn_width_small [of ar] by (auto simp: franges_wf_def frange_wf_def)
  note u = unat_contiguous [OF rs(3) wfr(2)]
  have "0 < unat n" using \<open>n \<noteq> 0\<close> by (simp add: unat_gt_0)
  then have "p < fr_end r" using u rs(2) by (simp add: word_less_nat_alt word_le_nat_alt)
  then have "p \<in> spans (fa_ranges a)" using rs wfr by (auto simp: span_def)
  then have f: "f = PhysPageNum p" using f' ppn_from_span [OF inv] by simp
  have pages: "ppn_val ` set (contiguous_pages f n) = {fr_current r..<fr_current r + n}"
      "distinct (map ppn_val (contiguous_pages f n))"
    using contiguous_pages_interval [OF u(1)] f rs(2) by auto
  have "set (recycled a) \<subseteq> used_pages (xs @ r # ys)" using inv by (metis fa_inv_def rs(1))
  with advance [OF wf u(3) u(2)] inv show ?thesis
    unfolding pages a' by (auto simp: rs fa_inv_def live_def pages(2))
qed

lemma dealloc_live:
  assumes inv: "fa_inv ar a" and p: "ppn_val p \<in> live a"
  shows "\<exists>a'. dealloc p a = Some a' \<and> fa_inv ar a' \<and> live a' = live a - {ppn_val p} \<and>
    spans (fa_ranges a') = spans (fa_ranges a)"
  using assms by (auto simp: dealloc_def Let_def was_allocated_iff fa_inv_def live_def bts_inv_insert)

lemma dealloc_not_live:
  assumes "fa_inv ar a" and "ppn_val p \<notin> live a"
  shows "dealloc p a = None"
  using assms by (auto simp: dealloc_def Let_def was_allocated_iff fa_inv_def live_def)

section \<open>Page counts\<close>

lemma free_plus_used:
  "franges_wf ar rs \<Longrightarrow>
   sum_list (map (\<lambda>r. unat (fr_end r) - unat (fr_current r)) rs) + card (used_pages rs) = card (spans rs)"
proof (induction rs)
  case (Cons r rs)
  then have wf: "frange_wf ar r" "franges_wf ar rs" and disj: "span r \<inter> spans rs = {}"
    by (auto simp: franges_wf_def spans_def)
  moreover have "used r \<inter> used_pages rs = {}"
    using disj used_subset_span [OF wf(1)] used_subset_spans [OF wf(2)] by blast
  ultimately show ?case using Cons.IH
    by (simp add: card_Un_disjoint used_def span_def card_word_interval frange_wf_def word_le_nat_alt)
qed simp

lemma unat_available_pages:
  assumes inv: "fa_inv ar a"
  shows "unat (available_pages a) + card (live a) = card (spans (fa_ranges a))"
proof -
  let ?free = "sum_list (map (unat \<circ> (\<lambda>r. saturating_sub (fr_end r) (fr_current r))) (fa_ranges a))"
  have wf: "franges_wf ar (fa_ranges a)" using inv by (simp add: fa_inv_def)
  have free: "?free + card (used_pages (fa_ranges a)) = card (spans (fa_ranges a))"
    using free_plus_used [OF wf] by (simp add: comp_def unat_saturating_sub)
  have rec: "length (recycled a) = card (set (recycled a))" "set (recycled a) \<subseteq> used_pages (fa_ranges a)"
    using inv distinct_card [of "recycled a"] unfolding fa_inv_def by metis+
  have live: "card (live a) + length (recycled a) = card (used_pages (fa_ranges a))"
    using rec by (simp add: live_def card_Diff_subset card_mono)
  have "?free + length (recycled a) < 2 ^ 64"
    using free live card_spans_le [OF wf] by simp
  moreover from this have "unat (of_nat (length (recycled a)) :: usize) = length (recycled a)"
    by (intro unat_of_nat_small) simp
  ultimately have "unat (available_pages a) = length (recycled a) + ?free"
    unfolding available_pages_def by (subst unat_add_small) (simp_all add: unat_sum_list_le)
  with free live show ?thesis by simp
qed

lemma take_first_None: "take_first rs = None \<Longrightarrow> list_all (\<lambda>r. fr_end r \<le> fr_current r) rs"
  by (induction rs) (auto simp: not_less split: if_splits)

lemma alloc_fails_iff:
  assumes inv: "fa_inv ar a"
  shows "fst (alloc ar a) = None \<longleftrightarrow> available_pages a = 0"
proof
  assume "fst (alloc ar a) = None"
  then have "recycled a = []" "take_first (fa_ranges a) = None"
    by (auto simp: alloc_def Let_def split: if_splits option.splits)
  then have "map (\<lambda>r. saturating_sub (fr_end r) (fr_current r)) (fa_ranges a) = map (\<lambda>r. 0) (fa_ranges a)"
    using take_first_None [of "fa_ranges a"]
    by (auto simp: list_all_iff word_unat_eq_iff unat_saturating_sub word_le_nat_alt)
  with \<open>recycled a = []\<close> show "available_pages a = 0" by (simp only: available_pages_def) simp
next
  assume none: "available_pages a = 0"
  show "fst (alloc ar a) = None"
  proof (rule ccontr)
    assume "fst (alloc ar a) \<noteq> None"
    then obtain f a' where "alloc ar a = (Some f, a')" by (cases "alloc ar a") auto
    note fresh = alloc_fresh [OF inv this]
    then have "card (live a') \<le> card (spans (fa_ranges a))"
      using live_in_spans [of ar a'] by (intro card_mono) auto
    with fresh none unat_available_pages [OF inv] show False by simp
  qed
qed

section \<open>The contract between the pool and the trackers\<close>

text \<open>\<open>tracker_inv rc owned limbo lv\<close>: the trackers in existence are \<open>owned\<close> (with multiplicity),
  \<open>limbo\<close> holds the frames taken from the pool whose tracker is not made yet or is already gone,
  \<open>rc\<close> is the reference-count table and \<open>lv\<close> the frames the pool has handed out. A count fits a
  \<open>usize\<close> because each tracker occupies memory of its own.\<close>

definition tracker_inv ::
  "(usize, usize) btree_map \<Rightarrow> usize multiset \<Rightarrow> usize list \<Rightarrow> usize set \<Rightarrow> bool" where
  "tracker_inv rc owned limbo lv \<longleftrightarrow> btm_inv rc \<and>
     (\<forall>p. btm_get rc p = (if p \<in># owned then Some (of_nat (count owned p)) else None)) \<and>
     (\<forall>p. count owned p < 2 ^ 64) \<and>
     distinct limbo \<and> set limbo \<inter> set_mset owned = {} \<and> lv = set_mset owned \<union> set limbo"

lemma tracker_inv_new:
  assumes "tracker_inv rc owned limbo lv" and "p \<notin> lv"
  shows "tracker_inv (btm_insert p 1 rc) (add_mset p owned) limbo (insert p lv)"
  using assms by (auto simp: tracker_inv_def btm.inv_ins not_in_iff)

lemma tracker_inv_track:
  assumes "tracker_inv rc owned limbo lv" and "p \<in> set limbo"
  shows "tracker_inv (btm_insert p 1 rc) (add_mset p owned) (remove1 p limbo) lv"
  using assms by (auto simp: tracker_inv_def btm.inv_ins not_in_iff disjoint_iff)

lemma tracker_inv_clone:
  assumes "tracker_inv rc owned limbo lv" and "p \<in># owned" and "count owned p + 1 < 2 ^ 64"
  shows "btm_get rc p = Some (of_nat (count owned p)) \<and>
    tracker_inv (btm_insert p (of_nat (count owned p) + 1) rc) (add_mset p owned) limbo lv"
  using assms by (auto simp: tracker_inv_def btm.inv_ins)

lemma tracker_inv_release:
  assumes inv: "tracker_inv rc owned limbo lv" and p: "p \<in># owned"
  shows "\<exists>cnt. btm_get rc p = Some cnt \<and> unat cnt = count owned p \<and>
    (if cnt \<le> 1 then tracker_inv (btm_remove p rc) (owned - {#p#}) (p # limbo) lv
     else tracker_inv (btm_insert p (cnt - 1) rc) (owned - {#p#}) limbo lv)"
proof -
  define n where "n = count owned p"
  have n: "0 < n" "n < 2 ^ 64" using inv p by (auto simp: tracker_inv_def n_def)
  then have u: "unat (of_nat n :: usize) = n" by (simp add: unat_of_nat_small)
  have get: "btm_get rc p = Some (of_nat n)" using inv p by (simp add: tracker_inv_def n_def)
  show ?thesis
  proof (cases "n = 1")
    case True
    then have "owned - {#p#} = filter_mset (\<lambda>q. q \<noteq> p) owned"
      by (intro multiset_eqI) (auto simp: n_def)
    with True get inv p show ?thesis
      by (auto simp: tracker_inv_def btm.inv_rem n_def)
  next
    case False
    then have "\<not> (of_nat n :: usize) \<le> 1" using n u by (simp add: word_le_nat_alt)
    moreover have "(of_nat n :: usize) - 1 = of_nat (n - 1)" using n by simp
    moreover have "set_mset (owned - {#p#}) = set_mset owned"
      using False n by (auto simp: n_def in_diff_count dest: in_diffD simp flip: count_greater_zero_iff)
    moreover have "p \<in># owned - {#p#}" using False n by (simp add: n_def in_diff_count del: count_greater_zero_iff)
    ultimately show ?thesis using get inv u n
      by (auto simp: tracker_inv_def btm.inv_ins n_def count_single intro: le_less_trans [OF diff_le_self])
  qed
qed

lemma tracker_inv_give_back:
  assumes "tracker_inv rc owned limbo lv" and "p \<in> set limbo"
  shows "tracker_inv rc owned (remove1 p limbo) (lv - {p})"
  using assms by (auto simp: tracker_inv_def)

text \<open>What the trackers rely on: a pool hands out frames that are not out already, takes back every
  frame that is out without panicking, and keeps its invariant.\<close>

locale frame_pool =
  fixes pinv :: "'p \<Rightarrow> bool"
    and plive :: "'p \<Rightarrow> usize set"
    and palloc :: "'p \<Rightarrow> phys_page_num option \<times> 'p"
    and pcontig :: "usize \<Rightarrow> 'p \<Rightarrow> phys_page_num option \<times> 'p"
    and pdealloc :: "phys_page_num \<Rightarrow> 'p \<Rightarrow> 'p option"
  assumes alloc_law: "pinv p \<Longrightarrow> palloc p = (Some f, p') \<Longrightarrow>
      pinv p' \<and> ppn_val f \<notin> plive p \<and> plive p' = insert (ppn_val f) (plive p)"
    and contig_law: "pinv p \<Longrightarrow> pcontig n p = (Some f, p') \<Longrightarrow>
      pinv p' \<and> ppn_val ` set (contiguous_pages f n) \<inter> plive p = {} \<and>
      distinct (map ppn_val (contiguous_pages f n)) \<and>
      plive p' = plive p \<union> ppn_val ` set (contiguous_pages f n)"
    and dealloc_law: "pinv p \<Longrightarrow> ppn_val f \<in> plive p \<Longrightarrow>
      \<exists>p'. pdealloc f p = Some p' \<and> pinv p' \<and> plive p' = plive p - {ppn_val f}"
begin

definition pool_ok :: "'p \<Rightarrow> (usize, usize) btree_map \<Rightarrow> usize multiset \<Rightarrow> usize list \<Rightarrow> bool" where
  "pool_ok p rc owned limbo \<longleftrightarrow> pinv p \<and> tracker_inv rc owned limbo (plive p)"

lemma pool_alloc:
  assumes "pool_ok p rc owned limbo" and "palloc p = (Some f, p')"
  shows "pool_ok p' (btm_insert (ppn_val f) 1 rc) (add_mset (ppn_val f) owned) limbo \<and>
    ppn_val f \<notin># owned \<and> ppn_val f \<notin> set limbo"
  using assms alloc_law [of p f p'] tracker_inv_new [of rc owned limbo "plive p" "ppn_val f"]
  by (auto simp: pool_ok_def) (auto simp: tracker_inv_def)

lemma pool_contig:
  assumes "pool_ok p rc owned limbo" and "pcontig n p = (Some f, p')"
  shows "pool_ok p' rc owned (map ppn_val (contiguous_pages f n) @ limbo)"
  using assms contig_law [of p n f p'] by (auto simp: pool_ok_def tracker_inv_def)

lemma pool_dealloc:
  assumes "pool_ok p rc owned limbo" and "ppn_val f \<in> set limbo"
  shows "\<exists>p'. pdealloc f p = Some p' \<and> pool_ok p' rc owned (remove1 (ppn_val f) limbo)"
proof -
  from assms have "ppn_val f \<in> plive p" by (auto simp: pool_ok_def tracker_inv_def)
  with assms show ?thesis
    using dealloc_law [of p f] tracker_inv_give_back by (fastforce simp: pool_ok_def)
qed

end

interpretation fp: frame_pool "fa_inv ar" live "alloc ar" "alloc_contiguous ar" dealloc for ar
proof
  show "fa_inv ar p' \<and> ppn_val f \<notin> live p \<and> live p' = insert (ppn_val f) (live p)"
    if "fa_inv ar p" "alloc ar p = (Some f, p')" for p f p'
    using alloc_fresh [OF that] by simp
  show "fa_inv ar p' \<and> ppn_val ` set (contiguous_pages f n) \<inter> live p = {} \<and>
      distinct (map ppn_val (contiguous_pages f n)) \<and>
      live p' = live p \<union> ppn_val ` set (contiguous_pages f n)"
    if "fa_inv ar p" "alloc_contiguous ar n p = (Some f, p')" for p n f p'
    using alloc_contiguous_fresh [OF that] by simp
  show "\<exists>p'. dealloc f p = Some p' \<and> fa_inv ar p' \<and> live p' = live p - {ppn_val f}"
    if "fa_inv ar p" "ppn_val f \<in> live p" for p f
    using dealloc_live [OF that] by blast
qed

section \<open>The operations on trackers keep the contract\<close>

definition frames_ok :: "arch \<Rightarrow> 'a frame_state_scheme \<Rightarrow> usize multiset \<Rightarrow> usize list \<Rightarrow> bool" where
  "frames_ok ar s owned limbo \<longleftrightarrow> fp.pool_ok ar (frame_allocator s) (frame_refcounts s) owned limbo"

lemma frames_ok_alloc_tracked:
  assumes "frames_ok ar s owned limbo" and "alloc_tracked ar s = (Some p, s')"
  shows "frames_ok ar s' (add_mset (ppn_val p) owned) limbo \<and>
    ppn_val p \<notin># owned \<and> ppn_val p \<notin> set limbo \<and>
    frame_bytes s' = (frame_bytes s)(ppn_val p := replicate 4096 0)"
proof -
  from assms(2) obtain a where "alloc ar (frame_allocator s) = (Some p, a)"
    and s': "s' = tracker_new p (s\<lparr>frame_allocator := a\<rparr>)"
    by (auto simp: alloc_tracked_def split: prod.splits option.splits)
  from fp.pool_alloc [OF assms(1) [unfolded frames_ok_def] this(1)] show ?thesis
    by (simp add: s' frames_ok_def tracker_new_def PAGE_SIZE_def)
qed

lemma alloc_tracked_None: "alloc_tracked ar s = (None, s') \<Longrightarrow> s' = s"
  by (auto simp: alloc_tracked_def split: prod.splits option.splits)

lemma frames_ok_track:
  assumes "frames_ok ar s owned limbo" and "ppn_val p \<in> set limbo"
  shows "frames_ok ar (tracker_new p s) (add_mset (ppn_val p) owned) (remove1 (ppn_val p) limbo)"
  using assms tracker_inv_track by (simp add: frames_ok_def fp.pool_ok_def tracker_new_def)

lemma frames_ok_clone:
  assumes "frames_ok ar s owned limbo" and "ppn_val p \<in># owned" and "count owned (ppn_val p) + 1 < 2 ^ 64"
  shows "frames_ok ar (tracker_clone p s) (add_mset (ppn_val p) owned) limbo"
  using assms tracker_inv_clone [of "frame_refcounts s" owned limbo _ "ppn_val p"]
  by (auto simp: frames_ok_def fp.pool_ok_def tracker_clone_def)

lemma frames_ok_release:
  assumes "frames_ok ar s owned limbo" and "ppn_val p \<in># owned"
    and rel: "tracker_release p s = (last_ref, s')"
  shows "frames_ok ar s' (owned - {#ppn_val p#}) (if last_ref then ppn_val p # limbo else limbo)"
    and "last_ref \<longleftrightarrow> count owned (ppn_val p) = 1"
proof -
  from assms(1) have inv: "tracker_inv (frame_refcounts s) owned limbo (live (frame_allocator s))"
    and pool: "fa_inv ar (frame_allocator s)" by (simp_all add: frames_ok_def fp.pool_ok_def)
  from tracker_inv_release [OF inv assms(2)] obtain cnt where
    cnt: "btm_get (frame_refcounts s) (ppn_val p) = Some cnt" "unat cnt = count owned (ppn_val p)"
    "if cnt \<le> 1 then tracker_inv (btm_remove (ppn_val p) (frame_refcounts s)) (owned - {#ppn_val p#})
         (ppn_val p # limbo) (live (frame_allocator s))
     else tracker_inv (btm_insert (ppn_val p) (cnt - 1) (frame_refcounts s)) (owned - {#ppn_val p#})
         limbo (live (frame_allocator s))" by blast
  have "0 < count owned (ppn_val p)" using assms(2) by simp
  then have "cnt \<le> 1 \<longleftrightarrow> count owned (ppn_val p) = 1"
    using cnt(2) by (simp add: word_le_nat_alt del: count_greater_zero_iff) linarith
  then show "frames_ok ar s' (owned - {#ppn_val p#}) (if last_ref then ppn_val p # limbo else limbo)"
    and "last_ref \<longleftrightarrow> count owned (ppn_val p) = 1"
    using cnt pool rel by (auto simp: tracker_release_def frames_ok_def fp.pool_ok_def split: if_splits)
qed

lemma frames_ok_dealloc:
  assumes "frames_ok ar s owned limbo" and "ppn_val p \<in> set limbo"
  shows "\<exists>s'. frame_dealloc p s = Some s' \<and> frames_ok ar s' owned (remove1 (ppn_val p) limbo) \<and>
    (\<exists>a. s' = s\<lparr>frame_allocator := a\<rparr>)"
proof -
  from fp.pool_dealloc [OF assms(1) [unfolded frames_ok_def] assms(2)] obtain a where
    "dealloc p (frame_allocator s) = Some a"
    "fp.pool_ok ar a (frame_refcounts s) owned (remove1 (ppn_val p) limbo)" by blast
  then show ?thesis by (auto simp: frame_dealloc_def frames_ok_def)
qed

lemma frames_ok_drop:
  assumes "frames_ok ar s owned limbo" and "ppn_val p \<in># owned"
  shows "\<exists>s'. tracker_drop p s = Some s' \<and> frames_ok ar s' (owned - {#ppn_val p#}) limbo"
proof -
  obtain last_ref s1 where rel: "tracker_release p s = (last_ref, s1)" by fastforce
  have ok: "frames_ok ar s1 (owned - {#ppn_val p#}) (if last_ref then ppn_val p # limbo else limbo)"
    by (rule frames_ok_release [OF assms rel])
  show ?thesis
  proof (cases last_ref)
    case True
    with ok frames_ok_dealloc [of ar s1 "owned - {#ppn_val p#}" "ppn_val p # limbo" p] show ?thesis
      by (auto simp: tracker_drop_def rel)
  qed (use ok in \<open>simp add: tracker_drop_def rel\<close>)
qed

text \<open>\<open>frame_alloc_contiguous\<close> tracks the pages it took one after the other.\<close>

lemma frames_ok_track_all:
  assumes "frames_ok ar s owned (map ppn_val ps @ limbo)"
  shows "frames_ok ar (fold tracker_new ps s) (mset (map ppn_val ps) + owned) limbo"
  using assms
proof (induction ps arbitrary: s owned)
  case (Cons p ps)
  from frames_ok_track [OF Cons.prems, of p]
  have "frames_ok ar (tracker_new p s) (add_mset (ppn_val p) owned) (map ppn_val ps @ limbo)" by simp
  from Cons.IH [OF this] show ?case by simp
qed simp

lemma frames_ok_alloc_contiguous:
  assumes "frames_ok ar s owned limbo" and "frame_alloc_contiguous ar n s = (Some ps, s')"
  shows "frames_ok ar s' (mset (map ppn_val ps) + owned) limbo"
proof -
  from assms(2) obtain f a where al: "alloc_contiguous ar n (frame_allocator s) = (Some f, a)"
    and ps: "ps = contiguous_pages f n" and s': "s' = fold tracker_new ps (s\<lparr>frame_allocator := a\<rparr>)"
    by (auto simp: frame_alloc_contiguous_def Let_def split: prod.splits option.splits)
  have "frames_ok ar (s\<lparr>frame_allocator := a\<rparr>) owned (map ppn_val ps @ limbo)"
    using fp.pool_contig [OF assms(1) [unfolded frames_ok_def] al] by (simp add: frames_ok_def ps)
  then show ?thesis unfolding s' by (rule frames_ok_track_all)
qed

section \<open>Interleavings\<close>

text \<open>A configuration is the global state with the trackers in existence and the frames in limbo. Each
  step is one critical section of one operation, on whatever hart: \<open>frame_alloc\<close> makes the tracker
  under the allocator lock, \<open>frame_alloc_contiguous\<close> takes the pages first and tracks them later,
  and \<open>drop\<close> gives the frame back after it released the lock of the counts.\<close>

type_synonym frame_config = "frame_state \<times> usize multiset \<times> usize list"

inductive frame_step :: "arch \<Rightarrow> frame_config \<Rightarrow> frame_config \<Rightarrow> bool" for ar where
  Alloc: "alloc_tracked ar s = (Some p, s') \<Longrightarrow>
    frame_step ar (s, owned, limbo) (s', add_mset (ppn_val p) owned, limbo)"
| Take: "alloc_contiguous ar n (frame_allocator s) = (Some f, a) \<Longrightarrow>
    frame_step ar (s, owned, limbo)
      (s\<lparr>frame_allocator := a\<rparr>, owned, map ppn_val (contiguous_pages f n) @ limbo)"
| Track: "ppn_val p \<in> set limbo \<Longrightarrow>
    frame_step ar (s, owned, limbo)
      (tracker_new p s, add_mset (ppn_val p) owned, remove1 (ppn_val p) limbo)"
| Clone: "ppn_val p \<in># owned \<Longrightarrow> count owned (ppn_val p) + 1 < 2 ^ 64 \<Longrightarrow>
    frame_step ar (s, owned, limbo) (tracker_clone p s, add_mset (ppn_val p) owned, limbo)"
| Release: "ppn_val p \<in># owned \<Longrightarrow> tracker_release p s = (last_ref, s') \<Longrightarrow>
    frame_step ar (s, owned, limbo)
      (s', owned - {#ppn_val p#}, if last_ref then ppn_val p # limbo else limbo)"
| Give_back: "ppn_val p \<in> set limbo \<Longrightarrow> frame_dealloc p s = Some s' \<Longrightarrow>
    frame_step ar (s, owned, limbo) (s', owned, remove1 (ppn_val p) limbo)"
| Write: "ppn_val p \<in># owned \<Longrightarrow> length bs = 4096 \<Longrightarrow>
    frame_step ar (s, owned, limbo)
      (s\<lparr>frame_bytes := (frame_bytes s)(ppn_val p := bs)\<rparr>, owned, limbo)"

inductive frame_reach :: "arch \<Rightarrow> stack_frame_allocator \<Rightarrow> frame_config \<Rightarrow> bool" for ar a0 where
  Boot: "frame_allocator s = a0 \<Longrightarrow> frame_refcounts s = [] \<Longrightarrow> frame_reach ar a0 (s, {#}, [])"
| Step: "frame_reach ar a0 c \<Longrightarrow> frame_step ar c c' \<Longrightarrow> frame_reach ar a0 c'"

lemma frames_ok_step:
  assumes "frames_ok ar s owned limbo" and "frame_step ar (s, owned, limbo) (s', owned', limbo')"
  shows "frames_ok ar s' owned' limbo'"
  using assms(2)
proof cases
  case (Take n f a)
  with fp.pool_contig [OF assms(1) [unfolded frames_ok_def], of n f a] show ?thesis
    by (simp add: frames_ok_def)
next
  case (Release p last_ref)
  with frames_ok_release(1) [OF assms(1)] show ?thesis by blast
next
  case (Give_back p)
  with frames_ok_dealloc [OF assms(1), of p] show ?thesis by auto
next
  case (Write p bs)
  with assms(1) show ?thesis by (simp add: frames_ok_def)
qed (use assms(1) frames_ok_alloc_tracked frames_ok_track frames_ok_clone in blast)+

definition boot_allocator_ok :: "arch \<Rightarrow> stack_frame_allocator \<Rightarrow> bool" where
  "boot_allocator_ok ar a \<longleftrightarrow> fa_inv ar a \<and> live a = {}"

lemma frames_ok_reach:
  assumes "frame_reach ar a0 (s, owned, limbo)" and "boot_allocator_ok ar a0"
  shows "frames_ok ar s owned limbo"
  using assms(1)
proof (induction "(s, owned, limbo)" arbitrary: s owned limbo rule: frame_reach.induct)
  case (Boot s)
  with assms(2) show ?case
    by (simp add: frames_ok_def fp.pool_ok_def tracker_inv_def boot_allocator_ok_def)
next
  case (Step c s' owned' limbo')
  then show ?case using frames_ok_step by (metis prod_cases3)
qed

section \<open>The memory map at boot\<close>

text \<open>The in-place merge of the exclusion array is the merge of \<open>memory_set/range.rs\<close>.\<close>

lemma merge_in_place_step:
  assumes "m \<le> i" and "i < length ex" and "fst (ex ! i) < snd (ex ! i)"
  shows "if m \<noteq> 0 \<and> fst (ex ! i) \<le> snd (ex ! (m - 1))
    then push_range_merged (take m ex) (fst (ex ! i)) (snd (ex ! i)) =
      take m (ex[m - 1 := (fst (ex ! (m - 1)), max (snd (ex ! (m - 1))) (snd (ex ! i)))])
    else push_range_merged (take m ex) (fst (ex ! i)) (snd (ex ! i)) = take (m + 1) (ex[m := ex ! i])"
proof (cases "m = 0")
  case True
  with assms show ?thesis
    by (cases ex) (auto simp: push_range_merged_def)
next
  case False
  then obtain k where m: "m = Suc k" by (cases m) auto
  with assms have k: "k < length ex" by simp
  then have tk: "take m ex = take k ex @ [ex ! k]" by (simp add: m take_Suc_conv_app_nth)
  have ne: "take m ex \<noteq> []" using tk by simp
  have last: "last (take m ex) = ex ! (m - 1)" "butlast (take m ex) = take k ex"
    using tk m by simp_all
  have "m < length ex" using assms by simp
  then have "take (m + 1) (ex[m := ex ! i]) = take m ex @ [ex ! i]"
    by (simp add: take_Suc_conv_app_nth)
  moreover have "take m (ex[m - 1 := v]) = take k ex @ [v]" for v
    using k by (simp add: m take_Suc_conv_app_nth)
  ultimately show ?thesis
    using assms(3) ne last False by (auto simp: push_range_merged_def)
qed

lemma merge_in_place_merge_all:
  assumes "m \<le> i" and "i \<le> length ex" and "\<forall>r\<in>set (drop i ex). fst r < snd r"
  shows "(case merge_in_place ex [i..<length ex] m of (ex', n) \<Rightarrow> take n ex') = merge_all (take m ex) (drop i ex)"
  using assms
proof (induction "length ex - i" arbitrary: i m ex)
  case (Suc d)
  then have i: "i < length ex" by simp
  then have upt: "[i..<length ex] = i # [Suc i..<length ex]" by (rule upt_conv_Cons)
  have dr: "drop i ex = ex ! i # drop (Suc i) ex" using i by (rule Cons_nth_drop_Suc [symmetric])
  have ne: "fst (ex ! i) < snd (ex ! i)" using Suc.prems(3) dr by simp
  note step = merge_in_place_step [OF Suc.prems(1) i ne]
  obtain s e where se: "ex ! i = (s, e)" by fastforce
  show ?case
  proof (cases "m \<noteq> 0 \<and> s \<le> snd (ex ! (m - 1))")
    case True
    let ?ex = "ex[m - 1 := (fst (ex ! (m - 1)), max (snd (ex ! (m - 1))) e)]"
    have "drop (Suc i) ?ex = drop (Suc i) ex" using True Suc.prems(1) by simp
    moreover have "(case merge_in_place ?ex [Suc i..<length ?ex] m of (ex', n) \<Rightarrow> take n ex') =
        merge_all (take m ?ex) (drop (Suc i) ?ex)"
      by (rule Suc.hyps(1)) (use Suc.hyps(2) Suc.prems i dr True in auto)
    ultimately show ?thesis using True step by (simp add: upt dr se)
  next
    case False
    let ?ex = "ex[m := ex ! i]"
    have "drop (Suc i) ?ex = drop (Suc i) ex" using Suc.prems(1) by simp
    moreover have "(case merge_in_place ?ex [Suc i..<length ?ex] (m + 1) of (ex', n) \<Rightarrow> take n ex') =
        merge_all (take (m + 1) ?ex) (drop (Suc i) ?ex)"
      by (rule Suc.hyps(1)) (use Suc.hyps(2) Suc.prems i dr in auto)
    ultimately show ?thesis using False step by (auto simp: upt dr se)
  qed
qed simp

lemma merged_exclusions_normalize:
  assumes "\<forall>r\<in>set ex. fst r < snd r"
  shows "merged_exclusions ex = normalize_ranges ex"
  using merge_in_place_merge_all [of 0 0 "sort_key fst ex"] assms
  by (simp add: merged_exclusions_def normalize_ranges_def)

text \<open>While the ranges are added nothing is handed out.\<close>

definition booting :: "arch \<Rightarrow> stack_frame_allocator \<Rightarrow> bool" where
  "booting ar a \<longleftrightarrow> fa_inv ar a \<and> used_pages (fa_ranges a) = {}"

lemma booting_add_range:
  assumes a: "booting ar a" and free: "{l..<r} \<inter> spans (fa_ranges a) = {}"
    and r: "unat r \<le> 2 ^ PPN_WIDTH ar"
  shows "booting ar (add_range (PhysPageNum l) (PhysPageNum r) a) \<and>
    spans (fa_ranges (add_range (PhysPageNum l) (PhysPageNum r) a)) = spans (fa_ranges a) \<union> {l..<r}"
proof (cases "r \<le> l")
  case False
  let ?new = "\<lparr>fr_start = l, fr_current = l, fr_end = r\<rparr>"
  have inv: "fa_inv ar a" "used_pages (fa_ranges a) = {}" using a by (auto simp: booting_def)
  have "\<forall>x\<in>set (fa_ranges a). span x \<inter> span ?new = {}"
  proof -
    have "span ?new = {l..<r}" by (simp add: span_def)
    with free show ?thesis unfolding spans_def by blast
  qed
  moreover have "frange_wf ar ?new" using r False by (simp add: frange_wf_def)
  ultimately have wf: "franges_wf ar (fa_ranges a @ [?new])"
    using inv(1) by (simp add: fa_inv_def franges_wf_def sorted_wrt_append)
  have card: "card (spans (fa_ranges a @ [?new])) = unat (managed_pages a) + (unat r - unat l)"
    using inv(1) free
    by (simp add: fa_inv_def span_def card_Un_disjoint Int_commute card_word_interval)
  then have "unat (saturating_add (managed_pages a) (saturating_sub r l)) = unat (managed_pages a) + (unat r - unat l)"
    using card_spans_le [OF wf] by (simp add: unat_saturating_add unat_saturating_sub)
  with False inv wf card show ?thesis
    by (auto simp: booting_def add_range_def fa_inv_def used_def span_def)
qed (use assms in \<open>simp add: add_range_def\<close>)

lemma normal_ranges_starts: "normal_ranges (r # rs) \<Longrightarrow> x \<in> covers (r # rs) \<Longrightarrow> fst r \<le> x"
  using normal_ranges_tail_above [of r rs x] normal_ranges_head [of r rs] by force

lemma interval_cut:
  fixes c h l stop :: "'a::linorder"
  assumes "c < h" and "l < stop" and "l < h" and "\<And>x. x \<in> C \<Longrightarrow> h < x"
  shows "{c..<stop} - ({l..<h} \<union> C) = {c..<l} \<union> ({h..<stop} - C)"
proof -
  have "x \<notin> C" if "x < l" for x using that assms(3) assms(4) [of x] by auto
  with assms(1,2,3) show ?thesis by auto
qed

text \<open>Carving one memory range: the pages it adds are those of the range outside the exclusions.\<close>

definition carve_rest :: "usize \<Rightarrow> usize \<times> stack_frame_allocator \<Rightarrow> stack_frame_allocator" where
  "carve_rest end_ppn ca =
     (if fst ca < end_ppn then add_range (PhysPageNum (fst ca)) (PhysPageNum end_ppn) (snd ca) else snd ca)"

lemma carve_loop_pages:
  assumes "normal_ranges ex" and "cursor < stop" and "unat stop \<le> 2 ^ PPN_WIDTH ar"
    and "booting ar a" and "{cursor..<stop} \<inter> spans (fa_ranges a) = {}"
  shows "booting ar (carve_rest stop (carve_loop stop ex cursor a)) \<and>
    spans (fa_ranges (carve_rest stop (carve_loop stop ex cursor a))) =
      spans (fa_ranges a) \<union> ({cursor..<stop} - covers ex)"
  using assms
proof (induction ex arbitrary: cursor a)
  case Nil
  then show ?case using booting_add_range [of ar a cursor stop] by (simp add: carve_rest_def)
next
  case (Cons e ex)
  have e: "fst e < snd e" "normal_ranges ex" using normal_ranges_head [OF Cons.prems(1)] by auto
  consider (before) "snd e \<le> cursor" | (after) "cursor < snd e" "stop \<le> fst e"
    | (inside) "cursor < snd e" "fst e < stop" by (metis leI)
  then show ?case
  proof cases
    case before
    then have "{cursor..<stop} - covers (e # ex) = {cursor..<stop} - covers ex" by auto
    with before Cons.IH [OF e(2) Cons.prems(2-5)] show ?thesis by simp
  next
    case after
    then have "{cursor..<stop} - covers (e # ex) = {cursor..<stop}"
      using normal_ranges_starts [OF Cons.prems(1)] by force
    moreover have "\<not> snd e \<le> cursor" using after by simp
    ultimately show ?thesis
      using after Cons.prems booting_add_range [of ar a cursor stop] by (simp add: carve_rest_def)
  next
    case inside
    define a' where "a' = (if cursor < fst e
      then add_range (PhysPageNum cursor) (PhysPageNum (min (fst e) stop)) a else a)"
    have neg: "\<not> snd e \<le> cursor" "\<not> stop \<le> fst e" using inside by simp_all
    have m: "min (fst e) stop = fst e" "max cursor (snd e) = snd e" using inside by (auto simp: min_def max_def)
    have "unat (fst e) \<le> 2 ^ PPN_WIDTH ar"
      using inside(2) Cons.prems(3) by (simp add: word_less_nat_alt)
    moreover have "{cursor..<fst e} \<inter> spans (fa_ranges a) = {}"
    proof -
      have "{cursor..<fst e} \<subseteq> {cursor..<stop}" using inside(2) by auto
      with Cons.prems(5) show ?thesis by blast
    qed
    ultimately have a': "booting ar a' \<and> spans (fa_ranges a') = spans (fa_ranges a) \<union> {cursor..<fst e}"
      using booting_add_range [OF Cons.prems(4), of cursor "fst e"] Cons.prems(4) by (auto simp: a'_def m)
    have split: "{cursor..<stop} - covers (e # ex) = {cursor..<fst e} \<union> ({snd e..<stop} - covers ex)"
      using interval_cut [OF inside e(1), of "covers ex"] normal_ranges_tail_above [OF Cons.prems(1)] by simp
    show ?thesis
    proof (cases "stop \<le> snd e")
      case True
      then have "carve_loop stop (e # ex) cursor a = (snd e, a')"
        using neg by (simp add: a'_def m Let_def)
      moreover have "\<not> snd e < stop" "{snd e..<stop} = {}" using True by simp_all
      ultimately show ?thesis using a' split by (simp add: carve_rest_def)
    next
      case False
      then have "carve_loop stop (e # ex) cursor a = carve_loop stop ex (snd e) a'"
        using neg by (simp add: a'_def m Let_def)
      moreover have "{snd e..<stop} \<inter> spans (fa_ranges a') = {}"
      proof -
        have "{snd e..<stop} \<subseteq> {cursor..<stop}" "{snd e..<stop} \<inter> {cursor..<fst e} = {}"
          using inside(1) e(1) by auto
        with a' Cons.prems(5) show ?thesis by blast
      qed
      ultimately show ?thesis
        using Cons.IH [OF e(2) _ Cons.prems(3), of "snd e" a'] False a' unfolding split by auto
    qed
  qed
qed

lemma carve_pages:
  assumes "normal_ranges ex" and "booting ar a"
    and free: "{ppn_val (pa_ceil (pa_from_usize ar (fst mem)))..<ppn_val (pa_floor (pa_from_usize ar (snd mem)))}
      \<inter> spans (fa_ranges a) = {}"
  shows "booting ar (carve ar ex mem a) \<and> spans (fa_ranges (carve ar ex mem a)) = spans (fa_ranges a) \<union>
    ({ppn_val (pa_ceil (pa_from_usize ar (fst mem)))..<ppn_val (pa_floor (pa_from_usize ar (snd mem)))} - covers ex)"
proof -
  let ?s = "ppn_val (pa_ceil (pa_from_usize ar (fst mem)))"
    and ?e = "ppn_val (pa_floor (pa_from_usize ar (snd mem)))"
  have "unat (pa_val (pa_from_usize ar (snd mem))) < 2 ^ PA_WIDTH ar"
    by (simp add: pa_from_usize_def unat_and_low_bits)
  then have e: "unat ?e \<le> 2 ^ PPN_WIDTH ar"
    by (cases ar) (simp_all add: unat_pa_floor PPN_WIDTH_def PAGE_SIZE_BITS_def)
  show ?thesis
  proof (cases "?e \<le> ?s")
    case True
    then have "{?s..<?e} = {}" by simp
    with True assms(2) show ?thesis by (simp add: carve_def)
  next
    case False
    then have "carve ar ex mem a = carve_rest ?e (carve_loop ?e ex ?s a)"
      by (simp add: carve_def carve_rest_def case_prod_beta Let_def)
    with carve_loop_pages [OF assms(1) _ e assms(2) free] False show ?thesis by simp
  qed
qed

text \<open>Addresses as the allocator sees them: \<open>PhysAddr::from\<close> keeps the low bits.\<close>

definition pa_nat :: "arch \<Rightarrow> usize \<Rightarrow> nat" where
  "pa_nat ar v = unat (pa_val (pa_from_usize ar v))"

lemma pa_nat_less: "pa_nat ar v < 2 ^ 56"
proof -
  have "(2::nat) ^ PA_WIDTH ar \<le> 2 ^ 56" by (cases ar) simp_all
  moreover have "pa_nat ar v < 2 ^ PA_WIDTH ar" by (simp add: pa_nat_def pa_from_usize_def unat_and_low_bits)
  ultimately show ?thesis by linarith
qed

lemma pa_page_bounds:
  "ppn_val (pa_ceil (pa_from_usize ar v)) \<le> p \<longleftrightarrow> pa_nat ar v \<le> unat p * 4096"
  "p < ppn_val (pa_ceil (pa_from_usize ar v)) \<longleftrightarrow> unat p * 4096 < pa_nat ar v"
  "ppn_val (pa_floor (pa_from_usize ar v)) \<le> p \<longleftrightarrow> pa_nat ar v < (unat p + 1) * 4096"
  "p < ppn_val (pa_floor (pa_from_usize ar v)) \<longleftrightarrow> (unat p + 1) * 4096 \<le> pa_nat ar v"
proof -
  let ?n = "pa_nat ar v"
  have up: "unat (ppn_val (pa_ceil (pa_from_usize ar v))) = (?n + 4095) div 4096"
    using pa_nat_less [of ar v] unfolding pa_nat_def by (intro unat_pa_ceil) simp
  have down: "unat (ppn_val (pa_floor (pa_from_usize ar v))) = ?n div 4096"
    by (simp add: pa_nat_def unat_pa_floor)
  have ceil: "(?n + 4095) div 4096 \<le> unat p \<longleftrightarrow> ?n \<le> unat p * 4096"
    using div_less_iff_less_mult [of 4096 "?n + 4095" "unat p + 1"] by (auto simp: less_Suc_eq_le)
  show "ppn_val (pa_ceil (pa_from_usize ar v)) \<le> p \<longleftrightarrow> ?n \<le> unat p * 4096"
    "p < ppn_val (pa_ceil (pa_from_usize ar v)) \<longleftrightarrow> unat p * 4096 < ?n"
    using ceil by (auto simp: word_le_nat_alt word_less_nat_alt up)
  have floor: "?n div 4096 \<le> unat p \<longleftrightarrow> ?n < (unat p + 1) * 4096"
    using div_less_iff_less_mult [of 4096 "?n" "unat p + 1"] by (auto simp: less_Suc_eq_le)
  show "ppn_val (pa_floor (pa_from_usize ar v)) \<le> p \<longleftrightarrow> ?n < (unat p + 1) * 4096"
    "p < ppn_val (pa_floor (pa_from_usize ar v)) \<longleftrightarrow> (unat p + 1) * 4096 \<le> ?n"
    using floor by (auto simp: word_le_nat_alt word_less_nat_alt down)
qed

text \<open>Page \<open>p\<close> lies wholly inside a range; page \<open>p\<close> touches a range.\<close>

definition page_inside :: "arch \<Rightarrow> usize \<Rightarrow> usize \<times> usize \<Rightarrow> bool" where
  "page_inside ar p r \<longleftrightarrow> pa_nat ar (fst r) \<le> unat p * 4096 \<and> (unat p + 1) * 4096 \<le> pa_nat ar (snd r)"

definition page_touches :: "arch \<Rightarrow> usize \<Rightarrow> usize \<times> usize \<Rightarrow> bool" where
  "page_touches ar p r \<longleftrightarrow> pa_nat ar (fst r) < (unat p + 1) * 4096 \<and> unat p * 4096 < pa_nat ar (snd r)"

definition disjoint_regions :: "arch \<Rightarrow> ranges \<Rightarrow> bool" where
  "disjoint_regions ar rs \<longleftrightarrow>
     sorted_wrt (\<lambda>a b. {pa_nat ar (fst a)..<pa_nat ar (snd a)} \<inter> {pa_nat ar (fst b)..<pa_nat ar (snd b)} = {}) rs"

lemma carve_interval:
  "{ppn_val (pa_ceil (pa_from_usize ar (fst m)))..<ppn_val (pa_floor (pa_from_usize ar (snd m)))} =
   {p. page_inside ar p m}"
  by (auto simp: page_inside_def pa_page_bounds)

lemma page_inside_disjoint:
  assumes "{pa_nat ar (fst a)..<pa_nat ar (snd a)} \<inter> {pa_nat ar (fst b)..<pa_nat ar (snd b)} = {}"
  shows "\<not> (page_inside ar p a \<and> page_inside ar p b)"
proof
  assume "page_inside ar p a \<and> page_inside ar p b"
  then have "unat p * 4096 \<in> {pa_nat ar (fst a)..<pa_nat ar (snd a)} \<inter> {pa_nat ar (fst b)..<pa_nat ar (snd b)}"
    by (auto simp: page_inside_def)
  with assms show False by blast
qed

lemma add_exclusions_Some:
  assumes "length ex + length rs \<le> 17" and "\<forall>r\<in>set ex. fst r < snd r"
  shows "\<exists>ex'. add_exclusions ar rs ex = Some ex' \<and> (\<forall>r\<in>set ex'. fst r < snd r) \<and>
    covers ex' = covers ex \<union> {p. \<exists>r\<in>set rs. page_touches ar p r}"
  using assms
proof (induction rs arbitrary: ex)
  case (Cons r rs)
  let ?s = "ppn_val (pa_floor (pa_from_usize ar (fst r)))" and ?e = "ppn_val (pa_ceil (pa_from_usize ar (snd r)))"
  have pages: "{?s..<?e} = {p. page_touches ar p r}"
    by (auto simp: page_touches_def pa_page_bounds)
  define ex1 where "ex1 = (if ?e \<le> ?s then ex else ex @ [(?s, ?e)])"
  have add: "add_exclusion ar (fst r) (snd r) ex = Some ex1"
    using Cons.prems(1) by (simp add: add_exclusion_def Let_def ex1_def MAX_RESERVED_MEMORY_REGIONS_def)
  have "covers ex1 = covers ex \<union> {p. page_touches ar p r}"
    unfolding pages [symmetric] by (simp add: ex1_def)
  moreover have "length ex1 + length rs \<le> 17" "\<forall>r\<in>set ex1. fst r < snd r"
    using Cons.prems by (auto simp: ex1_def)
  note Cons.IH [OF this]
  ultimately show ?case by (auto simp: add)
qed simp

lemma carve_fold_pages:
  assumes "normal_ranges ex" and "disjoint_regions ar mem" and "booting ar a"
    and "\<forall>m\<in>set mem. {p. page_inside ar p m} \<inter> spans (fa_ranges a) = {}"
  shows "booting ar (fold (carve ar ex) mem a) \<and> spans (fa_ranges (fold (carve ar ex) mem a)) =
    spans (fa_ranges a) \<union> ({p. \<exists>m\<in>set mem. page_inside ar p m} - covers ex)"
  using assms(2-)
proof (induction mem arbitrary: a)
  case (Cons m mem)
  have step: "booting ar (carve ar ex m a) \<and> spans (fa_ranges (carve ar ex m a)) =
      spans (fa_ranges a) \<union> ({p. page_inside ar p m} - covers ex)"
    using carve_pages [OF assms(1) Cons.prems(2), of m] Cons.prems(3) by (simp add: carve_interval)
  have "{p. page_inside ar p m'} \<inter> {p. page_inside ar p m} = {}" if "m' \<in> set mem" for m'
    using that Cons.prems(1) page_inside_disjoint unfolding disjoint_regions_def by fastforce
  with step Cons.prems have "\<forall>m'\<in>set mem. {p. page_inside ar p m'} \<inter> spans (fa_ranges (carve ar ex m a)) = {}"
    by (simp add: Int_Un_distrib) blast
  from Cons.IH [OF _ _ this] step Cons.prems(1) show ?case by (auto simp: disjoint_regions_def)
qed simp

section \<open>Properties\<close>

text \<open>C22: Boot hands the allocator exactly the right pages. With at most sixteen reserved regions
  initialisation does not panic, and a page is managed exactly when it lies wholly inside one of the
  (disjoint) memory regions of the device tree and touches neither the kernel image nor a reserved
  region; every managed page is free.\<close>

theorem init_frame_allocator_exact:
  assumes "length reserved \<le> 16" and "disjoint_regions ar mem"
  shows "\<exists>a. init_frame_allocator ar stext ekernel reserved mem = Some a \<and> boot_allocator_ok ar a \<and>
    (\<forall>p. p \<in> spans (fa_ranges a) \<longleftrightarrow>
      (\<exists>m\<in>set mem. page_inside ar p m) \<and>
      \<not> (\<exists>r\<in>set ((stext, ekernel) # reserved). page_touches ar p r))"
proof -
  from add_exclusions_Some [of "[]" "(stext, ekernel) # reserved" ar] assms(1)
  obtain ex where ex: "add_exclusions ar ((stext, ekernel) # reserved) [] = Some ex"
    "\<forall>r\<in>set ex. fst r < snd r"
    "covers ex = {p. \<exists>r\<in>set ((stext, ekernel) # reserved). page_touches ar p r}" by auto
  have normal: "normal_ranges (merged_exclusions ex)" "covers (merged_exclusions ex) = covers ex"
    using normalize_ranges_correct [of ex] by (simp_all add: merged_exclusions_normalize [OF ex(2)])
  let ?a0 = "allocator_init (PhysPageNum 0) (PhysPageNum 0) allocator_new"
  have a0: "booting ar ?a0" "spans (fa_ranges ?a0) = {}"
    by (simp_all add: allocator_init_def add_range_def allocator_new_def booting_def fa_inv_def franges_wf_def)
  note carved = carve_fold_pages [OF normal(1) assms(2) a0(1)]
  let ?a = "fold (carve ar (merged_exclusions ex)) mem ?a0"
  have "init_frame_allocator ar stext ekernel reserved mem = Some ?a"
    by (simp only: init_frame_allocator_def ex(1) option.map)
  moreover have "boot_allocator_ok ar ?a"
    using carved a0 by (simp add: boot_allocator_ok_def booting_def live_def)
  moreover have "spans (fa_ranges ?a) = {p. \<exists>m\<in>set mem. page_inside ar p m} - covers ex"
    using carved a0 normal(2) by simp
  ultimately show ?thesis unfolding ex(3) by blast
qed

theorem init_frame_allocator_exact_witness:
  "\<exists>a. init_frame_allocator Riscv64 0x80200000 0x80300000 [(0x80000000, 0x80040000)]
         [(0x80000000, 0x80400000)] = Some a \<and> boot_allocator_ok Riscv64 a \<and>
    0x80300 \<in> spans (fa_ranges a) \<and> 0x80200 \<notin> spans (fa_ranges a)"
proof -
  obtain a where a: "init_frame_allocator Riscv64 0x80200000 0x80300000 [(0x80000000, 0x80040000)]
         [(0x80000000, 0x80400000)] = Some a" "boot_allocator_ok Riscv64 a"
    "\<forall>p. p \<in> spans (fa_ranges a) \<longleftrightarrow>
      (\<exists>m\<in>set [(0x80000000, 0x80400000)]. page_inside Riscv64 p m) \<and>
      \<not> (\<exists>r\<in>set ((0x80200000, 0x80300000) # [(0x80000000, 0x80040000)]). page_touches Riscv64 p r)"
    using init_frame_allocator_exact [of "[(0x80000000, 0x80040000)]" Riscv64 "[(0x80000000, 0x80400000)]"
        "0x80200000" "0x80300000"]
    by (auto simp: disjoint_regions_def)
  have "0x80300 \<in> spans (fa_ranges a)" "0x80200 \<notin> spans (fa_ranges a)"
    unfolding a(3) [rule_format]
    by (simp_all add: page_inside_def page_touches_def pa_nat_def pa_from_usize_def unat_and_low_bits)
  with a show ?thesis by blast
qed

text \<open>C4: No interleaving of frame operations panics or frees a frame in use. In every configuration
  reached after boot, the table counts exactly the trackers in existence, dropping any of them
  succeeds, and so does giving back any frame that waits for it.\<close>

theorem frame_refcounts_exact:
  assumes "boot_allocator_ok ar a0" and "frame_reach ar a0 (s, owned, limbo)"
  shows "unat (frame_refcount s p) = count owned (ppn_val p) \<and>
    (ppn_val p \<in># owned \<longrightarrow> tracker_drop p s \<noteq> None) \<and>
    (ppn_val p \<in> set limbo \<longrightarrow> frame_dealloc p s \<noteq> None)"
proof -
  note ok = frames_ok_reach [OF assms(2,1)]
  then have "tracker_inv (frame_refcounts s) owned limbo (live (frame_allocator s))"
    by (simp add: frames_ok_def fp.pool_ok_def)
  then have "unat (frame_refcount s p) = count owned (ppn_val p)"
    by (auto simp: frame_refcount_def tracker_inv_def unat_of_nat_small not_in_iff)
  then show ?thesis
    using frames_ok_drop [OF ok, of p] frames_ok_dealloc [OF ok, of p] by auto
qed

text \<open>A small configuration for the witnesses: one range of two pages, one of them handed out.\<close>

definition demo_allocator :: stack_frame_allocator where
  "demo_allocator = \<lparr>fa_ranges = [\<lparr>fr_start = 5, fr_current = 5, fr_end = 7\<rparr>], recycled = [],
     recycled_set = [], managed_pages = 2\<rparr>"

definition demo_state :: frame_state where
  "demo_state = \<lparr>frame_allocator = demo_allocator, frame_refcounts = [], frame_bytes = (\<lambda>_. replicate 4096 1)\<rparr>"

lemma demo_allocator_ok: "boot_allocator_ok Riscv64 demo_allocator"
  by (simp add: boot_allocator_ok_def demo_allocator_def fa_inv_def franges_wf_def frange_wf_def
      span_def used_def live_def card_word_interval PPN_WIDTH_def PAGE_SIZE_BITS_def)

lemma demo_alloc:
  "alloc_tracked Riscv64 demo_state = (Some (PhysPageNum 5), snd (alloc_tracked Riscv64 demo_state))"
  by (simp add: alloc_tracked_def demo_state_def demo_allocator_def alloc_def ppn_from_usize_id
      PPN_WIDTH_def PAGE_SIZE_BITS_def)

lemma demo_boot: "frame_reach Riscv64 demo_allocator (demo_state, {#}, [])"
  by (rule frame_reach.Boot) (simp_all add: demo_state_def)

lemma demo_reach: "frame_reach Riscv64 demo_allocator (snd (alloc_tracked Riscv64 demo_state), {#5#}, [])"
  using frame_reach.Step [OF demo_boot frame_step.Alloc [OF demo_alloc]] by simp

theorem frame_refcounts_exact_witness:
  "unat (frame_refcount (snd (alloc_tracked Riscv64 demo_state)) (PhysPageNum 5)) = 1 \<and>
   tracker_drop (PhysPageNum 5) (snd (alloc_tracked Riscv64 demo_state)) \<noteq> None"
  using frame_refcounts_exact [OF demo_allocator_ok demo_reach, of "PhysPageNum 5"] by simp

text \<open>C27: A frame that is handed out is exclusive and clean: no tracker and no pending operation refers
  to it, all its bytes are zero, no other page changed, and its count is one.\<close>

theorem frame_alloc_exclusive:
  assumes "boot_allocator_ok ar a0" and "frame_reach ar a0 (s, owned, limbo)"
    and "alloc_tracked ar s = (Some p, s')"
  shows "ppn_val p \<notin># owned \<and> ppn_val p \<notin> set limbo \<and> frame_refcount s' p = 1 \<and>
    frame_bytes s' = (frame_bytes s)(ppn_val p := replicate 4096 0)"
proof -
  have "frame_refcount s' p = 1"
    using assms(3) by (auto simp: alloc_tracked_def tracker_new_def frame_refcount_def split: prod.splits option.splits)
  with frames_ok_alloc_tracked [OF frames_ok_reach [OF assms(2,1)] assms(3)] show ?thesis by simp
qed

theorem frame_alloc_exclusive_witness:
  "frame_refcount (snd (alloc_tracked Riscv64 demo_state)) (PhysPageNum 5) = 1 \<and>
   frame_bytes (snd (alloc_tracked Riscv64 demo_state)) = (frame_bytes demo_state)(5 := replicate 4096 0)"
  using frame_alloc_exclusive [OF demo_allocator_ok demo_boot demo_alloc] by simp

text \<open>No page is lost: the pages reported available and the frames in use add up to the managed
  pages in every reachable configuration, without wrap-around, and an allocation fails exactly when
  no page is available.\<close>

theorem frame_pages_conserved:
  assumes "boot_allocator_ok ar a0" and "frame_reach ar a0 (s, owned, limbo)"
  shows "unat (frame_available_pages s) + card (set_mset owned \<union> set limbo) = unat (frame_managed_pages s) \<and>
    (fst (alloc_tracked ar s) = None \<longleftrightarrow> frame_available_pages s = 0)"
proof -
  have inv: "fa_inv ar (frame_allocator s)" and "live (frame_allocator s) = set_mset owned \<union> set limbo"
    using frames_ok_reach [OF assms(2,1)] by (simp_all add: frames_ok_def fp.pool_ok_def tracker_inv_def)
  moreover have "fst (alloc_tracked ar s) = None \<longleftrightarrow> fst (alloc ar (frame_allocator s)) = None"
    by (auto simp: alloc_tracked_def split: prod.splits option.splits)
  ultimately show ?thesis
    using unat_available_pages [OF inv] alloc_fails_iff [OF inv]
    by (simp add: frame_available_pages_def frame_managed_pages_def fa_inv_def)
qed

theorem frame_pages_conserved_witness:
  "unat (frame_available_pages (snd (alloc_tracked Riscv64 demo_state))) + 1 =
   unat (frame_managed_pages (snd (alloc_tracked Riscv64 demo_state)))"
  using frame_pages_conserved [OF demo_allocator_ok demo_reach] by simp

end
