(* ===== verification/Page_Cache.thy ===== *)
theory Page_Cache
  imports Frames
begin

text \<open>
  The shared page caches of \<open>src/src/mm/memory_set/backing.rs\<close>: frames of files mapped
  \<open>MAP_SHARED\<close>, keyed by device, inode and page, and frames of shared anonymous mappings. The caches
  hold trackers, so their operations clone and drop frames of \<open>Frames\<close>; \<open>frame_alloc\<close> empties the
  file cache of unreferenced pages when memory runs out.

  \<open>held\<close> in the lemmas is the multiset of trackers held outside the caches.
\<close>

type_synonym file_page_key = "usize \<times> u32 \<times> usize"
type_synonym anon_page_key = "u64 \<times> usize"

record page_cache_state = frame_state +
  file_cache :: "(file_page_key, frame_tracker) btree_map"
  anon_cache :: "(anon_page_key, frame_tracker) btree_map"
  next_shared_anon_id :: usize

definition allocate_shared_anon_id :: "page_cache_state \<Rightarrow> u64 \<times> page_cache_state" where
  "allocate_shared_anon_id s =
     (next_shared_anon_id s, s\<lparr>next_shared_anon_id := next_shared_anon_id s + 1\<rparr>)"

definition shared_file_page_cache_get ::
  "usize \<Rightarrow> u32 \<Rightarrow> usize \<Rightarrow> page_cache_state \<Rightarrow> frame_tracker option \<times> page_cache_state" where
  "shared_file_page_cache_get dev ino file_page s =
     (case btm_get (file_cache s) (dev, ino, file_page) of
        None \<Rightarrow> (None, s)
      | Some frame \<Rightarrow> (Some frame, tracker_clone frame s))"

text \<open>\<open>entry(key).or_insert(frame)\<close> drops \<open>frame\<close> when the key is present.\<close>

definition shared_file_page_cache_insert_or_get ::
  "usize \<Rightarrow> u32 \<Rightarrow> usize \<Rightarrow> frame_tracker \<Rightarrow> page_cache_state \<Rightarrow>
   (frame_tracker \<times> page_cache_state) option" where
  "shared_file_page_cache_insert_or_get dev ino file_page frame s =
     (case btm_get (file_cache s) (dev, ino, file_page) of
        None \<Rightarrow> Some (frame, tracker_clone frame
          (s\<lparr>file_cache := btm_insert (dev, ino, file_page) frame (file_cache s)\<rparr>))
      | Some present \<Rightarrow>
          map_option (\<lambda>s'. (present, tracker_clone present s')) (tracker_drop frame s))"

definition shared_anon_page_cache_get ::
  "u64 \<Rightarrow> usize \<Rightarrow> page_cache_state \<Rightarrow> frame_tracker option \<times> page_cache_state" where
  "shared_anon_page_cache_get anon_id page s =
     (if anon_id = 0 then (None, s)
      else case btm_get (anon_cache s) (anon_id, page) of
        None \<Rightarrow> (None, s)
      | Some frame \<Rightarrow> (Some frame, tracker_clone frame s))"

definition shared_anon_page_cache_insert_or_get ::
  "u64 \<Rightarrow> usize \<Rightarrow> frame_tracker \<Rightarrow> page_cache_state \<Rightarrow> (frame_tracker \<times> page_cache_state) option" where
  "shared_anon_page_cache_insert_or_get anon_id page frame s =
     (if anon_id = 0 then Some (frame, s)
      else case btm_get (anon_cache s) (anon_id, page) of
        None \<Rightarrow> Some (frame, tracker_clone frame
          (s\<lparr>anon_cache := btm_insert (anon_id, page) frame (anon_cache s)\<rparr>))
      | Some present \<Rightarrow>
          map_option (\<lambda>s'. (present, tracker_clone present s')) (tracker_drop frame s))"

definition write_frame :: "frame_tracker \<Rightarrow> nat \<Rightarrow> u8 list \<Rightarrow> page_cache_state \<Rightarrow> page_cache_state" where
  "write_frame frame off bs s =
     s\<lparr>frame_bytes := (frame_bytes s)(ppn_val frame := copy_at (frame_bytes s (ppn_val frame)) off bs)\<rparr>"

definition write_chunk :: "usize \<Rightarrow> u8 list \<Rightarrow> nat \<Rightarrow> nat" where
  "write_chunk write_off data copied =
     (let page_off = unat (saturating_add write_off (of_nat copied) AND (PAGE_SIZE - 1))
      in min (unat PAGE_SIZE - page_off) (length data - copied))"

lemma write_chunk_pos: "copied < length data \<Longrightarrow> 0 < write_chunk write_off data copied"
  unfolding write_chunk_def Let_def unat_page_offset by (simp add: PAGE_SIZE_def)

function cache_write_loop ::
  "usize \<Rightarrow> u32 \<Rightarrow> usize \<Rightarrow> u8 list \<Rightarrow> nat \<Rightarrow> page_cache_state \<Rightarrow> page_cache_state" where
  "cache_write_loop dev ino write_off data copied s =
     (if copied < length data then
        (let file_off = saturating_add write_off (of_nat copied);
             file_page = file_off div PAGE_SIZE;
             page_off = unat (file_off AND (PAGE_SIZE - 1));
             chunk = write_chunk write_off data copied;
             s' = (case btm_get (file_cache s) (dev, ino, file_page) of
                     None \<Rightarrow> s
                   | Some frame \<Rightarrow> write_frame frame page_off (slice data copied (copied + chunk)) s)
         in cache_write_loop dev ino write_off data (copied + chunk) s')
      else s)"
  by auto
termination
proof (relation "measure (\<lambda>(dev, ino, write_off, data, copied, s). length data - copied)")
  fix data :: "u8 list" and copied chunk and write_off :: usize
  assume c: "copied < length data" and chunk: "chunk = write_chunk write_off data copied"
  from write_chunk_pos [OF c, of write_off] chunk have "0 < chunk" by simp
  with c show "((dev, ino, write_off, data, copied + chunk, s'), dev, ino, write_off, data, copied, s)
      \<in> measure (\<lambda>(dev, ino, write_off, data, copied, s). length data - copied)" for dev ino s' s
    by simp
qed simp

declare cache_write_loop.simps [simp del]

definition shared_file_page_cache_write ::
  "usize \<Rightarrow> u32 \<Rightarrow> usize \<Rightarrow> u8 list \<Rightarrow> page_cache_state \<Rightarrow> page_cache_state" where
  "shared_file_page_cache_write dev ino write_off data s =
     (if data = [] then s else cache_write_loop dev ino write_off data 0 s)"

text \<open>Removing an entry drops its tracker.\<close>

definition cache_remove :: "file_page_key \<Rightarrow> page_cache_state \<Rightarrow> page_cache_state option" where
  "cache_remove key s =
     (case btm_get (file_cache s) key of
        None \<Rightarrow> Some s
      | Some frame \<Rightarrow> tracker_drop frame (s\<lparr>file_cache := btm_remove key (file_cache s)\<rparr>))"

fun cache_remove_all :: "file_page_key list \<Rightarrow> page_cache_state \<Rightarrow> page_cache_state option" where
  "cache_remove_all [] s = Some s"
| "cache_remove_all (key # keys) s = Option.bind (cache_remove key s) (cache_remove_all keys)"

definition zero_eof_tail :: "usize \<Rightarrow> u32 \<Rightarrow> usize \<Rightarrow> page_cache_state \<Rightarrow> page_cache_state" where
  "zero_eof_tail dev ino file_size s =
     (let eof_page = file_size div PAGE_SIZE;
          eof_off = file_size AND (PAGE_SIZE - 1)
      in if eof_off \<noteq> 0 then
           (case btm_get (file_cache s) (dev, ino, eof_page) of
              None \<Rightarrow> s
            | Some frame \<Rightarrow>
                write_frame frame (unat eof_off) (replicate (unat PAGE_SIZE - unat eof_off) 0) s)
         else s)"

definition shared_file_page_cache_resize ::
  "usize \<Rightarrow> u32 \<Rightarrow> usize \<Rightarrow> page_cache_state \<Rightarrow> page_cache_state option" where
  "shared_file_page_cache_resize dev ino file_size s =
     (let eof_page = file_size div PAGE_SIZE;
          eof_off = file_size AND (PAGE_SIZE - 1);
          remove_from = (if eof_off = 0 then eof_page else saturating_add eof_page 1);
          s1 = zero_eof_tail dev ino file_size s;
          stale_keys = filter (\<lambda>(d, i, pg). d = dev \<and> i = ino \<and> pg \<ge> remove_from) (map fst (file_cache s1))
      in cache_remove_all stale_keys s1)"

definition shared_file_page_cache_reclaim_unreferenced ::
  "page_cache_state \<Rightarrow> (nat \<times> page_cache_state) option" where
  "shared_file_page_cache_reclaim_unreferenced s =
     (let stale_keys = map fst (filter (\<lambda>(key, frame). frame_refcount s frame \<le> 1) (file_cache s))
      in map_option (\<lambda>s'. (length stale_keys, s')) (cache_remove_all stale_keys s))"

definition kernel_frame_alloc ::
  "arch \<Rightarrow> page_cache_state \<Rightarrow> (frame_tracker option \<times> page_cache_state) option" where
  "kernel_frame_alloc ar s = frame_alloc ar shared_file_page_cache_reclaim_unreferenced s"

section \<open>The caches as owners of frames\<close>

definition cache_frames :: "page_cache_state \<Rightarrow> usize multiset" where
  "cache_frames s = mset (map (\<lambda>e. ppn_val (snd e)) (file_cache s)) + mset (map (\<lambda>e. ppn_val (snd e)) (anon_cache s))"

definition caches_ok :: "arch \<Rightarrow> usize multiset \<Rightarrow> usize list \<Rightarrow> page_cache_state \<Rightarrow> bool" where
  "caches_ok ar held limbo s \<longleftrightarrow> btm_inv (file_cache s) \<and> btm_inv (anon_cache s) \<and>
     frames_ok ar s (held + cache_frames s) limbo"

lemma mset_btm_insert_new:
  "btm_get m k = None \<Longrightarrow> mset (map f (btm_insert k v m)) = add_mset (f (k, v)) (mset (map f m))"
  by (induction m) (auto simp: btm_get_def)

lemma mset_btm_remove:
  assumes "btm_inv m" and "btm_get m k = Some v"
  shows "mset (map f m) = add_mset (f (k, v)) (mset (map f (btm_remove k m)))"
  using assms
proof (induction m)
  case (Cons e m)
  have inv: "btm_inv m" "e \<in> {(a, b). \<forall>x\<in>set m. a < fst x}" using Cons.prems(1) by (auto simp: btm_inv_def)
  show ?case
  proof (cases "fst e = k")
    case True
    then have "btm_get m k = None" using inv by (auto simp: btm_get_def map_of_eq_None_iff)
    then have "btm_remove k (e # m) = m" using True btm_remove_absent [of m k] by (simp add: btm_remove_def)
    moreover have "e = (k, v)" using Cons.prems(2) True by (cases e) (simp add: btm_get_def)
    ultimately show ?thesis by simp
  next
    case False
    with Cons inv show ?thesis by (cases e) (simp add: btm_get_def btm_remove_def)
  qed
qed simp

lemma cache_ops_fields [simp]:
  "file_cache (tracker_clone p s) = file_cache s" "anon_cache (tracker_clone p s) = anon_cache s"
  "file_cache (write_frame p off bs s) = file_cache s" "anon_cache (write_frame p off bs s) = anon_cache s"
  by (simp_all add: tracker_clone_def write_frame_def Let_def)

lemma tracker_drop_fields:
  assumes "tracker_drop p s = Some s'"
  shows "file_cache s' = file_cache s \<and> anon_cache s' = anon_cache s \<and> frame_bytes s' = frame_bytes s"
  using assms by (auto simp: tracker_drop_def tracker_release_def frame_dealloc_def
      split: option.splits if_splits)

lemma frames_ok_cong:
  assumes "frame_allocator s = frame_allocator t" and "frame_refcounts s = frame_refcounts t"
  shows "frames_ok ar s = frames_ok ar t"
  using assms by (simp add: frames_ok_def fun_eq_iff)

lemma cached_owned:
  "btm_get (file_cache s) k = Some f \<Longrightarrow> ppn_val f \<in># cache_frames s"
  "btm_get (anon_cache s) k' = Some f \<Longrightarrow> ppn_val f \<in># cache_frames s"
  by (force simp: cache_frames_def dest: btm_get_in_set)+

text \<open>Getting a cached frame makes one more tracker; inserting or getting trades the caller's frame for
  a tracker of the cached one.\<close>

definition room :: "usize multiset \<Rightarrow> bool" where
  "room owned \<longleftrightarrow> size owned + 1 < 2 ^ 64"

lemma room_count: "room owned \<Longrightarrow> count owned p + 1 < 2 ^ 64"
  using count_le_size [of owned p] by (simp add: room_def)

lemma caches_ok_clone:
  assumes "caches_ok ar held limbo s" and "ppn_val f \<in># held + cache_frames s" and "room (held + cache_frames s)"
  shows "caches_ok ar (add_mset (ppn_val f) held) limbo (tracker_clone f s)"
  using assms frames_ok_clone [of ar s "held + cache_frames s" limbo f] room_count [OF assms(3), of "ppn_val f"]
  by (auto simp: caches_ok_def cache_frames_def)

lemma caches_ok_drop:
  assumes "caches_ok ar held limbo s" and "ppn_val f \<in># held"
  shows "\<exists>s'. tracker_drop f s = Some s' \<and> caches_ok ar (held - {#ppn_val f#}) limbo s' \<and>
    file_cache s' = file_cache s \<and> anon_cache s' = anon_cache s \<and> frame_bytes s' = frame_bytes s"
proof -
  from frames_ok_drop [of ar s "held + cache_frames s" limbo f] assms
  obtain s' where s': "tracker_drop f s = Some s'"
    "frames_ok ar s' (held + cache_frames s - {#ppn_val f#}) limbo" by (auto simp: caches_ok_def)
  have "cache_frames s' = cache_frames s" using tracker_drop_fields [OF s'(1)] by (simp add: cache_frames_def)
  with s' assms tracker_drop_fields [OF s'(1)] show ?thesis
    by (auto simp: caches_ok_def multiset_diff_union_assoc ac_simps)
qed

lemma caches_ok_insert:
  assumes "caches_ok ar held limbo s" and "ppn_val f \<in># held" and "btm_get (file_cache s) k = None"
  shows "caches_ok ar (held - {#ppn_val f#}) limbo (s\<lparr>file_cache := btm_insert k f (file_cache s)\<rparr>)"
proof -
  let ?s = "s\<lparr>file_cache := btm_insert k f (file_cache s)\<rparr>"
  have "held - {#ppn_val f#} + cache_frames ?s = held + cache_frames s"
    using assms(2) mset_btm_insert_new [OF assms(3), of "\<lambda>e. ppn_val (snd e)" f]
    by (simp add: cache_frames_def)
  moreover have "frames_ok ar ?s = frames_ok ar s" by (rule frames_ok_cong) simp_all
  ultimately show ?thesis using assms(1) by (simp add: caches_ok_def btm.inv_ins)
qed

lemma caches_ok_remove:
  assumes "caches_ok ar held limbo s"
  shows "\<exists>s'. cache_remove k s = Some s' \<and> caches_ok ar held limbo s' \<and>
    file_cache s' = btm_remove k (file_cache s) \<and> anon_cache s' = anon_cache s \<and> frame_bytes s' = frame_bytes s"
proof (cases "btm_get (file_cache s) k")
  case None
  then show ?thesis using assms by (simp add: cache_remove_def btm_remove_absent)
next
  case (Some f)
  let ?s = "s\<lparr>file_cache := btm_remove k (file_cache s)\<rparr>"
  have own: "add_mset (ppn_val f) held + cache_frames ?s = held + cache_frames s"
    using assms mset_btm_remove [OF _ Some, of "\<lambda>e. ppn_val (snd e)"]
    by (simp add: cache_frames_def caches_ok_def)
  have same: "frames_ok ar ?s = frames_ok ar s" by (rule frames_ok_cong) simp_all
  have "caches_ok ar (add_mset (ppn_val f) held) limbo ?s"
    unfolding caches_ok_def own same using assms by (simp add: caches_ok_def btm.inv_rem)
  from caches_ok_drop [OF this, of f] show ?thesis by (simp add: cache_remove_def Some)
qed

lemma caches_ok_remove_all:
  assumes "caches_ok ar held limbo s"
  shows "\<exists>s'. cache_remove_all ks s = Some s' \<and> caches_ok ar held limbo s' \<and>
    file_cache s' = filter (\<lambda>e. fst e \<notin> set ks) (file_cache s) \<and> anon_cache s' = anon_cache s \<and>
    frame_bytes s' = frame_bytes s"
  using assms
proof (induction ks arbitrary: s)
  case (Cons k ks)
  from caches_ok_remove [OF Cons.prems, of k] obtain s1 where s1: "cache_remove k s = Some s1"
    "caches_ok ar held limbo s1" "file_cache s1 = btm_remove k (file_cache s)"
    "anon_cache s1 = anon_cache s" "frame_bytes s1 = frame_bytes s" by blast
  from Cons.IH [OF s1(2)] s1 show ?case by (auto simp: btm_remove_def conj_commute)
qed simp

section \<open>Reclaiming\<close>

text \<open>The frames a reclaim drops are owned by one tracker each, the one in the cache.\<close>

lemma available_of_owned:
  assumes "frames_ok ar s owned limbo"
  shows "unat (frame_available_pages s) + card (set_mset owned \<union> set limbo) = unat (frame_managed_pages s)"
proof -
  have "fa_inv ar (frame_allocator s)" "live (frame_allocator s) = set_mset owned \<union> set limbo"
    using assms by (simp_all add: frames_ok_def fp.pool_ok_def tracker_inv_def)
  with unat_available_pages [OF this(1)] show ?thesis
    by (simp add: frame_available_pages_def frame_managed_pages_def fa_inv_def)
qed

lemma refcount_of_owned:
  assumes "frames_ok ar s owned limbo"
  shows "unat (frame_refcount s p) = count owned (ppn_val p)"
  using assms by (auto simp: frames_ok_def fp.pool_ok_def frame_refcount_def tracker_inv_def
      unat_of_nat_small not_in_iff)

lemma drop_keeps_managed:
  "tracker_drop p s = Some s' \<Longrightarrow> frame_managed_pages s' = frame_managed_pages s"
  by (auto simp: tracker_drop_def tracker_release_def frame_dealloc_def dealloc_def Let_def
      frame_managed_pages_def split: option.splits if_splits)

lemma cache_remove_keeps_managed:
  "cache_remove_all ks s = Some s' \<Longrightarrow> frame_managed_pages s' = frame_managed_pages s"
proof (induction ks arbitrary: s)
  case (Cons k ks)
  then obtain s1 where s1: "cache_remove k s = Some s1" "cache_remove_all ks s1 = Some s'"
    by (cases "cache_remove k s") auto
  then have "frame_managed_pages s1 = frame_managed_pages s"
    by (auto simp: cache_remove_def frame_managed_pages_def split: option.splits dest!: drop_keeps_managed)
  with Cons.IH [OF s1(2)] show ?case by simp
qed simp

lemma size_eq_card: "(\<And>x. x \<in># M \<Longrightarrow> count M x = 1) \<Longrightarrow> size M = card (set_mset M)"
  by (simp add: size_multiset_overloaded_eq)

lemma mset_filter_split:
  "mset (map f xs) = mset (map f (filter P xs)) + mset (map f (filter (\<lambda>x. \<not> P x) xs))"
  by (induction xs) auto

lemma reclaim_correct:
  assumes ok: "caches_ok ar held limbo s"
  shows "\<exists>n s'. shared_file_page_cache_reclaim_unreferenced s = Some (n, s') \<and> caches_ok ar held limbo s' \<and>
    unat (frame_available_pages s') = unat (frame_available_pages s) + n \<and>
    file_cache s' = filter (\<lambda>(k, f). \<not> frame_refcount s f \<le> 1) (file_cache s) \<and> anon_cache s' = anon_cache s"
proof -
  define P where "P = (\<lambda>(k :: file_page_key, f). frame_refcount s f \<le> 1)"
  let ?stale = "filter P (file_cache s)" and ?S = "mset (map (\<lambda>e. ppn_val (snd e)) (filter P (file_cache s)))"
  let ?owned = "held + cache_frames s"
  obtain s' where s': "cache_remove_all (map fst ?stale) s = Some s'" "caches_ok ar held limbo s'"
    "file_cache s' = filter (\<lambda>e. fst e \<notin> set (map fst ?stale)) (file_cache s)" "anon_cache s' = anon_cache s"
    using caches_ok_remove_all [OF ok] by blast
  have "distinct (map fst (file_cache s))" using ok by (simp add: caches_ok_def btm_inv_distinct)
  then have inj: "inj_on fst (set (file_cache s))" by (simp add: distinct_map)
  have "fst e \<notin> set (map fst ?stale) \<longleftrightarrow> \<not> P e" if "e \<in> set (file_cache s)" for e
    using inj_on_image_mem_iff [OF inj that, of "set ?stale"] that by auto
  then have fc: "file_cache s' = filter (\<lambda>e. \<not> P e) (file_cache s)"
    unfolding s'(3) by (intro filter_cong) auto
  let ?owned' = "held + cache_frames s'"
  have split: "?owned = ?owned' + ?S"
    unfolding cache_frames_def s'(4) fc
    using mset_filter_split [of "\<lambda>e. ppn_val (snd e)" "file_cache s" P] by (simp add: ac_simps)
  have count: "count ?owned p = unat (frame_refcount s (PhysPageNum p))" for p
    using refcount_of_owned [of ar s ?owned limbo "PhysPageNum p"] ok by (simp add: caches_ok_def)
  have once: "count ?owned p \<le> 1" if "p \<in># ?S" for p
    unfolding count using that by (auto simp: P_def word_le_nat_alt)
  have S: "count ?S p = 1 \<and> p \<notin># ?owned'" if "p \<in># ?S" for p
  proof -
    have "0 < count ?S p" using that by simp
    with once [OF that] have "count ?S p = 1" "count ?owned' p = 0" unfolding split count_union by linarith+
    then show ?thesis by (simp only: not_in_iff)
  qed
  have limbo: "set_mset ?owned \<inter> set limbo = {}"
    using ok by (auto simp: caches_ok_def frames_ok_def fp.pool_ok_def tracker_inv_def)
  have "set_mset ?owned = set_mset ?owned' \<union> set_mset ?S" unfolding split by simp
  then have "set_mset ?owned \<union> set limbo = (set_mset ?owned' \<union> set limbo) \<union> set_mset ?S"
    and "(set_mset ?owned' \<union> set limbo) \<inter> set_mset ?S = {}" using S limbo by blast+
  then have "card (set_mset ?owned \<union> set limbo) = card (set_mset ?owned' \<union> set limbo) + size ?S"
    using size_eq_card [of ?S] S by (simp add: card_Un_disjoint)
  moreover have "frame_managed_pages s' = frame_managed_pages s" by (rule cache_remove_keeps_managed [OF s'(1)])
  moreover have "size ?S = length ?stale" by (simp only: size_mset length_map)
  ultimately have "unat (frame_available_pages s') = unat (frame_available_pages s) + length ?stale"
    using available_of_owned [of ar s ?owned limbo] available_of_owned [of ar s' ?owned' limbo] ok s'(2)
    by (simp add: caches_ok_def)
  with s' fc show ?thesis
    by (auto simp: shared_file_page_cache_reclaim_unreferenced_def P_def case_prod_beta')
qed

lemma caches_ok_alloc_tracked:
  assumes "caches_ok ar held limbo s" and "alloc_tracked ar s = (Some p, s')"
  shows "caches_ok ar (add_mset (ppn_val p) held) limbo s' \<and> ppn_val p \<notin># held + cache_frames s \<and>
    frame_bytes s' = (frame_bytes s)(ppn_val p := replicate 4096 0)"
proof -
  have fields: "file_cache s' = file_cache s" "anon_cache s' = anon_cache s"
    using assms(2) by (auto simp: alloc_tracked_def tracker_new_def split: prod.splits option.splits)
  then have "cache_frames s' = cache_frames s" by (simp add: cache_frames_def)
  with frames_ok_alloc_tracked [OF _ assms(2), of "held + cache_frames s" limbo] assms(1) fields
  show ?thesis by (simp add: caches_ok_def)
qed

lemma alloc_tracked_None_iff:
  assumes "caches_ok ar held limbo s"
  shows "fst (alloc_tracked ar s) = None \<longleftrightarrow> frame_available_pages s = 0"
proof -
  have inv: "fa_inv ar (frame_allocator s)"
    using assms by (simp add: caches_ok_def frames_ok_def fp.pool_ok_def)
  have "fst (alloc_tracked ar s) = None \<longleftrightarrow> fst (alloc ar (frame_allocator s)) = None"
    by (auto simp: alloc_tracked_def split: prod.splits option.splits)
  with alloc_fails_iff [OF inv] show ?thesis by (simp add: frame_available_pages_def)
qed

section \<open>Writing through the cache\<close>

text \<open>Position of byte \<open>off\<close> of page \<open>pg\<close> in the file.\<close>

definition file_pos :: "usize \<Rightarrow> nat \<Rightarrow> nat" where
  "file_pos pg off = unat pg * 4096 + off"

definition cache_injective :: "page_cache_state \<Rightarrow> bool" where
  "cache_injective s \<longleftrightarrow> inj_on (\<lambda>e. ppn_val (snd e)) (set (file_cache s))"

definition pages_full :: "page_cache_state \<Rightarrow> bool" where
  "pages_full s \<longleftrightarrow> (\<forall>p. length (frame_bytes s p) = 4096)"

lemma frame_bytes_write_frame:
  "frame_bytes (write_frame f off bs s) p =
     (if p = ppn_val f then copy_at (frame_bytes s p) off bs else frame_bytes s p)"
  by (simp add: write_frame_def)

lemma write_chunk_page:
  assumes "unat write_off + length data < 2 ^ 64" and "copied < length data"
  defines "n \<equiv> unat write_off + copied" and "chunk \<equiv> write_chunk write_off data copied"
  shows "unat (saturating_add write_off (of_nat copied)) = n"
    and "n mod 4096 + chunk \<le> 4096" and "copied + chunk \<le> length data"
proof -
  have "unat (of_nat copied :: usize) = copied" using assms(1,2) by (intro unat_of_nat_small) simp
  then show off: "unat (saturating_add write_off (of_nat copied)) = n"
    using assms(1,2) by (simp add: unat_saturating_add n_def)
  have chunk: "chunk = min (4096 - n mod 4096) (length data - copied)"
    unfolding chunk_def write_chunk_def Let_def unat_page_offset off by (simp add: PAGE_SIZE_def)
  have m: "n mod 4096 < 4096" by simp
  show "n mod 4096 + chunk \<le> 4096" "copied + chunk \<le> length data" using chunk m assms(2) by auto
qed

lemma page_window:
  assumes "off < 4096" and "n mod 4096 + chunk \<le> 4096"
  shows "n \<le> q * 4096 + off \<and> q * 4096 + off < n + chunk \<longleftrightarrow>
    q = n div 4096 \<and> n mod 4096 \<le> off \<and> off < n mod 4096 + (chunk :: nat)"
proof -
  define k r where "k = n div 4096" and "r = n mod 4096"
  have n: "n = k * 4096 + r" "r < 4096" by (simp_all add: k_def r_def)
  have "q = k" if "n \<le> q * 4096 + off" "q * 4096 + off < n + chunk"
  proof (rule antisym)
    have "q * 4096 < k * 4096 + 4096" using that(2) n assms(2) by (simp add: r_def [symmetric])
    then show "q \<le> k" by simp
    have "k * 4096 < q * 4096 + 4096" using that(1) n assms(1) by simp
    then show "k \<le> q" by simp
  qed
  then show ?thesis unfolding k_def [symmetric] r_def [symmetric] using n(1) by auto
qed

definition write_step :: "usize \<Rightarrow> u32 \<Rightarrow> usize \<Rightarrow> u8 list \<Rightarrow> nat \<Rightarrow> page_cache_state \<Rightarrow> page_cache_state" where
  "write_step dev ino write_off data copied s =
     (case btm_get (file_cache s) (dev, ino, saturating_add write_off (of_nat copied) div PAGE_SIZE) of
        None \<Rightarrow> s
      | Some frame \<Rightarrow> write_frame frame (unat (saturating_add write_off (of_nat copied) AND (PAGE_SIZE - 1)))
          (slice data copied (copied + write_chunk write_off data copied)) s)"

definition writable :: "page_cache_state \<Rightarrow> bool" where
  "writable s \<longleftrightarrow> btm_inv (file_cache s) \<and> cache_injective s \<and> pages_full s"

lemma write_step_bytes:
  assumes s: "writable s" and fits: "unat write_off + length data < 2 ^ 64" and c: "copied < length data"
  defines "n \<equiv> unat write_off + copied" and "chunk \<equiv> write_chunk write_off data copied"
  shows "writable (write_step dev ino write_off data copied s) \<and>
      file_cache (write_step dev ino write_off data copied s) = file_cache s"
    and "((d, i, pg), f) \<in> set (file_cache s) \<Longrightarrow> off < 4096 \<Longrightarrow>
      frame_bytes (write_step dev ino write_off data copied s) (ppn_val f) ! off =
      (if d = dev \<and> i = ino \<and> n \<le> file_pos pg off \<and> file_pos pg off < n + chunk
       then data ! (file_pos pg off - unat write_off) else frame_bytes s (ppn_val f) ! off)"
proof -
  note ch = write_chunk_page [OF fits c, folded n_def chunk_def]
  let ?page = "saturating_add write_off (of_nat copied) div PAGE_SIZE"
  have page: "unat ?page = n div 4096" and po: "unat (saturating_add write_off (of_nat copied) AND (PAGE_SIZE - 1)) = n mod 4096"
    by (simp_all only: unat_div_page unat_page_offset ch(1))
  have len: "length (slice data copied (copied + chunk)) = chunk" using ch(3) by (simp add: length_slice)
  have full: "length (frame_bytes s p) = 4096" for p using s by (simp add: writable_def pages_full_def)
  show "writable (write_step dev ino write_off data copied s) \<and>
      file_cache (write_step dev ino write_off data copied s) = file_cache s"
    using s ch(2) len full po
    by (auto simp: write_step_def writable_def cache_injective_def pages_full_def frame_bytes_write_frame
        chunk_def [symmetric] split: option.splits)
  assume e: "((d, i, pg), f) \<in> set (file_cache s)" and off: "off < 4096"
  have get: "btm_get (file_cache s) (d, i, pg) = Some f"
    using e s by (simp add: writable_def btm_get_iff)
  have window: "n \<le> file_pos pg off \<and> file_pos pg off < n + chunk \<longleftrightarrow>
      pg = ?page \<and> n mod 4096 \<le> off \<and> off < n mod 4096 + chunk"
    using page_window [OF off ch(2), of "unat pg"] page by (auto simp: file_pos_def word_unat_eq_iff)
  show "frame_bytes (write_step dev ino write_off data copied s) (ppn_val f) ! off =
      (if d = dev \<and> i = ino \<and> n \<le> file_pos pg off \<and> file_pos pg off < n + chunk
       then data ! (file_pos pg off - unat write_off) else frame_bytes s (ppn_val f) ! off)"
  proof (cases "(d, i, pg) = (dev, ino, ?page)")
    case True
    then have st: "write_step dev ino write_off data copied s =
        write_frame f (n mod 4096) (slice data copied (copied + chunk)) s"
      using get po by (simp add: write_step_def chunk_def)
    have pos: "file_pos pg off - unat write_off = copied + (off - n mod 4096)" if "n mod 4096 \<le> off"
    proof -
      have "file_pos pg off = n div 4096 * 4096 + off" using True page by (simp add: file_pos_def)
      with that div_mult_mod_eq [of n 4096] show ?thesis unfolding n_def by linarith
    qed
    have "slice data copied (copied + chunk) ! (off - n mod 4096) = data ! (copied + (off - n mod 4096))"
      if "off < n mod 4096 + chunk" "n mod 4096 \<le> off"
      using that ch(3) by (simp add: slice_def)
    then show ?thesis
      using True window pos off ch(2) full
      by (simp add: st frame_bytes_write_frame nth_copy_at len)
  next
    case False
    have "ppn_val f \<noteq> ppn_val g" if "btm_get (file_cache s) (dev, ino, ?page) = Some g" for g
    proof
      assume "ppn_val f = ppn_val g"
      with s e btm_get_in_set [OF that] have "((d, i, pg), f) = ((dev, ino, ?page), g)"
        unfolding writable_def cache_injective_def by (metis inj_onD snd_conv)
      with False show False by simp
    qed
    then have "frame_bytes (write_step dev ino write_off data copied s) (ppn_val f) = frame_bytes s (ppn_val f)"
      by (auto simp: write_step_def frame_bytes_write_frame split: option.splits)
    with False window show ?thesis by auto
  qed
qed

text \<open>The loop leaves in every cached page of the file the bytes of \<open>data\<close> that fall into it.\<close>

lemma cache_write_loop_bytes:
  assumes "writable s" and "unat write_off + length data < 2 ^ 64"
    and "((d, i, pg), f) \<in> set (file_cache s)" and "off < 4096"
  shows "frame_bytes (cache_write_loop dev ino write_off data copied s) (ppn_val f) ! off =
      (if d = dev \<and> i = ino \<and> unat write_off + copied \<le> file_pos pg off \<and>
          file_pos pg off < unat write_off + length data
       then data ! (file_pos pg off - unat write_off)
       else frame_bytes s (ppn_val f) ! off)"
  using assms
proof (induction dev ino write_off data copied s rule: cache_write_loop.induct)
  case (1 dev ino write_off data copied s)
  show ?case
  proof (cases "copied < length data")
    case False
    then show ?thesis by (subst cache_write_loop.simps) auto
  next
    case True
    let ?s = "write_step dev ino write_off data copied s" and ?chunk = "write_chunk write_off data copied"
    have unfold: "cache_write_loop dev ino write_off data copied s =
        cache_write_loop dev ino write_off data (copied + ?chunk) ?s"
      using True by (subst cache_write_loop.simps) (simp add: write_step_def Let_def)
    note step = write_step_bytes [OF 1(2,3) True]
    have "?chunk \<le> length data - copied" by (simp add: write_chunk_def Let_def)
    moreover have "frame_bytes (cache_write_loop dev ino write_off data (copied + ?chunk) ?s) (ppn_val f) ! off =
      (if d = dev \<and> i = ino \<and> unat write_off + (copied + ?chunk) \<le> file_pos pg off \<and>
          file_pos pg off < unat write_off + length data
       then data ! (file_pos pg off - unat write_off)
       else frame_bytes ?s (ppn_val f) ! off)"
      by (rule 1(1) [OF True refl refl refl refl _ _ 1(3)])
        (use step(1) 1(4,5) in \<open>simp_all add: write_step_def\<close>)
    ultimately show ?thesis
      unfolding unfold using step(2) [OF 1(4,5)] True by auto
  qed
qed

section \<open>Properties\<close>

text \<open>All mappings of a file page share one frame. \<open>shared_file_page_cache_insert_or_get\<close> does not
  panic; it returns the frame already cached for the page, or caches the caller's; afterwards the
  page is cached with the frame it returned, and every tracker is still counted once, including the
  one it returned, while the caller's own is consumed.\<close>

theorem shared_page_single_frame:
  assumes ok: "caches_ok ar held limbo s" and f: "ppn_val frame \<in># held"
    and room: "size (held + cache_frames s) + 2 < 2 ^ 64"
  shows "\<exists>g s'. shared_file_page_cache_insert_or_get dev ino pg frame s = Some (g, s') \<and>
    btm_get (file_cache s') (dev, ino, pg) = Some g \<and>
    g = (case btm_get (file_cache s) (dev, ino, pg) of None \<Rightarrow> frame | Some present \<Rightarrow> present) \<and>
    caches_ok ar (add_mset (ppn_val g) (held - {#ppn_val frame#})) limbo s'"
proof (cases "btm_get (file_cache s) (dev, ino, pg)")
  case None
  let ?s = "s\<lparr>file_cache := btm_insert (dev, ino, pg) frame (file_cache s)\<rparr>"
  note ins = caches_ok_insert [OF ok f None]
  have cached: "ppn_val frame \<in># cache_frames ?s" by (rule cached_owned(1) [of _ "(dev, ino, pg)"]) simp
  have "held - {#ppn_val frame#} + cache_frames ?s = held + cache_frames s"
    using f mset_btm_insert_new [OF None, of "\<lambda>e. ppn_val (snd e)" frame] by (simp add: cache_frames_def)
  then have "room (held - {#ppn_val frame#} + cache_frames ?s)" using room by (simp add: room_def)
  from caches_ok_clone [OF ins _ this, of frame] cached None show ?thesis
    by (simp add: shared_file_page_cache_insert_or_get_def)
next
  case (Some present)
  from caches_ok_drop [OF ok f] obtain s1 where s1: "tracker_drop frame s = Some s1"
    "caches_ok ar (held - {#ppn_val frame#}) limbo s1" "file_cache s1 = file_cache s" "anon_cache s1 = anon_cache s"
    by blast
  have same: "cache_frames s1 = cache_frames s" using s1 by (simp add: cache_frames_def)
  have "ppn_val present \<in># cache_frames s1" using cached_owned(1) [OF Some] same by simp
  moreover have "size (held - {#ppn_val frame#}) \<le> size held" by (rule size_mset_mono) simp
  then have "room (held - {#ppn_val frame#} + cache_frames s1)" using room same by (simp add: room_def)
  ultimately show ?thesis using caches_ok_clone [OF s1(2), of present] s1 Some
    by (simp add: shared_file_page_cache_insert_or_get_def)
qed

text \<open>Two frames, both in use: one in the cache, the other held outside it.\<close>

definition demo_cache :: page_cache_state where
  "demo_cache = \<lparr>frame_allocator = \<lparr>fa_ranges = [\<lparr>fr_start = 5, fr_current = 7, fr_end = 7\<rparr>],
       recycled = [], recycled_set = [], managed_pages = 2\<rparr>,
     frame_refcounts = [(5, 1), (6, 1)], frame_bytes = (\<lambda>_. replicate 4096 1),
     file_cache = [((0, 9, 3), PhysPageNum 5)], anon_cache = [], next_shared_anon_id = 1\<rparr>"

lemma demo_used: "{5..<7 :: usize} = {5, 6}"
proof -
  have "x \<in> {5..<7} \<longleftrightarrow> x = 5 \<or> x = 6" for x :: usize
    by (auto simp: word_le_nat_alt word_less_nat_alt word_unat_eq_iff)
  then show ?thesis by blast
qed

lemma demo_cache_ok: "caches_ok Riscv64 {#6#} [] demo_cache"
  by (auto simp: caches_ok_def demo_cache_def frames_ok_def fp.pool_ok_def fa_inv_def tracker_inv_def
      cache_frames_def franges_wf_def frange_wf_def span_def used_def live_def card_word_interval demo_used
      PPN_WIDTH_def PAGE_SIZE_BITS_def btm_inv_def btm_get_def)

theorem shared_page_single_frame_witness:
  "\<exists>s'. shared_file_page_cache_insert_or_get 0 9 3 (PhysPageNum 6) demo_cache = Some (PhysPageNum 5, s') \<and>
    caches_ok Riscv64 {#5#} [] s'"
  using shared_page_single_frame [OF demo_cache_ok, of "PhysPageNum 6" 0 9 3]
  by (simp add: demo_cache_def cache_frames_def btm_get_def) blast

text \<open>C15: Memory pressure is handled before an allocation fails. Run without interference by other harts,
  which the code admits between its attempts, \<open>frame_alloc\<close> never panics; it fails
  exactly when no page is free and every cached file page is still mapped by someone; a frame it
  returns belongs to nobody else and is zeroed; and no frame held outside the cache is touched.\<close>

theorem frame_alloc_reclaims:
  assumes "caches_ok ar held limbo s"
  shows "\<exists>r s'. kernel_frame_alloc ar s = Some (r, s') \<and>
    (r = None \<longleftrightarrow> frame_available_pages s = 0 \<and> list_all (\<lambda>(k, f). 1 < frame_refcount s f) (file_cache s)) \<and>
    (case r of None \<Rightarrow> caches_ok ar held limbo s'
     | Some p \<Rightarrow> caches_ok ar (add_mset (ppn_val p) held) limbo s' \<and> ppn_val p \<notin># held \<and>
         frame_bytes s' (ppn_val p) = replicate 4096 0)"
proof (cases "fst (alloc_tracked ar s)")
  case (Some p)
  then obtain s' where al: "alloc_tracked ar s = (Some p, s')" by (cases "alloc_tracked ar s") auto
  then show ?thesis
    using caches_ok_alloc_tracked [OF assms al] alloc_tracked_None_iff [OF assms] Some
    by (simp add: kernel_frame_alloc_def frame_alloc_def)
next
  case None
  then have al: "alloc_tracked ar s = (None, s)"
    using alloc_tracked_None by (metis prod.collapse)
  have zero: "frame_available_pages s = 0" using alloc_tracked_None_iff [OF assms] None by simp
  from reclaim_correct [OF assms] obtain n s1 where rec:
    "shared_file_page_cache_reclaim_unreferenced s = Some (n, s1)" "caches_ok ar held limbo s1"
    "unat (frame_available_pages s1) = unat (frame_available_pages s) + n" by blast
  have "n = length (filter (\<lambda>(key, frame). frame_refcount s frame \<le> 1) (file_cache s))"
    using rec(1) by (auto simp: shared_file_page_cache_reclaim_unreferenced_def)
  then have n: "n = 0 \<longleftrightarrow> list_all (\<lambda>(k, f). 1 < frame_refcount s f) (file_cache s)"
    by (auto simp: filter_empty_conv list_all_iff not_le)
  show ?thesis
  proof (cases "n = 0")
    case True
    with al rec n zero show ?thesis by (simp add: kernel_frame_alloc_def frame_alloc_def)
  next
    case False
    then have "frame_available_pages s1 \<noteq> 0" using rec(3) by auto
    then obtain p s2 where al1: "alloc_tracked ar s1 = (Some p, s2)"
      using alloc_tracked_None_iff [OF rec(2)] by (cases "alloc_tracked ar s1") auto
    with caches_ok_alloc_tracked [OF rec(2) al1] al rec(1) n False show ?thesis
      by (simp add: kernel_frame_alloc_def frame_alloc_def)
  qed
qed

theorem frame_alloc_reclaims_witness:
  "\<exists>p s'. kernel_frame_alloc Riscv64 demo_cache = Some (Some p, s') \<and> caches_ok Riscv64 {#ppn_val p, 6#} [] s'"
proof -
  have "\<not> list_all (\<lambda>(k, f). 1 < frame_refcount demo_cache f) (file_cache demo_cache)"
    by (simp add: demo_cache_def frame_refcount_def btm_get_def)
  with frame_alloc_reclaims [OF demo_cache_ok] show ?thesis by (auto split: option.splits)
qed

text \<open>C24: A \<open>write\<close> to a file is visible through every mapping of it: after
  \<open>shared_file_page_cache_write\<close> each byte of each cached page of the file that the written range
  covers is the byte written there, and every other byte of every cached page is unchanged.\<close>

theorem shared_write_visible:
  assumes "btm_inv (file_cache s)" and "cache_injective s" and "pages_full s"
    and "unat write_off + length data < 2 ^ 64"
    and "((d, i, pg), f) \<in> set (file_cache s)" and "off < 4096"
  shows "frame_bytes (shared_file_page_cache_write dev ino write_off data s) (ppn_val f) ! off =
      (if d = dev \<and> i = ino \<and> unat write_off \<le> file_pos pg off \<and>
          file_pos pg off < unat write_off + length data
       then data ! (file_pos pg off - unat write_off)
       else frame_bytes s (ppn_val f) ! off)"
proof (cases "data = []")
  case True
  then have "\<not> (unat write_off \<le> file_pos pg off \<and> file_pos pg off < unat write_off + length data)" by simp
  with True show ?thesis by (auto simp: shared_file_page_cache_write_def)
next
  case False
  have "writable s" using assms(1-3) by (simp add: writable_def)
  from cache_write_loop_bytes [OF this assms(4-6), of dev ino 0] False show ?thesis
    by (simp add: shared_file_page_cache_write_def)
qed

theorem shared_write_visible_witness:
  "frame_bytes (shared_file_page_cache_write 0 9 0x3002 [7, 8] demo_cache) 5 ! 2 = 7 \<and>
   frame_bytes (shared_file_page_cache_write 0 9 0x3002 [7, 8] demo_cache) 5 ! 4 = 1"
  using shared_write_visible [of demo_cache "0x3002" "[7, 8]" 0 9 3 "PhysPageNum 5" 2 0 9]
    shared_write_visible [of demo_cache "0x3002" "[7, 8]" 0 9 3 "PhysPageNum 5" 4 0 9]
  by (simp add: demo_cache_def btm_inv_def cache_injective_def pages_full_def file_pos_def)

lemma remove_from_iff:
  "(if n AND (PAGE_SIZE - 1) = 0 then n div PAGE_SIZE else saturating_add (n div PAGE_SIZE) 1) \<le> pg \<longleftrightarrow>
   unat n \<le> file_pos pg 0"
proof -
  define k r where "k = unat n div 4096" and "r = unat n mod 4096"
  have n: "unat n = k * 4096 + r" "r < 4096" by (simp_all add: k_def r_def)
  have k: "k < 2 ^ 52" unfolding k_def by (rule less_mult_imp_div_less) (use unat_less_pow [of n] in simp)
  have z: "n AND (PAGE_SIZE - 1) = 0 \<longleftrightarrow> r = 0"
    using unat_page_offset [of n] by (simp add: word_unat_eq_iff r_def)
  have "unat (if n AND (PAGE_SIZE - 1) = 0 then n div PAGE_SIZE else saturating_add (n div PAGE_SIZE) 1) =
      (if r = 0 then k else k + 1)"
    unfolding z using k by (auto simp: unat_div_page unat_saturating_add k_def [symmetric] min_def)
  then show ?thesis unfolding word_le_nat_alt file_pos_def using n by auto
qed

lemma zero_eof_tail_bytes:
  assumes cache: "btm_inv (file_cache s)" "cache_injective s" "pages_full s"
    and e: "((d, i, pg), f) \<in> set (file_cache s)" and off: "off < 4096"
  shows "frame_bytes (zero_eof_tail dev ino file_size s) (ppn_val f) ! off =
    (if d = dev \<and> i = ino \<and> pg = file_size div PAGE_SIZE \<and> unat file_size mod 4096 \<noteq> 0 \<and>
        unat file_size mod 4096 \<le> off then 0 else frame_bytes s (ppn_val f) ! off)"
proof -
  let ?page = "file_size div PAGE_SIZE"
  define eof where "eof = unat file_size mod 4096"
  have eof: "unat (file_size AND (PAGE_SIZE - 1)) = eof" by (simp only: unat_page_offset eof_def)
  have zero: "file_size AND (PAGE_SIZE - 1) = 0 \<longleftrightarrow> eof = 0"
    using eof by (metis unat_eq_zero)
  have get: "btm_get (file_cache s) (d, i, pg) = Some f" using e cache(1) by (simp add: btm_get_iff)
  have copy: "copy_at (frame_bytes s q) eof (replicate (4096 - eof) 0) ! off =
      (if eof \<le> off then 0 else frame_bytes s q ! off)" for q
  proof -
    have "eof < 4096" by (simp add: eof_def)
    moreover have "length (frame_bytes s q) = 4096" using cache(3) by (simp add: pages_full_def)
    ultimately show ?thesis using off
      nth_copy_at [of eof "replicate (4096 - eof) 0" "frame_bytes s q" off] by simp
  qed
  have other: "g = f \<and> (d, i, pg) = (dev, ino, ?page)"
    if "btm_get (file_cache s) (dev, ino, ?page) = Some g" "ppn_val g = ppn_val f" for g
    using inj_onD [OF cache(2) [unfolded cache_injective_def] _ e btm_get_in_set [OF that(1)]] that(2) by simp
  have page: "unat PAGE_SIZE = 4096" by (simp add: PAGE_SIZE_def)
  show ?thesis
    unfolding zero_eof_tail_def Let_def zero eof page eof_def [symmetric]
    using get other copy by (auto simp: frame_bytes_write_frame split: option.splits)
qed

lemma eof_window:
  assumes "\<not> unat file_size \<le> file_pos pg 0" and "off < 4096"
  shows "(pg = file_size div PAGE_SIZE \<and> unat file_size mod 4096 \<noteq> 0 \<and> unat file_size mod 4096 \<le> off) \<longleftrightarrow>
    unat file_size \<le> file_pos pg off"
proof -
  define k r where "k = unat file_size div 4096" and "r = unat file_size mod 4096"
  have n: "unat file_size = k * 4096 + r" "r < 4096" by (simp_all add: k_def r_def)
  have "pg = file_size div PAGE_SIZE \<longleftrightarrow> unat pg = k"
    using unat_div_page [of file_size] by (simp add: word_unat_eq_iff k_def)
  then show ?thesis using assms n unfolding r_def [symmetric] file_pos_def by auto
qed

text \<open>C25: Truncation leaves no stale data behind. \<open>shared_file_page_cache_resize\<close> does not panic; it
  keeps exactly the cached pages that still hold bytes of the file, with every byte at or past the
  new end zero and every other byte unchanged; pages of other files stay as they were, and no
  tracker outside the cache is affected.\<close>

theorem shared_resize_truncates:
  assumes ok: "caches_ok ar held limbo s" and inj: "cache_injective s" and full: "pages_full s"
  shows "\<exists>s'. shared_file_page_cache_resize dev ino file_size s = Some s' \<and> caches_ok ar held limbo s' \<and>
    file_cache s' = filter (\<lambda>((d, i, pg), f). \<not> (d = dev \<and> i = ino \<and> unat file_size \<le> file_pos pg 0)) (file_cache s) \<and>
    (\<forall>d i pg f off. ((d, i, pg), f) \<in> set (file_cache s') \<and> off < 4096 \<longrightarrow>
      frame_bytes s' (ppn_val f) ! off =
        (if d = dev \<and> i = ino \<and> unat file_size \<le> file_pos pg off then 0 else frame_bytes s (ppn_val f) ! off))"
proof -
  let ?s1 = "zero_eof_tail dev ino file_size s"
  have fields: "file_cache ?s1 = file_cache s" "anon_cache ?s1 = anon_cache s"
    "frame_allocator ?s1 = frame_allocator s" "frame_refcounts ?s1 = frame_refcounts s"
    by (auto simp: zero_eof_tail_def Let_def write_frame_def split: option.splits)
  then have ok1: "caches_ok ar held limbo ?s1"
    using ok frames_ok_cong [of ?s1 s ar] by (simp add: caches_ok_def cache_frames_def)
  let ?from = "if file_size AND (PAGE_SIZE - 1) = 0 then file_size div PAGE_SIZE
    else saturating_add (file_size div PAGE_SIZE) 1"
  let ?stale = "filter (\<lambda>(d, i, pg). d = dev \<and> i = ino \<and> pg \<ge> ?from) (map fst (file_cache ?s1))"
  from caches_ok_remove_all [OF ok1, of ?stale] obtain s' where s': "cache_remove_all ?stale ?s1 = Some s'"
    "caches_ok ar held limbo s'" "file_cache s' = filter (\<lambda>e. fst e \<notin> set ?stale) (file_cache ?s1)"
    "frame_bytes s' = frame_bytes ?s1" by blast
  have res: "shared_file_page_cache_resize dev ino file_size s = Some s'"
    using s'(1) by (simp only: shared_file_page_cache_resize_def Let_def)
  have cache: "file_cache s' = filter (\<lambda>((d, i, pg), f). \<not> (d = dev \<and> i = ino \<and> unat file_size \<le> file_pos pg 0)) (file_cache s)"
  proof -
    have "fst e \<in> set (map fst (file_cache s))" if "e \<in> set (file_cache s)" for e using that by simp
    then show ?thesis unfolding s'(3) fields(1) remove_from_iff
      by (intro filter_cong [OF refl]) (simp add: case_prod_beta)
  qed
  have "btm_inv (file_cache s)" using ok by (simp add: caches_ok_def)
  note bytes = zero_eof_tail_bytes [OF this inj full]
  have "frame_bytes s' (ppn_val f) ! off =
      (if d = dev \<and> i = ino \<and> unat file_size \<le> file_pos pg off then 0 else frame_bytes s (ppn_val f) ! off)"
    if "((d, i, pg), f) \<in> set (file_cache s')" "off < 4096" for d i pg f off
    using that bytes [of d i pg f off] eof_window [of file_size pg off] by (auto simp: cache s'(4))
  with res s'(2) cache show ?thesis by blast
qed

theorem shared_resize_truncates_witness:
  "\<exists>s'. shared_file_page_cache_resize 0 9 0x3002 demo_cache = Some s' \<and>
    frame_bytes s' 5 ! 1 = 1 \<and> frame_bytes s' 5 ! 2 = 0"
proof -
  have c: "cache_injective demo_cache" "pages_full demo_cache"
    by (simp_all add: demo_cache_def cache_injective_def pages_full_def)
  from shared_resize_truncates [OF demo_cache_ok c, of 0 9 "0x3002"] obtain s' where s':
    "shared_file_page_cache_resize 0 9 0x3002 demo_cache = Some s'"
    "((0, 9, 3), PhysPageNum 5) \<in> set (file_cache s')"
    "\<And>d i pg f off. ((d, i, pg), f) \<in> set (file_cache s') \<and> off < 4096 \<Longrightarrow>
      frame_bytes s' (ppn_val f) ! off =
        (if d = 0 \<and> i = 9 \<and> unat (0x3002 :: usize) \<le> file_pos pg off then 0 else frame_bytes demo_cache (ppn_val f) ! off)"
    by (auto simp: demo_cache_def file_pos_def)
  with s'(3) [of 0 9 3 "PhysPageNum 5" 1] s'(3) [of 0 9 3 "PhysPageNum 5" 2] show ?thesis
    by (auto simp: file_pos_def demo_cache_def)
qed

end
