(* ===== verification/Machines.thy ===== *)
theory Machines
  imports Kernel_Prelude Errno
begin

text \<open>
  What the two filter interpreters of the kernel share: the outcome of code that may panic, and the
  contract \<open>forward_machine\<close> of an interpreter loop whose every turn moves forward, with the lemmas
  that such a loop ends, keeps its invariant and is bounded. \<open>Bpf_Vm\<close> and \<open>Cbpf\<close> interpret it on
  their loops. \<open>packet_filter\<close> is what sockets rely on when they run a filter.
\<close>

datatype 'a outcome = Ok 'a | Err syscall_error | Panic

definition obind :: "'a outcome \<Rightarrow> ('a \<Rightarrow> 'b outcome) \<Rightarrow> 'b outcome" where
  "obind x k = (case x of Ok a \<Rightarrow> k a | Err e \<Rightarrow> Err e | Panic \<Rightarrow> Panic)"

lemma obind_simps [simp]: "obind (Ok a) k = k a" "obind (Err e) k = Err e" "obind Panic k = Panic"
  by (simp_all add: obind_def)

definition of_result :: "syscall_error + 'a \<Rightarrow> 'a outcome" where
  "of_result r = (case r of Inl e \<Rightarrow> Err e | Inr a \<Rightarrow> Ok a)"

lemma of_result_simps [simp]: "of_result (Inl e) = Err e" "of_result (Inr a) = Ok a"
  by (simp_all add: of_result_def)

lemma of_result_not_panic [simp]: "of_result r \<noteq> Panic"
  by (cases r) simp_all

lemma of_result_eq_Ok [simp]: "of_result r = Ok a \<longleftrightarrow> r = Inr a"
  by (cases r) simp_all

lemma obind_eq_Ok: "obind x k = Ok b \<longleftrightarrow> (\<exists>a. x = Ok a \<and> k a = Ok b)"
  by (cases x) simp_all

lemma obind_eq_Panic: "obind x k = Panic \<longleftrightarrow> x = Panic \<or> (\<exists>a. x = Ok a \<and> k a = Panic)"
  by (cases x) simp_all

text \<open>Indexing an array out of bounds panics.\<close>

definition index :: "'a list \<Rightarrow> nat \<Rightarrow> 'a outcome" where
  "index xs i = (if i < length xs then Ok (xs ! i) else Panic)"

lemma index_ok [simp]: "i < length xs \<Longrightarrow> index xs i = Ok (xs ! i)"
  by (simp add: index_def)

text \<open>Slices \<open>&xs[a..b]\<close> and \<open>xs[a..a + ys.len()].copy_from_slice(ys)\<close> panic out of bounds.\<close>

definition index_range :: "'a list \<Rightarrow> nat \<Rightarrow> nat \<Rightarrow> 'a list outcome" where
  "index_range xs a b = (if a \<le> b \<and> b \<le> length xs then Ok (slice xs a b) else Panic)"

definition copy_range :: "'a list \<Rightarrow> nat \<Rightarrow> 'a list \<Rightarrow> 'a list outcome" where
  "copy_range xs a ys = (if a + length ys \<le> length xs then Ok (copy_at xs a ys) else Panic)"

definition index_set :: "'a list \<Rightarrow> nat \<Rightarrow> 'a \<Rightarrow> 'a list outcome" where
  "index_set xs i v = (if i < length xs then Ok (xs[i := v]) else Panic)"

lemma index_range_ok [simp]: "a \<le> b \<Longrightarrow> b \<le> length xs \<Longrightarrow> index_range xs a b = Ok (slice xs a b)"
  by (simp add: index_range_def)

lemma copy_range_ok [simp]: "a + length ys \<le> length xs \<Longrightarrow> copy_range xs a ys = Ok (copy_at xs a ys)"
  by (simp add: copy_range_def)

lemma index_set_ok [simp]: "i < length xs \<Longrightarrow> index_set xs i v = Ok (xs[i := v])"
  by (simp add: index_set_def)

text \<open>\<open>safe P x\<close>: the code \<open>x\<close> does not panic, and if it succeeds its value satisfies \<open>P\<close>. The rules
  follow the structure of the code.\<close>

definition safe :: "('a \<Rightarrow> bool) \<Rightarrow> 'a outcome \<Rightarrow> bool" where
  "safe P x \<longleftrightarrow> (case x of Ok a \<Rightarrow> P a | Err e \<Rightarrow> True | Panic \<Rightarrow> False)"

named_theorems safe_rules \<open>structural rules for safe\<close>

lemma safe_simps [simp]: "safe P (Ok a) = P a" "safe P (Err e)" "\<not> safe P Panic"
  by (simp_all add: safe_def)

lemma safe_not_panic: "safe P x \<Longrightarrow> x \<noteq> Panic"
  by auto

lemma safe_Ok: "safe P x \<Longrightarrow> x = Ok a \<Longrightarrow> P a"
  by simp

lemma safe_bind [safe_rules]: "safe Q x \<Longrightarrow> (\<And>a. Q a \<Longrightarrow> safe P (k a)) \<Longrightarrow> safe P (obind x k)"
  by (cases x) auto

lemma safe_of_result [safe_rules]: "(\<And>a. r = Inr a \<Longrightarrow> P a) \<Longrightarrow> safe P (of_result r)"
  by (cases r) auto

lemma safe_bind_result: "(\<And>a. r = Inr a \<Longrightarrow> safe P (k a)) \<Longrightarrow> safe P (obind (of_result r) k)"
  by (cases r) auto

lemma safe_index [safe_rules]: "i < length xs \<Longrightarrow> P (xs ! i) \<Longrightarrow> safe P (index xs i)"
  by simp

lemma safe_weaken: "safe Q x \<Longrightarrow> (\<And>a. Q a \<Longrightarrow> P a) \<Longrightarrow> safe P x"
  by (cases x) auto

section \<open>Interpreter loops\<close>

text \<open>\<open>step p\<close> is one turn for the program and input \<open>p\<close>: the next state, or the result the loop
  returns. \<open>run\<close> is the loop, \<open>None\<close> if it does not return. \<open>good\<close> is its invariant, \<open>fine\<close> what a
  result promises, and \<open>left\<close> what remains of the program.\<close>

locale forward_machine =
  fixes step :: "'p \<Rightarrow> 's \<Rightarrow> 's + 'r"
    and run :: "'p \<Rightarrow> 's \<Rightarrow> 'r option"
    and good :: "'p \<Rightarrow> 's \<Rightarrow> bool"
    and fine :: "'p \<Rightarrow> 'r \<Rightarrow> bool"
    and left :: "'p \<Rightarrow> 's \<Rightarrow> nat"
  assumes run_step: "run p s = (case step p s of Inl s' \<Rightarrow> run p s' | Inr r \<Rightarrow> Some r)"
    and forward: "good p s \<Longrightarrow> step p s = Inl s' \<Longrightarrow> good p s' \<and> left p s' < left p s"
    and finish: "good p s \<Longrightarrow> step p s = Inr r \<Longrightarrow> fine p r"
begin

lemma run_returns: "good p s \<Longrightarrow> \<exists>r. run p s = Some r \<and> fine p r"
proof (induction "left p s" arbitrary: s rule: less_induct)
  case less
  show ?case
  proof (cases "step p s")
    case (Inl s')
    with forward [OF less.prems Inl] less.hyps [of s'] show ?thesis by (simp add: run_step [of p s])
  next
    case (Inr r)
    with finish [OF less.prems Inr] show ?thesis by (simp add: run_step [of p s])
  qed
qed

text \<open>The loop with a bound on its turns.\<close>

primrec run_for :: "nat \<Rightarrow> 'p \<Rightarrow> 's \<Rightarrow> 'r option" where
  "run_for 0 p s = None"
| "run_for (Suc n) p s = (case step p s of Inl s' \<Rightarrow> run_for n p s' | Inr r \<Rightarrow> Some r)"

lemma run_bounded: "good p s \<Longrightarrow> left p s < n \<Longrightarrow> run_for n p s = run p s"
proof (induction n arbitrary: s)
  case (Suc n)
  then show ?case
    using forward [OF Suc.prems(1)] by (cases "step p s") (auto simp: run_step [of p s])
qed simp

end

section \<open>Filters on packets\<close>

text \<open>A filter keeps a prefix of the packet or drops it: sockets truncate the packet to the length it
  returns, which must not exceed the packet. \<open>accepted\<close> is what attaching a filter checks; \<open>keep\<close> is
  \<open>None\<close> if the filter does not return or panics.\<close>

locale packet_filter =
  fixes accepted :: "'p \<Rightarrow> bool"
    and keep :: "'p \<Rightarrow> u8 list \<Rightarrow> nat option option"
  assumes keep_total: "accepted p \<Longrightarrow> \<exists>r. keep p packet = Some r"
    and keep_bound: "accepted p \<Longrightarrow> keep p packet = Some (Some n) \<Longrightarrow> n \<le> length packet \<and> (packet \<noteq> [] \<longrightarrow> 0 < n)"
begin

definition deliver :: "'p \<Rightarrow> u8 list \<Rightarrow> u8 list option" where
  "deliver p packet = (case keep p packet of Some (Some n) \<Rightarrow> Some (take n packet) | _ \<Rightarrow> None)"

lemma deliver_prefix:
  assumes "accepted p" and "deliver p packet = Some d"
  shows "\<exists>n. keep p packet = Some (Some n) \<and> d = take n packet \<and> length d = n \<and> (packet \<noteq> [] \<longrightarrow> d \<noteq> [])"
proof -
  from assms(2) obtain n where n: "keep p packet = Some (Some n)" "d = take n packet"
    by (auto simp: deliver_def split: option.splits)
  with keep_bound [OF assms(1) n(1)] show ?thesis by auto
qed

lemma deliver_None_iff:
  assumes "accepted p"
  shows "deliver p packet = None \<longleftrightarrow> keep p packet = Some None"
  using keep_total [OF assms, of packet] by (auto simp: deliver_def split: option.splits)

end

end
