(* ===== verification/Bpf_Map.thy ===== *)
theory Bpf_Map
  imports Ordered_Maps Errno Address
begin

text \<open>
  \<open>src/src/bpf/map.rs\<close>: the maps of the \<open>bpf\<close> system call, their creation and their element
  operations. \<open>bpf_map\<close> is \<open>BpfMapFile\<close> with the storage its lock protects.

  The locale \<open>elem_store\<close> is what programs and system calls rely on: a map of fixed-size elements
  whose reads see the last write.
\<close>

datatype bpf_map_kind = Hash | Array | RingBuf

datatype bpf_map_storage =
    Hash_storage "(u8 list, u8 list) btree_map"
  | Array_storage "u8 list list"
  | RingBuf_storage

record bpf_map =
  key_size :: u32
  value_size :: u32
  max_entries :: u32
  storage :: bpf_map_storage

definition BPF_ANY :: u64 where "BPF_ANY = 0"
definition BPF_NOEXIST :: u64 where "BPF_NOEXIST = 1"
definition BPF_EXIST :: u64 where "BPF_EXIST = 2"

definition is_power_of_two :: "u32 \<Rightarrow> bool" where
  "is_power_of_two n \<longleftrightarrow> n \<noteq> 0 \<and> n AND (n - 1) = 0"

definition bpf_map_new :: "bpf_map_kind \<Rightarrow> u32 \<Rightarrow> u32 \<Rightarrow> u32 \<Rightarrow> syscall_error + bpf_map" where
  "bpf_map_new kind ks vs entries =
     (let file = (\<lambda>st. \<lparr>key_size = ks, value_size = vs, max_entries = entries, storage = st\<rparr>) in
      if entries = 0 then Inl EINVAL
      else case kind of
        Hash \<Rightarrow> if ks = 0 \<or> vs = 0 then Inl EINVAL else Inr (file (Hash_storage []))
      | Array \<Rightarrow>
          if ks \<noteq> 4 \<or> vs = 0 then Inl EINVAL
          else Inr (file (Array_storage (replicate (unat entries) (replicate (unat vs) 0))))
      | RingBuf \<Rightarrow>
          if ks \<noteq> 0 \<or> vs \<noteq> 0 \<or> \<not> is_power_of_two entries \<or> unat entries mod unat PAGE_SIZE \<noteq> 0
          then Inl EINVAL else Inr (file RingBuf_storage))"

definition validate_key :: "bpf_map \<Rightarrow> u8 list \<Rightarrow> bool" where
  "validate_key m key \<longleftrightarrow> length key = unat (key_size m)"

definition array_index :: "u8 list \<Rightarrow> syscall_error + nat" where
  "array_index key =
     (if length key \<noteq> 4 then Inl EINVAL else Inr (unat (from_le_bytes key :: u32)))"

definition map_lookup :: "bpf_map \<Rightarrow> u8 list \<Rightarrow> syscall_error + u8 list option" where
  "map_lookup m key =
     (case storage m of
        Hash_storage entries \<Rightarrow> if \<not> validate_key m key then Inr None else Inr (btm_get entries key)
      | Array_storage elems \<Rightarrow>
          rbind (array_index key)
            (\<lambda>index. Inr (if index < length elems then Some (elems ! index) else None))
      | RingBuf_storage \<Rightarrow> Inl EOPNOTSUPP)"

definition hash_flags_error :: "u64 \<Rightarrow> bool \<Rightarrow> syscall_error option" where
  "hash_flags_error flags exists =
     (if flags = BPF_ANY then None
      else if flags = BPF_NOEXIST then (if exists then Some EEXIST else None)
      else if flags = BPF_EXIST then (if exists then None else Some ENOENT)
      else Some EINVAL)"

text \<open>\<open>copy_from_slice\<close> panics when the lengths differ; the value length is checked before, and
  \<open>map_wf\<close> keeps every array element at \<open>value_size\<close> (\<open>update_no_panic\<close>).\<close>

definition map_update :: "u8 list \<Rightarrow> u8 list \<Rightarrow> u64 \<Rightarrow> bpf_map \<Rightarrow> syscall_error + bpf_map" where
  "map_update key val flags m =
     (if \<not> validate_key m key \<or> length val \<noteq> unat (value_size m) then Inl EINVAL
      else case storage m of
        Hash_storage entries \<Rightarrow>
          (let exists = btm_contains entries key in
           case hash_flags_error flags exists of
             Some e \<Rightarrow> Inl e
           | None \<Rightarrow>
               if \<not> exists \<and> length entries \<ge> unat (max_entries m) then Inl E2BIG
               else Inr (m\<lparr>storage := Hash_storage (btm_insert key val entries)\<rparr>))
      | Array_storage elems \<Rightarrow>
          rbind (array_index key) (\<lambda>index.
            if flags \<noteq> BPF_ANY \<and> flags \<noteq> BPF_NOEXIST \<and> flags \<noteq> BPF_EXIST then Inl EINVAL
            else if index \<ge> unat (max_entries m) then Inl E2BIG
            else if flags = BPF_NOEXIST then Inl EEXIST
            else Inr (m\<lparr>storage := Array_storage (elems[index := val])\<rparr>))
      | RingBuf_storage \<Rightarrow> Inl EOPNOTSUPP)"

definition stored_slice :: "u8 list \<Rightarrow> usize \<Rightarrow> u8 list \<Rightarrow> syscall_error + u8 list" where
  "stored_slice val offset data =
     rbind (ok_or EINVAL (checked_add offset (of_nat (length data)))) (\<lambda>end.
       if unat end > length val then Inl EACCES
       else Inr (copy_at val (unat offset) data))"

definition store_bytes :: "u8 list \<Rightarrow> usize \<Rightarrow> u8 list \<Rightarrow> bpf_map \<Rightarrow> syscall_error + bpf_map" where
  "store_bytes key offset data m =
     (case storage m of
        Hash_storage entries \<Rightarrow>
          if \<not> validate_key m key then Inl EINVAL
          else rbind (ok_or ENOENT (btm_get entries key)) (\<lambda>val.
            rbind (stored_slice val offset data) (\<lambda>val'.
              Inr (m\<lparr>storage := Hash_storage (btm_insert key val' entries)\<rparr>)))
      | Array_storage elems \<Rightarrow>
          rbind (array_index key) (\<lambda>index.
            rbind (ok_or ENOENT (if index < length elems then Some (elems ! index) else None)) (\<lambda>val.
              rbind (stored_slice val offset data) (\<lambda>val'.
                Inr (m\<lparr>storage := Array_storage (elems[index := val'])\<rparr>))))
      | RingBuf_storage \<Rightarrow> Inl EOPNOTSUPP)"

section \<open>Well-formed maps\<close>

definition map_wf :: "bpf_map \<Rightarrow> bool" where
  "map_wf m \<longleftrightarrow>
     (case storage m of
        Hash_storage entries \<Rightarrow> btm_inv entries \<and> length entries \<le> unat (max_entries m) \<and>
          list_all (\<lambda>(k, v). length k = unat (key_size m) \<and> length v = unat (value_size m)) entries
      | Array_storage elems \<Rightarrow> key_size m = 4 \<and> length elems = unat (max_entries m) \<and>
          list_all (\<lambda>v. length v = unat (value_size m)) elems
      | RingBuf_storage \<Rightarrow> True)"

lemma map_wf_new: "bpf_map_new kind ks vs n = Inr m \<Longrightarrow> map_wf m"
  by (auto simp: bpf_map_new_def Let_def map_wf_def list_all_iff split: bpf_map_kind.splits if_splits)

lemma btm_contains_iff: "btm_contains m k \<longleftrightarrow> (\<exists>v. btm_get m k = Some v)"
  by (simp add: btm_contains_def)

lemma map_wf_update:
  assumes wf: "map_wf m" and up: "map_update key val flags m = Inr m'"
  shows "map_wf m' \<and> key_size m' = key_size m \<and> value_size m' = value_size m \<and> max_entries m' = max_entries m"
proof (cases "storage m")
  case (Hash_storage entries)
  have len: "length (btm_insert key val entries) =
      (if btm_get entries key = None then Suc (length entries) else length entries)"
    using wf by (simp add: map_wf_def Hash_storage btm.len_ins)
  from up Hash_storage have m': "m' = m\<lparr>storage := Hash_storage (btm_insert key val entries)\<rparr>"
    and v: "validate_key m key" "length val = unat (value_size m)"
    and room: "btm_contains entries key \<or> length entries < unat (max_entries m)"
    by (auto simp: map_update_def Let_def split: if_splits option.splits)
  have "list_all (\<lambda>(k, v). length k = unat (key_size m) \<and> length v = unat (value_size m)) (btm_insert key val entries)"
    using wf v by (auto simp: map_wf_def Hash_storage list_all_iff validate_key_def dest!: set_btm_insert)
  then show ?thesis using wf len room
    by (auto simp: m' map_wf_def Hash_storage btm.inv_ins btm_contains_def)
next
  case (Array_storage elems)
  with up wf show ?thesis
    by (auto simp: map_update_def map_wf_def list_all_iff rbind_eq_Inr_iff split: if_splits
        dest!: set_update_subset_insert [THEN subsetD])
qed (use up in \<open>auto simp: map_update_def split: if_splits\<close>)

lemma length_stored_slice:
  assumes "stored_slice val offset data = Inr val'" and "length data < 2 ^ 64"
  shows "length val' = length val \<and> unat offset + length data \<le> length val \<and> val' = copy_at val (unat offset) data"
proof -
  have u: "unat (of_nat (length data) :: usize) = length data" using assms(2) by (simp add: unat_of_nat_small)
  from assms(1) obtain e where "checked_add offset (of_nat (length data)) = Some e"
    and le: "unat e \<le> length val" and v: "val' = copy_at val (unat offset) data"
    by (auto simp: stored_slice_def ok_or_def rbind_eq_Inr_iff split: option.splits if_splits)
  then have "unat e = unat offset + length data" using checked_add_Some u by metis
  with le v show ?thesis by simp
qed

lemma map_wf_store:
  assumes wf: "map_wf m" and st: "store_bytes key offset data m = Inr m'" and "length data < 2 ^ 64"
  shows "map_wf m' \<and> key_size m' = key_size m \<and> value_size m' = value_size m \<and> max_entries m' = max_entries m"
proof (cases "storage m")
  case (Hash_storage entries)
  from st Hash_storage obtain val val' where get: "btm_get entries key = Some val"
    and sl: "stored_slice val offset data = Inr val'" and v: "validate_key m key"
    and m': "m' = m\<lparr>storage := Hash_storage (btm_insert key val' entries)\<rparr>"
    by (auto simp: store_bytes_def rbind_eq_Inr_iff split: if_splits)
  have "length val = unat (value_size m)"
    using wf btm_get_in_set [OF get] by (auto simp: map_wf_def Hash_storage list_all_iff)
  then have "length val' = unat (value_size m)" using length_stored_slice [OF sl assms(3)] by simp
  moreover have "length (btm_insert key val' entries) = length entries"
    using wf get by (simp add: map_wf_def Hash_storage btm.len_ins)
  ultimately show ?thesis using wf v
    by (auto simp: m' map_wf_def Hash_storage btm.inv_ins list_all_iff validate_key_def dest!: set_btm_insert)
next
  case (Array_storage elems)
  from st Array_storage obtain i val' where i: "array_index key = Inr i" "i < length elems"
    and sl: "stored_slice (elems ! i) offset data = Inr val'"
    and m': "m' = m\<lparr>storage := Array_storage (elems[i := val'])\<rparr>"
    by (auto simp: store_bytes_def rbind_eq_Inr_iff split: if_splits)
  have "length val' = unat (value_size m)"
    using length_stored_slice [OF sl assms(3)] wf i(2) by (auto simp: map_wf_def Array_storage list_all_iff)
  then show ?thesis using wf
    by (auto simp: m' map_wf_def Array_storage list_all_iff dest!: set_update_subset_insert [THEN subsetD])
qed (use st in \<open>auto simp: store_bytes_def\<close>)

text \<open>The \<open>copy_from_slice\<close> of an array update meets an element of its own length.\<close>

lemma update_no_panic:
  assumes "map_wf m" and "storage m = Array_storage elems" and "array_index key = Inr index"
    and "index < unat (max_entries m)" and "length val = unat (value_size m)"
  shows "index < length elems \<and> length (elems ! index) = length val"
  using assms by (auto simp: map_wf_def list_all_iff)

section \<open>The contract of a map\<close>

text \<open>\<open>get m k\<close> is the element under a key, if the key is valid and present.\<close>

definition map_get :: "bpf_map \<Rightarrow> u8 list \<Rightarrow> u8 list option" where
  "map_get m key = (case map_lookup m key of Inr (Some v) \<Rightarrow> Some v | _ \<Rightarrow> None)"

locale elem_store =
  fixes wf :: "'m \<Rightarrow> bool"
    and get :: "'m \<Rightarrow> 'k \<Rightarrow> u8 list option"
    and put :: "'k \<Rightarrow> u8 list \<Rightarrow> u64 \<Rightarrow> 'm \<Rightarrow> syscall_error + 'm"
    and poke :: "'k \<Rightarrow> usize \<Rightarrow> u8 list \<Rightarrow> 'm \<Rightarrow> syscall_error + 'm"
    and elem_len :: "'m \<Rightarrow> nat"
  assumes put_wf: "wf m \<Longrightarrow> put k v f m = Inr m' \<Longrightarrow> wf m' \<and> elem_len m' = elem_len m"
    and put_get: "wf m \<Longrightarrow> put k v f m = Inr m' \<Longrightarrow> get m' k' = (if k' = k then Some v else get m k')"
    and poke_wf: "wf m \<Longrightarrow> length d < 2 ^ 64 \<Longrightarrow> poke k off d m = Inr m' \<Longrightarrow> wf m' \<and> elem_len m' = elem_len m"
    and poke_get: "wf m \<Longrightarrow> length d < 2 ^ 64 \<Longrightarrow> poke k off d m = Inr m' \<Longrightarrow>
      \<exists>v. get m k = Some v \<and> unat off + length d \<le> length v \<and>
        (\<forall>k'. get m' k' = (if k' = k then Some (copy_at v (unat off) d) else get m k'))"
    and get_len: "wf m \<Longrightarrow> get m k = Some v \<Longrightarrow> length v = elem_len m"
begin

lemma poke_then_read:
  assumes "wf m" and "length d < 2 ^ 64" and "poke k off d m = Inr m'"
  shows "\<exists>v. get m' k = Some v \<and> slice v (unat off) (unat off + length d) = d"
  using poke_get [OF assms] slice_copy_at by fastforce

lemma poke_keeps_keys:
  assumes "wf m" and "length d < 2 ^ 64" and "poke k off d m = Inr m'"
  shows "dom (get m') = dom (get m)"
  using poke_get [OF assms] by (auto simp: dom_def split: if_splits)

lemma put_then_poke_len:
  assumes "wf m" and "put k v f m = Inr m1" and "length d < 2 ^ 64" and "poke k off d m1 = Inr m2"
  shows "unat off + length d \<le> elem_len m"
proof -
  note p = put_wf [OF assms(1,2)]
  from poke_get [OF _ assms(3,4)] p obtain w where "get m1 k = Some w" "unat off + length d \<le> length w" by blast
  with get_len [of m1 k w] p show ?thesis by simp
qed

end

lemma array_index_inj:
  assumes "array_index k = Inr i" and "array_index k' = Inr i"
  shows "k = k'"
proof -
  have len: "length k = 4" "length k' = 4" and eq: "(from_le_bytes k :: u32) = from_le_bytes k'"
    using assms by (auto simp: array_index_def word_unat_eq_iff split: if_splits)
  have inv: "to_le_bytes 4 (from_le_bytes x :: u32) = x" if "length x = 4" for x :: "u8 list"
    using that by (intro to_from_le_bytes) simp_all
  have "k = to_le_bytes 4 (from_le_bytes k :: u32)" by (simp only: inv [OF len(1)])
  also have "\<dots> = k'" by (simp only: eq inv [OF len(2)])
  finally show ?thesis .
qed

lemma map_get_array:
  assumes "storage m = Array_storage elems"
  shows "map_get m k = (case array_index k of Inl e \<Rightarrow> None
    | Inr i \<Rightarrow> if i < length elems then Some (elems ! i) else None)"
  by (auto simp: map_get_def map_lookup_def assms split: sum.splits)

lemma map_get_array_update:
  assumes m: "storage m = Array_storage elems" and i: "array_index key = Inr i" "i < length elems"
  shows "map_get (m\<lparr>storage := Array_storage (elems[i := v])\<rparr>) k = (if k = key then Some v else map_get m k)"
proof (cases "array_index k")
  case (Inl e)
  then have "k \<noteq> key" using i by auto
  with Inl show ?thesis by (simp add: map_get_array [OF m] map_get_array [of _ "elems[i := v]"])
next
  case (Inr j)
  then have "k = key \<longleftrightarrow> j = i" using i array_index_inj by auto
  with Inr i show ?thesis
    by (simp add: map_get_array [OF m] map_get_array [of _ "elems[i := v]"] nth_list_update)
qed

lemma map_get_hash:
  assumes "storage m = Hash_storage entries"
  shows "map_get m k = (if length k = unat (key_size m) then btm_get entries k else None)"
  by (simp add: map_get_def map_lookup_def assms validate_key_def split: option.splits)

lemma map_update_get:
  assumes wf: "map_wf m" and up: "map_update key val flags m = Inr m'"
  shows "map_get m' k = (if k = key then Some val else map_get m k)"
proof (cases "storage m")
  case (Hash_storage entries)
  with up have m': "m' = m\<lparr>storage := Hash_storage (btm_insert key val entries)\<rparr>" and "validate_key m key"
    by (auto simp: map_update_def Let_def split: if_splits option.splits)
  then show ?thesis using Hash_storage by (simp add: map_get_hash validate_key_def)
next
  case (Array_storage elems)
  with up obtain i where i: "array_index key = Inr i" "i < unat (max_entries m)"
    and m': "m' = m\<lparr>storage := Array_storage (elems[i := val])\<rparr>"
    by (auto simp: map_update_def rbind_eq_Inr_iff split: if_splits)
  have len: "i < length elems" using wf i(2) by (simp add: map_wf_def Array_storage)
  show ?thesis unfolding m' by (rule map_get_array_update [OF Array_storage i(1) len])
qed (use up in \<open>auto simp: map_update_def split: if_splits\<close>)

lemma store_bytes_get:
  assumes wf: "map_wf m" and "length data < 2 ^ 64" and st: "store_bytes key offset data m = Inr m'"
  shows "\<exists>v. map_get m key = Some v \<and> unat offset + length data \<le> length v \<and>
    (\<forall>k. map_get m' k = (if k = key then Some (copy_at v (unat offset) data) else map_get m k))"
proof (cases "storage m")
  case (Hash_storage entries)
  from st Hash_storage obtain val val' where get: "btm_get entries key = Some val"
    and sl: "stored_slice val offset data = Inr val'" and v: "validate_key m key"
    and m': "m' = m\<lparr>storage := Hash_storage (btm_insert key val' entries)\<rparr>"
    by (auto simp: store_bytes_def rbind_eq_Inr_iff split: if_splits)
  with length_stored_slice [OF sl assms(2)] Hash_storage show ?thesis
    by (intro exI [of _ val]) (simp add: map_get_hash validate_key_def)
next
  case (Array_storage elems)
  from st Array_storage obtain i val' where i: "array_index key = Inr i" "i < length elems"
    and sl: "stored_slice (elems ! i) offset data = Inr val'"
    and m': "m' = m\<lparr>storage := Array_storage (elems[i := val'])\<rparr>"
    by (auto simp: store_bytes_def rbind_eq_Inr_iff split: if_splits)
  have "map_get m key = Some (elems ! i)" using i by (simp add: map_get_array [OF Array_storage])
  with length_stored_slice [OF sl assms(2)] map_get_array_update [OF Array_storage i] show ?thesis
    by (auto simp: m')
qed (use st in \<open>auto simp: store_bytes_def\<close>)

lemma map_get_len:
  assumes wf: "map_wf m" and get: "map_get m k = Some v"
  shows "length v = unat (value_size m)"
proof (cases "storage m")
  case (Hash_storage entries)
  with get have "btm_get entries k = Some v" by (auto simp: map_get_hash split: if_splits)
  from btm_get_in_set [OF this] wf Hash_storage show ?thesis by (auto simp: map_wf_def list_all_iff)
next
  case (Array_storage elems)
  with assms show ?thesis by (auto simp: map_get_array map_wf_def list_all_iff split: sum.splits if_splits)
qed (use get in \<open>auto simp: map_get_def map_lookup_def\<close>)

interpretation bm: elem_store map_wf map_get map_update store_bytes "\<lambda>m. unat (value_size m)"
proof
  show "map_wf m' \<and> unat (value_size m') = unat (value_size m)" if "map_wf m" "map_update k v f m = Inr m'" for m k v f m'
    using map_wf_update [OF that] by simp
  show "map_get m' k' = (if k' = k then Some v else map_get m k')" if "map_wf m" "map_update k v f m = Inr m'" for m k v f m' k'
    by (rule map_update_get [OF that])
  show "map_wf m' \<and> unat (value_size m') = unat (value_size m)"
    if "map_wf m" "length d < 2 ^ 64" "store_bytes k off d m = Inr m'" for m d k off m'
    using map_wf_store [OF that(1,3,2)] by simp
  show "\<exists>v. map_get m k = Some v \<and> unat off + length d \<le> length v \<and>
      (\<forall>k'. map_get m' k' = (if k' = k then Some (copy_at v (unat off) d) else map_get m k'))"
    if "map_wf m" "length d < 2 ^ 64" "store_bytes k off d m = Inr m'" for m d k off m'
    by (rule store_bytes_get [OF that])
  show "length v = unat (value_size m)" if "map_wf m" "map_get m k = Some v" for m k v
    by (rule map_get_len [OF that])
qed

section \<open>Properties\<close>

text \<open>C29: A map returns what was last put into it. After a successful update the key maps to the new
  value, every other key is untouched, and a store of bytes inside an element by a program is read
  back exactly; elements keep their size and the number of entries stays within \<open>max_entries\<close>.\<close>

theorem bpf_map_update_lookup:
  assumes "map_wf m" and "map_update key val flags m = Inr m1" and "length data < 2 ^ 64"
    and "store_bytes key offset data m1 = Inr m2"
  shows "map_get m1 key = Some val \<and> (\<forall>k. k \<noteq> key \<longrightarrow> map_get m1 k = map_get m k) \<and> map_wf m2 \<and>
    unat offset + length data \<le> unat (value_size m) \<and>
    (\<exists>v. map_lookup m2 key = Inr (Some v) \<and> length v = unat (value_size m) \<and>
      slice v (unat offset) (unat offset + length data) = data)"
proof -
  note w1 = bm.put_wf [OF assms(1,2)] and g1 = bm.put_get [OF assms(1,2)]
  note w2 = bm.poke_wf [OF _ assms(3,4)]
  from bm.poke_then_read [OF _ assms(3,4)] w1 obtain v where v: "map_get m2 key = Some v"
    "slice v (unat offset) (unat offset + length data) = data" by blast
  then have "map_lookup m2 key = Inr (Some v)" by (auto simp: map_get_def split: sum.splits option.splits)
  moreover have "length v = unat (value_size m)" using bm.get_len [OF _ v(1)] w1 w2 by simp
  ultimately show ?thesis using w1 w2 g1 v bm.put_then_poke_len [OF assms] by auto
qed

definition demo_map :: bpf_map where
  "demo_map = \<lparr>key_size = 4, value_size = 4, max_entries = 2, storage = Array_storage [[0, 0, 0, 0], [0, 0, 0, 0]]\<rparr>"

theorem bpf_map_update_lookup_witness:
  "\<exists>m1 m2 v. map_update [1, 0, 0, 0] [1, 2, 3, 4] BPF_ANY demo_map = Inr m1 \<and>
     store_bytes [1, 0, 0, 0] 2 [9] m1 = Inr m2 \<and> map_lookup m2 [1, 0, 0, 0] = Inr (Some v) \<and> slice v 2 3 = [9]"
proof -
  let ?m1 = "demo_map\<lparr>storage := Array_storage [[0, 0, 0, 0], [1, 2, 3, 4]]\<rparr>"
  let ?m2 = "demo_map\<lparr>storage := Array_storage [[0, 0, 0, 0], [1, 2, 9, 4]]\<rparr>"
  have wf: "map_wf demo_map" by (simp add: map_wf_def demo_map_def)
  have i: "array_index [1, 0, 0, 0] = Inr 1" by (simp add: array_index_def from_le_bytes_def)
  have u: "map_update [1, 0, 0, 0] [1, 2, 3, 4] BPF_ANY demo_map = Inr ?m1"
    by (simp add: map_update_def demo_map_def validate_key_def i BPF_ANY_def BPF_NOEXIST_def)
  have s: "store_bytes [1, 0, 0, 0] 2 [9] ?m1 = Inr ?m2"
    by (simp add: store_bytes_def demo_map_def i stored_slice_def checked_add_def copy_at_def)
  from bpf_map_update_lookup [OF wf u _ s] u s show ?thesis by auto
qed

text \<open>C30: An update of a hash map fails for the documented reason and no other: \<open>EINVAL\<close> for a key or
  value of the wrong size or unknown flags, \<open>EEXIST\<close> and \<open>ENOENT\<close> as the flags demand, \<open>E2BIG\<close>
  exactly when a new key finds the map full.\<close>

theorem bpf_hash_update_outcome:
  assumes "map_wf m" and "storage m = Hash_storage entries"
  shows "map_update key val flags m =
    (if length key \<noteq> unat (key_size m) \<or> length val \<noteq> unat (value_size m) \<or> unat flags > 2 then Inl EINVAL
     else if flags = BPF_NOEXIST \<and> map_get m key \<noteq> None then Inl EEXIST
     else if flags = BPF_EXIST \<and> map_get m key = None then Inl ENOENT
     else if map_get m key = None \<and> card (dom (map_get m)) = unat (max_entries m) then Inl E2BIG
     else Inr (m\<lparr>storage := Hash_storage (btm_insert key val entries)\<rparr>))"
proof -
  have wf: "btm_inv entries" "length entries \<le> unat (max_entries m)"
    "\<forall>k v. (k, v) \<in> set entries \<longrightarrow> length k = unat (key_size m)"
    using assms by (auto simp: map_wf_def list_all_iff)
  have "map_get m k = btm_get entries k" for k
    using wf(3) btm_get_in_set [of entries k]
    by (cases "btm_get entries k") (auto simp: map_get_hash [OF assms(2)])
  then have get: "map_get m = btm_get entries" by blast
  have card: "card (dom (btm_get entries)) = length entries" by (rule btm_length [OF wf(1), symmetric])
  have fl: "2 < unat flags \<longleftrightarrow> flags \<noteq> 0 \<and> flags \<noteq> 1 \<and> flags \<noteq> 2"
    unfolding word_unat_eq_iff by simp linarith
  show ?thesis using wf(2) unfolding fl get card
    by (auto simp: map_update_def assms(2) validate_key_def hash_flags_error_def btm_contains_def Let_def
        BPF_ANY_def BPF_NOEXIST_def BPF_EXIST_def)
qed

theorem bpf_hash_update_outcome_witness:
  "map_update [7] [8] BPF_ANY \<lparr>key_size = 1, value_size = 1, max_entries = 1, storage = Hash_storage [([6], [5])]\<rparr> = Inl E2BIG"
proof -
  let ?m = "\<lparr>key_size = 1, value_size = 1, max_entries = 1, storage = Hash_storage [([6], [5])]\<rparr>"
  have g: "map_get ?m = [[6] \<mapsto> [5]]"
    by (rule ext) (auto simp: map_get_hash [of _ "[([6], [5])]"] btm_get_def)
  have wf: "map_wf ?m" by (simp add: map_wf_def btm_inv_def)
  have st: "storage ?m = Hash_storage [([6], [5])]" by simp
  have e: "BPF_ANY \<noteq> BPF_NOEXIST" "BPF_ANY \<noteq> BPF_EXIST" "unat BPF_ANY = 0"
    by (simp_all add: BPF_ANY_def BPF_NOEXIST_def BPF_EXIST_def)
  show ?thesis
    unfolding bpf_hash_update_outcome [OF wf st] g using e by simp
qed

end
