(* ===== verification/Bpf_Vm.thy ===== *)
theory Bpf_Vm
  imports Machines Bpf_Map
begin

text \<open>
  The eBPF virtual machine: the instruction format and constants of \<open>src/src/bpf/uapi.rs\<close>, the static
  verifier of \<open>src/src/bpf/verifier.rs\<close>, program objects (\<open>src/src/bpf/prog.rs\<close>) and the
  interpreter of \<open>src/src/bpf/runtime.rs\<close>.

  Maps are shared file objects: a program refers to them by number, and \<open>file_heap\<close> holds them. A
  run of the interpreter returns its outcome and the heap it leaves; every array access that the
  source would bounds-check is an \<open>index\<close> that may panic.
\<close>

section \<open>Instructions\<close>

definition BPF_PSEUDO_MAP_FD :: u8 where "BPF_PSEUDO_MAP_FD = 1"
definition BPF_FUNC_MAP_LOOKUP_ELEM :: i32 where "BPF_FUNC_MAP_LOOKUP_ELEM = 1"
definition BPF_CLASS_MASK :: u8 where "BPF_CLASS_MASK = 0x07"
definition BPF_LD :: u8 where "BPF_LD = 0x00"
definition BPF_LDX :: u8 where "BPF_LDX = 0x01"
definition BPF_ST :: u8 where "BPF_ST = 0x02"
definition BPF_STX :: u8 where "BPF_STX = 0x03"
definition BPF_ALU :: u8 where "BPF_ALU = 0x04"
definition BPF_JMP :: u8 where "BPF_JMP = 0x05"
definition BPF_ALU64 :: u8 where "BPF_ALU64 = 0x07"
definition BPF_SIZE_MASK :: u8 where "BPF_SIZE_MASK = 0x18"
definition BPF_W :: u8 where "BPF_W = 0x00"
definition BPF_H :: u8 where "BPF_H = 0x08"
definition BPF_B :: u8 where "BPF_B = 0x10"
definition BPF_DW :: u8 where "BPF_DW = 0x18"
definition BPF_MODE_MASK :: u8 where "BPF_MODE_MASK = 0xe0"
definition BPF_IMM :: u8 where "BPF_IMM = 0x00"
definition BPF_MEM :: u8 where "BPF_MEM = 0x60"
definition BPF_SRC_MASK :: u8 where "BPF_SRC_MASK = 0x08"
definition BPF_X :: u8 where "BPF_X = 0x08"
definition BPF_OP_MASK :: u8 where "BPF_OP_MASK = 0xf0"
definition BPF_ADD :: u8 where "BPF_ADD = 0x00"
definition BPF_SUB :: u8 where "BPF_SUB = 0x10"
definition BPF_DIV :: u8 where "BPF_DIV = 0x30"
definition BPF_JEQ :: u8 where "BPF_JEQ = 0x10"
definition BPF_JNE :: u8 where "BPF_JNE = 0x50"
definition BPF_LSH :: u8 where "BPF_LSH = 0x60"
definition BPF_RSH :: u8 where "BPF_RSH = 0x70"
definition BPF_MOD :: u8 where "BPF_MOD = 0x90"
definition BPF_MOV :: u8 where "BPF_MOV = 0xb0"
definition BPF_CALL :: u8 where "BPF_CALL = 0x80"
definition BPF_EXIT :: u8 where "BPF_EXIT = 0x90"
definition BPF_REG_0 :: nat where "BPF_REG_0 = 0"
definition BPF_REG_1 :: nat where "BPF_REG_1 = 1"
definition BPF_REG_2 :: nat where "BPF_REG_2 = 2"
definition BPF_REG_10 :: nat where "BPF_REG_10 = 10"
definition MAX_BPF_REG :: nat where "MAX_BPF_REG = 11"
definition BPF_STACK_SIZE :: nat where "BPF_STACK_SIZE = 512"
definition BPF_MAXINSNS :: u32 where "BPF_MAXINSNS = 4096"

lemmas bpf_consts = BPF_PSEUDO_MAP_FD_def BPF_FUNC_MAP_LOOKUP_ELEM_def BPF_CLASS_MASK_def BPF_LD_def
  BPF_LDX_def BPF_ST_def BPF_STX_def BPF_ALU_def BPF_JMP_def BPF_ALU64_def BPF_SIZE_MASK_def BPF_W_def
  BPF_H_def BPF_B_def BPF_DW_def BPF_MODE_MASK_def BPF_IMM_def BPF_MEM_def BPF_SRC_MASK_def BPF_X_def
  BPF_OP_MASK_def BPF_ADD_def BPF_SUB_def BPF_DIV_def BPF_JEQ_def BPF_JNE_def BPF_LSH_def BPF_RSH_def
  BPF_MOD_def BPF_MOV_def BPF_CALL_def BPF_EXIT_def

lemma class_distinct:
  "BPF_LDX \<noteq> BPF_ST" "BPF_ST \<noteq> BPF_LDX" "BPF_STX \<noteq> BPF_LDX" "BPF_STX \<noteq> BPF_ST"
  "BPF_ALU \<noteq> BPF_LDX" "BPF_ALU \<noteq> BPF_ST" "BPF_ALU \<noteq> BPF_STX" "BPF_ALU64 \<noteq> BPF_LDX" "BPF_ALU64 \<noteq> BPF_ST"
  "BPF_ALU64 \<noteq> BPF_STX" "BPF_JMP \<noteq> BPF_LDX" "BPF_JMP \<noteq> BPF_ST" "BPF_JMP \<noteq> BPF_STX" "BPF_JMP \<noteq> BPF_ALU"
  "BPF_JMP \<noteq> BPF_ALU64" "BPF_ALU64 \<noteq> BPF_ALU"
  by (simp_all add: bpf_consts)

record bpf_insn =
  insn_code :: u8
  insn_regs :: u8
  insn_off :: i16
  insn_imm :: i32

definition dst_reg :: "bpf_insn \<Rightarrow> nat" where
  "dst_reg insn = unat (insn_regs insn AND 0x0f)"

definition src_reg :: "bpf_insn \<Rightarrow> nat" where
  "src_reg insn = unat (drop_bit 4 (insn_regs insn))"

abbreviation insn_class :: "bpf_insn \<Rightarrow> u8" where
  "insn_class insn \<equiv> insn_code insn AND BPF_CLASS_MASK"

abbreviation insn_op :: "bpf_insn \<Rightarrow> u8" where
  "insn_op insn \<equiv> insn_code insn AND BPF_OP_MASK"

abbreviation insn_mode :: "bpf_insn \<Rightarrow> u8" where
  "insn_mode insn \<equiv> insn_code insn AND BPF_MODE_MASK"

abbreviation insn_size :: "bpf_insn \<Rightarrow> u8" where
  "insn_size insn \<equiv> insn_code insn AND BPF_SIZE_MASK"

abbreviation src_is_reg :: "bpf_insn \<Rightarrow> bool" where
  "src_is_reg insn \<equiv> insn_code insn AND BPF_SRC_MASK = BPF_X"

abbreviation is_ldimm64 :: "bpf_insn \<Rightarrow> bool" where
  "is_ldimm64 insn \<equiv> insn_class insn = BPF_LD \<and> insn_mode insn = BPF_IMM \<and> insn_size insn = BPF_DW"

section \<open>The verifier\<close>

datatype reg_kind = Scalar_k | MapFd_k | FramePtr_k | StackPtr_k | MapValuePtr_k | PacketPtr_k

definition checked_reg :: "nat \<Rightarrow> string + nat" where
  "checked_reg reg = (if reg < MAX_BPF_REG then Inr reg else Inl ''invalid register'')"

text \<open>\<open>isize\<close> arithmetic on a program counter and a 16-bit offset; \<open>checked_add\<close> cannot fail for the
  lengths of real programs but is kept.\<close>

definition checked_jump_target :: "nat \<Rightarrow> i16 \<Rightarrow> nat \<Rightarrow> string + nat" where
  "checked_jump_target pc off len =
     rbind (ok_or ''jump target overflow''
       (Option.bind (checked_add_i64 (int pc) 1) (\<lambda>base. checked_add_i64 base (sint off))))
       (\<lambda>target. if target < 0 \<or> target \<ge> int len then Inl ''jump out of range'' else Inr (nat target))"

definition verify_ldimm64 :: "bpf_insn list \<Rightarrow> nat \<Rightarrow> nat \<Rightarrow> reg_kind list \<Rightarrow> string + (nat \<times> reg_kind list)" where
  "verify_ldimm64 insns pc dst regs =
     (let insn = insns ! pc in
      if pc + 1 \<ge> length insns then Inl ''truncated ldimm64''
      else let next_insn = insns ! (pc + 1) in
        if insn_code next_insn \<noteq> 0 \<or> dst_reg next_insn \<noteq> 0 \<or> src_reg next_insn \<noteq> 0 \<or> insn_off next_insn \<noteq> 0
        then Inl ''invalid ldimm64 pair''
        else if insn_off insn \<noteq> 0 then Inl ''ldimm64 uses reserved fields''
        else if \<not> (src_reg insn = 0 \<or> src_reg insn = unat BPF_PSEUDO_MAP_FD)
        then Inl ''unsupported ldimm64 pseudo source''
        else Inr (pc + 2, regs[dst := (if src_reg insn = unat BPF_PSEUDO_MAP_FD then MapFd_k else Scalar_k)]))"

definition verify_alu :: "bpf_insn \<Rightarrow> nat \<Rightarrow> nat \<Rightarrow> reg_kind list \<Rightarrow> string + reg_kind list" where
  "verify_alu insn dst src regs =
     (let op = insn_op insn in
      if op = BPF_MOV then Inr (regs[dst := (if src_is_reg insn then regs ! src else Scalar_k)])
      else if src_is_reg insn \<and> regs ! src \<noteq> Scalar_k then Inl ''alu source must be scalar''
      else case regs ! dst of
        MapFd_k \<Rightarrow> Inl ''map fd arithmetic rejected''
      | MapValuePtr_k \<Rightarrow> Inl ''pointer arithmetic on map value rejected''
      | Scalar_k \<Rightarrow> Inr (regs[dst := Scalar_k])
      | k \<Rightarrow>
          if \<not> (op = BPF_ADD \<or> op = BPF_SUB) then Inl ''unsupported pointer operation''
          else Inr (if k \<noteq> PacketPtr_k then regs[dst := StackPtr_k] else regs))"

definition verify_jmp :: "bpf_insn list \<Rightarrow> nat \<Rightarrow> reg_kind list \<Rightarrow> string + reg_kind list" where
  "verify_jmp insns pc regs =
     (let insn = insns ! pc; op = insn_op insn in
      if op = BPF_CALL then
        (if insn_imm insn \<noteq> BPF_FUNC_MAP_LOOKUP_ELEM then Inl ''unsupported bpf helper''
         else if regs ! BPF_REG_1 \<noteq> MapFd_k then Inl ''map_lookup_elem needs map fd in r1''
         else if regs ! BPF_REG_2 \<notin> {FramePtr_k, StackPtr_k}
         then Inl ''map_lookup_elem needs stack key pointer in r2''
         else Inr (regs[BPF_REG_0 := MapValuePtr_k]))
      else if op = BPF_EXIT then Inr regs
      else if op = BPF_JEQ \<or> op = BPF_JNE then
        rbind (checked_jump_target pc (insn_off insn) (length insns)) (\<lambda>target.
          if target \<le> pc then Inl ''backward jumps unsupported'' else Inr regs)
      else Inl ''unsupported jump instruction'')"

text \<open>One turn of the scan: the next position and the kinds of the registers there.\<close>

definition verify_step :: "bpf_insn list \<Rightarrow> nat \<Rightarrow> reg_kind list \<Rightarrow> string + (nat \<times> reg_kind list)" where
  "verify_step insns pc regs =
     (let insn = insns ! pc in
      rbind (checked_reg (dst_reg insn)) (\<lambda>dst.
      rbind (checked_reg (src_reg insn)) (\<lambda>src.
        if is_ldimm64 insn then verify_ldimm64 insns pc dst regs
        else rbind
          (if insn_class insn = BPF_LDX \<and> insn_mode insn = BPF_MEM then
             (if regs ! src \<notin> {FramePtr_k, StackPtr_k, MapValuePtr_k, PacketPtr_k}
              then Inl ''memory load requires valid pointer'' else Inr (regs[dst := Scalar_k]))
           else if insn_class insn = BPF_ST \<and> insn_mode insn = BPF_MEM then
             (if regs ! dst \<notin> {FramePtr_k, StackPtr_k, MapValuePtr_k}
              then Inl ''memory store requires valid pointer'' else Inr regs)
           else if insn_class insn = BPF_STX \<and> insn_mode insn = BPF_MEM then
             (if regs ! dst \<notin> {FramePtr_k, StackPtr_k, MapValuePtr_k}
              then Inl ''memory store requires valid pointer''
              else if regs ! src \<noteq> Scalar_k then Inl ''memory store value must be scalar'' else Inr regs)
           else if insn_class insn = BPF_ALU \<or> insn_class insn = BPF_ALU64 then verify_alu insn dst src regs
           else if insn_class insn = BPF_JMP then verify_jmp insns pc regs
           else Inl ''unsupported bpf instruction'')
          (\<lambda>regs'. Inr (pc + 1, regs')))))"

lemma verify_ldimm64_forward: "verify_ldimm64 insns pc dst regs = Inr (pc', regs') \<Longrightarrow> pc' = pc + 2"
  by (simp add: verify_ldimm64_def Let_def split: if_split_asm)

lemma verify_step_forward:
  assumes "verify_step insns pc regs = Inr (pc', regs')"
  shows "pc < pc'"
proof (cases "is_ldimm64 (insns ! pc)")
  case True
  with assms have "\<exists>dst. verify_ldimm64 insns pc dst regs = Inr (pc', regs')"
    by (simp add: verify_step_def Let_def rbind_eq_Inr_iff) blast
  with verify_ldimm64_forward show ?thesis by fastforce
next
  case False
  with assms have "pc' = pc + 1"
    unfolding verify_step_def Let_def rbind_eq_Inr_iff if_not_P [OF False] by blast
  then show ?thesis by simp
qed

function verify_loop :: "bpf_insn list \<Rightarrow> nat \<Rightarrow> reg_kind list \<Rightarrow> string + unit" where
  "verify_loop insns pc regs =
     (if pc < length insns then
        (case verify_step insns pc regs of
           Inl e \<Rightarrow> Inl e
         | Inr (pc', regs') \<Rightarrow> verify_loop insns pc' regs')
      else Inr ())"
  by auto
termination
  by (relation "measure (\<lambda>(insns, pc, regs). length insns - pc)") (auto dest: verify_step_forward)

declare verify_loop.simps [simp del]

definition ends_with_exit :: "bpf_insn list \<Rightarrow> bool" where
  "ends_with_exit insns \<longleftrightarrow>
     insns \<noteq> [] \<and> insn_class (last insns) = BPF_JMP \<and> insn_op (last insns) = BPF_EXIT"

definition initial_kinds :: "reg_kind list" where
  "initial_kinds = (replicate MAX_BPF_REG Scalar_k)[BPF_REG_1 := PacketPtr_k, BPF_REG_10 := FramePtr_k]"

definition verify_program :: "bpf_insn list \<Rightarrow> string + unit" where
  "verify_program insns =
     (if \<not> ends_with_exit insns then Inl ''program must end with exit''
      else verify_loop insns 0 initial_kinds)"

section \<open>Program objects\<close>

text \<open>The maps a program refers to are shared files: \<open>file_heap\<close> holds the file objects of the BPF
  subsystem, and a program names them by the number of the object.\<close>

record bpf_prog =
  insns :: "bpf_insn list"
  maps :: "(u32, nat) btree_map"

datatype kfile = BpfMapFile bpf_map | BpfProgFile bpf_prog | OtherFile

type_synonym file_heap = "nat \<Rightarrow> kfile option"

definition with_map :: "file_heap \<Rightarrow> bpf_prog \<Rightarrow> u32 \<Rightarrow> (nat \<times> bpf_map) option" where
  "with_map h prog fd =
     Option.bind (btm_get (maps prog) fd)
       (\<lambda>f. case h f of Some (BpfMapFile m) \<Rightarrow> Some (f, m) | _ \<Rightarrow> None)"

definition map_key_size :: "file_heap \<Rightarrow> bpf_prog \<Rightarrow> u32 \<Rightarrow> syscall_error + nat" where
  "map_key_size h prog fd = ok_or EBADF (map_option (\<lambda>(f, m). unat (key_size m)) (with_map h prog fd))"

definition map_lookup_bytes :: "file_heap \<Rightarrow> bpf_prog \<Rightarrow> u32 \<Rightarrow> u8 list \<Rightarrow> syscall_error + u8 list option" where
  "map_lookup_bytes h prog fd key = rbind (ok_or EBADF (with_map h prog fd)) (\<lambda>(f, m). map_lookup m key)"

definition map_load_bytes ::
  "file_heap \<Rightarrow> bpf_prog \<Rightarrow> u32 \<Rightarrow> u8 list \<Rightarrow> usize \<Rightarrow> usize \<Rightarrow> u8 list outcome" where
  "map_load_bytes h prog fd key offset len =
     obind (of_result (map_lookup_bytes h prog fd key)) (\<lambda>found.
     obind (of_result (ok_or ENOENT found)) (\<lambda>val.
     obind (of_result (ok_or EINVAL (checked_add offset len))) (\<lambda>end.
       if unat end > length val then Err EACCES else index_range val (unat offset) (unat end))))"

definition map_store_bytes ::
  "bpf_prog \<Rightarrow> u32 \<Rightarrow> u8 list \<Rightarrow> usize \<Rightarrow> u8 list \<Rightarrow> file_heap \<Rightarrow> syscall_error + file_heap" where
  "map_store_bytes prog fd key offset data h =
     rbind (ok_or EBADF (with_map h prog fd)) (\<lambda>(f, m).
       rbind (store_bytes key offset data m) (\<lambda>m'. Inr (h(f \<mapsto> BpfMapFile m'))))"

section \<open>The interpreter\<close>

datatype runtime_value =
    Scalar u64
  | Null
  | MapFd u32
  | FramePtr
  | StackPtr i64
  | MapValuePtr u32 "u8 list" i64
  | PacketPtr i64

fun as_u64 :: "runtime_value \<Rightarrow> u64" where
  "as_u64 (Scalar w) = w"
| "as_u64 Null = 0"
| "as_u64 (MapFd fd) = ucast fd"
| "as_u64 FramePtr = 0"
| "as_u64 (StackPtr off) = off"
| "as_u64 (MapValuePtr fd key off) = 1"
| "as_u64 (PacketPtr off) = off"

definition pointer_alu :: "(i64 \<Rightarrow> runtime_value) \<Rightarrow> i64 \<Rightarrow> u8 \<Rightarrow> u64 \<Rightarrow> syscall_error + runtime_value" where
  "pointer_alu ptr cur op src =
     (if op = BPF_ADD then Inr (ptr (cur + src))
      else if op = BPF_SUB then Inr (ptr (cur - src))
      else if op = BPF_MOV then Inr (Scalar src)
      else Inl ENOSYS)"

definition scalar_alu64 :: "u64 \<Rightarrow> u8 \<Rightarrow> u64 \<Rightarrow> syscall_error + u64" where
  "scalar_alu64 cur op src =
     (if op = BPF_ADD then Inr (cur + src)
      else if op = BPF_SUB then Inr (cur - src)
      else if op = BPF_LSH then Inr (push_bit (unat (src AND 63)) cur)
      else if op = BPF_RSH then Inr (drop_bit (unat (src AND 63)) cur)
      else if op = BPF_MOV then Inr src
      else Inl ENOSYS)"

definition scalar_alu32 :: "u32 \<Rightarrow> u8 \<Rightarrow> u32 \<Rightarrow> syscall_error + u64" where
  "scalar_alu32 dst32 op src32 =
     (if op = BPF_DIV then Inr (if src32 = 0 then 0 else ucast (dst32 div src32))
      else if op = BPF_MOD then Inr (if src32 = 0 then ucast dst32 else ucast (dst32 mod src32))
      else if op = BPF_SUB then Inr (ucast (dst32 - src32))
      else if op = BPF_RSH then Inr (ucast (drop_bit (unat (src32 AND 31)) dst32))
      else if op = BPF_MOV then Inr (ucast src32)
      else Inl ENOSYS)"

definition exec_alu :: "runtime_value \<Rightarrow> u8 \<Rightarrow> u64 \<Rightarrow> bool \<Rightarrow> syscall_error + runtime_value" where
  "exec_alu dst op src is_alu64 =
     (case dst of
        FramePtr \<Rightarrow> pointer_alu StackPtr 0 op src
      | StackPtr off \<Rightarrow> pointer_alu StackPtr off op src
      | PacketPtr offset \<Rightarrow> pointer_alu PacketPtr offset op src
      | MapValuePtr fd key offset \<Rightarrow> Inl EACCES
      | _ \<Rightarrow> rbind (if is_alu64 then scalar_alu64 (as_u64 dst) op src
                   else scalar_alu32 (ucast (as_u64 dst)) op (ucast src)) (\<lambda>r. Inr (Scalar r)))"

definition sized_bytes_to_scalar :: "u8 list \<Rightarrow> syscall_error + u64" where
  "sized_bytes_to_scalar bs =
     (if length bs \<in> {1, 2, 4, 8} then Inr (from_le_bytes bs) else Inl ENOSYS)"

definition size_to_len :: "u8 \<Rightarrow> syscall_error + nat" where
  "size_to_len sz =
     (if sz = BPF_B then Inr 1 else if sz = BPF_H then Inr 2
      else if sz = BPF_W then Inr 4 else if sz = BPF_DW then Inr 8 else Inl ENOSYS)"

definition pointer_offset_to_stack :: "i64 \<Rightarrow> i16 \<Rightarrow> nat \<Rightarrow> syscall_error + nat" where
  "pointer_offset_to_stack base off len =
     rbind (ok_or EFAULT (Option.bind (checked_add_i64 (int BPF_STACK_SIZE) (sint base))
       (\<lambda>v. checked_add_i64 v (sint off)))) (\<lambda>start.
     rbind (ok_or EFAULT (checked_add_i64 start (int len))) (\<lambda>end.
       if start < 0 \<or> end < 0 \<or> nat end > BPF_STACK_SIZE then Inl EFAULT else Inr (nat start)))"

text \<open>A pointer into a map value or the packet with the offset of the instruction added.\<close>

definition checked_start :: "i64 \<Rightarrow> i16 \<Rightarrow> syscall_error + usize" where
  "checked_start offset off =
     rbind (ok_or EINVAL (checked_add_i64 (sint offset) (sint off)))
       (\<lambda>start. if start < 0 then Inl EACCES else Inr (of_int start))"

definition load_stack :: "u8 list \<Rightarrow> i64 \<Rightarrow> i16 \<Rightarrow> nat \<Rightarrow> u8 list outcome" where
  "load_stack stk base off len =
     obind (of_result (pointer_offset_to_stack base off len)) (\<lambda>start. index_range stk start (start + len))"

definition load_bytes ::
  "file_heap \<Rightarrow> bpf_prog \<Rightarrow> u8 list \<Rightarrow> u8 list \<Rightarrow> runtime_value \<Rightarrow> i16 \<Rightarrow> nat \<Rightarrow> u8 list outcome" where
  "load_bytes h prog stk packet src off len =
     (case src of
        FramePtr \<Rightarrow> load_stack stk 0 off len
      | StackPtr base \<Rightarrow> load_stack stk base off len
      | MapValuePtr fd key offset \<Rightarrow>
          obind (of_result (checked_start offset off))
            (\<lambda>start. map_load_bytes h prog fd key start (of_nat len))
      | PacketPtr offset \<Rightarrow>
          obind (of_result (checked_start offset off)) (\<lambda>start.
          obind (of_result (ok_or EINVAL (checked_add start (of_nat len)))) (\<lambda>end.
            if unat end > length packet then Err EACCES else index_range packet (unat start) (unat end)))
      | _ \<Rightarrow> Err EINVAL)"

definition load_value ::
  "file_heap \<Rightarrow> bpf_prog \<Rightarrow> u8 list \<Rightarrow> u8 list \<Rightarrow> runtime_value \<Rightarrow> i16 \<Rightarrow> u8 \<Rightarrow> u64 outcome" where
  "load_value h prog stk packet src off sz =
     obind (of_result (size_to_len sz)) (\<lambda>len.
     obind (load_bytes h prog stk packet src off len) (\<lambda>bs. of_result (sized_bytes_to_scalar bs)))"

definition store_stack :: "u8 list \<Rightarrow> i64 \<Rightarrow> i16 \<Rightarrow> u8 list \<Rightarrow> u8 list outcome" where
  "store_stack stk base off data =
     obind (of_result (pointer_offset_to_stack base off (length data))) (\<lambda>start. copy_range stk start data)"

definition store_value ::
  "bpf_prog \<Rightarrow> runtime_value \<Rightarrow> i16 \<Rightarrow> u8 list \<Rightarrow> u8 list \<times> file_heap \<Rightarrow> (u8 list \<times> file_heap) outcome" where
  "store_value prog dst off data mem =
     (case dst of
        FramePtr \<Rightarrow> obind (store_stack (fst mem) 0 off data) (\<lambda>stk. Ok (stk, snd mem))
      | StackPtr base \<Rightarrow> obind (store_stack (fst mem) base off data) (\<lambda>stk. Ok (stk, snd mem))
      | MapValuePtr fd key offset \<Rightarrow>
          obind (of_result (checked_start offset off)) (\<lambda>start.
          obind (of_result (map_store_bytes prog fd key start data (snd mem))) (\<lambda>h. Ok (fst mem, h)))
      | _ \<Rightarrow> Err EINVAL)"

definition load_stack_key :: "u8 list \<Rightarrow> runtime_value \<Rightarrow> nat \<Rightarrow> u8 list outcome" where
  "load_stack_key stk reg len =
     (case reg of
        FramePtr \<Rightarrow> load_stack stk 0 0 len
      | StackPtr base \<Rightarrow> load_stack stk base 0 len
      | _ \<Rightarrow> Err EINVAL)"

definition imm_to_bytes :: "i32 \<Rightarrow> u8 \<Rightarrow> u8 list" where
  "imm_to_bytes imm sz =
     (if sz = BPF_B then to_le_bytes 1 (ucast imm :: u8)
      else if sz = BPF_H then to_le_bytes 2 (ucast imm :: u16)
      else if sz = BPF_W then to_le_bytes 4 imm
      else if sz = BPF_DW then to_le_bytes 8 (scast imm :: u64)
      else [])"

definition scalar_to_sized_bytes :: "u64 \<Rightarrow> u8 \<Rightarrow> syscall_error + u8 list" where
  "scalar_to_sized_bytes val sz =
     (if sz = BPF_B then Inr (to_le_bytes 1 (ucast val :: u8))
      else if sz = BPF_H then Inr (to_le_bytes 2 (ucast val :: u16))
      else if sz = BPF_W then Inr (to_le_bytes 4 (ucast val :: u32))
      else if sz = BPF_DW then Inr (to_le_bytes 8 val)
      else Inl ENOSYS)"

text \<open>The variables of \<open>execute\<close>, and the file objects it reads and writes.\<close>

record vm =
  regs :: "runtime_value list"
  stack :: "u8 list"
  pc :: nat
  heap :: file_heap

text \<open>One instruction: the machine goes on (\<open>Inl\<close>), or the program exits with a value (\<open>Inr\<close>). An
  instruction that fails leaves the memory as it was.\<close>

definition set_reg :: "nat \<Rightarrow> runtime_value \<Rightarrow> vm \<Rightarrow> vm outcome" where
  "set_reg r v s = obind (index_set (regs s) r v) (\<lambda>rs. Ok (s\<lparr>regs := rs\<rparr>))"

definition next_pc :: "vm \<Rightarrow> vm + u64" where
  "next_pc s = Inl (s\<lparr>pc := pc s + 1\<rparr>)"

definition exec_ldimm64 :: "bpf_prog \<Rightarrow> vm \<Rightarrow> vm outcome" where
  "exec_ldimm64 prog s =
     (let insn = insns prog ! pc s in
      if pc s + 1 \<ge> length (insns prog) then Err EINVAL
      else
        let hi = (ucast (insn_imm (insns prog ! (pc s + 1))) :: u64);
            lo = (ucast (insn_imm insn) :: u64);
            imm64 = lo OR push_bit 32 hi
        in obind (set_reg (dst_reg insn)
             (if src_reg insn = unat BPF_PSEUDO_MAP_FD then MapFd (ucast imm64) else Scalar imm64) s)
             (\<lambda>s'. Ok (s'\<lparr>pc := pc s + 2\<rparr>)))"

definition exec_load :: "bpf_prog \<Rightarrow> u8 list \<Rightarrow> bpf_insn \<Rightarrow> vm \<Rightarrow> vm outcome" where
  "exec_load prog packet insn s =
     obind (index (regs s) (src_reg insn)) (\<lambda>src.
     obind (load_value (heap s) prog (stack s) packet src (insn_off insn) (insn_size insn)) (\<lambda>v.
       set_reg (dst_reg insn) (Scalar v) s))"

definition exec_store :: "bpf_prog \<Rightarrow> bpf_insn \<Rightarrow> u8 list \<Rightarrow> vm \<Rightarrow> vm outcome" where
  "exec_store prog insn data s =
     obind (index (regs s) (dst_reg insn)) (\<lambda>dst.
     obind (store_value prog dst (insn_off insn) data (stack s, heap s)) (\<lambda>(stk, h).
       Ok (s\<lparr>stack := stk, heap := h\<rparr>)))"

definition exec_store_reg :: "bpf_prog \<Rightarrow> bpf_insn \<Rightarrow> vm \<Rightarrow> vm outcome" where
  "exec_store_reg prog insn s =
     obind (index (regs s) (src_reg insn)) (\<lambda>src.
     obind (of_result (scalar_to_sized_bytes (as_u64 src) (insn_size insn))) (\<lambda>data.
       exec_store prog insn data s))"

definition exec_arith :: "bpf_insn \<Rightarrow> vm \<Rightarrow> vm outcome" where
  "exec_arith insn s =
     (let is_alu64 = (insn_class insn = BPF_ALU64); op = insn_op insn in
      if op = BPF_MOV then
        obind (if src_is_reg insn then index (regs s) (src_reg insn)
               else Ok (Scalar (if is_alu64 then scast (insn_imm insn) else ucast (insn_imm insn))))
          (\<lambda>v. set_reg (dst_reg insn) v s)
      else
        obind (if src_is_reg insn then obind (index (regs s) (src_reg insn)) (\<lambda>v. Ok (as_u64 v))
               else Ok (scast (insn_imm insn))) (\<lambda>src.
        obind (index (regs s) (dst_reg insn)) (\<lambda>dst.
        obind (of_result (exec_alu dst op src is_alu64)) (\<lambda>v. set_reg (dst_reg insn) v s))))"

definition exec_call :: "bpf_prog \<Rightarrow> bpf_insn \<Rightarrow> vm \<Rightarrow> vm outcome" where
  "exec_call prog insn s =
     (if insn_imm insn \<noteq> BPF_FUNC_MAP_LOOKUP_ELEM then Err ENOSYS
      else case regs s ! BPF_REG_1 of
        MapFd map_fd \<Rightarrow>
          obind (of_result (map_key_size (heap s) prog map_fd)) (\<lambda>len.
          obind (load_stack_key (stack s) (regs s ! BPF_REG_2) len) (\<lambda>key.
          obind (of_result (map_lookup_bytes (heap s) prog map_fd key)) (\<lambda>found.
            set_reg BPF_REG_0 (if found \<noteq> None then MapValuePtr map_fd key 0 else Null) s)))
      | _ \<Rightarrow> Err EINVAL)"

text \<open>\<open>pc as isize + 1 + off as isize\<close>, back to \<open>usize\<close>.\<close>

definition jump_pc :: "nat \<Rightarrow> i16 \<Rightarrow> nat" where
  "jump_pc p off = nat ((int p + 1 + sint off) mod 2 ^ 64)"

definition exec_branch :: "bpf_insn \<Rightarrow> vm \<Rightarrow> vm outcome" where
  "exec_branch insn s =
     obind (index (regs s) (dst_reg insn)) (\<lambda>dst.
     obind (if src_is_reg insn then obind (index (regs s) (src_reg insn)) (\<lambda>v. Ok (as_u64 v))
            else Ok (scast (insn_imm insn))) (\<lambda>rhs.
       let lhs = as_u64 dst;
           taken = (if insn_op insn = BPF_JEQ then lhs = rhs else lhs \<noteq> rhs)
       in Ok (s\<lparr>pc := if taken then jump_pc (pc s) (insn_off insn) else pc s + 1\<rparr>)))"

definition exec_insn :: "bpf_prog \<Rightarrow> u8 list \<Rightarrow> vm \<Rightarrow> (vm + u64) outcome" where
  "exec_insn prog packet s =
     (let insn = insns prog ! pc s; class = insn_class insn; op = insn_op insn in
      if is_ldimm64 insn then obind (exec_ldimm64 prog s) (\<lambda>s'. Ok (Inl s'))
      else if class = BPF_LDX \<and> insn_mode insn = BPF_MEM then
        obind (exec_load prog packet insn s) (\<lambda>s'. Ok (next_pc s'))
      else if class = BPF_ST \<and> insn_mode insn = BPF_MEM then
        obind (exec_store prog insn (imm_to_bytes (insn_imm insn) (insn_size insn)) s) (\<lambda>s'. Ok (next_pc s'))
      else if class = BPF_STX \<and> insn_mode insn = BPF_MEM then
        obind (exec_store_reg prog insn s) (\<lambda>s'. Ok (next_pc s'))
      else if class = BPF_ALU \<or> class = BPF_ALU64 then
        obind (exec_arith insn s) (\<lambda>s'. Ok (next_pc s'))
      else if class = BPF_JMP then
        (if op = BPF_CALL then obind (exec_call prog insn s) (\<lambda>s'. Ok (next_pc s'))
         else if op = BPF_EXIT then Ok (Inr (as_u64 (regs s ! BPF_REG_0)))
         else if op = BPF_JEQ \<or> op = BPF_JNE then obind (exec_branch insn s) (\<lambda>s'. Ok (Inl s'))
         else Err ENOSYS)
      else Err ENOSYS)"

text \<open>One turn of the loop of \<open>execute\<close>.\<close>

definition exec_step :: "bpf_prog \<times> u8 list \<Rightarrow> vm \<Rightarrow> vm + (u64 outcome \<times> file_heap)" where
  "exec_step p s =
     (if pc s < length (insns (fst p)) then
        (case exec_insn (fst p) (snd p) s of
           Ok (Inl s') \<Rightarrow> Inl s'
         | Ok (Inr r) \<Rightarrow> Inr (Ok r, heap s)
         | Err e \<Rightarrow> Inr (Err e, heap s)
         | Panic \<Rightarrow> Inr (Panic, heap s))
      else Inr (Ok (as_u64 (regs s ! BPF_REG_0)), heap s))"

partial_function (option) exec_loop :: "bpf_prog \<times> u8 list \<Rightarrow> vm \<Rightarrow> (u64 outcome \<times> file_heap) option" where
  "exec_loop p s = (case exec_step p s of Inl s' \<Rightarrow> exec_loop p s' | Inr r \<Rightarrow> Some r)"

definition initial_regs :: "u8 list \<Rightarrow> runtime_value list" where
  "initial_regs packet =
     (replicate MAX_BPF_REG (Scalar 0))[BPF_REG_1 := PacketPtr 0,
        BPF_REG_2 := Scalar (of_nat (length packet)), BPF_REG_10 := FramePtr]"

definition initial_vm :: "u8 list \<Rightarrow> file_heap \<Rightarrow> vm" where
  "initial_vm packet h = \<lparr>regs = initial_regs packet, stack = replicate BPF_STACK_SIZE 0, pc = 0, heap = h\<rparr>"

definition execute :: "bpf_prog \<Rightarrow> u8 list \<Rightarrow> file_heap \<Rightarrow> (u64 outcome \<times> file_heap) option" where
  "execute prog packet h = exec_loop (prog, packet) (initial_vm packet h)"

text \<open>\<open>filter_len\<close> drops the packet on an error of the program; a panic stays one.\<close>

definition filter_len :: "bpf_prog \<Rightarrow> u8 list \<Rightarrow> file_heap \<Rightarrow> (nat option outcome \<times> file_heap) option" where
  "filter_len prog packet h =
     map_option (\<lambda>(r, h'). (case r of
         Ok len \<Rightarrow> Ok (if len \<noteq> 0 then Some (min (unat len) (length packet)) else None)
       | Err e \<Rightarrow> Ok None
       | Panic \<Rightarrow> Panic, h')) (execute prog packet h)"

section \<open>What the verifier establishes\<close>

text \<open>Registers exist and conditional jumps go forward, at every position of the program: also at the
  second half of a 64-bit load, which the scan skips but a jump may reach.\<close>

definition insn_ok :: "bpf_insn list \<Rightarrow> nat \<Rightarrow> bool" where
  "insn_ok is i \<longleftrightarrow> dst_reg (is ! i) < MAX_BPF_REG \<and> src_reg (is ! i) < MAX_BPF_REG \<and>
     (insn_class (is ! i) = BPF_JMP \<and> insn_op (is ! i) \<in> {BPF_JEQ, BPF_JNE} \<longrightarrow>
        i < jump_pc i (insn_off (is ! i)) \<and> jump_pc i (insn_off (is ! i)) < length is)"

lemma checked_reg_Inr [simp]: "checked_reg r = Inr r' \<longleftrightarrow> r < MAX_BPF_REG \<and> r' = r"
  by (auto simp: checked_reg_def)

lemma checked_jump_target_Inr:
  assumes "checked_jump_target i off n = Inr t"
  shows "jump_pc i off = t \<and> t < n"
proof -
  from assms have t: "nat (int i + 1 + sint off) = t" "0 \<le> int i + 1 + sint off" "int i + 1 + sint off < int n"
    "int i + 1 + sint off < 2 ^ 63"
    by (auto simp: checked_jump_target_def rbind_eq_Inr_iff checked_add_i64_def in_i64_def bind_eq_Some_conv
        split: if_splits)
  then have "(int i + 1 + sint off) mod 2 ^ 64 = int i + 1 + sint off" by simp
  with t show ?thesis unfolding jump_pc_def by linarith
qed

lemma verify_jmp_ok:
  assumes "verify_jmp is i ks = Inr ks'" and "insn_op (is ! i) \<in> {BPF_JEQ, BPF_JNE}"
  shows "i < jump_pc i (insn_off (is ! i)) \<and> jump_pc i (insn_off (is ! i)) < length is"
proof -
  have "insn_op (is ! i) \<noteq> BPF_CALL" "insn_op (is ! i) \<noteq> BPF_EXIT"
    using assms(2) by (auto simp: bpf_consts)
  with assms obtain t where "checked_jump_target i (insn_off (is ! i)) (length is) = Inr t" "i < t"
    by (auto simp: verify_jmp_def Let_def rbind_eq_Inr_iff split: if_splits)
  with checked_jump_target_Inr show ?thesis by blast
qed

lemma verify_ldimm64_ok:
  assumes "verify_ldimm64 is i dst ks = Inr (j, ks')"
  shows "j = i + 2 \<and> i + 1 < length is \<and> insn_code (is ! (i + 1)) = 0 \<and> dst_reg (is ! (i + 1)) = 0 \<and>
    src_reg (is ! (i + 1)) = 0"
  using assms by (simp add: verify_ldimm64_def Let_def split: if_split_asm)

text \<open>The shapes of a successful turn of the scan.\<close>

lemma verify_step_cases:
  assumes "verify_step is i ks = Inr (j, ks')"
  obtains (ldimm64) "is_ldimm64 (is ! i)" "verify_ldimm64 is i (dst_reg (is ! i)) ks = Inr (j, ks')"
    | (load) "\<not> is_ldimm64 (is ! i)" "insn_class (is ! i) = BPF_LDX" "insn_mode (is ! i) = BPF_MEM" "j = i + 1"
      "ks ! src_reg (is ! i) \<in> {FramePtr_k, StackPtr_k, MapValuePtr_k, PacketPtr_k}"
      "ks' = ks[dst_reg (is ! i) := Scalar_k]"
    | (store) "\<not> is_ldimm64 (is ! i)" "insn_class (is ! i) = BPF_ST \<or> insn_class (is ! i) = BPF_STX" "insn_mode (is ! i) = BPF_MEM" "j = i + 1"
      "ks ! dst_reg (is ! i) \<in> {FramePtr_k, StackPtr_k, MapValuePtr_k}"
      "insn_class (is ! i) = BPF_STX \<Longrightarrow> ks ! src_reg (is ! i) = Scalar_k" "ks' = ks"
    | (alu) "\<not> is_ldimm64 (is ! i)" "insn_class (is ! i) \<in> {BPF_ALU, BPF_ALU64}" "j = i + 1"
      "verify_alu (is ! i) (dst_reg (is ! i)) (src_reg (is ! i)) ks = Inr ks'"
    | (jmp) "\<not> is_ldimm64 (is ! i)" "insn_class (is ! i) = BPF_JMP" "j = i + 1" "verify_jmp is i ks = Inr ks'"
proof -
  note ne = class_distinct
  note u = assms [unfolded verify_step_def Let_def rbind_eq_Inr_iff checked_reg_Inr]
  show thesis
  proof (cases "is_ldimm64 (is ! i)")
    case True
    then show ?thesis using u ldimm64 by auto
  next
    case False
    have body: "\<exists>ks''. (if insn_class (is ! i) = BPF_LDX \<and> insn_mode (is ! i) = BPF_MEM then
           (if ks ! src_reg (is ! i) \<notin> {FramePtr_k, StackPtr_k, MapValuePtr_k, PacketPtr_k}
            then Inl ''memory load requires valid pointer'' else Inr (ks[dst_reg (is ! i) := Scalar_k]))
         else if insn_class (is ! i) = BPF_ST \<and> insn_mode (is ! i) = BPF_MEM then
           (if ks ! dst_reg (is ! i) \<notin> {FramePtr_k, StackPtr_k, MapValuePtr_k}
            then Inl ''memory store requires valid pointer'' else Inr ks)
         else if insn_class (is ! i) = BPF_STX \<and> insn_mode (is ! i) = BPF_MEM then
           (if ks ! dst_reg (is ! i) \<notin> {FramePtr_k, StackPtr_k, MapValuePtr_k}
            then Inl ''memory store requires valid pointer''
            else if ks ! src_reg (is ! i) \<noteq> Scalar_k then Inl ''memory store value must be scalar'' else Inr ks)
         else if insn_class (is ! i) = BPF_ALU \<or> insn_class (is ! i) = BPF_ALU64
         then verify_alu (is ! i) (dst_reg (is ! i)) (src_reg (is ! i)) ks
         else if insn_class (is ! i) = BPF_JMP then verify_jmp is i ks
         else Inl ''unsupported bpf instruction'') = Inr ks'' \<and> j = i + 1 \<and> ks' = ks''"
      using u unfolding if_not_P [OF False] rbind_eq_Inr_iff by blast
    consider "insn_class (is ! i) = BPF_LDX" | "insn_class (is ! i) = BPF_ST" | "insn_class (is ! i) = BPF_STX"
      | "insn_class (is ! i) \<in> {BPF_ALU, BPF_ALU64}" | "insn_class (is ! i) = BPF_JMP"
      | "insn_class (is ! i) \<notin> {BPF_LDX, BPF_ST, BPF_STX, BPF_ALU, BPF_ALU64, BPF_JMP}" by blast
    then show ?thesis
    proof cases
      case 1
      then show ?thesis using body load [OF False] ne by (simp del: insert_iff split: if_split_asm)
    next
      case 2
      then show ?thesis using body store [OF False] ne by (simp del: insert_iff split: if_split_asm)
    next
      case 3
      then show ?thesis using body store [OF False] ne by (simp del: insert_iff split: if_split_asm)
    next
      case 4
      then show ?thesis using body alu [OF False] ne by auto
    next
      case 5
      then show ?thesis using body jmp [OF False] ne by auto
    next
      case 6
      then show ?thesis using body by simp
    qed
  qed
qed

lemma verify_step_regs:
  "verify_step is i ks = Inr r \<Longrightarrow> dst_reg (is ! i) < MAX_BPF_REG \<and> src_reg (is ! i) < MAX_BPF_REG"
  unfolding verify_step_def Let_def rbind_eq_Inr_iff checked_reg_Inr by blast

lemma verify_step_insn_ok:
  assumes "verify_step is i ks = Inr (j, ks')" and "i \<le> k" and "k < j"
  shows "insn_ok is k"
proof -
  note r = verify_step_regs [OF assms(1)]
  have nj: "BPF_LD \<noteq> BPF_JMP" "BPF_LDX \<noteq> BPF_JMP" "BPF_ST \<noteq> BPF_JMP" "BPF_STX \<noteq> BPF_JMP" "BPF_ALU \<noteq> BPF_JMP" "BPF_ALU64 \<noteq> BPF_JMP"
    by (simp_all add: bpf_consts)
  have other: ?thesis if "insn_class (is ! i) \<noteq> BPF_JMP" "j = i + 1"
  proof -
    have "k = i" using that(2) assms(2,3) by simp
    with that(1) r show ?thesis by (simp add: insn_ok_def)
  qed
  from assms(1) show ?thesis
  proof (cases rule: verify_step_cases)
    case ldimm64
    note l = verify_ldimm64_ok [OF ldimm64(2)]
    have "k = i \<or> k = i + 1" using l assms(2,3) by linarith
    then show ?thesis
    proof
      assume "k = i"
      then show ?thesis using r ldimm64(1) nj by (simp add: insn_ok_def)
    next
      assume k: "k = i + 1"
      have "insn_class (is ! k) = 0" using l k by simp
      then have "insn_class (is ! k) \<noteq> BPF_JMP" by (simp add: bpf_consts)
      then show ?thesis using l k by (simp add: insn_ok_def MAX_BPF_REG_def)
    qed
  next
    case jmp
    have "k = i" using jmp(3) assms(2,3) by simp
    then show ?thesis using r verify_jmp_ok [OF jmp(4)] unfolding insn_ok_def by blast
  next
    case load
    show ?thesis by (rule other) (simp_all only: load nj not_False_eq_True)
  next
    case store
    show ?thesis using other [OF _ store(4)] store(2) nj by metis
  next
    case alu
    show ?thesis using other [OF _ alu(3)] alu(2) nj by (metis insertE singletonD)
  qed
qed

lemma verify_loop_insn_ok:
  "verify_loop is i ks = Inr () \<Longrightarrow> i \<le> k \<Longrightarrow> k < length is \<Longrightarrow> insn_ok is k"
proof (induction "is" i ks rule: verify_loop.induct)
  case (1 "is" i ks)
  from "1.prems" have i: "i < length is" by simp
  with "1.prems"(1) obtain j ks' where st: "verify_step is i ks = Inr (j, ks')" and rest: "verify_loop is j ks' = Inr ()"
    unfolding verify_loop.simps [of "is" i] by (auto split: sum.splits)
  show ?case
  proof (cases "k < j")
    case True
    then show ?thesis using verify_step_insn_ok [OF st] "1.prems" by blast
  next
    case False
    then show ?thesis using "1.IH" [OF i st refl rest] "1.prems" by simp
  qed
qed

lemma verify_program_insn_ok: "verify_program is = Inr () \<Longrightarrow> k < length is \<Longrightarrow> insn_ok is k"
  by (auto simp: verify_program_def verify_loop_insn_ok split: if_splits)

section \<open>Running verified programs\<close>

text \<open>What a program may do to the file objects: it changes bytes inside the elements of maps, and
  nothing else.\<close>

definition heap_ok :: "file_heap \<Rightarrow> bool" where
  "heap_ok h \<longleftrightarrow> (\<forall>f m. h f = Some (BpfMapFile m) \<longrightarrow> map_wf m)"

definition map_evolves :: "bpf_map \<Rightarrow> bpf_map \<Rightarrow> bool" where
  "map_evolves m m' \<longleftrightarrow> key_size m' = key_size m \<and> value_size m' = value_size m \<and>
     max_entries m' = max_entries m \<and> dom (map_get m') = dom (map_get m)"

definition heap_evolves :: "nat set \<Rightarrow> file_heap \<Rightarrow> file_heap \<Rightarrow> bool" where
  "heap_evolves fs h h' \<longleftrightarrow> heap_ok h' \<and>
     (\<forall>f. h' f = h f \<or>
        (f \<in> fs \<and> (\<exists>m m'. h f = Some (BpfMapFile m) \<and> h' f = Some (BpfMapFile m') \<and> map_evolves m m')))"

lemma heap_evolves_refl: "heap_ok h \<Longrightarrow> heap_evolves fs h h"
  by (simp add: heap_evolves_def)

lemma heap_evolves_trans:
  assumes "heap_evolves fs h h1" and "heap_evolves fs h1 h2"
  shows "heap_evolves fs h h2"
  unfolding heap_evolves_def
proof (intro conjI allI)
  show "heap_ok h2" using assms(2) by (simp add: heap_evolves_def)
  show "h2 f = h f \<or> (f \<in> fs \<and> (\<exists>m m'. h f = Some (BpfMapFile m) \<and> h2 f = Some (BpfMapFile m') \<and> map_evolves m m'))" for f
    using assms unfolding heap_evolves_def map_evolves_def by (metis kfile.inject(1) option.inject)
qed

abbreviation prog_files :: "bpf_prog \<Rightarrow> nat set" where
  "prog_files prog \<equiv> ran (btm_get (maps prog))"

lemma with_map_Some:
  "with_map h prog fd = Some (f, m) \<Longrightarrow> h f = Some (BpfMapFile m) \<and> f \<in> prog_files prog"
  by (cases "btm_get (maps prog) fd") (auto simp: with_map_def intro: ranI split: option.split_asm kfile.split_asm)

lemma map_store_bytes_evolves:
  assumes "heap_ok h" and "map_store_bytes prog fd key off data h = Inr h'" and "length data < 2 ^ 64"
  shows "heap_evolves (prog_files prog) h h'"
proof -
  from assms(2) obtain f m m' where w: "with_map h prog fd = Some (f, m)"
    and st: "store_bytes key off data m = Inr m'" and h': "h' = h(f \<mapsto> BpfMapFile m')"
    by (auto simp: map_store_bytes_def rbind_eq_Inr_iff)
  note f = with_map_Some [OF w]
  have wf: "map_wf m" using assms(1) f unfolding heap_ok_def by blast
  note s = map_wf_store [OF wf st assms(3)] bm.poke_keeps_keys [OF wf assms(3) st]
  show ?thesis using assms(1) f s by (auto simp: h' heap_evolves_def heap_ok_def map_evolves_def)
qed

lemma pointer_offset_to_stack_bound:
  assumes "pointer_offset_to_stack base off len = Inr start"
  shows "start + len \<le> BPF_STACK_SIZE"
proof -
  from assms obtain st where "start = nat st" "0 \<le> st" "nat (st + int len) \<le> BPF_STACK_SIZE"
    by (auto simp: pointer_offset_to_stack_def rbind_eq_Inr_iff checked_add_i64_def split: if_splits)
  then show ?thesis by linarith
qed

lemma load_stack_safe:
  assumes "length stk = BPF_STACK_SIZE"
  shows "safe (\<lambda>bs. length bs = len) (load_stack stk base off len)"
  unfolding load_stack_def
  by (rule safe_bind, rule safe_of_result, erule pointer_offset_to_stack_bound)
    (simp add: assms length_slice)

lemma store_stack_safe:
  assumes "length stk = BPF_STACK_SIZE"
  shows "safe (\<lambda>stk'. length stk' = BPF_STACK_SIZE) (store_stack stk base off data)"
  unfolding store_stack_def
  by (rule safe_bind, rule safe_of_result, erule pointer_offset_to_stack_bound) (simp add: assms)

lemma checked_add_le: "checked_add a b = Some c \<Longrightarrow> unat a \<le> unat c"
  using checked_add_Some [of a b c] by simp

lemma map_load_bytes_safe: "safe (\<lambda>_. True) (map_load_bytes h prog fd key offset len)"
  unfolding map_load_bytes_def by (intro safe_bind_result) (auto dest: checked_add_le)

lemma load_bytes_safe:
  assumes "length stk = BPF_STACK_SIZE"
  shows "safe (\<lambda>_. True) (load_bytes h prog stk packet src off len)"
proof -
  note st = load_stack_safe [OF assms, THEN safe_weaken, of _ "\<lambda>_. True"]
  have pkt: "safe (\<lambda>_. True) (if unat e > length packet then Err EACCES else index_range packet (unat a) (unat e))"
    if "checked_add a b = Some e" for a b e :: usize
    using checked_add_le [OF that] by simp
  show ?thesis
    by (cases src) (auto simp: load_bytes_def simp del: if_split intro!: safe_bind_result st map_load_bytes_safe pkt)
qed

lemma load_value_safe:
  assumes "length stk = BPF_STACK_SIZE"
  shows "safe (\<lambda>_. True) (load_value h prog stk packet src off sz)"
  unfolding load_value_def
  by (rule safe_bind_result, rule safe_bind [OF load_bytes_safe [OF assms]], rule safe_of_result) simp

lemma store_value_safe:
  assumes "length (fst mem) = BPF_STACK_SIZE" and "heap_ok (snd mem)" and "length data < 2 ^ 64"
  shows "safe (\<lambda>(stk, h). length stk = BPF_STACK_SIZE \<and> heap_evolves (prog_files prog) (snd mem) h)
    (store_value prog dst off data mem)"
proof -
  note st = store_stack_safe [OF assms(1)] and r = heap_evolves_refl [OF assms(2)]
  note ms = map_store_bytes_evolves [OF assms(2) _ assms(3)]
  show ?thesis
    by (cases dst) (auto simp: store_value_def assms(1) r intro!: safe_bind [OF st] safe_bind_result ms)
qed

lemma length_imm_to_bytes: "length (imm_to_bytes imm sz) \<le> 8"
  by (simp add: imm_to_bytes_def)

lemma length_scalar_to_sized_bytes: "scalar_to_sized_bytes v sz = Inr bs \<Longrightarrow> length bs \<le> 8"
  by (auto simp: scalar_to_sized_bytes_def split: if_splits)

definition vm_ok :: "bpf_prog \<Rightarrow> file_heap \<Rightarrow> vm \<Rightarrow> bool" where
  "vm_ok prog h0 s \<longleftrightarrow> length (regs s) = MAX_BPF_REG \<and> length (stack s) = BPF_STACK_SIZE \<and>
     heap_evolves (prog_files prog) h0 (heap s)"

text \<open>\<open>stays prog h0 s\<close>: what the operations of an instruction other than a jump promise of the next
  state.\<close>

abbreviation stays :: "bpf_prog \<Rightarrow> file_heap \<Rightarrow> vm \<Rightarrow> vm \<Rightarrow> bool" where
  "stays prog h0 s \<equiv> \<lambda>s'. vm_ok prog h0 s' \<and> pc s' = pc s"

lemma set_reg_safe:
  "vm_ok prog h0 s \<Longrightarrow> r < MAX_BPF_REG \<Longrightarrow> safe (stays prog h0 s) (set_reg r v s)"
  by (simp add: set_reg_def vm_ok_def)

lemma reg_safe: "vm_ok prog h0 s \<Longrightarrow> r < MAX_BPF_REG \<Longrightarrow> safe (\<lambda>_. True) (index (regs s) r)"
  by (simp add: vm_ok_def)

lemma exec_ldimm64_safe:
  assumes "vm_ok prog h0 s" and "dst_reg (insns prog ! pc s) < MAX_BPF_REG"
  shows "safe (\<lambda>s'. vm_ok prog h0 s' \<and> pc s' = pc s + 2 \<and> pc s' \<le> length (insns prog)) (exec_ldimm64 prog s)"
  using assms by (auto simp: exec_ldimm64_def Let_def vm_ok_def intro!: safe_bind [OF set_reg_safe [OF assms]])

lemma exec_load_safe:
  assumes "vm_ok prog h0 s" and "dst_reg insn < MAX_BPF_REG" and "src_reg insn < MAX_BPF_REG"
  shows "safe (stays prog h0 s) (exec_load prog packet insn s)"
  unfolding exec_load_def
  using assms(1) by (intro safe_bind [OF reg_safe [OF assms(1,3)]] safe_bind [OF load_value_safe] set_reg_safe assms)
    (simp add: vm_ok_def)

lemma exec_store_safe:
  assumes "vm_ok prog h0 s" and "dst_reg insn < MAX_BPF_REG" and "length data \<le> 8"
  shows "safe (stays prog h0 s) (exec_store prog insn data s)"
proof -
  have h: "heap_ok (heap s)" "length (stack s) = BPF_STACK_SIZE" and l: "length data < 2 ^ 64"
    using assms by (auto simp: vm_ok_def heap_evolves_def)
  have st: "safe (\<lambda>(stk, h'). length stk = BPF_STACK_SIZE \<and> heap_evolves (prog_files prog) (heap s) h')
      (store_value prog dst off data (stack s, heap s))" for dst off
    using store_value_safe [of "(stack s, heap s)" data prog dst off] h l by simp
  show ?thesis unfolding exec_store_def
    using assms(1) by (intro safe_bind [OF reg_safe [OF assms(1,2)]] safe_bind [OF st])
      (auto simp: vm_ok_def intro: heap_evolves_trans)
qed

lemma exec_store_reg_safe:
  assumes "vm_ok prog h0 s" and "dst_reg insn < MAX_BPF_REG" and "src_reg insn < MAX_BPF_REG"
  shows "safe (stays prog h0 s) (exec_store_reg prog insn s)"
  unfolding exec_store_reg_def
  by (intro safe_bind [OF reg_safe [OF assms(1,3)]] safe_bind_result exec_store_safe assms length_scalar_to_sized_bytes)

lemma exec_arith_safe:
  assumes "vm_ok prog h0 s" and "dst_reg insn < MAX_BPF_REG" and "src_reg insn < MAX_BPF_REG"
  shows "safe (stays prog h0 s) (exec_arith insn s)"
  using assms unfolding exec_arith_def Let_def
  by (auto intro!: safe_bind [of "\<lambda>_. True"] reg_safe [OF assms(1)] safe_bind_result set_reg_safe)

lemma exec_call_safe:
  assumes "vm_ok prog h0 s"
  shows "safe (stays prog h0 s) (exec_call prog insn s)"
proof -
  have "length (stack s) = BPF_STACK_SIZE" using assms by (simp add: vm_ok_def)
  then have k: "safe (\<lambda>bs. length bs = len) (load_stack_key (stack s) reg len)" for reg len
    by (simp add: load_stack_key_def load_stack_safe split: runtime_value.split)
  have r: "BPF_REG_0 < MAX_BPF_REG" by (simp add: BPF_REG_0_def MAX_BPF_REG_def)
  show ?thesis unfolding exec_call_def
    by (auto split: runtime_value.split intro!: safe_bind_result safe_bind [OF k] set_reg_safe [OF assms r])
qed

lemma exec_branch_safe:
  assumes "vm_ok prog h0 s" and "dst_reg insn < MAX_BPF_REG" and "src_reg insn < MAX_BPF_REG"
    and "pc s < jump_pc (pc s) (insn_off insn)" and "jump_pc (pc s) (insn_off insn) < n" and "pc s < n"
  shows "safe (\<lambda>s'. vm_ok prog h0 s' \<and> pc s < pc s' \<and> pc s' \<le> n) (exec_branch insn s)"
proof -
  have ok: "vm_ok prog h0 (s\<lparr>pc := q\<rparr>)" for q using assms(1) by (simp add: vm_ok_def)
  show ?thesis using assms(4-6) unfolding exec_branch_def Let_def
    by (auto simp: ok intro!: safe_bind [of "\<lambda>_. True"] reg_safe [OF assms(1)] assms(2,3))
qed

lemma exec_insn_safe:
  assumes ok: "vm_ok prog h0 s" and io: "insn_ok (insns prog) (pc s)" and lt: "pc s < length (insns prog)"
  shows "safe (\<lambda>r. case r of Inl s' \<Rightarrow> vm_ok prog h0 s' \<and> pc s < pc s' \<and> pc s' \<le> length (insns prog) | Inr _ \<Rightarrow> True)
    (exec_insn prog packet s)" (is "safe ?P _")
proof -
  let ?i = "insns prog ! pc s"
  have d: "dst_reg ?i < MAX_BPF_REG" and r: "src_reg ?i < MAX_BPF_REG" using io by (auto simp: insn_ok_def)
  have advance: "safe ?P (obind x (\<lambda>s'. Ok (next_pc s')))" if "safe (stays prog h0 s) x" for x
    by (rule safe_bind [OF that]) (use lt in \<open>simp add: next_pc_def vm_ok_def\<close>)
  have jump: "safe ?P (obind (exec_branch ?i s) (\<lambda>s'. Ok (Inl s')))"
    if "insn_class ?i = BPF_JMP" "insn_op ?i = BPF_JEQ \<or> insn_op ?i = BPF_JNE"
  proof -
    have t: "pc s < jump_pc (pc s) (insn_off ?i)" "jump_pc (pc s) (insn_off ?i) < length (insns prog)"
      using io that unfolding insn_ok_def by blast+
    show ?thesis by (rule safe_bind [OF exec_branch_safe [OF ok d r t lt]]) simp
  qed
  have lddw: "safe ?P (obind (exec_ldimm64 prog s) (\<lambda>s'. Ok (Inl s')))"
    by (rule safe_bind [OF exec_ldimm64_safe [OF ok d]]) simp
  note parts = advance [OF exec_load_safe [OF ok d r]] advance [OF exec_store_safe [OF ok d length_imm_to_bytes]]
    advance [OF exec_store_reg_safe [OF ok d r]] advance [OF exec_arith_safe [OF ok d r]] advance [OF exec_call_safe [OF ok]]
  show ?thesis unfolding exec_insn_def Let_def
    using lddw parts jump by (simp split: if_split)
qed

text \<open>The machine of a program, a packet and the heap it starts from.\<close>

definition machine_good :: "(bpf_prog \<times> u8 list) \<times> file_heap \<Rightarrow> vm \<Rightarrow> bool" where
  "machine_good p s \<longleftrightarrow> (case p of ((prog, packet), h0) \<Rightarrow>
     verify_program (insns prog) = Inr () \<and> vm_ok prog h0 s \<and> pc s \<le> length (insns prog))"

definition machine_fine :: "(bpf_prog \<times> u8 list) \<times> file_heap \<Rightarrow> u64 outcome \<times> file_heap \<Rightarrow> bool" where
  "machine_fine p r \<longleftrightarrow> (case p of ((prog, packet), h0) \<Rightarrow>
     fst r \<noteq> Panic \<and> heap_evolves (prog_files prog) h0 (snd r))"

definition machine_left :: "(bpf_prog \<times> u8 list) \<times> file_heap \<Rightarrow> vm \<Rightarrow> nat" where
  "machine_left p s = (case p of ((prog, packet), h0) \<Rightarrow> length (insns prog) - pc s)"

interpretation ebpf: forward_machine "\<lambda>p. exec_step (fst p)" "\<lambda>p. exec_loop (fst p)" machine_good machine_fine machine_left
proof
  show "exec_loop (fst p) s = (case exec_step (fst p) s of Inl s' \<Rightarrow> exec_loop (fst p) s' | Inr r \<Rightarrow> Some r)"
    for p :: "(bpf_prog \<times> u8 list) \<times> file_heap" and s
    by (rule exec_loop.simps)
next
  fix p :: "(bpf_prog \<times> u8 list) \<times> file_heap" and s s'
  assume good: "machine_good p s" and st: "exec_step (fst p) s = Inl s'"
  obtain prog packet h0 where p: "p = ((prog, packet), h0)" by (cases p) auto
  have lt: "pc s < length (insns prog)" and ex: "exec_insn prog packet s = Ok (Inl s')"
    using st by (auto simp: p exec_step_def split: if_splits outcome.splits sum.splits)
  have ok: "vm_ok prog h0 s" and v: "verify_program (insns prog) = Inr ()" using good by (auto simp: p machine_good_def)
  from exec_insn_safe [OF ok verify_program_insn_ok [OF v lt] lt, of packet] ex v lt
  show "machine_good p s' \<and> machine_left p s' < machine_left p s"
    by (simp add: p machine_good_def machine_left_def) linarith
next
  fix p :: "(bpf_prog \<times> u8 list) \<times> file_heap" and s r
  assume good: "machine_good p s" and st: "exec_step (fst p) s = Inr r"
  obtain prog packet h0 where p: "p = ((prog, packet), h0)" by (cases p) auto
  have ok: "vm_ok prog h0 s" and v: "verify_program (insns prog) = Inr ()" using good by (auto simp: p machine_good_def)
  have ev: "heap_evolves (prog_files prog) h0 (heap s)" using ok by (simp add: vm_ok_def)
  show "machine_fine p r"
  proof (cases "pc s < length (insns prog)")
    case True
    have "exec_insn prog packet s \<noteq> Panic"
      using exec_insn_safe [OF ok verify_program_insn_ok [OF v True] True, of packet] by (rule safe_not_panic)
    with st True ev show ?thesis
      by (auto simp: p machine_fine_def exec_step_def split: outcome.splits sum.splits)
  next
    case False
    with st ev show ?thesis by (auto simp: p machine_fine_def exec_step_def)
  qed
qed

lemma initial_vm_good:
  "verify_program (insns prog) = Inr () \<Longrightarrow> heap_ok h \<Longrightarrow> machine_good ((prog, packet), h) (initial_vm packet h)"
  by (simp add: machine_good_def initial_vm_def vm_ok_def initial_regs_def heap_evolves_refl)

lemma execute_returns:
  assumes "verify_program (insns prog) = Inr ()" and "heap_ok h"
  shows "\<exists>r h'. execute prog packet h = Some (r, h') \<and> r \<noteq> Panic \<and> heap_evolves (prog_files prog) h h'"
  using ebpf.run_returns [OF initial_vm_good [OF assms]] by (auto simp: execute_def machine_fine_def)

lemma filter_len_returns:
  assumes "verify_program (insns prog) = Inr ()" and "heap_ok h"
  shows "\<exists>k h'. filter_len prog packet h = Some (Ok k, h') \<and> heap_evolves (prog_files prog) h h' \<and>
    (\<forall>n. k = Some n \<longrightarrow> n \<le> length packet \<and> (packet \<noteq> [] \<longrightarrow> 0 < n))"
proof -
  obtain r h' where r: "execute prog packet h = Some (r, h')" "r \<noteq> Panic" and h': "heap_evolves (prog_files prog) h h'"
    using execute_returns [OF assms] by blast
  have pos: "0 < unat w" if "w \<noteq> 0" for w :: u64 using that by (simp add: unat_gt_0)
  show ?thesis using r h' by (cases r) (auto simp: filter_len_def pos)
qed

text \<open>Attaching a program requires that it was verified when it was loaded; sockets then rely on the
  contract of a filter.\<close>

interpretation ebpf_filter: packet_filter
  "\<lambda>(prog, h). verify_program (insns prog) = Inr () \<and> heap_ok h"
  "\<lambda>(prog, h) packet. case filter_len prog packet h of Some (Ok k, h') \<Rightarrow> Some k | _ \<Rightarrow> None"
proof
  fix p :: "bpf_prog \<times> file_heap" and packet n
  assume a: "case p of (prog, h) \<Rightarrow> verify_program (insns prog) = Inr () \<and> heap_ok h"
  obtain prog h where p: "p = (prog, h)" by (cases p) auto
  from a p obtain k h' where k: "filter_len prog packet h = Some (Ok k, h')"
    and b: "\<forall>n. k = Some n \<longrightarrow> n \<le> length packet \<and> (packet \<noteq> [] \<longrightarrow> 0 < n)"
    using filter_len_returns [of prog h packet] by auto
  show "\<exists>r. (case p of (prog, h) \<Rightarrow> \<lambda>packet. case filter_len prog packet h of Some (Ok k, h') \<Rightarrow> Some k | _ \<Rightarrow> None) packet = Some r"
    using k by (simp add: p)
  assume "(case p of (prog, h) \<Rightarrow> \<lambda>packet. case filter_len prog packet h of Some (Ok k, h') \<Rightarrow> Some k | _ \<Rightarrow> None) packet = Some (Some n)"
  then show "n \<le> length packet \<and> (packet \<noteq> [] \<longrightarrow> 0 < n)" using k b by (simp add: p)
qed

section \<open>The verifier's types\<close>

text \<open>\<open>map_lookup_elem\<close> may return a null pointer, which the verifier types as a pointer into a map
  value and the interpreter checks at each use.\<close>

fun kind_matches :: "reg_kind \<Rightarrow> runtime_value \<Rightarrow> bool" where
  "kind_matches Scalar_k v \<longleftrightarrow> (\<exists>w. v = Scalar w)"
| "kind_matches MapFd_k v \<longleftrightarrow> (\<exists>fd. v = MapFd fd)"
| "kind_matches FramePtr_k v \<longleftrightarrow> v = FramePtr"
| "kind_matches StackPtr_k v \<longleftrightarrow> (\<exists>off. v = StackPtr off)"
| "kind_matches MapValuePtr_k v \<longleftrightarrow> v = Null \<or> (\<exists>fd key off. v = MapValuePtr fd key off)"
| "kind_matches PacketPtr_k v \<longleftrightarrow> (\<exists>off. v = PacketPtr off)"

definition typed :: "reg_kind list \<Rightarrow> vm \<Rightarrow> bool" where
  "typed ks s \<longleftrightarrow> length ks = MAX_BPF_REG \<and> list_all2 kind_matches ks (regs s)"

text \<open>The register types the scan has at a position, and the states of a run.\<close>

inductive scan_reach :: "bpf_insn list \<Rightarrow> nat \<Rightarrow> reg_kind list \<Rightarrow> bool" for "is" where
  scan_start: "scan_reach is 0 initial_kinds"
| scan_step: "scan_reach is i ks \<Longrightarrow> i < length is \<Longrightarrow> verify_step is i ks = Inr (j, ks') \<Longrightarrow> scan_reach is j ks'"

inductive exec_reach :: "bpf_prog \<Rightarrow> u8 list \<Rightarrow> file_heap \<Rightarrow> vm \<Rightarrow> bool" for prog packet h where
  exec_start: "exec_reach prog packet h (initial_vm packet h)"
| exec_next: "exec_reach prog packet h s \<Longrightarrow> exec_step (prog, packet) s = Inl s' \<Longrightarrow> exec_reach prog packet h s'"

definition straight_line :: "bpf_insn list \<Rightarrow> bool" where
  "straight_line is \<longleftrightarrow> (\<forall>insn\<in>set is. \<not> (insn_class insn = BPF_JMP \<and> insn_op insn \<in> {BPF_JEQ, BPF_JNE}))"

lemma typed_length: "typed ks s \<Longrightarrow> length (regs s) = MAX_BPF_REG"
  by (auto simp: typed_def dest: list_all2_lengthD)

lemma typed_reg: "typed ks s \<Longrightarrow> r < MAX_BPF_REG \<Longrightarrow> kind_matches (ks ! r) (regs s ! r)"
  by (simp add: typed_def list_all2_nthD)

lemma set_reg_typed:
  assumes "set_reg r v s = Ok s'" and "typed ks s" and "kind_matches k v"
  shows "typed (ks[r := k]) s' \<and> pc s' = pc s"
  using assms typed_length [OF assms(2)]
  by (auto simp: set_reg_def index_set_def typed_def list_all2_update_cong split: if_splits)

lemma exec_alu_kind:
  assumes "exec_alu dst op src is64 = Inr v" and "kind_matches k dst" and "op \<noteq> BPF_MOV"
  shows "kind_matches (case k of FramePtr_k \<Rightarrow> StackPtr_k | PacketPtr_k \<Rightarrow> PacketPtr_k | StackPtr_k \<Rightarrow> StackPtr_k | _ \<Rightarrow> Scalar_k) v"
  using assms by (cases k) (auto simp: exec_alu_def pointer_alu_def rbind_eq_Inr_iff split: if_splits)

lemma exec_arith_typed:
  assumes ex: "exec_arith insn s = Ok s'" and ty: "typed ks s"
    and v: "verify_alu insn (dst_reg insn) (src_reg insn) ks = Inr ks'"
    and d: "dst_reg insn < MAX_BPF_REG" and r: "src_reg insn < MAX_BPF_REG"
  shows "typed ks' s' \<and> pc s' = pc s"
proof (cases "insn_op insn = BPF_MOV")
  case True
  obtain val where val: "set_reg (dst_reg insn) val s = Ok s'"
    "kind_matches (if src_is_reg insn then ks ! src_reg insn else Scalar_k) val"
    using ex True typed_reg [OF ty r] typed_length [OF ty] r by (auto simp: exec_arith_def obind_eq_Ok split: if_splits)
  have "ks' = ks[dst_reg insn := (if src_is_reg insn then ks ! src_reg insn else Scalar_k)]"
    using v True by (simp add: verify_alu_def Let_def)
  then show ?thesis using set_reg_typed [OF val(1) ty val(2)] by simp
next
  case False
  obtain src val where alu: "exec_alu (regs s ! dst_reg insn) (insn_op insn) src (insn_class insn = BPF_ALU64) = Inr val"
    and set: "set_reg (dst_reg insn) val s = Ok s'"
    using ex False typed_length [OF ty] d by (auto simp: exec_arith_def Let_def obind_eq_Ok split: if_splits)
  note k = exec_alu_kind [OF alu typed_reg [OF ty d] False]
  have "ks' = ks[dst_reg insn := (case ks ! dst_reg insn of FramePtr_k \<Rightarrow> StackPtr_k | PacketPtr_k \<Rightarrow> PacketPtr_k | StackPtr_k \<Rightarrow> StackPtr_k | _ \<Rightarrow> Scalar_k)]"
    using v False list_update_id [of ks "dst_reg insn"]
    by (cases "ks ! dst_reg insn") (auto simp: verify_alu_def Let_def split: if_splits)
  then show ?thesis using set_reg_typed [OF set ty k] by simp
qed

lemma exec_ldimm64_typed:
  assumes "exec_ldimm64 prog s = Ok s'" and "typed ks s"
    and "verify_ldimm64 (insns prog) (pc s) (dst_reg (insns prog ! pc s)) ks = Inr (j, ks')"
  shows "typed ks' s' \<and> pc s' = j"
proof -
  let ?i = "insns prog ! pc s" and ?k = "if src_reg (insns prog ! pc s) = unat BPF_PSEUDO_MAP_FD then MapFd_k else Scalar_k"
  have vk: "ks' = ks[dst_reg ?i := ?k] \<and> j = pc s + 2"
    using assms(3) by (simp add: verify_ldimm64_def Let_def split: if_split_asm)
  from assms(1) obtain v t where t: "set_reg (dst_reg ?i) v s = Ok t" "kind_matches ?k v" "s' = t\<lparr>pc := pc s + 2\<rparr>"
    by (auto simp: exec_ldimm64_def Let_def obind_eq_Ok split: if_splits)
  show ?thesis using set_reg_typed [OF t(1) assms(2) t(2)] vk t(3) by (simp add: typed_def)
qed

lemma exec_load_typed:
  assumes "exec_load prog packet insn s = Ok s'" and "typed ks s"
  shows "typed (ks[dst_reg insn := Scalar_k]) s' \<and> pc s' = pc s"
proof -
  obtain v where "set_reg (dst_reg insn) (Scalar v) s = Ok s'"
    using assms(1) by (auto simp: exec_load_def obind_eq_Ok)
  from set_reg_typed [OF this assms(2), of Scalar_k] show ?thesis by simp
qed

lemma exec_store_typed: "exec_store prog insn data s = Ok s' \<Longrightarrow> typed ks s \<Longrightarrow> typed ks s' \<and> pc s' = pc s"
  by (auto simp: exec_store_def obind_eq_Ok typed_def)

lemma exec_call_typed:
  assumes "exec_call prog insn s = Ok s'" and "typed ks s"
  shows "typed (ks[BPF_REG_0 := MapValuePtr_k]) s' \<and> pc s' = pc s"
proof -
  obtain v where v: "set_reg BPF_REG_0 v s = Ok s'" "kind_matches MapValuePtr_k v"
    using assms(1) by (auto simp: exec_call_def obind_eq_Ok split: if_splits runtime_value.splits)
  from set_reg_typed [OF v(1) assms(2) v(2)] show ?thesis by simp
qed

text \<open>One instruction that is not a conditional jump keeps the verifier's types.\<close>

lemma exec_insn_typed:
  assumes ex: "exec_insn prog packet s = Ok (Inl s')" and ty: "typed ks s"
    and v: "verify_step (insns prog) (pc s) ks = Inr (j, ks')"
    and nb: "\<not> (insn_class (insns prog ! pc s) = BPF_JMP \<and> insn_op (insns prog ! pc s) \<in> {BPF_JEQ, BPF_JNE})"
  shows "typed ks' s' \<and> pc s' = j"
proof -
  let ?i = "insns prog ! pc s"
  note r = verify_step_regs [OF v] and ex' = ex [unfolded exec_insn_def Let_def]
  have np: "typed ks (t\<lparr>pc := q\<rparr>) = typed ks t" for ks t q by (simp add: typed_def)
  from v show ?thesis
  proof (cases rule: verify_step_cases)
    case ldimm64
    then show ?thesis using ex' exec_ldimm64_typed [OF _ ty ldimm64(2)] by (simp add: obind_eq_Ok)
  next
    case load
    from ex' load(1-3) obtain t where "exec_load prog packet ?i s = Ok t" "s' = t\<lparr>pc := pc t + 1\<rparr>"
      unfolding if_not_P [OF load(1)] by (auto simp: obind_eq_Ok next_pc_def)
    with exec_load_typed [OF _ ty] load(4,6) show ?thesis by (auto simp: np)
  next
    case store
    from ex' store(2,3) obtain t data where "exec_store prog ?i data s = Ok t" "s' = t\<lparr>pc := pc t + 1\<rparr>"
      unfolding if_not_P [OF store(1)] by (auto simp: obind_eq_Ok next_pc_def class_distinct exec_store_reg_def)
    with exec_store_typed [OF _ ty] store(4,7) show ?thesis by (auto simp: np)
  next
    case alu
    from ex' alu(2) obtain t where "exec_arith ?i s = Ok t" "s' = t\<lparr>pc := pc t + 1\<rparr>"
      unfolding if_not_P [OF alu(1)] by (auto simp: obind_eq_Ok next_pc_def class_distinct)
    with exec_arith_typed [OF _ ty alu(4)] r alu(3) show ?thesis by (auto simp: np)
  next
    case jmp
    have call: "insn_op ?i = BPF_CALL"
      using ex' nb jmp(2) unfolding if_not_P [OF jmp(1)] by (auto simp: class_distinct split: if_splits)
    from ex' jmp(2) obtain t where "exec_call prog ?i s = Ok t" "s' = t\<lparr>pc := pc t + 1\<rparr>"
      unfolding if_not_P [OF jmp(1)] by (auto simp: obind_eq_Ok next_pc_def class_distinct call)
    with exec_call_typed [OF _ ty] jmp(3,4) call show ?thesis
      by (auto simp: np verify_jmp_def Let_def split: if_splits)
  qed
qed

lemma scan_verified:
  "scan_reach is i ks \<Longrightarrow> verify_loop is 0 initial_kinds = Inr () \<Longrightarrow> verify_loop is i ks = Inr ()"
proof (induction rule: scan_reach.induct)
  case (scan_step i ks j ks')
  then show ?case unfolding verify_loop.simps [of "is" i] by simp
qed

lemma initial_typed: "typed initial_kinds (initial_vm packet h)"
proof -
  have "list_all2 kind_matches (replicate MAX_BPF_REG Scalar_k) (replicate MAX_BPF_REG (Scalar 0))"
    by (simp add: list_all2_conv_all_nth)
  then have "list_all2 kind_matches
      ((replicate MAX_BPF_REG Scalar_k)[BPF_REG_1 := PacketPtr_k, BPF_REG_2 := Scalar_k, BPF_REG_10 := FramePtr_k]) (initial_regs packet)"
    unfolding initial_regs_def by (intro list_all2_update_cong) simp_all
  moreover have "(replicate MAX_BPF_REG Scalar_k)[BPF_REG_1 := PacketPtr_k, BPF_REG_2 := Scalar_k, BPF_REG_10 := FramePtr_k] = initial_kinds"
    by (simp add: initial_kinds_def MAX_BPF_REG_def BPF_REG_1_def BPF_REG_2_def BPF_REG_10_def eval_nat_numeral)
  ultimately show ?thesis by (simp add: typed_def initial_vm_def initial_kinds_def)
qed

section \<open>Memory\<close>

lemma unat_take_bit: "of_nat (unat v mod 2 ^ n) = (take_bit n v :: u64)"
proof -
  have "unat (take_bit n v) = unat v mod 2 ^ n" by (subst unsigned_take_bit_eq) (rule take_bit_eq_mod)
  then have "of_nat (unat v mod 2 ^ n) = (of_nat (unat (take_bit n v)) :: u64)" by simp
  then show ?thesis by simp
qed

lemma sized_roundtrip:
  assumes "scalar_to_sized_bytes v sz = Inr bs"
  shows "\<exists>len. size_to_len sz = Inr len \<and> length bs = len \<and> len \<le> 8 \<and> sized_bytes_to_scalar bs = Inr (take_bit (8 * len) v)"
proof -
  have 1: "le_nat (to_le_bytes 1 (ucast v :: u8)) = unat v mod 2 ^ 8"
    and 2: "le_nat (to_le_bytes 2 (ucast v :: u16)) = unat v mod 2 ^ 16"
    and 4: "le_nat (to_le_bytes 4 (ucast v :: u32)) = unat v mod 2 ^ 32"
    and 8: "le_nat (to_le_bytes 8 v) = unat v mod 2 ^ 64"
    by (simp_all add: to_le_bytes_def le_nat_nat_le unsigned_ucast_eq take_bit_eq_mod unat_of_nat)
  show ?thesis using assms unat_take_bit [of v 8] unat_take_bit [of v 16] unat_take_bit [of v 32] unat_take_bit [of v 64]
    by (auto simp: scalar_to_sized_bytes_def size_to_len_def sized_bytes_to_scalar_def from_le_bytes_def 1 2 4 8
        simp del: One_nat_def split: if_splits)
qed

lemma map_get_lookup: "map_get m key = Some v \<Longrightarrow> map_lookup m key = Inr (Some v)"
  by (auto simp: map_get_def split: sum.splits option.splits)

lemma map_store_load_bytes:
  assumes ok: "heap_ok h" and st: "map_store_bytes prog fd key start data h = Inr h'" and len: "length data \<le> 8"
  shows "map_load_bytes h' prog fd key start (of_nat (length data)) = Ok data"
proof -
  have len': "length data < 2 ^ 64" using len by simp
  from st obtain f m m' where w: "with_map h prog fd = Some (f, m)"
    and sb: "store_bytes key start data m = Inr m'" and h': "h' = h(f \<mapsto> BpfMapFile m')"
    by (auto simp: map_store_bytes_def rbind_eq_Inr_iff)
  have wf: "map_wf m" using ok with_map_Some [OF w] unfolding heap_ok_def by blast
  have w': "with_map h' prog fd = Some (f, m')"
    using w unfolding h' by (cases "btm_get (maps prog) fd") (auto simp: with_map_def split: option.splits kfile.splits)
  obtain v where v: "map_get m' key = Some v" "slice v (unat start) (unat start + length data) = data"
    using bm.poke_then_read [OF wf len' sb] by blast
  have "length v = unat (value_size m')" using map_get_len [OF _ v(1)] map_wf_store [OF wf sb len'] by simp
  then have lv: "length v < 2 ^ 32" using unat_less_pow [of "value_size m'"] by simp
  have room: "unat start + length data \<le> length v"
  proof -
    from bm.poke_get [OF wf len' sb] obtain u where u: "unat start + length data \<le> length u"
      "map_get m' key = Some (copy_at u (unat start) data)" by auto
    then show ?thesis using v(1) by simp
  qed
  have ul: "unat (of_nat (length data) :: usize) = length data" using len' by (simp add: unat_of_nat_small)
  have e: "checked_add start (of_nat (length data)) = Some (start + of_nat (length data))"
    using room lv by (simp add: checked_add_def ul)
  have ue: "unat (start + of_nat (length data)) = unat start + length data"
    using checked_add_Some [OF e] ul by simp
  show ?thesis
    using room by (simp add: map_load_bytes_def map_lookup_bytes_def w' map_get_lookup [OF v(1)] e ue v(2))
qed

lemma stack_store_load:
  assumes "length stk = BPF_STACK_SIZE" and "store_stack stk base off data = Ok stk'"
  shows "load_stack stk' base off (length data) = Ok data"
proof -
  obtain start where st: "pointer_offset_to_stack base off (length data) = Inr start"
    and stk': "copy_range stk start data = Ok stk'"
    using assms(2) by (auto simp: store_stack_def obind_eq_Ok)
  note b = pointer_offset_to_stack_bound [OF st]
  with stk' assms(1) have "stk' = copy_at stk start data" by (simp add: copy_range_def split: if_splits)
  with b assms(1) slice_copy_at [of start data stk] st show ?thesis by (simp add: load_stack_def)
qed

lemma store_load_bytes:
  assumes "length stk = BPF_STACK_SIZE" and "heap_ok h" and "length data \<le> 8"
    and "store_value prog ptr off data (stk, h) = Ok (stk', h')"
  shows "load_bytes h' prog stk' packet ptr off (length data) = Ok data"
  using assms stack_store_load [OF assms(1)] map_store_load_bytes [OF assms(2) _ assms(3)]
  by (cases ptr) (auto simp: store_value_def load_bytes_def obind_eq_Ok)

section \<open>Properties\<close>

text \<open>C1: A program that passes the verifier is safe to run in the kernel. Whatever the packet and the
  contents of its maps, its execution returns, after at most as many instructions as the program has,
  and never panics (every register, stack, packet and map access is in bounds). All it changes is
  bytes inside existing elements of the maps it was loaded with: no element is added or removed, no
  other file object is touched, and all maps stay well formed.\<close>

theorem verified_program_safe:
  assumes "verify_program (insns prog) = Inr ()" and "heap_ok h"
  shows "\<exists>r h'. execute prog packet h = Some (r, h') \<and> r \<noteq> Panic \<and> heap_evolves (prog_files prog) h h' \<and>
    ebpf.run_for (length (insns prog) + 1) ((prog, packet), h) (initial_vm packet h) = Some (r, h')"
proof -
  note good = initial_vm_good [OF assms, of packet]
  obtain r h' where r: "execute prog packet h = Some (r, h')" "r \<noteq> Panic" "heap_evolves (prog_files prog) h h'"
    using execute_returns [OF assms] by blast
  have "machine_left ((prog, packet), h) (initial_vm packet h) < length (insns prog) + 1"
    by (simp add: machine_left_def)
  from ebpf.run_bounded [OF good this] r show ?thesis by (simp add: execute_def)
qed

definition demo_prog :: bpf_prog where
  "demo_prog = \<lparr>insns = [\<lparr>insn_code = 0xb7, insn_regs = 0, insn_off = 0, insn_imm = 5\<rparr>,
     \<lparr>insn_code = 0x95, insn_regs = 0, insn_off = 0, insn_imm = 0\<rparr>], maps = []\<rparr>"

lemma demo_verified: "verify_program (insns demo_prog) = Inr ()"
  by code_simp

theorem verified_program_safe_witness:
  "\<exists>r h'. execute demo_prog [1, 2, 3] Map.empty = Some (r, h') \<and> r \<noteq> Panic \<and> heap_ok h'"
  using verified_program_safe [OF demo_verified, of Map.empty "[1, 2, 3]"]
  by (auto simp: heap_ok_def heap_evolves_def)

text \<open>A loaded program is a filter sockets can rely on: it decides every packet, it never keeps more
  than the packet has, and a kept non-empty packet keeps at least one byte. A failing program drops
  the packet.\<close>

theorem bpf_filter_total:
  assumes "verify_program (insns prog) = Inr ()" and "heap_ok h"
  shows "(ebpf_filter.deliver (prog, h) packet = None \<longleftrightarrow>
      (\<exists>h'. filter_len prog packet h = Some (Ok None, h'))) \<and>
    (\<forall>d. ebpf_filter.deliver (prog, h) packet = Some d \<longrightarrow>
      (\<exists>n h'. filter_len prog packet h = Some (Ok (Some n), h') \<and> d = take n packet \<and> length d = n \<and> (packet \<noteq> [] \<longrightarrow> d \<noteq> [])))"
proof -
  have a: "case (prog, h) of (prog, h) \<Rightarrow> verify_program (insns prog) = Inr () \<and> heap_ok h" using assms by simp
  obtain k h' where k: "filter_len prog packet h = Some (Ok k, h')" using filter_len_returns [OF assms] by blast
  show ?thesis using ebpf_filter.deliver_None_iff [OF a, of packet] ebpf_filter.deliver_prefix [OF a, of packet] k by auto
qed

theorem bpf_filter_total_witness:
  "verify_program (insns demo_prog) = Inr () \<and> ebpf_filter.deliver (demo_prog, Map.empty) [1, 2, 3] \<noteq> Some [1, 2, 3, 4] \<and>
   ebpf_filter.deliver (demo_prog, Map.empty) [1, 2, 3] \<noteq> Some []"
proof -
  have h: "heap_ok Map.empty" by (simp add: heap_ok_def)
  have d: "\<exists>n. d = take n [1, 2, 3] \<and> d \<noteq> []" if "ebpf_filter.deliver (demo_prog, Map.empty) [1, 2, 3] = Some d" for d
    using bpf_filter_total [OF demo_verified h, of "[1, 2, 3]"] that by auto
  have "take n [1, 2, 3] \<noteq> [1, 2, 3, 4 :: u8]" for n
    using length_take [of n "[1, 2, 3 :: u8]"] by (metis length_Cons list.size(3) min.cobounded1 not_less_eq_eq order_refl)
  then show ?thesis using d [of "[1, 2, 3, 4]"] d [of "[]"] demo_verified by metis
qed

text \<open>C34: On a straight-line program the types the verifier computes are true of every state the
  interpreter reaches: a register typed as a scalar, map descriptor or pointer holds one (a pointer
  into a map value may be null), so a load or store it accepted goes through a pointer of its kind.\<close>

theorem verifier_types_sound:
  assumes "verify_program (insns prog) = Inr ()" and "straight_line (insns prog)" and "exec_reach prog packet h s"
  shows "\<exists>ks. scan_reach (insns prog) (pc s) ks \<and> typed ks s"
  using assms(3)
proof (induction rule: exec_reach.induct)
  case exec_start
  show ?case using scan_start [of "insns prog"] initial_typed [of packet h] by (auto simp: initial_vm_def)
next
  case (exec_next s s')
  then obtain ks where ks: "scan_reach (insns prog) (pc s) ks" "typed ks s" by blast
  have lt: "pc s < length (insns prog)" and ex: "exec_insn prog packet s = Ok (Inl s')"
    using exec_next.hyps(2) by (auto simp: exec_step_def split: if_splits outcome.splits sum.splits)
  have "verify_loop (insns prog) (pc s) ks = Inr ()"
    using scan_verified [OF ks(1)] assms(1) by (simp add: verify_program_def split: if_splits)
  then obtain j ks' where v: "verify_step (insns prog) (pc s) ks = Inr (j, ks')"
    unfolding verify_loop.simps [of _ "pc s"] using lt by (auto split: sum.splits)
  have nb: "\<not> (insn_class (insns prog ! pc s) = BPF_JMP \<and> insn_op (insns prog ! pc s) \<in> {BPF_JEQ, BPF_JNE})"
    using assms(2) lt nth_mem unfolding straight_line_def by blast
  from exec_insn_typed [OF ex ks(2) v nb] scan_step [OF ks(1) lt v] show ?case by auto
qed

theorem verifier_types_sound_witness:
  "\<exists>s ks. exec_step (demo_prog, [1, 2, 3]) (initial_vm [1, 2, 3] Map.empty) = Inl s \<and>
     scan_reach (insns demo_prog) 1 ks \<and> typed ks s \<and> regs s ! 0 = Scalar 5"
proof -
  let ?init = "initial_vm [1, 2, 3] Map.empty"
  let ?s = "?init\<lparr>regs := (regs ?init)[0 := Scalar 5], pc := 1\<rparr>"
  have len: "length (initial_regs [1, 2, 3]) = 11" by (simp add: initial_regs_def MAX_BPF_REG_def)
  have "exec_insn demo_prog [1, 2, 3] ?init = Ok (Inl ?s)"
    by (simp only: exec_insn_def exec_arith_def demo_prog_def initial_vm_def bpf_consts set_reg_def dst_reg_def Let_def
        next_pc_def) (simp add: len)
  moreover have "pc ?init < length (insns demo_prog)" by (simp add: initial_vm_def demo_prog_def)
  ultimately have step: "exec_step (demo_prog, [1, 2, 3]) ?init = Inl ?s" by (simp add: exec_step_def)
  have sl: "straight_line (insns demo_prog)" by (simp add: straight_line_def demo_prog_def bpf_consts)
  from verifier_types_sound [OF demo_verified sl exec_next [OF exec_start step]] step len show ?thesis
    by (auto simp: initial_vm_def)
qed

text \<open>Memory reads return what was written. A register stored through a stack or map-value pointer
  and loaded again through the same pointer with the same offset and width comes back truncated to
  that width; the load cannot fail.\<close>

theorem vm_store_load:
  assumes ok: "vm_ok prog h0 s" and st: "exec_store_reg prog stx s = Ok s1" and r: "src_reg stx < MAX_BPF_REG"
    and ptr: "src_reg ldx = dst_reg stx" "dst_reg stx < MAX_BPF_REG" "dst_reg ldx < MAX_BPF_REG"
    and same: "insn_off ldx = insn_off stx" "insn_size ldx = insn_size stx"
  shows "\<exists>s2 len. exec_load prog packet ldx s1 = Ok s2 \<and> size_to_len (insn_size stx) = Inr len \<and>
    regs s2 ! dst_reg ldx = Scalar (take_bit (8 * len) (as_u64 (regs s ! src_reg stx)))"
proof -
  have inv: "length (regs s) = MAX_BPF_REG" "length (stack s) = BPF_STACK_SIZE" "heap_ok (heap s)"
    using ok by (auto simp: vm_ok_def heap_evolves_def)
  obtain data stk h where data: "scalar_to_sized_bytes (as_u64 (regs s ! src_reg stx)) (insn_size stx) = Inr data"
    and sv: "store_value prog (regs s ! dst_reg stx) (insn_off stx) data (stack s, heap s) = Ok (stk, h)"
    and s1: "s1 = s\<lparr>stack := stk, heap := h\<rparr>"
    using st inv r ptr(2) by (auto simp: exec_store_reg_def exec_store_def obind_eq_Ok)
  from sized_roundtrip [OF data] obtain len where len: "size_to_len (insn_size stx) = Inr len" "length data = len" "len \<le> 8"
    "sized_bytes_to_scalar data = Inr (take_bit (8 * len) (as_u64 (regs s ! src_reg stx)))" by blast
  note ld = store_load_bytes [OF inv(2,3) _ sv, of packet]
  show ?thesis using inv(1) ptr same len ld
    by (simp add: exec_load_def s1 load_value_def set_reg_def)
qed

theorem vm_store_load_witness:
  "\<exists>s1 s2. exec_store_reg demo_prog \<lparr>insn_code = 0x73, insn_regs = 0x2a, insn_off = - 8, insn_imm = 0\<rparr>
       (initial_vm [1, 2, 3] Map.empty) = Ok s1 \<and>
     exec_load demo_prog [1, 2, 3] \<lparr>insn_code = 0x71, insn_regs = 0xa0, insn_off = - 8, insn_imm = 0\<rparr> s1 = Ok s2 \<and>
     regs s2 ! 0 = Scalar 3"
proof -
  let ?stx = "\<lparr>insn_code = 0x73, insn_regs = 0x2a, insn_off = - 8, insn_imm = 0\<rparr>"
  let ?ldx = "\<lparr>insn_code = 0x71, insn_regs = 0xa0, insn_off = - 8, insn_imm = 0\<rparr>"
  let ?s0 = "initial_vm [1, 2, 3] Map.empty"
  have d: "dst_reg ?stx = 10" "src_reg ?stx = 2" "dst_reg ?ldx = 0" "src_reg ?ldx = 10"
    by (simp_all add: dst_reg_def src_reg_def drop_bit_eq_div)
  have rs: "regs ?s0 ! 10 = FramePtr" "regs ?s0 ! 2 = Scalar 3" "length (regs ?s0) = 11" "length (stack ?s0) = 512"
    by (simp_all add: initial_vm_def initial_regs_def MAX_BPF_REG_def BPF_REG_1_def BPF_REG_2_def BPF_REG_10_def BPF_STACK_SIZE_def)
  have p: "pointer_offset_to_stack 0 (- 8) (Suc 0) = Inr 504"
    by (simp add: pointer_offset_to_stack_def BPF_STACK_SIZE_def checked_add_i64_def in_i64_def)
  have ok: "vm_ok demo_prog Map.empty ?s0"
    using initial_vm_good [OF demo_verified, of Map.empty "[1, 2, 3]"] by (simp add: machine_good_def heap_ok_def)
  obtain s1 where s1: "exec_store_reg demo_prog ?stx ?s0 = Ok s1"
    using rs by (simp add: exec_store_reg_def exec_store_def d scalar_to_sized_bytes_def bpf_consts store_value_def store_stack_def p)
  have "\<exists>s2 len. exec_load demo_prog [1, 2, 3] ?ldx s1 = Ok s2 \<and> size_to_len (insn_size ?stx) = Inr len \<and>
      regs s2 ! dst_reg ?ldx = Scalar (take_bit (8 * len) (as_u64 (regs ?s0 ! src_reg ?stx)))"
    by (rule vm_store_load [OF ok s1]) (simp_all add: d MAX_BPF_REG_def bpf_consts)
  with s1 show ?thesis by (auto simp: d rs bpf_consts size_to_len_def)
qed

end
