(* ===== verification/Files_Struct.thy ===== *)
theory Files_Struct
  imports Kernel_Prelude "HOL-Library.Multiset"
begin

text \<open>
  \<open>src/src/task/files_struct.rs\<close>: the per-process file table \<open>FilesStruct\<close>. A file object
  (\<open>Arc<dyn File>\<close>) is its identity, a number; \<open>fd_log\<close> records the calls of the accounting hooks
  \<open>on_fd_install\<close> and \<open>on_fd_close\<close> that the operations make on file objects, in order. Where an
  index may be out of range, the operation returns \<open>None\<close> for the panic.
\<close>

type_synonym file_ref = nat

datatype fd_event = On_install file_ref | On_close file_ref

record files_struct =
  fd_table :: "file_ref option list"
  fd_flags :: "u32 list"
  next_fd_hint :: nat
  close_cursor :: "nat option"
  fd_refs_closed :: bool
  fd_log :: "fd_event list"

definition FD_CLOEXEC :: u32 where
  "FD_CLOEXEC = 1"

definition files_new :: files_struct where
  "files_new = \<lparr>fd_table = [], fd_flags = [], next_fd_hint = 0, close_cursor = None,
     fd_refs_closed = False, fd_log = []\<rparr>"

definition files_with_stdio :: "file_ref \<Rightarrow> file_ref \<Rightarrow> file_ref \<Rightarrow> files_struct" where
  "files_with_stdio stdin stdout stderr =
     \<lparr>fd_table = [Some stdin, Some stdout, Some stderr], fd_flags = replicate 3 0, next_fd_hint = 3,
      close_cursor = None, fd_refs_closed = False, fd_log = []\<rparr>"

definition flag_at :: "u32 list \<Rightarrow> nat \<Rightarrow> u32" where
  "flag_at flags i = (if i < length flags then flags ! i else 0)"

definition vec_resize :: "nat \<Rightarrow> 'a \<Rightarrow> 'a list \<Rightarrow> 'a list" where
  "vec_resize n x xs = take n xs @ replicate (n - length xs) x"

fun effective_from :: "file_ref option list \<Rightarrow> u32 list \<Rightarrow> nat \<Rightarrow> nat" where
  "effective_from table flags 0 = 0"
| "effective_from table flags (Suc idx) =
     (if table ! idx \<noteq> None \<or> flag_at flags idx \<noteq> 0 then Suc idx else effective_from table flags idx)"

definition effective_len :: "files_struct \<Rightarrow> nat" where
  "effective_len s = effective_from (fd_table s) (fd_flags s) (length (fd_table s))"

definition trim :: "files_struct \<Rightarrow> files_struct" where
  "trim s = (let len = effective_len s in
     s\<lparr>fd_table := take len (fd_table s), fd_flags := take len (fd_flags s),
       next_fd_hint := (if next_fd_hint s > len then len else next_fd_hint s)\<rparr>)"

definition ensure_flags_len :: "files_struct \<Rightarrow> files_struct" where
  "ensure_flags_len s =
     (if length (fd_flags s) < length (fd_table s)
      then s\<lparr>fd_flags := vec_resize (length (fd_table s)) 0 (fd_flags s)\<rparr> else s)"

definition snapshot_fd_state :: "files_struct \<Rightarrow> file_ref option list \<times> u32 list" where
  "snapshot_fd_state s =
     (let len = effective_len s;
          table = take len (fd_table s);
          flags = take len (fd_flags s)
      in (table, if length flags < length table then vec_resize (length table) 0 flags else flags))"

definition files_of :: "file_ref option list \<Rightarrow> file_ref list" where
  "files_of table = List.map_filter id table"

definition clone_private :: "files_struct \<Rightarrow> files_struct" where
  "clone_private s =
     (let (table, flags) = snapshot_fd_state s in
      \<lparr>fd_table = table, fd_flags = flags, next_fd_hint = min (next_fd_hint s) (length table),
       close_cursor = None, fd_refs_closed = False, fd_log = map On_install (files_of table)\<rparr>)"

definition iter_files_snapshot :: "files_struct \<Rightarrow> (nat \<times> file_ref) list" where
  "iter_files_snapshot s =
     List.map_filter (\<lambda>(fd, file). map_option (Pair fd) file) (enumerate 0 (fd_table s))"

text \<open>\<open>take_file_close_batch\<close>: one turn of its loop detaches the file in a slot, if there is one, and
  clears the flags of the slot.\<close>

definition close_slot :: "nat \<Rightarrow> files_struct \<Rightarrow> file_ref list \<times> files_struct" where
  "close_slot cursor s =
     (let s1 = (if cursor < length (fd_flags s) then s\<lparr>fd_flags := (fd_flags s)[cursor := 0]\<rparr> else s) in
      case fd_table s ! cursor of
        None \<Rightarrow> ([], s1)
      | Some file \<Rightarrow> ([file], s1\<lparr>fd_table := (fd_table s)[cursor := None],
          fd_log := (if fd_refs_closed s then fd_log s else fd_log s @ [On_close file])\<rparr>))"

lemma length_close_slot [simp]: "length (fd_table (snd (close_slot c s))) = length (fd_table s)"
  by (simp add: close_slot_def Let_def split: option.split)

function close_batch_loop ::
  "nat \<Rightarrow> nat \<Rightarrow> file_ref list \<Rightarrow> files_struct \<Rightarrow> nat \<times> file_ref list \<times> files_struct" where
  "close_batch_loop limit cursor files s =
     (if cursor < length (fd_table s) \<and> length files < limit
      then close_batch_loop limit (cursor + 1) (files @ fst (close_slot cursor s)) (snd (close_slot cursor s))
      else (cursor, files, s))"
  by auto
termination
  by (relation "measure (\<lambda>(limit, cursor, files, s). length (fd_table s) - cursor)") auto

declare close_batch_loop.simps [simp del]

definition take_file_close_batch :: "nat \<Rightarrow> files_struct \<Rightarrow> file_ref list \<times> files_struct" where
  "take_file_close_batch limit s =
     (if limit = 0 then ([], s)
      else
        (let (cursor, files, s') =
               close_batch_loop limit (case close_cursor s of None \<Rightarrow> 0 | Some c \<Rightarrow> c) [] s
         in (files,
             if cursor \<ge> length (fd_table s') then
               s'\<lparr>fd_table := [], fd_flags := [], next_fd_hint := 0, close_cursor := None\<rparr>
             else s'\<lparr>close_cursor := Some cursor\<rparr>)))"

definition close_all_fd_refs :: "files_struct \<Rightarrow> files_struct" where
  "close_all_fd_refs s =
     (if fd_refs_closed s then s
      else s\<lparr>fd_log := fd_log s @ map On_close (files_of (fd_table s)), fd_refs_closed := True\<rparr>)"

definition get_file :: "files_struct \<Rightarrow> nat \<Rightarrow> file_ref option" where
  "get_file s fd = (if fd < length (fd_table s) then fd_table s ! fd else None)"

definition get_flags :: "files_struct \<Rightarrow> nat \<Rightarrow> u32" where
  "get_flags s fd = flag_at (fd_flags s) fd"

definition get_file_and_flags :: "files_struct \<Rightarrow> nat \<Rightarrow> (file_ref \<times> u32) option" where
  "get_file_and_flags s fd = map_option (\<lambda>file. (file, get_flags s fd)) (get_file s fd)"

text \<open>\<open>fixed_poll_mask\<close> is the file's own answer.\<close>

definition get_poll_snapshot ::
  "(file_ref \<Rightarrow> i16 option) \<Rightarrow> files_struct \<Rightarrow> nat \<Rightarrow> (file_ref option \<times> i16 option \<times> u32) option" where
  "get_poll_snapshot fixed_poll_mask s fd =
     (case get_file s fd of
        None \<Rightarrow> None
      | Some file \<Rightarrow>
          (case fixed_poll_mask file of
             Some poll_mask \<Rightarrow> Some (None, Some poll_mask, get_flags s fd)
           | None \<Rightarrow> Some (Some file, None, get_flags s fd)))"

definition is_fd_open :: "files_struct \<Rightarrow> nat \<Rightarrow> bool" where
  "is_fd_open s fd \<longleftrightarrow> fd < length (fd_table s) \<and> fd_table s ! fd \<noteq> None"

definition alloc_fd :: "nat \<Rightarrow> files_struct \<Rightarrow> nat option \<times> files_struct" where
  "alloc_fd limit s =
     (let start = min (next_fd_hint s) (length (fd_table s)) in
      case find (\<lambda>fd. fd_table s ! fd = None) [start..<length (fd_table s)] of
        Some fd \<Rightarrow>
          if fd \<ge> limit then (None, s)
          else (let s' = ensure_flags_len s
                in (Some fd, s'\<lparr>fd_flags := (fd_flags s')[fd := 0], next_fd_hint := fd + 1\<rparr>))
      | None \<Rightarrow>
          if length (fd_table s) \<ge> limit then (None, s)
          else (Some (length (fd_table s)),
                s\<lparr>fd_table := fd_table s @ [None], fd_flags := fd_flags s @ [0],
                  next_fd_hint := length (fd_table s) + 1\<rparr>))"

text \<open>\<open>self.fd_flags[fd] = flags\<close> panics when the flags are shorter than the table.\<close>

definition install_fd :: "file_ref \<Rightarrow> u32 \<Rightarrow> nat \<Rightarrow> files_struct \<Rightarrow> (nat option \<times> files_struct) option" where
  "install_fd file flags limit s =
     (case alloc_fd limit (s\<lparr>close_cursor := None\<rparr>) of
        (None, s') \<Rightarrow> Some (None, s')
      | (Some fd, s') \<Rightarrow>
          if fd < length (fd_table s') \<and> fd < length (fd_flags s') then
            Some (Some fd, s'\<lparr>fd_log := fd_log s' @ [On_install file],
              fd_table := (fd_table s')[fd := Some file], fd_flags := (fd_flags s')[fd := flags]\<rparr>)
          else None)"

function advance_hint :: "file_ref option list \<Rightarrow> nat \<Rightarrow> nat" where
  "advance_hint table hint =
     (if hint < length table \<and> table ! hint \<noteq> None then advance_hint table (hint + 1) else hint)"
  by auto
termination
  by (relation "measure (\<lambda>(table, hint). length table - hint)") auto

declare advance_hint.simps [simp del]

definition replace_fd_at ::
  "nat \<Rightarrow> file_ref \<Rightarrow> u32 \<Rightarrow> nat \<Rightarrow> files_struct \<Rightarrow> file_ref option option \<times> files_struct" where
  "replace_fd_at fd file flags limit s =
     (if fd \<ge> limit then (None, s)
      else
        (let s1 = s\<lparr>close_cursor := None\<rparr>;
             s2 = (if length (fd_table s1) \<le> fd
                   then s1\<lparr>fd_table := vec_resize (fd + 1) None (fd_table s1),
                           fd_flags := vec_resize (fd + 1) 0 (fd_flags s1)\<rparr>
                   else ensure_flags_len s1);
             old_file = fd_table s2 ! fd;
             close = (case old_file of None \<Rightarrow> [] | Some f \<Rightarrow> if fd_refs_closed s then [] else [On_close f]);
             table = (fd_table s2)[fd := Some file]
         in (Some old_file,
             s2\<lparr>fd_log := fd_log s2 @ close @ [On_install file],
                fd_table := table, fd_flags := (fd_flags s2)[fd := flags],
                next_fd_hint := (if fd = next_fd_hint s2 then advance_hint table (next_fd_hint s2)
                                 else next_fd_hint s2)\<rparr>)))"

definition install_fd_at :: "nat \<Rightarrow> file_ref \<Rightarrow> u32 \<Rightarrow> nat \<Rightarrow> files_struct \<Rightarrow> bool \<times> files_struct" where
  "install_fd_at fd file flags limit s =
     (let (old, s') = replace_fd_at fd file flags limit s in (old \<noteq> None, s'))"

definition clear_fd :: "nat \<Rightarrow> files_struct \<Rightarrow> file_ref option \<times> files_struct" where
  "clear_fd fd s =
     (if fd \<ge> length (fd_table s) then (None, s)
      else
        (let file = fd_table s ! fd;
             close = (case file of None \<Rightarrow> [] | Some f \<Rightarrow> if fd_refs_closed s then [] else [On_close f]);
             s1 = ensure_flags_len (s\<lparr>fd_table := (fd_table s)[fd := None], fd_log := fd_log s @ close\<rparr>);
             s2 = s1\<lparr>fd_flags := (fd_flags s1)[fd := 0], close_cursor := None,
                     next_fd_hint := (if file \<noteq> None then min (next_fd_hint s1) fd else next_fd_hint s1)\<rparr>
         in (file, trim s2)))"

definition set_flags :: "nat \<Rightarrow> u32 \<Rightarrow> files_struct \<Rightarrow> bool \<times> files_struct" where
  "set_flags fd flags s =
     (if is_fd_open s fd then
        (let s' = ensure_flags_len s in (True, s'\<lparr>fd_flags := (fd_flags s')[fd := flags]\<rparr>))
      else (False, s))"

text \<open>The loop of \<open>close_cloexec_fds\<close> indexes the table by the positions of the flags.\<close>

fun cloexec_loop :: "nat list \<Rightarrow> files_struct \<Rightarrow> files_struct option" where
  "cloexec_loop [] s = Some s"
| "cloexec_loop (idx # is) s =
     (if fd_flags s ! idx AND FD_CLOEXEC \<noteq> 0 then
        (if idx < length (fd_table s) then
           (let close = (case fd_table s ! idx of None \<Rightarrow> []
                         | Some f \<Rightarrow> if fd_refs_closed s then [] else [On_close f])
            in cloexec_loop is (s\<lparr>fd_table := (fd_table s)[idx := None], fd_log := fd_log s @ close,
                 fd_flags := (fd_flags s)[idx := 0], next_fd_hint := min (next_fd_hint s) idx\<rparr>))
         else None)
      else cloexec_loop is s)"

definition close_cloexec_fds :: "files_struct \<Rightarrow> files_struct option" where
  "close_cloexec_fds s =
     (let s' = ensure_flags_len s in map_option trim (cloexec_loop [0..<length (fd_flags s')] s'))"

section \<open>Invariant\<close>

text \<open>Table and flags have the same length and every descriptor below the hint is open, so a search
  from the hint finds the lowest closed descriptor.\<close>

definition files_inv :: "files_struct \<Rightarrow> bool" where
  "files_inv s \<longleftrightarrow> length (fd_flags s) = length (fd_table s) \<and> next_fd_hint s \<le> length (fd_table s) \<and>
     (\<forall>i < next_fd_hint s. fd_table s ! i \<noteq> None)"

lemma files_invD:
  assumes "files_inv s"
  shows "length (fd_flags s) = length (fd_table s)" and "next_fd_hint s \<le> length (fd_table s)"
    and "i < next_fd_hint s \<Longrightarrow> is_fd_open s i"
  using assms by (auto simp: files_inv_def is_fd_open_def)

lemma ensure_flags_len_id: "files_inv s \<Longrightarrow> ensure_flags_len s = s"
  by (simp add: ensure_flags_len_def files_inv_def)

lemma get_file_open: "is_fd_open s fd \<longleftrightarrow> get_file s fd \<noteq> None"
  by (simp add: is_fd_open_def get_file_def)

lemma find_upt_Some:
  "find P [a..<b] = Some x \<Longrightarrow> a \<le> x \<and> x < b \<and> P x \<and> (\<forall>j. a \<le> j \<and> j < x \<longrightarrow> \<not> P j)"
proof -
  assume "find P [a..<b] = Some x"
  then obtain i where i: "i < length [a..<b]" "P ([a..<b] ! i)" "x = [a..<b] ! i"
    "\<forall>j<i. \<not> P ([a..<b] ! j)" by (auto simp: find_Some_iff)
  then have x: "x = a + i" "a + i < b" by auto
  have "\<not> P j" if "a \<le> j" "j < x" for j
  proof -
    have "j - a < i" using that x by simp
    with i(4) x that show ?thesis by (metis i(1) le_add_diff_inverse length_upt less_trans nth_upt)
  qed
  with i x show ?thesis by auto
qed

lemma find_upt_None: "find P [a..<b] = None \<longleftrightarrow> (\<forall>j. a \<le> j \<and> j < b \<longrightarrow> \<not> P j)"
  by (auto simp: find_None_iff)

text \<open>The effective length drops closed slots only.\<close>

lemma effective_from_le: "effective_from t f n \<le> n"
  by (induction n) (auto simp: le_Suc_eq)

lemma effective_from_above: "effective_from t f n \<le> i \<Longrightarrow> i < n \<Longrightarrow> t ! i = None \<and> flag_at f i = 0"
proof (induction n)
  case (Suc n)
  show ?case
  proof (cases "t ! n \<noteq> None \<or> flag_at f n \<noteq> 0")
    case True
    with Suc.prems show ?thesis by simp
  next
    case False
    with Suc show ?thesis by (cases "i = n") auto
  qed
qed simp

lemma get_file_trim: "get_file (trim s) fd = get_file s fd"
  using effective_from_above [of "fd_table s" "fd_flags s" "length (fd_table s)" fd]
    effective_from_le [of "fd_table s" "fd_flags s" "length (fd_table s)"]
  by (auto simp: get_file_def trim_def Let_def effective_len_def)

lemma get_flags_trim:
  assumes "length (fd_flags s) = length (fd_table s)"
  shows "get_flags (trim s) fd = get_flags s fd"
  using effective_from_above [of "fd_table s" "fd_flags s" "length (fd_table s)" fd]
    effective_from_le [of "fd_table s" "fd_flags s" "length (fd_table s)"] assms
  by (auto simp: get_flags_def flag_at_def trim_def Let_def effective_len_def)

lemma files_inv_trim:
  assumes "length (fd_flags s) = length (fd_table s)" and "\<forall>i < next_fd_hint s. i < length (fd_table s) \<longrightarrow> fd_table s ! i \<noteq> None"
  shows "files_inv (trim s)"
  using assms effective_from_le [of "fd_table s" "fd_flags s" "length (fd_table s)"]
  by (auto simp: files_inv_def trim_def Let_def effective_len_def)

lemma fd_log_trim [simp]: "fd_log (trim s) = fd_log s" "fd_refs_closed (trim s) = fd_refs_closed s"
  by (simp_all add: trim_def Let_def)

section \<open>Operations\<close>

lemma alloc_fd_cases:
  assumes inv: "files_inv s"
  obtains (full) "alloc_fd limit s = (None, s)" "\<forall>j<limit. is_fd_open s j"
  | (slot) fd where "alloc_fd limit s = (Some fd, s\<lparr>fd_flags := (fd_flags s)[fd := 0], next_fd_hint := fd + 1\<rparr>)"
      "fd < limit" "fd < length (fd_table s)" "\<not> is_fd_open s fd" "\<forall>j<fd. is_fd_open s j"
  | (push) "alloc_fd limit s = (Some (length (fd_table s)),
        s\<lparr>fd_table := fd_table s @ [None], fd_flags := fd_flags s @ [0], next_fd_hint := length (fd_table s) + 1\<rparr>)"
      "length (fd_table s) < limit" "\<forall>j<length (fd_table s). is_fd_open s j"
proof -
  let ?P = "\<lambda>fd. fd_table s ! fd = None" and ?n = "length (fd_table s)"
  have start: "min (next_fd_hint s) ?n = next_fd_hint s" using inv by (simp add: files_inv_def)
  have below: "is_fd_open s j" if "j < next_fd_hint s" for j using files_invD(3) [OF inv that] .
  show ?thesis
  proof (cases "find ?P [next_fd_hint s..<?n]")
    case None
    then have "\<forall>j<?n. is_fd_open s j"
      using below unfolding find_upt_None is_fd_open_def by (metis not_le)
    with None start full push show ?thesis
      by (cases "?n \<ge> limit") (auto simp: alloc_fd_def Let_def)
  next
    case (Some fd)
    note fd = find_upt_Some [OF Some]
    then have "\<forall>j<fd. is_fd_open s j"
      using below unfolding is_fd_open_def by (metis less_trans not_le)
    with Some fd start inv full slot show ?thesis
      by (cases "fd \<ge> limit") (auto simp: alloc_fd_def Let_def ensure_flags_len_id is_fd_open_def)
  qed
qed

lemma install_fd_correct:
  assumes inv: "files_inv s"
  shows "\<exists>r s'. install_fd file flags limit s = Some (r, s') \<and> files_inv s' \<and> fd_refs_closed s' = fd_refs_closed s \<and>
    (case r of
       None \<Rightarrow> (\<forall>j<limit. is_fd_open s j) \<and> (\<forall>j. get_file s' j = get_file s j) \<and> fd_log s' = fd_log s
     | Some fd \<Rightarrow> fd < limit \<and> \<not> is_fd_open s fd \<and> (\<forall>j<fd. is_fd_open s j) \<and>
         (\<forall>j. get_file s' j = (if j = fd then Some file else get_file s j)) \<and>
         get_flags s' fd = flags \<and> (\<forall>j. j \<noteq> fd \<longrightarrow> get_flags s' j = get_flags s j) \<and>
         fd_log s' = fd_log s @ [On_install file])"
proof -
  let ?s = "s\<lparr>close_cursor := None\<rparr>"
  have inv': "files_inv ?s" and op: "is_fd_open ?s = is_fd_open s"
    using inv by (auto simp: files_inv_def is_fd_open_def fun_eq_iff)
  note len = files_invD(1) [OF inv]
  from inv' show ?thesis
  proof (cases rule: alloc_fd_cases [of _ limit])
    case full
    then show ?thesis using inv' op by (simp add: install_fd_def get_file_def)
  next
    case (slot fd)
    then show ?thesis using len op
      by (auto simp: install_fd_def files_inv_def is_fd_open_def get_file_def get_flags_def flag_at_def
          nth_list_update less_Suc_eq)
  next
    case push
    then show ?thesis using len op
      by (auto simp: install_fd_def files_inv_def is_fd_open_def get_file_def get_flags_def flag_at_def
          nth_list_update nth_append less_Suc_eq)
  qed
qed

lemma advance_hint_correct:
  assumes "h \<le> length t"
  shows "h \<le> advance_hint t h \<and> advance_hint t h \<le> length t \<and>
    (\<forall>i. h \<le> i \<and> i < advance_hint t h \<longrightarrow> t ! i \<noteq> None)"
  using assms
proof (induction t h rule: advance_hint.induct)
  case (1 t h)
  show ?case
  proof (cases "h < length t \<and> t ! h \<noteq> None")
    case True
    with 1 have "h + 1 \<le> advance_hint t (h + 1) \<and> advance_hint t (h + 1) \<le> length t \<and>
      (\<forall>i. h + 1 \<le> i \<and> i < advance_hint t (h + 1) \<longrightarrow> t ! i \<noteq> None)" by simp
    moreover have "advance_hint t h = advance_hint t (h + 1)" using True by (simp add: advance_hint.simps)
    ultimately show ?thesis using True by (metis Suc_eq_plus1 Suc_leD le_antisym not_less_eq_eq)
  next
    case False
    with 1 have "advance_hint t h = h" by (subst advance_hint.simps) auto
    with 1(2) show ?thesis by auto
  qed
qed

definition close_event :: "bool \<Rightarrow> file_ref option \<Rightarrow> fd_event list" where
  "close_event refs_closed old = (case old of None \<Rightarrow> [] | Some f \<Rightarrow> if refs_closed then [] else [On_close f])"

lemma replace_fd_at_correct:
  assumes inv: "files_inv s" and fd: "fd < limit"
  shows "\<exists>s'. replace_fd_at fd file flags limit s = (Some (get_file s fd), s') \<and> files_inv s' \<and>
    fd_refs_closed s' = fd_refs_closed s \<and>
    (\<forall>j. get_file s' j = (if j = fd then Some file else get_file s j)) \<and>
    (\<forall>j. get_flags s' j = (if j = fd then flags else get_flags s j)) \<and>
    fd_log s' = fd_log s @ close_event (fd_refs_closed s) (get_file s fd) @ [On_install file]"
proof -
  define n where "n = max (fd + 1) (length (fd_table s))"
  let ?pad = "n - length (fd_table s)"
  let ?t = "(fd_table s @ replicate ?pad None)[fd := Some file]"
  let ?f = "(fd_flags s @ replicate ?pad 0)[fd := flags]"
  let ?h = "if fd = next_fd_hint s then advance_hint ?t (next_fd_hint s) else next_fd_hint s"
  note len = files_invD(1,2) [OF inv]
  have l: "length ?t = n" "length ?f = n" "fd < n" using len by (auto simp: n_def)
  have rep: "replace_fd_at fd file flags limit s = (Some (get_file s fd),
      s\<lparr>close_cursor := None, fd_log := fd_log s @ close_event (fd_refs_closed s) (get_file s fd) @ [On_install file],
        fd_table := ?t, fd_flags := ?f, next_fd_hint := ?h\<rparr>)"
    using fd len inv
    by (auto simp: replace_fd_at_def Let_def n_def ensure_flags_len_def vec_resize_def get_file_def
        close_event_def max_def nth_append not_le)
  have opened: "i < next_fd_hint s \<Longrightarrow> ?t ! i \<noteq> None" for i
    using inv l len by (auto simp: files_inv_def nth_list_update nth_append)
  have h: "?h \<le> n \<and> (\<forall>i<?h. ?t ! i \<noteq> None)"
  proof (cases "fd = next_fd_hint s")
    case True
    have "next_fd_hint s \<le> length ?t" using len l by (simp add: n_def)
    note adv = advance_hint_correct [OF this]
    have "?t ! i \<noteq> None" if "i < advance_hint ?t (next_fd_hint s)" for i
      using that adv opened [of i] by (cases "i < next_fd_hint s") auto
    with adv True l show ?thesis by simp
  next
    case False
    then show ?thesis using opened len by (simp add: n_def)
  qed
  show ?thesis unfolding rep using l h len
    by (auto simp: files_inv_def get_file_def get_flags_def flag_at_def nth_list_update nth_append n_def)
qed

lemma clear_fd_correct:
  assumes inv: "files_inv s"
  shows "\<exists>s'. clear_fd fd s = (get_file s fd, s') \<and> files_inv s' \<and> fd_refs_closed s' = fd_refs_closed s \<and>
    (\<forall>j. get_file s' j = (if j = fd then None else get_file s j)) \<and>
    (\<forall>j. get_flags s' j = (if j = fd then 0 else get_flags s j)) \<and>
    fd_log s' = fd_log s @ close_event (fd_refs_closed s) (get_file s fd)"
proof (cases "fd < length (fd_table s)")
  case False
  then show ?thesis using inv
    by (auto simp: clear_fd_def get_file_def get_flags_def flag_at_def close_event_def files_invD(1) [OF inv])
next
  case True
  note len = files_invD(1,2) [OF inv]
  define s2 where "s2 = s\<lparr>fd_table := (fd_table s)[fd := None],
    fd_log := fd_log s @ close_event (fd_refs_closed s) (get_file s fd),
    fd_flags := (fd_flags s)[fd := 0], close_cursor := None,
    next_fd_hint := (if fd_table s ! fd \<noteq> None then min (next_fd_hint s) fd else next_fd_hint s)\<rparr>"
  have clr: "clear_fd fd s = (get_file s fd, trim s2)"
    using True len by (auto simp: clear_fd_def Let_def s2_def get_file_def close_event_def ensure_flags_len_def)
  have "files_inv (trim s2)"
    by (rule files_inv_trim) (use inv True in \<open>auto simp: s2_def files_inv_def nth_list_update\<close>)
  moreover have "get_file s2 j = (if j = fd then None else get_file s j)"
    "get_flags s2 j = (if j = fd then 0 else get_flags s j)" for j
    using True len by (auto simp: s2_def get_file_def get_flags_def flag_at_def nth_list_update)
  moreover have "length (fd_flags s2) = length (fd_table s2)" using len by (simp add: s2_def)
  ultimately show ?thesis unfolding clr by (simp add: get_file_trim get_flags_trim) (simp add: s2_def)
qed

lemma set_flags_correct:
  assumes inv: "files_inv s"
  shows "\<exists>s'. set_flags fd flags s = (is_fd_open s fd, s') \<and> files_inv s' \<and> fd_refs_closed s' = fd_refs_closed s \<and>
    get_file s' = get_file s \<and> fd_log s' = fd_log s \<and>
    (\<forall>j. get_flags s' j = (if j = fd \<and> is_fd_open s fd then flags else get_flags s j))"
  using inv files_invD(1) [OF inv]
  by (auto simp: set_flags_def Let_def ensure_flags_len_id files_inv_def get_file_def get_flags_def
      flag_at_def is_fd_open_def fun_eq_iff nth_list_update)

text \<open>The accounting hooks: what the log installed and closed, and what the table holds.\<close>

definition log_installs :: "fd_event list \<Rightarrow> file_ref multiset" where
  "log_installs l = mset (List.map_filter (\<lambda>e. case e of On_install f \<Rightarrow> Some f | On_close f \<Rightarrow> None) l)"

definition log_closes :: "fd_event list \<Rightarrow> file_ref multiset" where
  "log_closes l = mset (List.map_filter (\<lambda>e. case e of On_close f \<Rightarrow> Some f | On_install f \<Rightarrow> None) l)"

definition slot_files :: "files_struct \<Rightarrow> file_ref multiset" where
  "slot_files s = image_mset (\<lambda>fd. the (get_file s fd)) (mset_set {fd. is_fd_open s fd})"

definition opt_mset :: "'a option \<Rightarrow> 'a multiset" where
  "opt_mset x = (case x of None \<Rightarrow> {#} | Some a \<Rightarrow> {#a#})"

lemma opt_mset_simps [simp]: "opt_mset None = {#}" "opt_mset (Some a) = {#a#}"
  by (simp_all add: opt_mset_def)

lemma log_simps [simp]:
  "log_installs (a @ b) = log_installs a + log_installs b" "log_closes (a @ b) = log_closes a + log_closes b"
  "log_installs [On_install f] = {#f#}" "log_closes [On_install f] = {#}"
  "log_installs [On_close f] = {#}" "log_closes [On_close f] = {#f#}"
  "log_installs [] = {#}" "log_closes [] = {#}"
  "log_installs (close_event c x) = {#}" "log_closes (close_event c x) = (if c then {#} else opt_mset x)"
  by (auto simp: log_installs_def log_closes_def List.map_filter_def close_event_def split: option.splits)

lemma finite_open: "finite {fd. is_fd_open s fd}"
  by (rule finite_subset [of _ "{..<length (fd_table s)}"]) (auto simp: is_fd_open_def)

lemma slot_files_cong: "get_file s' = get_file s \<Longrightarrow> slot_files s' = slot_files s"
  by (simp add: slot_files_def get_file_open)

lemma slot_files_update:
  assumes "\<forall>j. get_file s' j = (if j = fd then v else get_file s j)"
  shows "slot_files s' + opt_mset (get_file s fd) = slot_files s + opt_mset v"
proof -
  let ?others = "{j. is_fd_open s j \<and> j \<noteq> fd}"
  have fin: "finite ?others" using finite_open [of s] by simp
  have eq: "slot_files t = image_mset (\<lambda>j. the (get_file s j)) (mset_set ?others) + opt_mset (get_file t fd)"
    if t: "\<forall>j. j \<noteq> fd \<longrightarrow> get_file t j = get_file s j" for t
  proof -
    have "is_fd_open t j \<longleftrightarrow> (if j = fd then get_file t fd \<noteq> None else is_fd_open s j)" for j
      using t by (simp add: get_file_open)
    then have "{j. is_fd_open t j} = (if get_file t fd = None then ?others else insert fd ?others)"
      by auto
    moreover have "image_mset (\<lambda>j. the (get_file t j)) (mset_set ?others) =
        image_mset (\<lambda>j. the (get_file s j)) (mset_set ?others)"
      using t fin by (intro image_mset_cong) auto
    ultimately show ?thesis using fin by (auto simp: slot_files_def)
  qed
  from eq [of s'] eq [of s] assms show ?thesis by simp
qed

text \<open>Installs and closes since the table was in state \<open>s0\<close> explain the change of its slots.\<close>

definition balanced :: "files_struct \<Rightarrow> files_struct \<Rightarrow> bool" where
  "balanced s0 s \<longleftrightarrow> log_installs (fd_log s) + slot_files s0 + log_closes (fd_log s0) =
     log_installs (fd_log s0) + slot_files s + log_closes (fd_log s)"

lemma balanced_trans:
  assumes "balanced a b" and "balanced b c"
  shows "balanced a c"
  unfolding balanced_def
proof (rule multiset_eqI)
  fix f
  let ?i = "\<lambda>s. count (log_installs (fd_log s)) f" and ?c = "\<lambda>s. count (log_closes (fd_log s)) f"
    and ?n = "\<lambda>s. count (slot_files s) f"
  have "?i b + ?n a + ?c a = ?i a + ?n b + ?c b" "?i c + ?n b + ?c b = ?i b + ?n c + ?c c"
    using assms unfolding balanced_def multiset_eq_iff by simp_all
  then show "count (log_installs (fd_log c) + slot_files a + log_closes (fd_log a)) f =
      count (log_installs (fd_log a) + slot_files c + log_closes (fd_log c)) f" by simp
qed

lemma cloexec_loop_correct:
  assumes "length (fd_flags s) = length (fd_table s)" and "set idxs \<subseteq> {..<length (fd_table s)}" and "distinct idxs"
    and "fd_refs_closed s = False"
  shows "\<exists>s'. cloexec_loop idxs s = Some s' \<and> length (fd_flags s') = length (fd_table s') \<and>
    length (fd_table s') = length (fd_table s) \<and> fd_refs_closed s' = False \<and>
    next_fd_hint s' \<le> next_fd_hint s \<and> (\<forall>i\<in>set idxs. get_flags s i AND FD_CLOEXEC \<noteq> 0 \<longrightarrow> next_fd_hint s' \<le> i) \<and>
    (\<forall>j. get_file s' j = (if j \<in> set idxs \<and> get_flags s j AND FD_CLOEXEC \<noteq> 0 then None else get_file s j)) \<and>
    (\<forall>j. get_flags s' j = (if j \<in> set idxs \<and> get_flags s j AND FD_CLOEXEC \<noteq> 0 then 0 else get_flags s j)) \<and>
    balanced s s'"
  using assms
proof (induction idxs arbitrary: s)
  case (Cons i idxs)
  show ?case
  proof (cases "get_flags s i AND FD_CLOEXEC = 0")
    case True
    then have "cloexec_loop (i # idxs) s = cloexec_loop idxs s"
      using Cons.prems by (simp add: get_flags_def flag_at_def)
    with Cons.IH [of s] Cons.prems True show ?thesis by auto
  next
    case False
    define s1 where "s1 = s\<lparr>fd_table := (fd_table s)[i := None],
      fd_log := fd_log s @ close_event False (get_file s i), fd_flags := (fd_flags s)[i := 0],
      next_fd_hint := min (next_fd_hint s) i\<rparr>"
    have step: "cloexec_loop (i # idxs) s = cloexec_loop idxs s1"
      using Cons.prems False
      by (auto simp: s1_def Let_def get_flags_def flag_at_def get_file_def close_event_def split: option.split)
    have slot1: "get_file s1 j = (if j = i then None else get_file s j)"
      and flag1: "get_flags s1 j = (if j = i then 0 else get_flags s j)" for j
      using Cons.prems by (auto simp: s1_def get_file_def get_flags_def flag_at_def nth_list_update)
    have hint: "next_fd_hint s1 = min (next_fd_hint s) i" by (simp add: s1_def)
    have log: "balanced s s1"
      using slot_files_update [of s1 i None s] slot1 unfolding balanced_def by (simp add: s1_def ac_simps)
    have pre: "length (fd_flags s1) = length (fd_table s1)" "set idxs \<subseteq> {..<length (fd_table s1)}"
      "distinct idxs" "fd_refs_closed s1 = False" and len: "length (fd_table s1) = length (fd_table s)"
      using Cons.prems by (auto simp: s1_def)
    from Cons.IH [OF pre] obtain s' where s': "cloexec_loop idxs s1 = Some s'"
      "length (fd_flags s') = length (fd_table s')" "length (fd_table s') = length (fd_table s1)"
      "fd_refs_closed s' = False" "next_fd_hint s' \<le> next_fd_hint s1"
      "\<forall>i\<in>set idxs. get_flags s1 i AND FD_CLOEXEC \<noteq> 0 \<longrightarrow> next_fd_hint s' \<le> i"
      "\<forall>j. get_file s' j = (if j \<in> set idxs \<and> get_flags s1 j AND FD_CLOEXEC \<noteq> 0 then None else get_file s1 j)"
      "\<forall>j. get_flags s' j = (if j \<in> set idxs \<and> get_flags s1 j AND FD_CLOEXEC \<noteq> 0 then 0 else get_flags s1 j)"
      "balanced s1 s'" by blast
    have "balanced s s'" by (rule balanced_trans [OF log s'(9)])
    moreover have "i \<notin> set idxs" using Cons.prems(3) by simp
    ultimately show ?thesis unfolding step using s' slot1 flag1 hint False len by auto
  qed
qed (simp add: balanced_def)

lemma close_cloexec_correct:
  assumes inv: "files_inv s" and live: "fd_refs_closed s = False"
  shows "\<exists>s'. close_cloexec_fds s = Some s' \<and> files_inv s' \<and> fd_refs_closed s' = False \<and>
    (\<forall>j. get_file s' j = (if get_flags s j AND FD_CLOEXEC \<noteq> 0 then None else get_file s j)) \<and>
    (\<forall>j. get_flags s' j = (if get_flags s j AND FD_CLOEXEC \<noteq> 0 then 0 else get_flags s j)) \<and>
    balanced s s'"
proof -
  note len = files_invD(1,2) [OF inv]
  have set_upt': "set [0..<length (fd_flags s)] = {..<length (fd_table s)}" using len(1) by auto
  from cloexec_loop_correct [of s "[0..<length (fd_flags s)]", unfolded set_upt'] len live obtain t where t:
    "cloexec_loop [0..<length (fd_flags s)] s = Some t" "length (fd_flags t) = length (fd_table t)"
    "length (fd_table t) = length (fd_table s)" "fd_refs_closed t = False" "next_fd_hint t \<le> next_fd_hint s"
    "\<forall>i<length (fd_table s). get_flags s i AND FD_CLOEXEC \<noteq> 0 \<longrightarrow> next_fd_hint t \<le> i"
    "\<forall>j. get_file t j = (if j < length (fd_table s) \<and> get_flags s j AND FD_CLOEXEC \<noteq> 0 then None else get_file s j)"
    "\<forall>j. get_flags t j = (if j < length (fd_table s) \<and> get_flags s j AND FD_CLOEXEC \<noteq> 0 then 0 else get_flags s j)"
    "balanced s t"
    by (auto simp: Ball_def)
  have out: "get_flags s j AND FD_CLOEXEC = 0" "get_file s j = None" if "\<not> j < length (fd_table s)" for j
    using that len by (simp_all add: get_flags_def flag_at_def get_file_def)
  have "fd_table t ! i \<noteq> None" if i: "i < next_fd_hint t" "i < length (fd_table t)" for i
  proof -
    have "get_file s i \<noteq> None" using files_invD(3) [OF inv, of i] t(5) i by (simp add: get_file_open)
    moreover have "get_flags s i AND FD_CLOEXEC = 0" using t(3,6) i by (metis not_le)
    ultimately have "get_file t i \<noteq> None" using t(7) by simp
    then show ?thesis using i by (simp add: get_file_def)
  qed
  then have "files_inv (trim t)" by (intro files_inv_trim [OF t(2)]) simp
  moreover have "close_cloexec_fds s = Some (trim t)"
    using t(1) by (simp add: close_cloexec_fds_def ensure_flags_len_id [OF inv])
  moreover have "slot_files (trim t) = slot_files t"
    by (rule slot_files_cong) (simp add: fun_eq_iff get_file_trim)
  moreover from this have "balanced s (trim t)" using t(9) by (simp add: balanced_def)
  ultimately show ?thesis using t(4,7,8) out get_flags_trim [OF t(2)] by (auto simp: get_file_trim)
qed

section \<open>Life of a table\<close>

inductive files_step :: "files_struct \<Rightarrow> files_struct \<Rightarrow> bool" where
  install: "install_fd file flags limit s = Some (r, s') \<Longrightarrow> files_step s s'"
| replace: "replace_fd_at fd file flags limit s = (r, s') \<Longrightarrow> files_step s s'"
| clear: "clear_fd fd s = (r, s') \<Longrightarrow> files_step s s'"
| set_flags: "set_flags fd flags s = (b, s') \<Longrightarrow> files_step s s'"
| exec: "close_cloexec_fds s = Some s' \<Longrightarrow> files_step s s'"

lemma files_step_inv:
  assumes step: "files_step s s'" and inv: "files_inv s" and live: "fd_refs_closed s = False"
  shows "files_inv s' \<and> fd_refs_closed s' = False \<and> balanced s s'"
  using step
proof cases
  case (install f flags limit r)
  with install_fd_correct [OF inv, of f flags limit] live obtain
    c: "files_inv s'" "fd_refs_closed s' = False"
    "case r of None \<Rightarrow> (\<forall>j. get_file s' j = get_file s j) \<and> fd_log s' = fd_log s
     | Some fd \<Rightarrow> \<not> is_fd_open s fd \<and> (\<forall>j. get_file s' j = (if j = fd then Some f else get_file s j)) \<and>
         fd_log s' = fd_log s @ [On_install f]"
    by (auto split: option.splits)
  show ?thesis
  proof (cases r)
    case None
    then show ?thesis using c slot_files_cong [of s' s] by (simp add: balanced_def fun_eq_iff)
  next
    case (Some fd)
    then have "slot_files s' = add_mset f (slot_files s)"
      using c slot_files_update [of s' fd "Some f" s] by (simp add: get_file_open)
    then show ?thesis using c Some by (simp add: balanced_def)
  qed
next
  case (replace fd f flags limit r)
  show ?thesis
  proof (cases "fd < limit")
    case True
    with replace_fd_at_correct [OF inv True, of f flags] replace live obtain
      c: "files_inv s'" "fd_refs_closed s' = False" "\<forall>j. get_file s' j = (if j = fd then Some f else get_file s j)"
      "fd_log s' = fd_log s @ close_event False (get_file s fd) @ [On_install f]" by auto
    from slot_files_update [OF c(3)] c show ?thesis by (simp add: balanced_def ac_simps)
  qed (use replace inv live in \<open>simp add: replace_fd_at_def balanced_def\<close>)
next
  case (clear fd r)
  with clear_fd_correct [OF inv, of fd] live obtain
    c: "files_inv s'" "fd_refs_closed s' = False" "\<forall>j. get_file s' j = (if j = fd then None else get_file s j)"
    "fd_log s' = fd_log s @ close_event False (get_file s fd)" by auto
  from slot_files_update [OF c(3)] c show ?thesis by (simp add: balanced_def ac_simps)
next
  case (set_flags fd flags b)
  with set_flags_correct [OF inv, of fd flags] live slot_files_cong [of s' s] show ?thesis
    by (auto simp: balanced_def)
next
  case exec
  with close_cloexec_correct [OF inv live] show ?thesis by (auto simp: balanced_def)
qed

lemma files_steps_inv:
  "files_step\<^sup>*\<^sup>* s0 s \<Longrightarrow> files_inv s0 \<Longrightarrow> fd_refs_closed s0 = False \<Longrightarrow>
   files_inv s \<and> fd_refs_closed s = False \<and> balanced s0 s"
proof (induction rule: rtranclp_induct)
  case base
  then show ?case by (simp add: balanced_def)
next
  case (step s s')
  with files_step_inv [OF step.hyps(2)] balanced_trans show ?case by blast
qed

section \<open>Teardown\<close>

lemma files_of_simps [simp]:
  "files_of [] = []" "files_of (None # t) = files_of t" "files_of (Some f # t) = f # files_of t"
  "files_of (a @ b) = files_of a @ files_of b"
  by (simp_all add: files_of_def List.map_filter_def)

lemma files_of_Cons: "files_of (x # t) = files_of [x] @ files_of t"
  by (cases x) simp_all

lemma close_slot_correct:
  "fst (close_slot c s) = files_of [fd_table s ! c]"
  "fd_refs_closed (snd (close_slot c s)) = fd_refs_closed s"
  "drop (c + 1) (fd_table (snd (close_slot c s))) = drop (c + 1) (fd_table s)"
  "fd_log (snd (close_slot c s)) =
     fd_log s @ (if fd_refs_closed s then [] else map On_close (files_of [fd_table s ! c]))"
  by (auto simp: close_slot_def Let_def split: option.splits)

lemma close_batch_loop_correct:
  assumes "close_batch_loop limit c files s = (c', files', s')" and "c \<le> length (fd_table s)"
  defines "taken \<equiv> files_of (take (c' - c) (drop c (fd_table s)))"
  shows "c \<le> c' \<and> c' \<le> length (fd_table s) \<and> length (fd_table s') = length (fd_table s) \<and>
    files' = files @ taken \<and> drop c' (fd_table s') = drop c' (fd_table s) \<and>
    (c < length (fd_table s) \<and> length files < limit \<longrightarrow> c < c') \<and> fd_refs_closed s' = fd_refs_closed s \<and>
    fd_log s' = fd_log s @ (if fd_refs_closed s then [] else map On_close taken)"
  using assms(1,2) unfolding taken_def
proof (induction limit c files s arbitrary: c' files' s' rule: close_batch_loop.induct)
  case (1 limit c files s)
  show ?case
  proof (cases "c < length (fd_table s) \<and> length files < limit")
    case False
    with 1(2) have "c' = c" "files' = files" "s' = s" by (auto simp: close_batch_loop.simps [of limit c])
    with False 1(3) show ?thesis by auto
  next
    case True
    let ?file = "fd_table s ! c" and ?s2 = "snd (close_slot c s)"
    let ?files = "files @ files_of [?file]"
    have step: "close_batch_loop limit (c + 1) ?files ?s2 = (c', files', s')"
      using 1(2) True close_slot_correct(1) [of c s] by (simp add: close_batch_loop.simps [of limit c])
    note s2 = close_slot_correct(2-) [of c s] length_close_slot [of c s]
    have "c + 1 \<le> length (fd_table ?s2)" using True by simp
    from 1(1) [OF True, unfolded close_slot_correct(1), OF step this]
    have IH: "c + 1 \<le> c' \<and> c' \<le> length (fd_table s) \<and> length (fd_table s') = length (fd_table s) \<and>
      files' = ?files @ files_of (take (c' - (c + 1)) (drop (c + 1) (fd_table s))) \<and>
      drop c' (fd_table s') = drop c' (fd_table ?s2) \<and> fd_refs_closed s' = fd_refs_closed s \<and>
      fd_log s' = fd_log ?s2 @ (if fd_refs_closed s then []
        else map On_close (files_of (take (c' - (c + 1)) (drop (c + 1) (fd_table s)))))"
      unfolding s2 by blast
    then have c': "c < c'" "c' \<le> length (fd_table s)" by auto
    have "drop c (fd_table s) = ?file # drop (c + 1) (fd_table s)"
      using True Cons_nth_drop_Suc [of c "fd_table s"] by simp
    moreover have "c' - c = Suc (c' - (c + 1))" using c' by simp
    ultimately have tk: "take (c' - c) (drop c (fd_table s)) = ?file # take (c' - (c + 1)) (drop (c + 1) (fd_table s))"
      by simp
    have taken: "files_of (take (c' - c) (drop c (fd_table s))) =
        files_of [?file] @ files_of (take (c' - (c + 1)) (drop (c + 1) (fd_table s)))"
      unfolding tk by (rule files_of_Cons)
    have "drop c' (fd_table ?s2) = drop (c' - (c + 1)) (drop (c + 1) (fd_table ?s2))" using c' by simp
    also have "\<dots> = drop c' (fd_table s)" using c' unfolding s2(2) by simp
    finally show ?thesis using IH c' unfolding s2 taken by auto
  qed
qed

fun close_batches :: "nat \<Rightarrow> nat \<Rightarrow> files_struct \<Rightarrow> file_ref list \<times> files_struct" where
  "close_batches 0 limit s = ([], s)"
| "close_batches (Suc n) limit s =
     (let (fs, s1) = take_file_close_batch limit s; (fs', s2) = close_batches n limit s1 in (fs @ fs', s2))"

definition cursor_of :: "files_struct \<Rightarrow> nat" where
  "cursor_of s = (case close_cursor s of None \<Rightarrow> 0 | Some c \<Rightarrow> c)"

lemma close_batches_drain:
  assumes "0 < limit" and "cursor_of s \<le> length (fd_table s)" and "length (fd_table s) - cursor_of s \<le> n"
    and "fd_table s = [] \<or> cursor_of s < length (fd_table s)"
  shows "fst (close_batches n limit s) = files_of (drop (cursor_of s) (fd_table s)) \<and>
    fd_table (snd (close_batches n limit s)) = [] \<and>
    fd_log (snd (close_batches n limit s)) = fd_log s @
      (if fd_refs_closed s then [] else map On_close (files_of (drop (cursor_of s) (fd_table s))))"
  using assms
proof (induction n arbitrary: s)
  case 0
  then show ?case by auto
next
  case (Suc n)
  let ?c = "cursor_of s" and ?t = "fd_table s"
  obtain c' fs t where loop: "close_batch_loop limit ?c [] s = (c', fs, t)" by (metis prod_cases3)
  note cor = close_batch_loop_correct [OF loop Suc.prems(2)]
  let ?s1 = "if c' \<ge> length (fd_table t) then t\<lparr>fd_table := [], fd_flags := [], next_fd_hint := 0, close_cursor := None\<rparr>
    else t\<lparr>close_cursor := Some c'\<rparr>"
  have batch: "take_file_close_batch limit s = (fs, ?s1)"
    using Suc.prems(1) loop by (auto simp: take_file_close_batch_def cursor_of_def)
  have rest: "drop (cursor_of ?s1) (fd_table ?s1) = drop c' ?t"
    using cor by (auto simp: cursor_of_def)
  have "fst (close_batches n limit ?s1) = files_of (drop (cursor_of ?s1) (fd_table ?s1)) \<and>
    fd_table (snd (close_batches n limit ?s1)) = [] \<and>
    fd_log (snd (close_batches n limit ?s1)) = fd_log ?s1 @
      (if fd_refs_closed ?s1 then [] else map On_close (files_of (drop (cursor_of ?s1) (fd_table ?s1))))"
  proof (rule Suc.IH [OF Suc.prems(1)])
    show "cursor_of ?s1 \<le> length (fd_table ?s1)" "fd_table ?s1 = [] \<or> cursor_of ?s1 < length (fd_table ?s1)"
      by (simp_all add: cursor_of_def)
    show "length (fd_table ?s1) - cursor_of ?s1 \<le> n"
      using cor Suc.prems by (auto simp: cursor_of_def)
  qed
  moreover have "fd_log ?s1 = fd_log t" "fd_refs_closed ?s1 = fd_refs_closed s" using cor by simp_all
  moreover have "drop ?c ?t = take (c' - ?c) (drop ?c ?t) @ drop c' ?t"
    using cor append_take_drop_id [of "c' - ?c" "drop ?c ?t"] by (metis drop_drop le_add_diff_inverse2)
  then have "files_of (drop ?c ?t) = fs @ files_of (drop c' ?t)"
    using cor files_of_simps(4) by (metis append_Nil)
  ultimately show ?case using cor unfolding rest
    by (cases "close_batches n limit ?s1") (simp add: batch del: if_split)
qed

section \<open>Properties\<close>

text \<open>C23: Descriptors are allocated as POSIX requires. \<open>install_fd\<close> never panics; the descriptor it
  returns is the lowest closed one and below the limit, the file and its flags appear there and
  nothing else changes; it fails only when every descriptor below the limit is open.\<close>

theorem install_lowest_fd:
  assumes "files_inv s"
  shows "\<exists>r s'. install_fd f flags limit s = Some (r, s') \<and> files_inv s' \<and>
    (case r of
       None \<Rightarrow> (\<forall>j<limit. is_fd_open s j) \<and> (\<forall>j. get_file s' j = get_file s j)
     | Some fd \<Rightarrow> fd < limit \<and> \<not> is_fd_open s fd \<and> (\<forall>j<fd. is_fd_open s j) \<and>
         get_file_and_flags s' fd = Some (f, flags) \<and>
         (\<forall>j. j \<noteq> fd \<longrightarrow> get_file_and_flags s' j = get_file_and_flags s j))"
proof -
  from install_fd_correct [OF assms, of f flags limit] obtain r s' where
    r: "install_fd f flags limit s = Some (r, s')" "files_inv s'" and c: "case r of
       None \<Rightarrow> (\<forall>j<limit. is_fd_open s j) \<and> (\<forall>j. get_file s' j = get_file s j) \<and> fd_log s' = fd_log s
     | Some fd \<Rightarrow> fd < limit \<and> \<not> is_fd_open s fd \<and> (\<forall>j<fd. is_fd_open s j) \<and>
         (\<forall>j. get_file s' j = (if j = fd then Some f else get_file s j)) \<and>
         get_flags s' fd = flags \<and> (\<forall>j. j \<noteq> fd \<longrightarrow> get_flags s' j = get_flags s j) \<and>
         fd_log s' = fd_log s @ [On_install f]" by blast
  show ?thesis
  proof (cases r)
    case (Some fd)
    with r c show ?thesis
      by (intro exI [of _ r] exI [of _ s']) (simp add: get_file_and_flags_def)
  qed (use r c in simp)
qed

lemma stdio_inv: "files_inv (files_with_stdio a b c)"
  by (auto simp: files_inv_def files_with_stdio_def less_Suc_eq numeral_3_eq_3)

lemma stdio_simps [simp]:
  "get_file (files_with_stdio a b c) 0 = Some a" "get_file (files_with_stdio a b c) (Suc 0) = Some b"
  "get_file (files_with_stdio a b c) 2 = Some c" "fd_refs_closed (files_with_stdio a b c) = False"
  "fd_log (files_with_stdio a b c) = []" "close_cursor (files_with_stdio a b c) = None"
  "get_flags (files_with_stdio a b c) i = 0"
  by (auto simp: files_with_stdio_def get_file_def get_flags_def flag_at_def)

theorem install_lowest_fd_witness:
  "\<exists>r s'. install_fd 7 1 64 (snd (clear_fd 1 (files_with_stdio 0 1 2))) = Some (r, s') \<and> r = Some 1"
proof -
  let ?s = "snd (clear_fd 1 (files_with_stdio 0 1 2))"
  have s: "files_inv ?s" "get_file ?s 1 = None" "get_file ?s 0 = Some 0"
    using clear_fd_correct [OF stdio_inv, of 1 0 1 2] by auto
  obtain r s' where r: "install_fd 7 1 64 ?s = Some (r, s')" "case r of
       None \<Rightarrow> \<forall>j<64. is_fd_open ?s j | Some fd \<Rightarrow> \<not> is_fd_open ?s fd \<and> (\<forall>j<fd. is_fd_open ?s j)"
    using install_lowest_fd [OF s(1), of 7 1 64] by (auto split: option.splits)
  have "r = Some fd \<Longrightarrow> fd = 1" for fd
    using r(2) s(2,3) by (cases "fd < 1"; cases "1 < fd") (auto simp: get_file_open)
  moreover have "r \<noteq> None"
  proof
    assume "r = None"
    with r(2) have "is_fd_open ?s 1" by simp
    with s(2) show False by (simp add: get_file_open)
  qed
  ultimately show ?thesis using r(1) by auto
qed

text \<open>C26: The accounting hooks balance. Over any sequence of installs, replacements, closes, flag
  changes and execs, none of which panics, the file objects were told of exactly as many installs
  and closes as explains the descriptors open at the end; the table keeps its invariant.\<close>

theorem fd_accounting_balanced:
  assumes "files_step\<^sup>*\<^sup>* s0 s" and "files_inv s0" and "fd_refs_closed s0 = False"
  shows "files_inv s \<and> install_fd f flags limit s \<noteq> None \<and> close_cloexec_fds s \<noteq> None \<and>
    log_installs (fd_log s) + slot_files s0 + log_closes (fd_log s0) =
      log_installs (fd_log s0) + slot_files s + log_closes (fd_log s)"
  using files_steps_inv [OF assms] install_fd_correct [of s f flags limit] close_cloexec_correct [of s]
  by (auto simp: balanced_def)

theorem fd_accounting_balanced_witness:
  "let s = snd (clear_fd 1 (files_with_stdio 0 1 2)) in
   files_inv s \<and> log_installs (fd_log s) + slot_files (files_with_stdio 0 1 2) = slot_files s + log_closes (fd_log s)"
proof -
  have "files_step\<^sup>*\<^sup>* (files_with_stdio 0 1 2) (snd (clear_fd 1 (files_with_stdio 0 1 2)))"
    by (rule r_into_rtranclp, rule files_step.clear) (rule surjective_pairing)
  from fd_accounting_balanced [OF this stdio_inv] show ?thesis
    by (simp add: Let_def)
qed

text \<open>C28: Tearing down a table in batches closes every file exactly once. From the start of the table,
  as many calls of \<open>take_file_close_batch\<close> as it has slots return all its files, in descriptor order,
  leave it empty, and run the close hook once per file unless the hooks ran before.\<close>

theorem teardown_closes_all:
  assumes "0 < limit" and "close_cursor s = None"
  shows "fst (close_batches (length (fd_table s)) limit s) = files_of (fd_table s) \<and>
    fd_table (snd (close_batches (length (fd_table s)) limit s)) = [] \<and>
    fd_log (snd (close_batches (length (fd_table s)) limit s)) =
      fd_log s @ (if fd_refs_closed s then [] else map On_close (files_of (fd_table s)))"
  using close_batches_drain [OF assms(1), of s "length (fd_table s)"] assms(2)
  by (auto simp: cursor_of_def)

theorem teardown_closes_all_witness:
  "fst (close_batches 3 2 (files_with_stdio 4 5 6)) = [4, 5, 6]"
proof -
  have t: "fd_table (files_with_stdio 4 5 6) = [Some 4, Some 5, Some 6]" by (simp add: files_with_stdio_def)
  have n: "length (fd_table (files_with_stdio 4 5 6)) = 3" by (simp add: t)
  have "fst (close_batches (length (fd_table (files_with_stdio 4 5 6))) 2 (files_with_stdio 4 5 6)) =
      files_of (fd_table (files_with_stdio 4 5 6))"
    using teardown_closes_all [of 2 "files_with_stdio 4 5 6"] by simp
  then show ?thesis unfolding n unfolding t by simp
qed

text \<open>\<open>execve\<close> closes exactly the descriptors marked close-on-exec: \<open>close_cloexec_fds\<close> does not
  panic, empties their slots, clears their flags, and leaves every other descriptor as it was.\<close>

theorem exec_closes_cloexec:
  assumes "files_inv s" and "fd_refs_closed s = False"
  shows "\<exists>s'. close_cloexec_fds s = Some s' \<and> files_inv s' \<and>
    (\<forall>j. get_file_and_flags s' j =
      (if get_flags s j AND FD_CLOEXEC \<noteq> 0 then None else get_file_and_flags s j))"
  using close_cloexec_correct [OF assms] by (auto simp: get_file_and_flags_def)

theorem exec_closes_cloexec_witness:
  "\<exists>s'. close_cloexec_fds (snd (set_flags 1 FD_CLOEXEC (files_with_stdio 0 1 2))) = Some s' \<and>
    get_file_and_flags s' 1 = None \<and> get_file_and_flags s' 2 = Some (2, 0)"
proof -
  let ?s = "snd (set_flags 1 FD_CLOEXEC (files_with_stdio 0 1 2))"
  have s: "files_inv ?s" "fd_refs_closed ?s = False" "get_flags ?s 1 = 1" "get_flags ?s 2 = 0"
    "get_file ?s 2 = Some 2"
    using set_flags_correct [OF stdio_inv, of 1 FD_CLOEXEC 0 1 2]
    by (auto simp: get_file_open FD_CLOEXEC_def)
  obtain s' where s': "close_cloexec_fds ?s = Some s'"
    "\<And>j. get_file_and_flags s' j = (if get_flags ?s j AND FD_CLOEXEC \<noteq> 0 then None else get_file_and_flags ?s j)"
    using exec_closes_cloexec [OF s(1,2)] by blast
  have "get_file_and_flags ?s 2 = Some (2, 0)" unfolding get_file_and_flags_def s(4,5) by simp
  then have "get_file_and_flags s' 1 = None" "get_file_and_flags s' 2 = Some (2, 0)"
    using s'(2) [of 1] s'(2) [of 2] s(3,4) by (simp_all add: FD_CLOEXEC_def)
  with s'(1) show ?thesis by blast
qed

end
