(* ===== verification/Bpf_Syscall.thy ===== *)
theory Bpf_Syscall
  imports Bpf_Vm Files_Struct
begin

text \<open>
  The \<open>bpf\<close> system call, \<open>src/src/bpf/syscall.rs\<close>: creation of maps, element access from user space
  and loading of programs. It ties together the maps (\<open>Bpf_Map\<close>), the verifier and interpreter
  (\<open>Bpf_Vm\<close>) and the descriptor table (\<open>Files_Struct\<close>).

  Access to user memory (\<open>try_copy_from_user\<close>, \<open>try_copy_to_user\<close>) is a parameter: a record of two
  functions on an abstract state of the address space. A descriptor table entry is the number of a
  file object of the heap; \<open>sys_next\<close> is the next unused number.
\<close>

record 'u user_ops =
  copy_from :: "'u \<Rightarrow> usize \<Rightarrow> nat \<Rightarrow> u8 list option"
  copy_to :: "'u \<Rightarrow> usize \<Rightarrow> u8 list \<Rightarrow> bool \<times> 'u"

record 'u bpf_sys =
  sys_files :: files_struct
  sys_limit :: nat
  sys_heap :: file_heap
  sys_next :: nat
  sys_user :: 'u

section \<open>Commands and attributes\<close>

definition BPF_MAP_CREATE :: usize where "BPF_MAP_CREATE = 0"
definition BPF_MAP_LOOKUP_ELEM :: usize where "BPF_MAP_LOOKUP_ELEM = 1"
definition BPF_MAP_UPDATE_ELEM :: usize where "BPF_MAP_UPDATE_ELEM = 2"
definition BPF_PROG_LOAD :: usize where "BPF_PROG_LOAD = 5"
definition BPF_MAP_TYPE_HASH :: u32 where "BPF_MAP_TYPE_HASH = 1"
definition BPF_MAP_TYPE_ARRAY :: u32 where "BPF_MAP_TYPE_ARRAY = 2"
definition BPF_MAP_TYPE_RINGBUF :: u32 where "BPF_MAP_TYPE_RINGBUF = 27"
definition BPF_PROG_TYPE_SOCKET_FILTER :: u32 where "BPF_PROG_TYPE_SOCKET_FILTER = 1"

text \<open>The fields of the three \<open>repr(C)\<close> attribute structures that the code reads.\<close>

record map_create_attr =
  map_type :: u32
  attr_key_size :: u32
  attr_value_size :: u32
  attr_max_entries :: u32

record map_elem_attr =
  map_fd :: u32
  elem_key :: u64
  elem_value :: u64
  elem_flags :: u64

record prog_load_attr =
  prog_type :: u32
  insn_cnt :: u32
  insns_ptr :: u64
  log_size :: u32
  log_buf :: u64

definition map_create_attr_of :: "u8 list \<Rightarrow> map_create_attr" where
  "map_create_attr_of bs =
     \<lparr>map_type = from_le_bytes (slice bs 0 4), attr_key_size = from_le_bytes (slice bs 4 8),
      attr_value_size = from_le_bytes (slice bs 8 12), attr_max_entries = from_le_bytes (slice bs 12 16)\<rparr>"

definition map_elem_attr_of :: "u8 list \<Rightarrow> map_elem_attr" where
  "map_elem_attr_of bs =
     \<lparr>map_fd = from_le_bytes (slice bs 0 4), elem_key = from_le_bytes (slice bs 8 16),
      elem_value = from_le_bytes (slice bs 16 24), elem_flags = from_le_bytes (slice bs 24 32)\<rparr>"

definition prog_load_attr_of :: "u8 list \<Rightarrow> prog_load_attr" where
  "prog_load_attr_of bs =
     \<lparr>prog_type = from_le_bytes (slice bs 0 4), insn_cnt = from_le_bytes (slice bs 4 8),
      insns_ptr = from_le_bytes (slice bs 8 16), log_size = from_le_bytes (slice bs 28 32),
      log_buf = from_le_bytes (slice bs 32 40)\<rparr>"

definition size_of_map_create_attr :: nat where "size_of_map_create_attr = 60"
definition size_of_map_elem_attr :: nat where "size_of_map_elem_attr = 32"
definition size_of_prog_load_attr :: nat where "size_of_prog_load_attr = 72"

section \<open>Helpers\<close>

definition copy_user_struct :: "'u user_ops \<Rightarrow> 'u \<Rightarrow> usize \<Rightarrow> nat \<Rightarrow> syscall_error + u8 list" where
  "copy_user_struct um u ptr size_of = ok_or EFAULT (copy_from um u ptr size_of)"

definition insn_of_bytes :: "u8 list \<Rightarrow> bpf_insn" where
  "insn_of_bytes bs = \<lparr>insn_code = bs ! 0, insn_regs = bs ! 1,
     insn_off = from_le_bytes (slice bs 2 4), insn_imm = from_le_bytes (slice bs 4 8)\<rparr>"

primrec insn_chunks :: "nat \<Rightarrow> u8 list \<Rightarrow> bpf_insn list" where
  "insn_chunks 0 raw = []"
| "insn_chunks (Suc n) raw = insn_of_bytes (take 8 raw) # insn_chunks n (drop 8 raw)"

definition copy_user_insns :: "'u user_ops \<Rightarrow> 'u \<Rightarrow> usize \<Rightarrow> nat \<Rightarrow> syscall_error + bpf_insn list" where
  "copy_user_insns um u ptr n =
     (if n * 8 \<ge> 2 ^ 64 then Inl ENOMEM
      else rbind (ok_or EFAULT (copy_from um u ptr (n * 8))) (\<lambda>raw. Inr (insn_chunks (length raw div 8) raw)))"

definition is_map_file :: "file_heap \<Rightarrow> file_ref \<Rightarrow> bool" where
  "is_map_file h f \<longleftrightarrow> (case h f of Some (BpfMapFile m) \<Rightarrow> True | _ \<Rightarrow> False)"

function collect_prog_map_refs ::
  "files_struct \<Rightarrow> file_heap \<Rightarrow> bpf_insn list \<Rightarrow> nat \<Rightarrow> (u32, nat) btree_map \<Rightarrow> syscall_error + (u32, nat) btree_map" where
  "collect_prog_map_refs fs h is i refs =
     (if i < length is then
        (let insn = is ! i in
         if is_ldimm64 insn then
           (if i + 1 \<ge> length is then Inl EINVAL
            else if src_reg insn = unat BPF_PSEUDO_MAP_FD then
              (case get_file fs (unat (insn_imm insn)) of
                 None \<Rightarrow> Inl EBADF
               | Some file \<Rightarrow>
                   if \<not> is_map_file h file then Inl EBADF
                   else collect_prog_map_refs fs h is (i + 2) (btm_insert (insn_imm insn) file refs))
            else collect_prog_map_refs fs h is (i + 2) refs)
         else collect_prog_map_refs fs h is (i + 1) refs)
      else Inr refs)"
  by auto
termination
  by (relation "measure (\<lambda>(fs, h, is, i, refs). length is - i)") auto

declare collect_prog_map_refs.simps [simp del]

text \<open>\<open>alloc_fd\<close> of this file: installing a file object that no descriptor names yet. \<open>None\<close> is a
  panic of the descriptor table.\<close>

definition bpf_alloc_fd :: "kfile \<Rightarrow> 'u bpf_sys \<Rightarrow> (int \<times> 'u bpf_sys) option" where
  "bpf_alloc_fd file s =
     (case install_fd (sys_next s) 0 (sys_limit s) (sys_files s) of
        None \<Rightarrow> None
      | Some (None, fs) \<Rightarrow> Some (err EMFILE, s\<lparr>sys_files := fs\<rparr>)
      | Some (Some fd, fs) \<Rightarrow>
          Some (int fd, s\<lparr>sys_files := fs, sys_heap := (sys_heap s)(sys_next s \<mapsto> file), sys_next := sys_next s + 1\<rparr>))"

definition bytes_of_string :: "string \<Rightarrow> u8 list" where
  "bytes_of_string msg = map of_char msg"

definition write_verifier_log :: "'u user_ops \<Rightarrow> prog_load_attr \<Rightarrow> string \<Rightarrow> 'u bpf_sys \<Rightarrow> 'u bpf_sys" where
  "write_verifier_log um attr msg s =
     (if log_buf attr = 0 \<or> log_size attr = 0 then s
      else
        let max_payload = unat (saturating_sub (log_size attr) 1);
            bs = bytes_of_string msg;
            copy_len = min (length bs) max_payload;
            (_, u1) = copy_to um (sys_user s) (log_buf attr) (take copy_len bs);
            (_, u2) = copy_to um u1 (log_buf attr + of_nat copy_len) [0]
        in s\<lparr>sys_user := u2\<rparr>)"

definition get_prog_clone :: "'u bpf_sys \<Rightarrow> nat \<Rightarrow> bpf_prog option" where
  "get_prog_clone s fd =
     Option.bind (get_file (sys_files s) fd)
       (\<lambda>file. case sys_heap s file of Some (BpfProgFile prog) \<Rightarrow> Some prog | _ \<Rightarrow> None)"

section \<open>The system call\<close>

abbreviation fails :: "syscall_error \<Rightarrow> 'u bpf_sys \<Rightarrow> (int \<times> 'u bpf_sys) option" where
  "fails e s \<equiv> Some (err e, s)"

definition map_kind_of :: "u32 \<Rightarrow> bpf_map_kind option" where
  "map_kind_of t =
     (if t = BPF_MAP_TYPE_HASH then Some Hash else if t = BPF_MAP_TYPE_ARRAY then Some Array
      else if t = BPF_MAP_TYPE_RINGBUF then Some RingBuf else None)"

definition syscall_bpf_map_create :: "'u user_ops \<Rightarrow> usize \<Rightarrow> usize \<Rightarrow> 'u bpf_sys \<Rightarrow> (int \<times> 'u bpf_sys) option" where
  "syscall_bpf_map_create um attr sz s =
     (if unat sz < size_of_map_create_attr then fails EINVAL s
      else case copy_user_struct um (sys_user s) attr size_of_map_create_attr of
        Inl e \<Rightarrow> fails e s
      | Inr bs \<Rightarrow>
          let a = map_create_attr_of bs in
          (case map_kind_of (map_type a) of
             None \<Rightarrow> fails ENOSYS s
           | Some kind \<Rightarrow>
               (case bpf_map_new kind (attr_key_size a) (attr_value_size a) (attr_max_entries a) of
                  Inl e \<Rightarrow> fails e s
                | Inr m \<Rightarrow> bpf_alloc_fd (BpfMapFile m) s)))"

definition fd_map :: "'u bpf_sys \<Rightarrow> u32 \<Rightarrow> (file_ref \<times> bpf_map) option" where
  "fd_map s fd =
     Option.bind (get_file (sys_files s) (unat fd))
       (\<lambda>file. case sys_heap s file of Some (BpfMapFile m) \<Rightarrow> Some (file, m) | _ \<Rightarrow> None)"

definition syscall_bpf_map_lookup_elem :: "'u user_ops \<Rightarrow> usize \<Rightarrow> usize \<Rightarrow> 'u bpf_sys \<Rightarrow> (int \<times> 'u bpf_sys) option" where
  "syscall_bpf_map_lookup_elem um attr sz s =
     (if unat sz < size_of_map_elem_attr then fails EINVAL s
      else case copy_user_struct um (sys_user s) attr size_of_map_elem_attr of
        Inl e \<Rightarrow> fails e s
      | Inr bs \<Rightarrow>
          let a = map_elem_attr_of bs in
          (case fd_map s (map_fd a) of
             None \<Rightarrow> fails EBADF s
           | Some (file, m) \<Rightarrow>
               (case copy_from um (sys_user s) (elem_key a) (unat (key_size m)) of
                  None \<Rightarrow> fails EFAULT s
                | Some key \<Rightarrow>
                    (case map_lookup m key of
                       Inl e \<Rightarrow> fails e s
                     | Inr None \<Rightarrow> fails ENOENT s
                     | Inr (Some val) \<Rightarrow>
                         let (ok, u') = copy_to um (sys_user s) (elem_value a) val
                         in Some (if ok then 0 else err EFAULT, s\<lparr>sys_user := u'\<rparr>)))))"

definition syscall_bpf_map_update_elem :: "'u user_ops \<Rightarrow> usize \<Rightarrow> usize \<Rightarrow> 'u bpf_sys \<Rightarrow> (int \<times> 'u bpf_sys) option" where
  "syscall_bpf_map_update_elem um attr sz s =
     (if unat sz < size_of_map_elem_attr then fails EINVAL s
      else case copy_user_struct um (sys_user s) attr size_of_map_elem_attr of
        Inl e \<Rightarrow> fails e s
      | Inr bs \<Rightarrow>
          let a = map_elem_attr_of bs in
          (case fd_map s (map_fd a) of
             None \<Rightarrow> fails EBADF s
           | Some (file, m) \<Rightarrow>
               (case copy_from um (sys_user s) (elem_key a) (unat (key_size m)) of
                  None \<Rightarrow> fails EFAULT s
                | Some key \<Rightarrow>
                    (case copy_from um (sys_user s) (elem_value a) (unat (value_size m)) of
                       None \<Rightarrow> fails EFAULT s
                     | Some val \<Rightarrow>
                         (case map_update key val (elem_flags a) m of
                            Inl e \<Rightarrow> fails e s
                          | Inr m' \<Rightarrow> Some (0, s\<lparr>sys_heap := (sys_heap s)(file \<mapsto> BpfMapFile m')\<rparr>))))))"

definition syscall_bpf_prog_load :: "'u user_ops \<Rightarrow> usize \<Rightarrow> usize \<Rightarrow> 'u bpf_sys \<Rightarrow> (int \<times> 'u bpf_sys) option" where
  "syscall_bpf_prog_load um attr_ptr sz s =
     (if unat sz < size_of_prog_load_attr then fails EINVAL s
      else case copy_user_struct um (sys_user s) attr_ptr size_of_prog_load_attr of
        Inl e \<Rightarrow> fails e s
      | Inr bs \<Rightarrow>
          let a = prog_load_attr_of bs in
          if prog_type a \<noteq> BPF_PROG_TYPE_SOCKET_FILTER \<or> insn_cnt a = 0 then
            fails EINVAL (write_verifier_log um a ''unsupported program type\<newline>'' s)
          else if insn_cnt a > BPF_MAXINSNS then fails E2BIG (write_verifier_log um a ''program too large\<newline>'' s)
          else case copy_user_insns um (sys_user s) (insns_ptr a) (unat (insn_cnt a)) of
            Inl e \<Rightarrow> fails e s
          | Inr is \<Rightarrow>
              (case verify_program is of
                 Inr _ \<Rightarrow>
                   (case collect_prog_map_refs (sys_files s) (sys_heap s) is 0 [] of
                      Inl e \<Rightarrow> fails e s
                    | Inr refs \<Rightarrow> bpf_alloc_fd (BpfProgFile \<lparr>insns = is, maps = refs\<rparr>) s)
               | Inl msg \<Rightarrow> fails EACCES (write_verifier_log um a msg s)))"

definition syscall_bpf :: "'u user_ops \<Rightarrow> usize \<Rightarrow> usize \<Rightarrow> usize \<Rightarrow> 'u bpf_sys \<Rightarrow> (int \<times> 'u bpf_sys) option" where
  "syscall_bpf um cmd attr sz s =
     (if cmd = BPF_MAP_CREATE then syscall_bpf_map_create um attr sz s
      else if cmd = BPF_MAP_LOOKUP_ELEM then syscall_bpf_map_lookup_elem um attr sz s
      else if cmd = BPF_MAP_UPDATE_ELEM then syscall_bpf_map_update_elem um attr sz s
      else if cmd = BPF_PROG_LOAD then syscall_bpf_prog_load um attr sz s
      else fails ENOSYS s)"

section \<open>The invariant of the subsystem\<close>

definition prog_ok :: "file_heap \<Rightarrow> bpf_prog \<Rightarrow> bool" where
  "prog_ok h prog \<longleftrightarrow> verify_program (insns prog) = Inr () \<and> (\<forall>f\<in>prog_files prog. is_map_file h f)"

definition sys_ok :: "'u bpf_sys \<Rightarrow> bool" where
  "sys_ok s \<longleftrightarrow> files_inv (sys_files s) \<and> heap_ok (sys_heap s) \<and>
     (\<forall>fd f. get_file (sys_files s) fd = Some f \<longrightarrow> sys_heap s f \<noteq> None) \<and>
     (\<forall>f. sys_next s \<le> f \<longrightarrow> sys_heap s f = None) \<and>
     (\<forall>f prog. sys_heap s f = Some (BpfProgFile prog) \<longrightarrow> prog_ok (sys_heap s) prog)"

text \<open>Whatever changes the heap keeps map files map files, so the references of programs stay valid.\<close>

definition maps_stay :: "file_heap \<Rightarrow> file_heap \<Rightarrow> bool" where
  "maps_stay h h' \<longleftrightarrow> (\<forall>f. is_map_file h f \<longrightarrow> is_map_file h' f)"

lemma is_map_file_iff: "is_map_file h f \<longleftrightarrow> (\<exists>m. h f = Some (BpfMapFile m))"
  by (auto simp: is_map_file_def split: option.splits kfile.splits)

lemma prog_ok_stay: "maps_stay h h' \<Longrightarrow> prog_ok h prog \<Longrightarrow> prog_ok h' prog"
  by (simp add: prog_ok_def maps_stay_def)

lemma maps_stay_upd: "maps_stay h (h(f \<mapsto> BpfMapFile m))"
  by (simp add: maps_stay_def is_map_file_iff)

lemma maps_stay_new: "h f = None \<Longrightarrow> maps_stay h (h(f \<mapsto> k))"
  by (auto simp: maps_stay_def is_map_file_iff)

lemma maps_stay_evolves:
  assumes "heap_evolves fs h h'"
  shows "maps_stay h h'"
  unfolding maps_stay_def is_map_file_iff
proof (intro allI impI)
  fix f assume "\<exists>m. h f = Some (BpfMapFile m)"
  with assms show "\<exists>m. h' f = Some (BpfMapFile m)" unfolding heap_evolves_def by metis
qed

lemma sys_ok_map_update:
  assumes ok: "sys_ok s" and f: "sys_heap s f = Some (BpfMapFile m)" and wf: "map_wf m'"
  shows "sys_ok (s\<lparr>sys_heap := (sys_heap s)(f \<mapsto> BpfMapFile m')\<rparr>)"
proof -
  note g = maps_stay_upd [of "sys_heap s" f m']
  show ?thesis using ok f wf prog_ok_stay [OF g]
    by (auto simp: sys_ok_def heap_ok_def)
qed

lemma sys_ok_evolves:
  assumes ok: "sys_ok s" and ev: "heap_evolves fs (sys_heap s) h'"
  shows "sys_ok (s\<lparr>sys_heap := h'\<rparr>)"
proof -
  note g = maps_stay_evolves [OF ev]
  have same: "h' f = sys_heap s f \<or> (\<exists>m m'. sys_heap s f = Some (BpfMapFile m) \<and> h' f = Some (BpfMapFile m'))" for f
    using ev unfolding heap_evolves_def by blast
  have progs: "sys_heap s f = Some (BpfProgFile prog)" if "h' f = Some (BpfProgFile prog)" for f prog
    using same [of f] that by auto
  have pk: "prog_ok h' prog" if "h' f = Some (BpfProgFile prog)" for f prog
    using progs [OF that] ok prog_ok_stay [OF g] unfolding sys_ok_def by blast
  have "h' f \<noteq> None" if "sys_heap s f \<noteq> None" for f using same [of f] that by auto
  moreover have "h' f = None" if "sys_heap s f = None" for f using same [of f] that by auto
  moreover have "heap_ok h'" using ev by (simp add: heap_evolves_def)
  ultimately show ?thesis using ok pk by (auto simp: sys_ok_def)
qed

lemma bpf_alloc_fd_ok:
  assumes ok: "sys_ok s" and m: "\<And>m. k = BpfMapFile m \<Longrightarrow> map_wf m"
    and p: "\<And>prog. k = BpfProgFile prog \<Longrightarrow> prog_ok (sys_heap s) prog"
  shows "\<exists>r s'. bpf_alloc_fd k s = Some (r, s') \<and> sys_ok s'"
proof -
  let ?h = "(sys_heap s)(sys_next s \<mapsto> k)"
  have fresh: "sys_heap s (sys_next s) = None" using ok by (simp add: sys_ok_def)
  note g = maps_stay_new [of "sys_heap s" "sys_next s", OF fresh, of k]
  obtain r fs where r: "install_fd (sys_next s) 0 (sys_limit s) (sys_files s) = Some (r, fs)" "files_inv fs"
    and c: "case r of None \<Rightarrow> \<forall>j. get_file fs j = get_file (sys_files s) j
      | Some fd \<Rightarrow> \<forall>j. get_file fs j = (if j = fd then Some (sys_next s) else get_file (sys_files s) j)"
    using install_fd_correct [of "sys_files s" "sys_next s" 0 "sys_limit s"] ok
    unfolding sys_ok_def by (force split: option.splits)
  have progs: "prog_ok ?h prog" if "?h f = Some (BpfProgFile prog)" for f prog
    using that ok p prog_ok_stay [OF g] by (auto simp: sys_ok_def split: if_splits)
  show ?thesis
  proof (cases r)
    case None
    then show ?thesis using r c ok by (auto simp: bpf_alloc_fd_def sys_ok_def)
  next
    case (Some fd)
    then have "sys_ok (s\<lparr>sys_files := fs, sys_heap := ?h, sys_next := sys_next s + 1\<rparr>)"
      using r(2) c ok m progs fresh by (auto simp: sys_ok_def heap_ok_def simp del: fun_upd_apply) (auto split: if_splits)
    then show ?thesis using Some r(1) by (simp add: bpf_alloc_fd_def)
  qed
qed

lemma ran_btm_Nil: "ran (btm_get []) = {}"
  by (simp add: ran_def)

lemma ran_btm_insert: "ran (btm_get (btm_insert k v m)) \<subseteq> insert v (ran (btm_get m))"
  by (auto simp: ran_def split: if_splits)

lemma collect_refs_maps:
  assumes "collect_prog_map_refs fs h is i refs = Inr refs'" and "\<forall>f\<in>ran (btm_get refs). is_map_file h f"
  shows "\<forall>f\<in>ran (btm_get refs'). is_map_file h f"
  using assms
proof (induction fs h "is" i refs rule: collect_prog_map_refs.induct)
  case (1 fs h "is" i refs)
  let ?insn = "is ! i"
  show ?case
  proof (cases "i < length is")
    case False
    then show ?thesis using "1.prems" by (simp add: collect_prog_map_refs.simps [of fs h "is" i])
  next
    case lt: True
    show ?thesis
    proof (cases "is_ldimm64 ?insn")
      case False
      then show ?thesis using "1.IH"(3) [OF lt refl False] "1.prems" lt
        by (simp add: collect_prog_map_refs.simps [of fs h "is" i] if_not_P [OF False])
    next
      case ld: True
      then have two: "\<not> i + 1 \<ge> length is" using "1.prems"(1) lt
        by (auto simp: collect_prog_map_refs.simps [of fs h "is" i] Let_def split: if_splits)
      show ?thesis
      proof (cases "src_reg ?insn = unat BPF_PSEUDO_MAP_FD")
        case False
        then show ?thesis using "1.IH"(2) [OF lt refl ld two False] "1.prems" lt ld two
          by (simp add: collect_prog_map_refs.simps [of fs h "is" i])
      next
        case src: True
        with "1.prems"(1) lt ld two obtain fl where f: "get_file fs (unat (insn_imm ?insn)) = Some fl"
          "is_map_file h fl" "collect_prog_map_refs fs h is (i + 2) (btm_insert (insn_imm ?insn) fl refs) = Inr refs'"
          by (auto simp: collect_prog_map_refs.simps [of fs h "is" i] Let_def split: option.splits if_splits)
        have m: "\<forall>f\<in>ran (btm_get (btm_insert (insn_imm ?insn) fl refs)). is_map_file h f"
          using "1.prems"(2) f(2) ran_btm_insert [of "insn_imm ?insn" fl refs] by blast
        show ?thesis by (rule "1.IH"(1) [OF lt refl ld two src f(1) _ f(3) m]) (use f(2) in simp)
      qed
    qed
  qed
qed

lemma sys_ok_user [simp]: "sys_ok (s\<lparr>sys_user := u\<rparr>) = sys_ok s"
  by (simp add: sys_ok_def)

lemma sys_ok_log: "sys_ok (write_verifier_log um a msg s) = sys_ok s"
  by (simp add: write_verifier_log_def Let_def split: prod.split)

lemma map_create_ok: "sys_ok s \<Longrightarrow> \<exists>r s'. syscall_bpf_map_create um attr sz s = Some (r, s') \<and> sys_ok s'"
  using bpf_alloc_fd_ok [of s "BpfMapFile m" for m]
  by (auto simp: syscall_bpf_map_create_def Let_def map_wf_new split: sum.split option.split)

lemma map_lookup_ok: "sys_ok s \<Longrightarrow> \<exists>r s'. syscall_bpf_map_lookup_elem um attr sz s = Some (r, s') \<and> sys_ok s'"
  by (auto simp: syscall_bpf_map_lookup_elem_def Let_def split: sum.split option.split prod.split)

lemma fd_map_Some: "fd_map s fd = Some (f, m) \<Longrightarrow> sys_heap s f = Some (BpfMapFile m) \<and> get_file (sys_files s) (unat fd) = Some f"
  by (cases "get_file (sys_files s) (unat fd)") (auto simp: fd_map_def split: option.splits kfile.splits)

lemma sys_ok_map_wf: "sys_ok s \<Longrightarrow> fd_map s fd = Some (f, m) \<Longrightarrow> map_wf m"
  using fd_map_Some [of s fd f m] unfolding sys_ok_def heap_ok_def by blast

lemma map_update_ok:
  assumes "sys_ok s"
  shows "\<exists>r s'. syscall_bpf_map_update_elem um attr sz s = Some (r, s') \<and> sys_ok s'"
proof -
  have "sys_ok (s\<lparr>sys_heap := (sys_heap s)(f \<mapsto> BpfMapFile m')\<rparr>)"
    if "fd_map s fd = Some (f, m)" "map_update key val flags m = Inr m'" for fd f m key val flags m'
    using sys_ok_map_update [of s f m m'] fd_map_Some [OF that(1)]
      map_wf_update [OF sys_ok_map_wf [OF assms that(1)] that(2)] assms by blast
  then show ?thesis using assms
    by (auto simp: syscall_bpf_map_update_elem_def Let_def split: sum.split option.split prod.split)
qed

lemma prog_load_ok:
  assumes "sys_ok s"
  shows "\<exists>r s'. syscall_bpf_prog_load um attr sz s = Some (r, s') \<and> sys_ok s'"
proof -
  have "\<exists>r s'. bpf_alloc_fd (BpfProgFile \<lparr>insns = is, maps = refs\<rparr>) s = Some (r, s') \<and> sys_ok s'"
    if "verify_program is = Inr ()" "collect_prog_map_refs (sys_files s) (sys_heap s) is 0 [] = Inr refs" for "is" refs
    by (rule bpf_alloc_fd_ok [OF assms]) (use that collect_refs_maps [OF that(2)] in \<open>auto simp: prog_ok_def ran_btm_Nil\<close>)
  then show ?thesis using assms
    by (auto simp: syscall_bpf_prog_load_def Let_def sys_ok_log split: sum.split)
qed

lemma syscall_bpf_ok: "sys_ok s \<Longrightarrow> \<exists>r s'. syscall_bpf um cmd attr sz s = Some (r, s') \<and> sys_ok s'"
  by (simp add: syscall_bpf_def map_create_ok map_lookup_ok map_update_ok prog_load_ok)

section \<open>Histories\<close>

text \<open>What happens to the subsystem over time: system calls with any arguments, programs run by sockets
  on packets, descriptors closed, other files opened, and user memory changing.\<close>

inductive bpf_step :: "'u user_ops \<Rightarrow> 'u bpf_sys \<Rightarrow> 'u bpf_sys \<Rightarrow> bool" for um where
  call_step: "syscall_bpf um cmd attr sz s = Some (r, s') \<Longrightarrow> bpf_step um s s'"
| filter_step: "sys_heap s f = Some (BpfProgFile prog) \<Longrightarrow> filter_len prog packet (sys_heap s) = Some (k, h') \<Longrightarrow>
    bpf_step um s (s\<lparr>sys_heap := h'\<rparr>)"
| close_step: "clear_fd fd (sys_files s) = (r, fs) \<Longrightarrow> bpf_step um s (s\<lparr>sys_files := fs\<rparr>)"
| other_step: "bpf_alloc_fd OtherFile s = Some (r, s') \<Longrightarrow> bpf_step um s s'"
| user_step: "bpf_step um s (s\<lparr>sys_user := u\<rparr>)"

definition bpf_boot :: "nat \<Rightarrow> 'u \<Rightarrow> 'u bpf_sys" where
  "bpf_boot limit u = \<lparr>sys_files = files_with_stdio 0 1 2, sys_limit = limit,
     sys_heap = [0 \<mapsto> OtherFile, 1 \<mapsto> OtherFile, 2 \<mapsto> OtherFile], sys_next = 3, sys_user = u\<rparr>"

lemma bpf_boot_ok: "sys_ok (bpf_boot limit u)"
proof -
  have "f = 0 \<or> f = 1 \<or> f = 2" if "get_file (files_with_stdio 0 1 2) fd = Some f" for fd f
    using that by (auto simp: get_file_def files_with_stdio_def nth_Cons' split: if_splits)
  then show ?thesis using stdio_inv [of 0 1 2] by (auto simp: sys_ok_def bpf_boot_def heap_ok_def split: if_splits)
qed

lemma filter_evolves:
  assumes ok: "sys_ok s" and f: "sys_heap s f = Some (BpfProgFile prog)"
  shows "\<exists>k h'. filter_len prog packet (sys_heap s) = Some (Ok k, h') \<and> heap_evolves (prog_files prog) (sys_heap s) h' \<and>
    (\<forall>n. k = Some n \<longrightarrow> n \<le> length packet \<and> (packet \<noteq> [] \<longrightarrow> 0 < n))"
proof -
  have "verify_program (insns prog) = Inr ()" "heap_ok (sys_heap s)"
    using ok f unfolding sys_ok_def prog_ok_def by blast+
  from filter_len_returns [OF this] show ?thesis by blast
qed

lemma bpf_step_ok:
  assumes "bpf_step um s s'" and ok: "sys_ok s"
  shows "sys_ok s'"
  using assms(1)
proof cases
  case (call_step cmd attr sz r)
  then show ?thesis using syscall_bpf_ok [OF ok, of um cmd attr sz] by auto
next
  case (filter_step f prog packet k h')
  with filter_evolves [OF ok filter_step(2), of packet] have "heap_evolves (prog_files prog) (sys_heap s) h'" by auto
  then show ?thesis unfolding filter_step(1) by (rule sys_ok_evolves [OF ok])
next
  case (close_step fd r fs)
  have "files_inv (sys_files s)" using ok by (simp add: sys_ok_def)
  from clear_fd_correct [OF this, of fd] close_step(2) have "files_inv fs"
    "\<forall>j. get_file fs j = (if j = fd then None else get_file (sys_files s) j)" by auto
  then show ?thesis using ok by (auto simp: close_step(1) sys_ok_def)
next
  case (other_step r)
  then show ?thesis using bpf_alloc_fd_ok [OF ok, of OtherFile] by auto
next
  case (user_step u)
  then show ?thesis using ok by simp
qed

lemma bpf_reach_ok: "(bpf_step um)\<^sup>*\<^sup>* s s' \<Longrightarrow> sys_ok s \<Longrightarrow> sys_ok s'"
  by (induction rule: rtranclp_induct) (auto intro: bpf_step_ok)

lemma get_prog_clone_Some: "get_prog_clone s fd = Some prog \<Longrightarrow> \<exists>f. sys_heap s f = Some (BpfProgFile prog)"
  by (cases "get_file (sys_files s) fd") (auto simp: get_prog_clone_def split: option.splits kfile.splits)

section \<open>Properties\<close>

text \<open>C10: Whatever user space does with the \<open>bpf\<close> system call, no unsafe program gets into the kernel.
  After any history of calls, filter runs, closes and changes of user memory, the next call does not
  panic, and every program a descriptor names was accepted by the verifier, refers to maps only, and
  decides every packet within the packet's length without a panic.\<close>

theorem bpf_loaded_programs_safe:
  assumes "(bpf_step um)\<^sup>*\<^sup>* (bpf_boot limit u) s"
  shows "syscall_bpf um cmd attr sz s \<noteq> None \<and>
    (\<forall>fd prog. get_prog_clone s fd = Some prog \<longrightarrow>
       verify_program (insns prog) = Inr () \<and> (\<forall>f\<in>prog_files prog. is_map_file (sys_heap s) f) \<and>
       (\<exists>k h'. filter_len prog packet (sys_heap s) = Some (Ok k, h') \<and> (\<forall>n. k = Some n \<longrightarrow> n \<le> length packet)))"
proof -
  have ok: "sys_ok s" using bpf_reach_ok [OF assms bpf_boot_ok] .
  have "verify_program (insns prog) = Inr () \<and> (\<forall>f\<in>prog_files prog. is_map_file (sys_heap s) f) \<and>
      (\<exists>k h'. filter_len prog packet (sys_heap s) = Some (Ok k, h') \<and> (\<forall>n. k = Some n \<longrightarrow> n \<le> length packet))"
    if g: "get_prog_clone s fd = Some prog" for fd prog
  proof -
    obtain f where f: "sys_heap s f = Some (BpfProgFile prog)" using get_prog_clone_Some [OF g] by blast
    then have "prog_ok (sys_heap s) prog" using ok unfolding sys_ok_def by blast
    with filter_evolves [OF ok f, of packet] show ?thesis unfolding prog_ok_def by blast
  qed
  with syscall_bpf_ok [OF ok, of um cmd attr sz] show ?thesis by auto
qed

definition flat_memory :: "u8 list user_ops" where
  "flat_memory = \<lparr>
     copy_from = (\<lambda>u p n. if unat p + n \<le> length u then Some (slice u (unat p) (unat p + n)) else None),
     copy_to = (\<lambda>u p bs. if unat p + length bs \<le> length u then (True, copy_at u (unat p) bs) else (False, u))\<rparr>"

definition demo_attr :: "u8 list" where
  "demo_attr = [1, 0, 0, 0, 2, 0, 0, 0, 72, 0, 0, 0, 0, 0, 0, 0] @ replicate 56 0"

definition demo_text :: "u8 list" where
  "demo_text = [0xb7, 0, 0, 0, 5, 0, 0, 0, 0x95, 0, 0, 0, 0, 0, 0, 0]"

lemma le_nat_zeros: "le_nat (replicate n 0) = 0"
  by (induction n) simp_all

lemma demo_memory:
  "copy_from flat_memory (demo_attr @ demo_text) 0 72 = Some demo_attr"
  "copy_from flat_memory (demo_attr @ demo_text) 72 16 = Some demo_text" "length demo_text = 16"
  "prog_load_attr_of demo_attr = \<lparr>prog_type = 1, insn_cnt = 2, insns_ptr = 72, log_size = 0, log_buf = 0\<rparr>"
  by (simp_all add: flat_memory_def demo_attr_def demo_text_def slice_def prog_load_attr_of_def from_le_bytes_def le_nat_zeros)

lemma demo_insns: "copy_user_insns flat_memory (demo_attr @ demo_text) 72 2 = Inr (insns demo_prog)"
proof -
  have "insn_chunks 2 demo_text = insns demo_prog" by code_simp
  then show ?thesis by (simp add: copy_user_insns_def demo_memory)
qed

lemma demo_load:
  "\<exists>s. syscall_bpf flat_memory BPF_PROG_LOAD 0 72 (bpf_boot 16 (demo_attr @ demo_text)) = Some (3, s) \<and>
     get_prog_clone s 3 = Some demo_prog"
proof -
  have "map_option fst (install_fd 3 0 16 (files_with_stdio 0 1 2)) = Some (Some 3)" by code_simp
  then obtain fs where i: "install_fd 3 0 16 (files_with_stdio 0 1 2) = Some (Some 3, fs)" by auto
  then have g: "get_file fs 3 = Some 3" using install_fd_correct [OF stdio_inv, of 3 0 16 0 1 2] by auto
  have c: "collect_prog_map_refs t h (insns demo_prog) 0 [] = Inr []" for t h
    by (simp add: collect_prog_map_refs.simps demo_prog_def bpf_consts)
  have p: "\<lparr>insns = insns demo_prog, maps = []\<rparr> = demo_prog" by (simp add: demo_prog_def)
  show ?thesis
    by (simp add: syscall_bpf_def BPF_MAP_CREATE_def BPF_MAP_LOOKUP_ELEM_def BPF_MAP_UPDATE_ELEM_def BPF_PROG_LOAD_def
        syscall_bpf_prog_load_def size_of_prog_load_attr_def copy_user_struct_def bpf_boot_def demo_memory demo_insns
        BPF_PROG_TYPE_SOCKET_FILTER_def BPF_MAXINSNS_def demo_verified c bpf_alloc_fd_def i get_prog_clone_def g p del: One_nat_def)
qed

theorem bpf_loaded_programs_safe_witness:
  "\<exists>s. syscall_bpf flat_memory BPF_PROG_LOAD 0 72 (bpf_boot 16 (demo_attr @ demo_text)) = Some (3, s) \<and>
     get_prog_clone s 3 = Some demo_prog \<and> (\<exists>k h'. filter_len demo_prog [1, 2, 3] (sys_heap s) = Some (Ok k, h'))"
proof -
  obtain s where s: "syscall_bpf flat_memory BPF_PROG_LOAD 0 72 (bpf_boot 16 (demo_attr @ demo_text)) = Some (3, s)"
    "get_prog_clone s 3 = Some demo_prog" using demo_load by blast
  have r: "(bpf_step flat_memory)\<^sup>*\<^sup>* (bpf_boot 16 (demo_attr @ demo_text)) s"
    using bpf_step.call_step [OF s(1)] by (rule r_into_rtranclp)
  show ?thesis using bpf_loaded_programs_safe [OF r, of _ _ _ "[1, 2, 3]"] s by blast
qed

text \<open>C35: Elements written through the system call are read back through it. When an update with a key
  and a value read from user memory returns zero, a later lookup of the same key through the same
  descriptor, whatever else user memory holds then, copies exactly that value to the buffer it is
  given, and returns zero unless that copy faults.\<close>

theorem bpf_elem_roundtrip:
  assumes ok: "sys_ok s" and up: "syscall_bpf um BPF_MAP_UPDATE_ELEM attr sz s = Some (0, s1)"
    and bs: "copy_from um (sys_user s) attr size_of_map_elem_attr = Some bs"
    and m: "fd_map s (map_fd (map_elem_attr_of bs)) = Some (f, m)"
    and key: "copy_from um (sys_user s) (elem_key (map_elem_attr_of bs)) (unat (key_size m)) = Some key"
    and val: "copy_from um (sys_user s) (elem_value (map_elem_attr_of bs)) (unat (value_size m)) = Some val"
    and bs': "copy_from um u attr' size_of_map_elem_attr = Some bs'" "size_of_map_elem_attr \<le> unat sz'"
    and same: "map_fd (map_elem_attr_of bs') = map_fd (map_elem_attr_of bs)"
      "copy_from um u (elem_key (map_elem_attr_of bs')) (unat (key_size m)) = Some key"
  shows "syscall_bpf um BPF_MAP_LOOKUP_ELEM attr' sz' (s1\<lparr>sys_user := u\<rparr>) =
    (let (done, u') = copy_to um u (elem_value (map_elem_attr_of bs')) val
     in Some (if done then 0 else err EFAULT, s1\<lparr>sys_user := u'\<rparr>))"
proof -
  note w = map_wf_update [OF sys_ok_map_wf [OF ok m]] and g = map_update_get [OF sys_ok_map_wf [OF ok m]]
  have ne: "err e \<noteq> 0" for e using err_negative [of e] by simp
  note cmds = BPF_MAP_CREATE_def BPF_MAP_LOOKUP_ELEM_def BPF_MAP_UPDATE_ELEM_def BPF_PROG_LOAD_def
  from up obtain m' where mu: "map_update key val (elem_flags (map_elem_attr_of bs)) m = Inr m'"
    and s1: "s1 = s\<lparr>sys_heap := (sys_heap s)(f \<mapsto> BpfMapFile m')\<rparr>"
    using ne by (auto simp: syscall_bpf_def cmds syscall_bpf_map_update_elem_def copy_user_struct_def bs m key val Let_def
        split: if_splits sum.splits)
  have "fd_map (s1\<lparr>sys_user := u\<rparr>) (map_fd (map_elem_attr_of bs)) = Some (f, m')"
    using fd_map_Some [OF m] by (simp add: fd_map_def s1)
  moreover have "map_lookup m' key = Inr (Some val)" using g [OF mu, of key] by (simp add: map_get_lookup)
  moreover have "copy_from um u (elem_key (map_elem_attr_of bs')) (unat (key_size m')) = Some key"
    using same(2) w [OF mu] by simp
  ultimately show ?thesis using bs'
    by (simp add: syscall_bpf_def cmds syscall_bpf_map_lookup_elem_def copy_user_struct_def same Let_def split: prod.split)
qed

definition demo_sys :: "u8 list bpf_sys" where
  "demo_sys = \<lparr>sys_files = files_with_stdio 0 1 2, sys_limit = 16,
     sys_heap = [0 \<mapsto> BpfMapFile demo_map, 1 \<mapsto> OtherFile, 2 \<mapsto> OtherFile], sys_next = 3,
     sys_user = [0, 0, 0, 0, 0, 0, 0, 0, 32, 0, 0, 0, 0, 0, 0, 0, 36, 0, 0, 0, 0, 0, 0, 0, 0, 0, 0, 0, 0, 0, 0, 0] @
       [1, 0, 0, 0, 1, 2, 3, 4]\<rparr>"

theorem bpf_elem_roundtrip_witness:
  "\<exists>s1 s2. syscall_bpf flat_memory BPF_MAP_UPDATE_ELEM 0 32 demo_sys = Some (0, s1) \<and>
     syscall_bpf flat_memory BPF_MAP_LOOKUP_ELEM 0 32 (s1\<lparr>sys_user := take 36 (sys_user demo_sys) @ [0, 0, 0, 0]\<rparr>) = Some (0, s2) \<and>
     sys_user s2 = sys_user demo_sys"
proof -
  let ?u = "sys_user demo_sys" and ?attr = "take 32 (sys_user demo_sys)"
  let ?u' = "take 36 ?u @ [0, 0, 0, 0]"
  let ?m1 = "demo_map\<lparr>storage := Array_storage [[0, 0, 0, 0], [1, 2, 3, 4]]\<rparr>"
  have wf: "map_wf demo_map" by (simp add: map_wf_def demo_map_def)
  have "f = 0 \<or> f = 1 \<or> f = 2" if "get_file (files_with_stdio 0 1 2) fd = Some f" for fd f
    using that by (auto simp: get_file_def files_with_stdio_def nth_Cons' split: if_splits)
  then have ok: "sys_ok demo_sys" using stdio_inv [of 0 1 2] wf
    by (auto simp: sys_ok_def demo_sys_def heap_ok_def split: if_splits)
  have a: "map_elem_attr_of ?attr = \<lparr>map_fd = 0, elem_key = 32, elem_value = 36, elem_flags = 0\<rparr>"
    by (simp add: map_elem_attr_of_def demo_sys_def slice_def from_le_bytes_def)
  have m: "fd_map demo_sys 0 = Some (0, demo_map)"
    by (simp add: fd_map_def demo_sys_def get_file_def files_with_stdio_def)
  have i: "array_index [1, 0, 0, 0] = Inr 1" by (simp add: array_index_def from_le_bytes_def)
  have mu: "map_update [1, 0, 0, 0] [1, 2, 3, 4] 0 demo_map = Inr ?m1"
    by (simp add: map_update_def demo_map_def validate_key_def i BPF_ANY_def BPF_NOEXIST_def)
  have c: "copy_from flat_memory ?u 0 32 = Some ?attr" "copy_from flat_memory ?u 32 4 = Some [1, 0, 0, 0]"
    "copy_from flat_memory ?u 36 4 = Some [1, 2, 3, 4]" "copy_from flat_memory ?u' 0 32 = Some ?attr"
    "copy_from flat_memory ?u' 32 4 = Some [1, 0, 0, 0]" "copy_to flat_memory ?u' 36 [1, 2, 3, 4] = (True, ?u)"
    by (simp_all add: flat_memory_def demo_sys_def slice_def copy_at_def)
  have sz: "unat (key_size demo_map) = 4" "unat (value_size demo_map) = 4" by (simp_all add: demo_map_def)
  have up: "syscall_bpf flat_memory BPF_MAP_UPDATE_ELEM 0 32 demo_sys =
      Some (0, demo_sys\<lparr>sys_heap := (sys_heap demo_sys)(0 \<mapsto> BpfMapFile ?m1)\<rparr>)"
    by (simp add: syscall_bpf_def BPF_MAP_CREATE_def BPF_MAP_LOOKUP_ELEM_def BPF_MAP_UPDATE_ELEM_def
        syscall_bpf_map_update_elem_def size_of_map_elem_attr_def copy_user_struct_def c a m sz mu)
  have "syscall_bpf flat_memory BPF_MAP_LOOKUP_ELEM 0 32
      (demo_sys\<lparr>sys_heap := (sys_heap demo_sys)(0 \<mapsto> BpfMapFile ?m1), sys_user := ?u'\<rparr>) =
    (let (done, u') = copy_to flat_memory ?u' (elem_value (map_elem_attr_of ?attr)) [1, 2, 3, 4]
     in Some (if done then 0 else err EFAULT,
          demo_sys\<lparr>sys_heap := (sys_heap demo_sys)(0 \<mapsto> BpfMapFile ?m1), sys_user := u'\<rparr>))"
    by (rule bpf_elem_roundtrip [OF ok up, of ?attr 0 demo_map "[1, 0, 0, 0]"])
      (simp_all add: c a m sz size_of_map_elem_attr_def)
  then have "syscall_bpf flat_memory BPF_MAP_LOOKUP_ELEM 0 32
      (demo_sys\<lparr>sys_heap := (sys_heap demo_sys)(0 \<mapsto> BpfMapFile ?m1), sys_user := ?u'\<rparr>) =
    Some (0, demo_sys\<lparr>sys_heap := (sys_heap demo_sys)(0 \<mapsto> BpfMapFile ?m1), sys_user := ?u\<rparr>)"
    by (simp add: a c)
  with up show ?thesis by simp
qed

end
