(* ===== verification/Cbpf.thy ===== *)
theory Cbpf
  imports Machines
begin

text \<open>
  Classic BPF socket filters, \<open>src/src/syscall/net/cbpf.rs\<close>: the \<open>sock_filter\<close> format, the checks of
  \<open>SO_ATTACH_FILTER\<close>, the interpreter and the serialisation of \<open>SO_GET_FILTER\<close>. The constants carry
  the prefix \<open>CBPF\<close> because the eBPF machine uses the names of the source for its own.

  \<open>cbpf_ref\<close> is the reference semantics: instructions decoded into a datatype and run by recursion on
  the rest of the program, without program counter or bounds.
\<close>

definition CBPF_MAXINSNS :: nat where "CBPF_MAXINSNS = 4096"
definition CBPF_MEMWORDS :: nat where "CBPF_MEMWORDS = 16"
definition CBPF_SKF_AD_OFF :: u32 where "CBPF_SKF_AD_OFF = 0xfffff000"
definition CBPF_CLASS_MASK :: u16 where "CBPF_CLASS_MASK = 0x07"
definition CBPF_LD :: u16 where "CBPF_LD = 0x00"
definition CBPF_LDX :: u16 where "CBPF_LDX = 0x01"
definition CBPF_ST :: u16 where "CBPF_ST = 0x02"
definition CBPF_STX :: u16 where "CBPF_STX = 0x03"
definition CBPF_ALU :: u16 where "CBPF_ALU = 0x04"
definition CBPF_JMP :: u16 where "CBPF_JMP = 0x05"
definition CBPF_RET :: u16 where "CBPF_RET = 0x06"
definition CBPF_MISC :: u16 where "CBPF_MISC = 0x07"
definition CBPF_SIZE_MASK :: u16 where "CBPF_SIZE_MASK = 0x18"
definition CBPF_W :: u16 where "CBPF_W = 0x00"
definition CBPF_H :: u16 where "CBPF_H = 0x08"
definition CBPF_B :: u16 where "CBPF_B = 0x10"
definition CBPF_MODE_MASK :: u16 where "CBPF_MODE_MASK = 0xe0"
definition CBPF_IMM :: u16 where "CBPF_IMM = 0x00"
definition CBPF_ABS :: u16 where "CBPF_ABS = 0x20"
definition CBPF_IND :: u16 where "CBPF_IND = 0x40"
definition CBPF_MEM :: u16 where "CBPF_MEM = 0x60"
definition CBPF_LEN :: u16 where "CBPF_LEN = 0x80"
definition CBPF_MSH :: u16 where "CBPF_MSH = 0xa0"
definition CBPF_OP_MASK :: u16 where "CBPF_OP_MASK = 0xf0"
definition CBPF_ADD :: u16 where "CBPF_ADD = 0x00"
definition CBPF_SUB :: u16 where "CBPF_SUB = 0x10"
definition CBPF_MUL :: u16 where "CBPF_MUL = 0x20"
definition CBPF_DIV :: u16 where "CBPF_DIV = 0x30"
definition CBPF_OR :: u16 where "CBPF_OR = 0x40"
definition CBPF_AND :: u16 where "CBPF_AND = 0x50"
definition CBPF_LSH :: u16 where "CBPF_LSH = 0x60"
definition CBPF_RSH :: u16 where "CBPF_RSH = 0x70"
definition CBPF_NEG :: u16 where "CBPF_NEG = 0x80"
definition CBPF_MOD :: u16 where "CBPF_MOD = 0x90"
definition CBPF_XOR :: u16 where "CBPF_XOR = 0xa0"
definition CBPF_JA :: u16 where "CBPF_JA = 0x00"
definition CBPF_JEQ :: u16 where "CBPF_JEQ = 0x10"
definition CBPF_JGT :: u16 where "CBPF_JGT = 0x20"
definition CBPF_JGE :: u16 where "CBPF_JGE = 0x30"
definition CBPF_JSET :: u16 where "CBPF_JSET = 0x40"
definition CBPF_SRC_MASK :: u16 where "CBPF_SRC_MASK = 0x08"
definition CBPF_K :: u16 where "CBPF_K = 0x00"
definition CBPF_X :: u16 where "CBPF_X = 0x08"
definition CBPF_A :: u16 where "CBPF_A = 0x10"
definition CBPF_MISCOP_MASK :: u16 where "CBPF_MISCOP_MASK = 0xf8"
definition CBPF_TAX :: u16 where "CBPF_TAX = 0x00"
definition CBPF_TXA :: u16 where "CBPF_TXA = 0x80"

lemmas cbpf_consts = CBPF_CLASS_MASK_def CBPF_LD_def CBPF_LDX_def CBPF_ST_def CBPF_STX_def CBPF_ALU_def CBPF_JMP_def
  CBPF_RET_def CBPF_MISC_def CBPF_SIZE_MASK_def CBPF_W_def CBPF_H_def CBPF_B_def CBPF_MODE_MASK_def CBPF_IMM_def
  CBPF_ABS_def CBPF_IND_def CBPF_MEM_def CBPF_LEN_def CBPF_MSH_def CBPF_OP_MASK_def CBPF_ADD_def CBPF_SUB_def
  CBPF_MUL_def CBPF_DIV_def CBPF_OR_def CBPF_AND_def CBPF_LSH_def CBPF_RSH_def CBPF_NEG_def CBPF_MOD_def CBPF_XOR_def
  CBPF_JA_def CBPF_JEQ_def CBPF_JGT_def CBPF_JGE_def CBPF_JSET_def CBPF_SRC_MASK_def CBPF_K_def CBPF_X_def CBPF_A_def
  CBPF_MISCOP_MASK_def CBPF_TAX_def CBPF_TXA_def

record cbpf_insn =
  c_code :: u16
  c_jt :: u8
  c_jf :: u8
  c_k :: u32

type_synonym cbpf_program = "cbpf_insn list"

section \<open>Parsing and serialising\<close>

definition cbpf_insn_of_bytes :: "u8 list \<Rightarrow> cbpf_insn" where
  "cbpf_insn_of_bytes bs =
     \<lparr>c_code = from_le_bytes (slice bs 0 2), c_jt = bs ! 2, c_jf = bs ! 3, c_k = from_le_bytes (slice bs 4 8)\<rparr>"

primrec cbpf_chunks :: "nat \<Rightarrow> u8 list \<Rightarrow> cbpf_program" where
  "cbpf_chunks 0 raw = []"
| "cbpf_chunks (Suc n) raw = cbpf_insn_of_bytes (take 8 raw) # cbpf_chunks n (drop 8 raw)"

definition to_sock_filter_bytes :: "cbpf_program \<Rightarrow> u8 list" where
  "to_sock_filter_bytes p =
     concat (map (\<lambda>i. to_le_bytes 2 (c_code i) @ [c_jt i] @ [c_jf i] @ to_le_bytes 4 (c_k i)) p)"

definition instruction_count :: "cbpf_program \<Rightarrow> nat" where
  "instruction_count p = length p"

section \<open>Validation\<close>

definition code_allowed :: "u16 \<Rightarrow> bool" where
  "code_allowed code =
     (let class = code AND CBPF_CLASS_MASK; mode = code AND CBPF_MODE_MASK; sz = code AND CBPF_SIZE_MASK;
          op = code AND CBPF_OP_MASK; src = code AND CBPF_SRC_MASK
      in if class = CBPF_LD then
           (mode, sz) \<in> {(CBPF_IMM, CBPF_W), (CBPF_MEM, CBPF_W), (CBPF_LEN, CBPF_W),
             (CBPF_ABS, CBPF_W), (CBPF_ABS, CBPF_H), (CBPF_ABS, CBPF_B),
             (CBPF_IND, CBPF_W), (CBPF_IND, CBPF_H), (CBPF_IND, CBPF_B)}
         else if class = CBPF_LDX then
           (mode, sz) \<in> {(CBPF_IMM, CBPF_W), (CBPF_MEM, CBPF_W), (CBPF_LEN, CBPF_W), (CBPF_MSH, CBPF_B)}
         else if class = CBPF_ST \<or> class = CBPF_STX then code = CBPF_ST \<or> code = CBPF_STX
         else if class = CBPF_ALU then
           (if op = CBPF_NEG then code = CBPF_ALU OR CBPF_NEG
            else op \<in> {CBPF_ADD, CBPF_SUB, CBPF_MUL, CBPF_DIV, CBPF_OR, CBPF_AND, CBPF_LSH, CBPF_RSH, CBPF_MOD, CBPF_XOR} \<and>
              src \<in> {CBPF_K, CBPF_X})
         else if class = CBPF_JMP then
           (if op = CBPF_JA then code = CBPF_JMP OR CBPF_JA
            else op \<in> {CBPF_JEQ, CBPF_JGT, CBPF_JGE, CBPF_JSET} \<and> src \<in> {CBPF_K, CBPF_X})
         else if class = CBPF_RET then code AND 0x18 \<in> {CBPF_K, CBPF_A}
         else if class = CBPF_MISC then code AND CBPF_MISCOP_MASK \<in> {CBPF_TAX, CBPF_TXA}
         else False)"

text \<open>The check of one instruction at position \<open>i\<close> of a program of length \<open>n\<close>.\<close>

definition insn_valid :: "nat \<Rightarrow> nat \<Rightarrow> cbpf_insn \<Rightarrow> bool" where
  "insn_valid n i insn =
     (let code = c_code insn in
      code_allowed code \<and>
      (if code = CBPF_ALU OR CBPF_DIV OR CBPF_K \<or> code = CBPF_ALU OR CBPF_MOD OR CBPF_K then c_k insn \<noteq> 0
       else if code = CBPF_ALU OR CBPF_LSH OR CBPF_K \<or> code = CBPF_ALU OR CBPF_RSH OR CBPF_K then c_k insn < 32
       else if code = CBPF_LD OR CBPF_MEM \<or> code = CBPF_LDX OR CBPF_MEM \<or> code = CBPF_ST \<or> code = CBPF_STX
       then unat (c_k insn) < CBPF_MEMWORDS
       else if code AND CBPF_CLASS_MASK = CBPF_LD \<and> code AND CBPF_MODE_MASK = CBPF_ABS \<and> c_k insn \<ge> CBPF_SKF_AD_OFF
       then False
       else if code = CBPF_JMP OR CBPF_JA then unat (c_k insn) < n - i - 1
       else if code AND CBPF_CLASS_MASK = CBPF_JMP \<and> code AND CBPF_OP_MASK \<noteq> CBPF_JA
       then \<not> (i + unat (c_jt insn) + 1 \<ge> n \<or> i + unat (c_jf insn) + 1 \<ge> n)
       else True))"

definition validate :: "cbpf_program \<Rightarrow> syscall_error + unit" where
  "validate p =
     (if p = [] \<or> length p > CBPF_MAXINSNS then Inl EINVAL
      else if \<not> list_all (\<lambda>i. insn_valid (length p) i (p ! i)) [0..<length p] then Inl EINVAL
      else if c_code (last p) = CBPF_RET OR CBPF_K \<or> c_code (last p) = CBPF_RET OR CBPF_A then Inr ()
      else Inl EINVAL)"

text \<open>\<open>SO_ATTACH_FILTER\<close>: \<open>copy_from\<close> stands for \<open>try_copy_from_user\<close>. Pointers have eight bytes.\<close>

definition from_sock_fprog_user ::
  "(usize \<Rightarrow> nat \<Rightarrow> u8 list option) \<Rightarrow> usize \<Rightarrow> usize \<Rightarrow> syscall_error + cbpf_program" where
  "from_sock_fprog_user copy_in optval optlen =
     (if optlen \<noteq> 16 then Inl EINVAL
      else if optval = 0 then Inl EFAULT
      else rbind (ok_or EFAULT (copy_in optval 16)) (\<lambda>fprog.
        let len = unat (from_le_bytes (slice fprog 0 2) :: u16) in
        if len = 0 \<or> len > CBPF_MAXINSNS then Inl EINVAL
        else let filter_ptr = from_le_bytes (slice fprog 8 16) in
          if filter_ptr = 0 then Inl EINVAL
          else rbind (ok_or EFAULT (copy_in filter_ptr (len * 8))) (\<lambda>raw.
            let p = cbpf_chunks (length raw div 8) raw in
            rbind (validate p) (\<lambda>_. Inr p))))"

section \<open>The interpreter\<close>

definition load_packet :: "u8 list \<Rightarrow> nat \<Rightarrow> u16 \<Rightarrow> u32 option" where
  "load_packet packet offset sz =
     (if sz = CBPF_W then
        (if offset + 4 < 2 ^ 64 \<and> offset + 4 \<le> length packet
         then Some (from_be_bytes (slice packet offset (offset + 4))) else None)
      else if sz = CBPF_H then
        (if offset + 2 < 2 ^ 64 \<and> offset + 2 \<le> length packet
         then Some (from_be_bytes (slice packet offset (offset + 2))) else None)
      else if sz = CBPF_B then
        (if offset < length packet then Some (ucast (packet ! offset)) else None)
      else None)"

definition cbpf_load_value :: "u8 list \<Rightarrow> cbpf_insn \<Rightarrow> u32 \<Rightarrow> u32 list \<Rightarrow> u32 option" where
  "cbpf_load_value packet insn x mem =
     (let mode = c_code insn AND CBPF_MODE_MASK; sz = c_code insn AND CBPF_SIZE_MASK in
      if mode = CBPF_IMM then Some (c_k insn)
      else if mode = CBPF_MEM then
        (if unat (c_k insn) < length mem then Some (mem ! unat (c_k insn)) else None)
      else if mode = CBPF_LEN then Some (of_nat (length packet))
      else if mode = CBPF_ABS then load_packet packet (unat (c_k insn)) sz
      else if mode = CBPF_IND then
        (if unat x + unat (c_k insn) < 2 ^ 64 then load_packet packet (unat x + unat (c_k insn)) sz else None)
      else if mode = CBPF_MSH then
        (if unat (c_k insn) < length packet
         then Some (push_bit 2 (ucast (packet ! unat (c_k insn) AND 0x0f))) else None)
      else None)"

definition cbpf_alu :: "u16 \<Rightarrow> u32 \<Rightarrow> u32 \<Rightarrow> u32 option" where
  "cbpf_alu op a rhs =
     (if op = CBPF_ADD then Some (a + rhs)
      else if op = CBPF_SUB then Some (a - rhs)
      else if op = CBPF_MUL then Some (a * rhs)
      else if op = CBPF_DIV then (if rhs = 0 then None else Some (a div rhs))
      else if op = CBPF_OR then Some (a OR rhs)
      else if op = CBPF_AND then Some (a AND rhs)
      else if op = CBPF_LSH then Some (push_bit (unat (rhs AND 31)) a)
      else if op = CBPF_RSH then Some (drop_bit (unat (rhs AND 31)) a)
      else if op = CBPF_NEG then Some (- a)
      else if op = CBPF_MOD then (if rhs = 0 then None else Some (a mod rhs))
      else if op = CBPF_XOR then Some (a XOR rhs)
      else None)"

definition cbpf_cond :: "u16 \<Rightarrow> u32 \<Rightarrow> u32 \<Rightarrow> bool option" where
  "cbpf_cond op a rhs =
     (if op = CBPF_JEQ then Some (a = rhs)
      else if op = CBPF_JGT then Some (a > rhs)
      else if op = CBPF_JGE then Some (a \<ge> rhs)
      else if op = CBPF_JSET then Some (a AND rhs \<noteq> 0)
      else None)"

record cvm =
  c_a :: u32
  c_x :: u32
  c_mem :: "u32 list"
  c_pc :: nat

text \<open>\<open>pc.checked_add(n)?\<close>\<close>

definition cbpf_jump :: "nat \<Rightarrow> cvm \<Rightarrow> cvm + u32 option outcome" where
  "cbpf_jump n s = (if c_pc s + n < 2 ^ 64 then Inl (s\<lparr>c_pc := c_pc s + n\<rparr>) else Inr (Ok None))"

abbreviation gives_up :: "cvm + u32 option outcome" where
  "gives_up \<equiv> Inr (Ok None)"

text \<open>One turn of the loop: the next state, or the value \<open>execute\<close> returns.\<close>

definition cbpf_step :: "cbpf_program \<times> u8 list \<Rightarrow> cvm \<Rightarrow> cvm + u32 option outcome" where
  "cbpf_step p s =
     (if c_pc s < length (fst p) then
        (let insn = fst p ! c_pc s; code = c_code insn; class = code AND CBPF_CLASS_MASK; op = code AND CBPF_OP_MASK;
             rhs = (if code AND CBPF_SRC_MASK = CBPF_X then c_x s else c_k insn)
         in if class = CBPF_LD then
              (case cbpf_load_value (snd p) insn (c_x s) (c_mem s) of
                 None \<Rightarrow> gives_up | Some v \<Rightarrow> Inl (s\<lparr>c_a := v, c_pc := c_pc s + 1\<rparr>))
            else if class = CBPF_LDX then
              (case cbpf_load_value (snd p) insn (c_x s) (c_mem s) of
                 None \<Rightarrow> gives_up | Some v \<Rightarrow> Inl (s\<lparr>c_x := v, c_pc := c_pc s + 1\<rparr>))
            else if class = CBPF_ST then
              (case index_set (c_mem s) (unat (c_k insn)) (c_a s) of
                 Ok mem \<Rightarrow> Inl (s\<lparr>c_mem := mem, c_pc := c_pc s + 1\<rparr>) | _ \<Rightarrow> Inr Panic)
            else if class = CBPF_STX then
              (case index_set (c_mem s) (unat (c_k insn)) (c_x s) of
                 Ok mem \<Rightarrow> Inl (s\<lparr>c_mem := mem, c_pc := c_pc s + 1\<rparr>) | _ \<Rightarrow> Inr Panic)
            else if class = CBPF_ALU then
              (case cbpf_alu op (c_a s) rhs of None \<Rightarrow> gives_up | Some v \<Rightarrow> Inl (s\<lparr>c_a := v, c_pc := c_pc s + 1\<rparr>))
            else if class = CBPF_JMP then
              (if op = CBPF_JA then cbpf_jump (1 + unat (c_k insn)) s
               else case cbpf_cond op (c_a s) rhs of
                 None \<Rightarrow> gives_up
               | Some taken \<Rightarrow> cbpf_jump (1 + unat (if taken then c_jt insn else c_jf insn)) s)
            else if class = CBPF_RET then
              Inr (Ok (Some (if code AND 0x18 = CBPF_A then c_a s else c_k insn)))
            else if class = CBPF_MISC then
              (if code AND CBPF_MISCOP_MASK = CBPF_TAX then Inl (s\<lparr>c_x := c_a s, c_pc := c_pc s + 1\<rparr>)
               else if code AND CBPF_MISCOP_MASK = CBPF_TXA then Inl (s\<lparr>c_a := c_x s, c_pc := c_pc s + 1\<rparr>)
               else gives_up)
            else gives_up)
      else gives_up)"

partial_function (option) cbpf_loop :: "cbpf_program \<times> u8 list \<Rightarrow> cvm \<Rightarrow> u32 option outcome option" where
  "cbpf_loop p s = (case cbpf_step p s of Inl s' \<Rightarrow> cbpf_loop p s' | Inr r \<Rightarrow> Some r)"

definition cbpf_start :: cvm where
  "cbpf_start = \<lparr>c_a = 0, c_x = 0, c_mem = replicate CBPF_MEMWORDS 0, c_pc = 0\<rparr>"

definition cbpf_execute :: "cbpf_program \<Rightarrow> u8 list \<Rightarrow> u32 option outcome option" where
  "cbpf_execute p packet = cbpf_loop (p, packet) cbpf_start"

definition snap :: "u8 list \<Rightarrow> u32 option \<Rightarrow> nat option" where
  "snap packet r =
     (case r of None \<Rightarrow> None
      | Some snaplen \<Rightarrow> if snaplen = 0 then None else Some (min (unat snaplen) (length packet)))"

definition cbpf_filter_len :: "cbpf_program \<Rightarrow> u8 list \<Rightarrow> nat option outcome option" where
  "cbpf_filter_len p packet =
     map_option (\<lambda>r. obind r (\<lambda>v. Ok (snap packet v))) (cbpf_execute p packet)"

section \<open>Reference semantics\<close>

datatype caddr = A_imm u32 | A_mem nat | A_len | A_abs nat nat | A_ind nat nat | A_msh nat

datatype cop = O_add | O_sub | O_mul | O_div | O_or | O_and | O_lsh | O_rsh | O_neg | O_mod | O_xor

datatype ccond = C_eq | C_gt | C_ge | C_set

datatype csrc = S_k u32 | S_x

datatype cinstr =
    I_ld caddr
  | I_ldx caddr
  | I_st nat
  | I_stx nat
  | I_alu cop csrc
  | I_ja nat
  | I_jmp ccond csrc nat nat
  | I_ret_k u32
  | I_ret_a
  | I_tax
  | I_txa
  | I_bad

definition decode_width :: "u16 \<Rightarrow> nat" where
  "decode_width code =
     (let sz = code AND CBPF_SIZE_MASK in if sz = CBPF_W then 4 else if sz = CBPF_H then 2 else 1)"

definition decode_addr :: "cbpf_insn \<Rightarrow> caddr" where
  "decode_addr insn =
     (let mode = c_code insn AND CBPF_MODE_MASK; k = c_k insn in
      if mode = CBPF_IMM then A_imm k
      else if mode = CBPF_MEM then A_mem (unat k)
      else if mode = CBPF_LEN then A_len
      else if mode = CBPF_ABS then A_abs (unat k) (decode_width (c_code insn))
      else if mode = CBPF_IND then A_ind (unat k) (decode_width (c_code insn))
      else A_msh (unat k))"

definition decode_src :: "cbpf_insn \<Rightarrow> csrc" where
  "decode_src insn = (if c_code insn AND CBPF_SRC_MASK = CBPF_X then S_x else S_k (c_k insn))"

definition decode_op :: "u16 \<Rightarrow> cop option" where
  "decode_op op = map_of [(CBPF_ADD, O_add), (CBPF_SUB, O_sub), (CBPF_MUL, O_mul), (CBPF_DIV, O_div), (CBPF_OR, O_or),
     (CBPF_AND, O_and), (CBPF_LSH, O_lsh), (CBPF_RSH, O_rsh), (CBPF_NEG, O_neg), (CBPF_MOD, O_mod), (CBPF_XOR, O_xor)] op"

definition decode_cond :: "u16 \<Rightarrow> ccond option" where
  "decode_cond op = map_of [(CBPF_JEQ, C_eq), (CBPF_JGT, C_gt), (CBPF_JGE, C_ge), (CBPF_JSET, C_set)] op"

definition decode :: "cbpf_insn \<Rightarrow> cinstr" where
  "decode insn =
     (let code = c_code insn; class = code AND CBPF_CLASS_MASK; op = code AND CBPF_OP_MASK in
      if class = CBPF_LD then I_ld (decode_addr insn)
      else if class = CBPF_LDX then I_ldx (decode_addr insn)
      else if class = CBPF_ST then I_st (unat (c_k insn))
      else if class = CBPF_STX then I_stx (unat (c_k insn))
      else if class = CBPF_ALU then (case decode_op op of None \<Rightarrow> I_bad | Some o' \<Rightarrow> I_alu o' (decode_src insn))
      else if class = CBPF_JMP then
        (if op = CBPF_JA then I_ja (unat (c_k insn))
         else case decode_cond op of None \<Rightarrow> I_bad
           | Some c \<Rightarrow> I_jmp c (decode_src insn) (unat (c_jt insn)) (unat (c_jf insn)))
      else if class = CBPF_RET then (if code AND 0x18 = CBPF_A then I_ret_a else I_ret_k (c_k insn))
      else if code AND CBPF_MISCOP_MASK = CBPF_TAX then I_tax
      else if code AND CBPF_MISCOP_MASK = CBPF_TXA then I_txa
      else I_bad)"

definition read_be :: "u8 list \<Rightarrow> nat \<Rightarrow> nat \<Rightarrow> u32 option" where
  "read_be packet off n = (if off + n \<le> length packet then Some (from_be_bytes (slice packet off (off + n))) else None)"

fun ref_load :: "u8 list \<Rightarrow> u32 \<Rightarrow> (nat \<Rightarrow> u32) \<Rightarrow> caddr \<Rightarrow> u32 option" where
  "ref_load packet x mem (A_imm k) = Some k"
| "ref_load packet x mem (A_mem i) = (if i < CBPF_MEMWORDS then Some (mem i) else None)"
| "ref_load packet x mem A_len = Some (of_nat (length packet))"
| "ref_load packet x mem (A_abs off n) = read_be packet off n"
| "ref_load packet x mem (A_ind off n) = read_be packet (unat x + off) n"
| "ref_load packet x mem (A_msh off) =
     (if off < length packet then Some (4 * (ucast (packet ! off) mod 16)) else None)"

fun ref_alu :: "cop \<Rightarrow> u32 \<Rightarrow> u32 \<Rightarrow> u32 option" where
  "ref_alu O_add a b = Some (a + b)"
| "ref_alu O_sub a b = Some (a - b)"
| "ref_alu O_mul a b = Some (a * b)"
| "ref_alu O_div a b = (if b = 0 then None else Some (a div b))"
| "ref_alu O_or a b = Some (a OR b)"
| "ref_alu O_and a b = Some (a AND b)"
| "ref_alu O_lsh a b = Some (a * 2 ^ (unat b mod 32))"
| "ref_alu O_rsh a b = Some (a div 2 ^ (unat b mod 32))"
| "ref_alu O_neg a b = Some (- a)"
| "ref_alu O_mod a b = (if b = 0 then None else Some (a mod b))"
| "ref_alu O_xor a b = Some (a XOR b)"

fun ref_cond :: "ccond \<Rightarrow> u32 \<Rightarrow> u32 \<Rightarrow> bool" where
  "ref_cond C_eq a b = (a = b)"
| "ref_cond C_gt a b = (b < a)"
| "ref_cond C_ge a b = (b \<le> a)"
| "ref_cond C_set a b = (a AND b \<noteq> 0)"

fun ref_src :: "u32 \<Rightarrow> csrc \<Rightarrow> u32" where
  "ref_src x (S_k k) = k"
| "ref_src x S_x = x"

function cbpf_ref :: "u8 list \<Rightarrow> cinstr list \<Rightarrow> u32 \<Rightarrow> u32 \<Rightarrow> (nat \<Rightarrow> u32) \<Rightarrow> u32 option" where
  "cbpf_ref packet [] a x mem = None"
| "cbpf_ref packet (i # rest) a x mem =
     (case i of
        I_ld m \<Rightarrow> Option.bind (ref_load packet x mem m) (\<lambda>v. cbpf_ref packet rest v x mem)
      | I_ldx m \<Rightarrow> Option.bind (ref_load packet x mem m) (\<lambda>v. cbpf_ref packet rest a v mem)
      | I_st n \<Rightarrow> cbpf_ref packet rest a x (mem(n := a))
      | I_stx n \<Rightarrow> cbpf_ref packet rest a x (mem(n := x))
      | I_alu op s \<Rightarrow> Option.bind (ref_alu op a (ref_src x s)) (\<lambda>v. cbpf_ref packet rest v x mem)
      | I_ja n \<Rightarrow> cbpf_ref packet (drop n rest) a x mem
      | I_jmp c s jt jf \<Rightarrow> cbpf_ref packet (drop (if ref_cond c a (ref_src x s) then jt else jf) rest) a x mem
      | I_ret_k k \<Rightarrow> Some k
      | I_ret_a \<Rightarrow> Some a
      | I_tax \<Rightarrow> cbpf_ref packet rest a a mem
      | I_txa \<Rightarrow> cbpf_ref packet rest x x mem
      | I_bad \<Rightarrow> None)"
  by pat_completeness auto
termination
  by (relation "measure (\<lambda>(packet, is, a, x, mem). length is)") auto

section \<open>Validated programs\<close>

lemma validate_insn:
  assumes "validate p = Inr ()"
  shows "i < length p \<Longrightarrow> insn_valid (length p) i (p ! i)" and "p \<noteq> []" and "length p \<le> CBPF_MAXINSNS"
    and "c_code (last p) AND CBPF_CLASS_MASK = CBPF_RET"
  using assms by (auto simp: validate_def list_all_iff cbpf_consts split: if_splits)

lemma validate_not_last:
  assumes "validate p = Inr ()" and "i < length p" and "c_code (p ! i) AND CBPF_CLASS_MASK \<noteq> CBPF_RET"
  shows "Suc i < length p"
proof (rule ccontr)
  assume "\<not> Suc i < length p"
  then have i: "i = length p - 1" using assms(2) by simp
  have "p ! i = last p" unfolding i by (rule last_conv_nth [symmetric]) (use assms(2) in auto)
  with validate_insn(4) [OF assms(1)] assms(3) show False by simp
qed

lemma unat_and_31: "unat (w AND 31 :: u32) = unat w mod 32"
proof -
  have "w AND 31 = take_bit 5 w" by (simp add: take_bit_eq_mask mask_eq_exp_minus_1)
  moreover have "unat (take_bit 5 w) = unat w mod 2 ^ 5" by (subst unsigned_take_bit_eq) (rule take_bit_eq_mod)
  ultimately show ?thesis by simp
qed

lemma cbpf_alu_ref:
  "cbpf_alu op a b = (case decode_op op of None \<Rightarrow> None | Some o' \<Rightarrow> ref_alu o' a b)"
  by (simp add: cbpf_alu_def decode_op_def cbpf_consts unat_and_31 push_bit_eq_mult drop_bit_eq_div)

lemma cbpf_cond_ref:
  "cbpf_cond op a b = map_option (\<lambda>c. ref_cond c a b) (decode_cond op)"
  by (simp add: cbpf_cond_def decode_cond_def cbpf_consts)

lemma from_be_byte: "(from_be_bytes [b] :: u32) = ucast b"
  by (simp add: from_be_bytes_def)

lemma load_packet_ref:
  assumes "code AND CBPF_SIZE_MASK \<in> {CBPF_W, CBPF_H, CBPF_B}" and "off < 2 ^ 33"
  shows "load_packet packet off (code AND CBPF_SIZE_MASK) = read_be packet off (decode_width code)"
proof -
  have s: "slice packet off (Suc off) = [packet ! off]" if "off < length packet"
    using that by (simp add: slice_def take_Suc_conv_app_nth)
  have o: "off + 4 < 2 ^ 64" "off + 2 < 2 ^ 64" using assms(2) by simp_all
  have d: "CBPF_W \<noteq> CBPF_H" "CBPF_W \<noteq> CBPF_B" "CBPF_H \<noteq> CBPF_B" by (simp_all add: cbpf_consts)
  from assms(1) consider "code AND CBPF_SIZE_MASK = CBPF_W" | "code AND CBPF_SIZE_MASK = CBPF_H"
    | "code AND CBPF_SIZE_MASK = CBPF_B" by blast
  then show ?thesis
  proof cases
    case 3
    then show ?thesis using d s by (simp add: load_packet_def read_be_def decode_width_def from_be_byte)
  qed (use o d in \<open>simp_all add: load_packet_def read_be_def decode_width_def\<close>)
qed

lemma msh_value: "push_bit 2 (ucast (b AND 0x0f)) = (4 * (ucast b mod 16) :: u32)" for b :: u8
proof -
  have "(ucast (b AND 0x0f) :: u32) = ucast b mod 16"
  proof -
    have "b AND 0x0f = take_bit 4 b" by (simp add: take_bit_eq_mask mask_eq_exp_minus_1)
    then have "(ucast (b AND 0x0f) :: u32) = take_bit 4 (ucast b)"
      by (simp add: unsigned_take_bit_eq)
    then show ?thesis by (simp add: take_bit_eq_mod)
  qed
  then show ?thesis by (simp add: push_bit_eq_mult)
qed

definition abs_mem :: "u32 list \<Rightarrow> nat \<Rightarrow> u32" where
  "abs_mem mem i = (if i < length mem then mem ! i else 0)"

lemma cbpf_load_ref:
  assumes ok: "code_allowed (c_code insn)" and cls: "c_code insn AND CBPF_CLASS_MASK \<in> {CBPF_LD, CBPF_LDX}"
    and mem: "length mem = CBPF_MEMWORDS"
  shows "cbpf_load_value packet insn x mem = ref_load packet x (abs_mem mem) (decode_addr insn)"
proof -
  let ?mode = "c_code insn AND CBPF_MODE_MASK" and ?sz = "c_code insn AND CBPF_SIZE_MASK"
  have kx: "unat (c_k insn) < 2 ^ 32" "unat x < 2 ^ 32" using unat_less_pow [of "c_k insn"] unat_less_pow [of x] by simp_all
  have ne: "CBPF_LD \<noteq> CBPF_LDX" "CBPF_IMM \<noteq> CBPF_MEM" "CBPF_IMM \<noteq> CBPF_LEN" "CBPF_MEM \<noteq> CBPF_LEN"
    "CBPF_IMM \<noteq> CBPF_ABS" "CBPF_MEM \<noteq> CBPF_ABS" "CBPF_LEN \<noteq> CBPF_ABS" "CBPF_IMM \<noteq> CBPF_IND" "CBPF_MEM \<noteq> CBPF_IND"
    "CBPF_LEN \<noteq> CBPF_IND" "CBPF_ABS \<noteq> CBPF_IND" "CBPF_IMM \<noteq> CBPF_MSH" "CBPF_MEM \<noteq> CBPF_MSH" "CBPF_LEN \<noteq> CBPF_MSH"
    "CBPF_ABS \<noteq> CBPF_MSH" "CBPF_IND \<noteq> CBPF_MSH"
    by (simp_all add: cbpf_consts)
  have modes: "?mode = CBPF_IMM \<or> ?mode = CBPF_MEM \<or> ?mode = CBPF_LEN \<or> ?mode = CBPF_MSH \<or>
      ((?mode = CBPF_ABS \<or> ?mode = CBPF_IND) \<and> ?sz \<in> {CBPF_W, CBPF_H, CBPF_B})"
    using ok cls ne(1) unfolding code_allowed_def Let_def by (auto split: if_splits)
  have lp: "load_packet packet off ?sz = read_be packet off (decode_width (c_code insn))"
    if "?mode = CBPF_ABS \<or> ?mode = CBPF_IND" "off < 2 ^ 33" for off
    by (rule load_packet_ref [OF _ that(2)]) (use modes that(1) ne in metis)
  from modes consider "?mode = CBPF_IMM" | "?mode = CBPF_MEM" | "?mode = CBPF_LEN" | "?mode = CBPF_MSH"
    | "?mode = CBPF_ABS" | "?mode = CBPF_IND" by blast
  then show ?thesis
  proof cases
    case 5
    then show ?thesis using lp [of "unat (c_k insn)"] kx ne by (simp add: cbpf_load_value_def decode_addr_def Let_def)
  next
    case 6
    then show ?thesis using lp [of "unat x + unat (c_k insn)"] kx ne by (simp add: cbpf_load_value_def decode_addr_def Let_def)
  next
    case 4
    then show ?thesis using ne by (simp add: cbpf_load_value_def decode_addr_def Let_def msh_value)
  qed (use ne mem in \<open>simp_all add: cbpf_load_value_def decode_addr_def Let_def abs_mem_def\<close>)
qed

definition cbpf_good :: "cbpf_program \<Rightarrow> cvm \<Rightarrow> bool" where
  "cbpf_good p s \<longleftrightarrow> validate p = Inr () \<and> length (c_mem s) = CBPF_MEMWORDS \<and> c_pc s < length p"

definition rest_value :: "cbpf_program \<Rightarrow> u8 list \<Rightarrow> cvm \<Rightarrow> u32 option" where
  "rest_value p packet s = cbpf_ref packet (drop (c_pc s) (map decode p)) (c_a s) (c_x s) (abs_mem (c_mem s))"

lemma rest_value_unfold:
  assumes "c_pc s < length p"
  shows "rest_value p packet s =
    cbpf_ref packet (decode (p ! c_pc s) # drop (Suc (c_pc s)) (map decode p)) (c_a s) (c_x s) (abs_mem (c_mem s))"
  using assms by (simp add: rest_value_def Cons_nth_drop_Suc [symmetric])

text \<open>What a turn promises: it moves forward inside the program and does not change the value of the rest,
  or it returns that value.\<close>

definition turn_ok :: "cbpf_program \<Rightarrow> u8 list \<Rightarrow> cvm \<Rightarrow> cvm + u32 option outcome \<Rightarrow> bool" where
  "turn_ok p packet s r \<longleftrightarrow>
     (case r of Inl s' \<Rightarrow> cbpf_good p s' \<and> c_pc s < c_pc s' \<and> rest_value p packet s' = rest_value p packet s
      | Inr v \<Rightarrow> v = Ok (rest_value p packet s))"

lemma class_cases:
  obtains "c AND CBPF_CLASS_MASK = CBPF_LD" | "c AND CBPF_CLASS_MASK = CBPF_LDX" | "c AND CBPF_CLASS_MASK = CBPF_ST"
    | "c AND CBPF_CLASS_MASK = CBPF_STX" | "c AND CBPF_CLASS_MASK = CBPF_ALU" | "c AND CBPF_CLASS_MASK = CBPF_JMP"
    | "c AND CBPF_CLASS_MASK = CBPF_RET" | "c AND CBPF_CLASS_MASK = CBPF_MISC"
proof -
  have "c AND 7 = take_bit 3 c" by (simp add: take_bit_eq_mask mask_eq_exp_minus_1)
  moreover have "unat (take_bit 3 c) = unat c mod 2 ^ 3" by (subst unsigned_take_bit_eq) (rule take_bit_eq_mod)
  ultimately have "unat (c AND 7) < 8" by simp
  then have "unat (c AND 7) \<in> {0, 1, 2, 3, 4, 5, 6, 7}" by auto
  then have "c AND 7 \<in> {0, 1, 2, 3, 4, 5, 6, 7}" by (simp add: word_unat_eq_iff)
  then show thesis using that by (auto simp: cbpf_consts)
qed

lemma cbpf_classes:
  "CBPF_LD \<noteq> CBPF_LDX" "CBPF_LD \<noteq> CBPF_ST" "CBPF_LD \<noteq> CBPF_STX" "CBPF_LD \<noteq> CBPF_ALU" "CBPF_LD \<noteq> CBPF_JMP"
  "CBPF_LD \<noteq> CBPF_RET" "CBPF_LD \<noteq> CBPF_MISC" "CBPF_LDX \<noteq> CBPF_ST" "CBPF_LDX \<noteq> CBPF_STX" "CBPF_LDX \<noteq> CBPF_ALU"
  "CBPF_LDX \<noteq> CBPF_JMP" "CBPF_LDX \<noteq> CBPF_RET" "CBPF_LDX \<noteq> CBPF_MISC" "CBPF_ST \<noteq> CBPF_STX" "CBPF_ST \<noteq> CBPF_ALU"
  "CBPF_ST \<noteq> CBPF_JMP" "CBPF_ST \<noteq> CBPF_RET" "CBPF_ST \<noteq> CBPF_MISC" "CBPF_STX \<noteq> CBPF_ALU" "CBPF_STX \<noteq> CBPF_JMP"
  "CBPF_STX \<noteq> CBPF_RET" "CBPF_STX \<noteq> CBPF_MISC" "CBPF_ALU \<noteq> CBPF_JMP" "CBPF_ALU \<noteq> CBPF_RET" "CBPF_ALU \<noteq> CBPF_MISC"
  "CBPF_JMP \<noteq> CBPF_RET" "CBPF_JMP \<noteq> CBPF_MISC" "CBPF_RET \<noteq> CBPF_MISC"
  by (simp_all add: cbpf_consts)

lemmas cbpf_class_distinct = cbpf_classes cbpf_classes [symmetric]

text \<open>An instruction that falls through is not the last one.\<close>

lemma fall_through:
  assumes "cbpf_good p s" and "c_code (p ! c_pc s) AND CBPF_CLASS_MASK \<noteq> CBPF_RET"
    and "length (c_mem s') = CBPF_MEMWORDS" and "c_pc s' = c_pc s + 1"
  shows "cbpf_good p s' \<and> c_pc s < c_pc s'"
  using assms validate_not_last [of p "c_pc s"] by (simp add: cbpf_good_def)

lemma jump_to:
  assumes "cbpf_good p s" and "c_pc s + n < length p" and "0 < n"
  shows "cbpf_jump n s = Inl (s\<lparr>c_pc := c_pc s + n\<rparr>) \<and> cbpf_good p (s\<lparr>c_pc := c_pc s + n\<rparr>)"
  using assms validate_insn(3) [of p] by (simp add: cbpf_jump_def cbpf_good_def CBPF_MAXINSNS_def)

lemma abs_mem_update: "n < length mem \<Longrightarrow> abs_mem (mem[n := v]) = (abs_mem mem)(n := v)"
  by (rule ext) (simp add: abs_mem_def nth_list_update)

lemma valid_allowed: "insn_valid n i insn \<Longrightarrow> code_allowed (c_code insn)"
  by (simp add: insn_valid_def Let_def)

lemma st_slot:
  assumes "insn_valid n i insn" and "c_code insn AND CBPF_CLASS_MASK = CBPF_ST \<or> c_code insn AND CBPF_CLASS_MASK = CBPF_STX"
  shows "unat (c_k insn) < CBPF_MEMWORDS"
proof -
  have "c_code insn = CBPF_ST \<or> c_code insn = CBPF_STX"
    using valid_allowed [OF assms(1)] assms(2) by (elim disjE) (simp_all add: code_allowed_def cbpf_class_distinct)
  then show ?thesis using assms(1) by (auto simp: insn_valid_def Let_def cbpf_consts)
qed

lemma ja_target:
  assumes "insn_valid n i insn" and "c_code insn AND CBPF_CLASS_MASK = CBPF_JMP" and "c_code insn AND CBPF_OP_MASK = CBPF_JA"
  shows "i + (1 + unat (c_k insn)) < n"
proof -
  have "c_code insn = CBPF_JMP OR CBPF_JA"
    using valid_allowed [OF assms(1)] assms(2,3) by (simp add: code_allowed_def cbpf_class_distinct)
  then show ?thesis using assms(1) by (auto simp: insn_valid_def Let_def cbpf_consts)
qed

lemma jmp_target:
  assumes "insn_valid n i insn" and "c_code insn AND CBPF_CLASS_MASK = CBPF_JMP" and "c_code insn AND CBPF_OP_MASK \<noteq> CBPF_JA"
  shows "i + (1 + unat (c_jt insn)) < n \<and> i + (1 + unat (c_jf insn)) < n"
proof -
  have c: "c_code insn AND CBPF_CLASS_MASK \<noteq> CBPF_ALU" "c_code insn AND CBPF_CLASS_MASK \<noteq> CBPF_LD"
    "c_code insn AND CBPF_CLASS_MASK \<noteq> CBPF_LDX" "c_code insn AND CBPF_CLASS_MASK \<noteq> CBPF_ST" "c_code insn AND CBPF_CLASS_MASK \<noteq> CBPF_STX"
    using assms(2) by (simp_all add: cbpf_class_distinct)
  have "c_code insn \<noteq> CBPF_ALU OR CBPF_DIV OR CBPF_K" "c_code insn \<noteq> CBPF_ALU OR CBPF_MOD OR CBPF_K"
    "c_code insn \<noteq> CBPF_ALU OR CBPF_LSH OR CBPF_K" "c_code insn \<noteq> CBPF_ALU OR CBPF_RSH OR CBPF_K"
    "c_code insn \<noteq> CBPF_LD OR CBPF_MEM" "c_code insn \<noteq> CBPF_LDX OR CBPF_MEM" "c_code insn \<noteq> CBPF_ST" "c_code insn \<noteq> CBPF_STX"
    "c_code insn \<noteq> CBPF_JMP OR CBPF_JA"
    using c assms(3) by (auto simp: cbpf_consts)
  then show ?thesis using assms c(2) unfolding insn_valid_def Let_def by simp
qed

lemma turn_ld:
  assumes g: "cbpf_good p s" and v: "insn_valid (length p) (c_pc s) (p ! c_pc s)"
    and c: "c_code (p ! c_pc s) AND CBPF_CLASS_MASK = CBPF_LD \<or> c_code (p ! c_pc s) AND CBPF_CLASS_MASK = CBPF_LDX"
  shows "turn_ok p packet s (cbpf_step (p, packet) s)"
proof -
  let ?i = "p ! c_pc s"
  have lt: "c_pc s < length p" and m: "length (c_mem s) = CBPF_MEMWORDS" using g by (auto simp: cbpf_good_def)
  have l: "cbpf_load_value packet ?i (c_x s) (c_mem s) = ref_load packet (c_x s) (abs_mem (c_mem s)) (decode_addr ?i)"
    by (rule cbpf_load_ref [OF valid_allowed [OF v] _ m]) (use c in blast)
  have nr: "c_code ?i AND CBPF_CLASS_MASK \<noteq> CBPF_RET" using c by (auto simp: cbpf_class_distinct)
  note ft = fall_through [OF g nr]
  show ?thesis
  proof (cases "ref_load packet (c_x s) (abs_mem (c_mem s)) (decode_addr ?i)")
    case None
    with c lt l show ?thesis
      by (elim disjE) (simp_all add: turn_ok_def cbpf_step_def Let_def rest_value_unfold decode_def cbpf_class_distinct)
  next
    case (Some w)
    from c show ?thesis
    proof
      assume "c_code ?i AND CBPF_CLASS_MASK = CBPF_LD"
      with Some lt l show ?thesis using ft [of "s\<lparr>c_a := w, c_pc := c_pc s + 1\<rparr>"] m
        by (simp add: turn_ok_def cbpf_step_def Let_def rest_value_unfold decode_def cbpf_class_distinct) (simp add: rest_value_def)
    next
      assume "c_code ?i AND CBPF_CLASS_MASK = CBPF_LDX"
      with Some lt l show ?thesis using ft [of "s\<lparr>c_x := w, c_pc := c_pc s + 1\<rparr>"] m
        by (simp add: turn_ok_def cbpf_step_def Let_def rest_value_unfold decode_def cbpf_class_distinct) (simp add: rest_value_def)
    qed
  qed
qed

lemma turn_st:
  assumes g: "cbpf_good p s" and v: "insn_valid (length p) (c_pc s) (p ! c_pc s)"
    and c: "c_code (p ! c_pc s) AND CBPF_CLASS_MASK = CBPF_ST \<or> c_code (p ! c_pc s) AND CBPF_CLASS_MASK = CBPF_STX"
  shows "turn_ok p packet s (cbpf_step (p, packet) s)"
proof -
  let ?i = "p ! c_pc s"
  have lt: "c_pc s < length p" and m: "length (c_mem s) = CBPF_MEMWORDS" using g by (auto simp: cbpf_good_def)
  have k: "unat (c_k ?i) < length (c_mem s)" using st_slot [OF v c] m by simp
  have nr: "c_code ?i AND CBPF_CLASS_MASK \<noteq> CBPF_RET" using c by (auto simp: cbpf_class_distinct)
  note ft = fall_through [OF g nr]
  from c show ?thesis
  proof
    assume "c_code ?i AND CBPF_CLASS_MASK = CBPF_ST"
    with lt k show ?thesis using ft [of "s\<lparr>c_mem := (c_mem s)[unat (c_k ?i) := c_a s], c_pc := c_pc s + 1\<rparr>"] m
      by (simp add: turn_ok_def cbpf_step_def Let_def rest_value_unfold decode_def cbpf_class_distinct)
        (simp add: rest_value_def abs_mem_update)
  next
    assume "c_code ?i AND CBPF_CLASS_MASK = CBPF_STX"
    with lt k show ?thesis using ft [of "s\<lparr>c_mem := (c_mem s)[unat (c_k ?i) := c_x s], c_pc := c_pc s + 1\<rparr>"] m
      by (simp add: turn_ok_def cbpf_step_def Let_def rest_value_unfold decode_def cbpf_class_distinct)
        (simp add: rest_value_def abs_mem_update)
  qed
qed

lemma ref_src_rhs:
  "(if c_code i AND CBPF_SRC_MASK = CBPF_X then x else c_k i) = ref_src x (decode_src i)"
  by (simp add: decode_src_def)

lemma turn_alu:
  assumes g: "cbpf_good p s" and c: "c_code (p ! c_pc s) AND CBPF_CLASS_MASK = CBPF_ALU"
  shows "turn_ok p packet s (cbpf_step (p, packet) s)"
proof -
  let ?i = "p ! c_pc s" and ?op = "c_code (p ! c_pc s) AND CBPF_OP_MASK"
  have lt: "c_pc s < length p" and m: "length (c_mem s) = CBPF_MEMWORDS" using g by (auto simp: cbpf_good_def)
  have nr: "c_code ?i AND CBPF_CLASS_MASK \<noteq> CBPF_RET" using c by (simp add: cbpf_class_distinct)
  note ft = fall_through [OF g nr]
  have st: "cbpf_step (p, packet) s = (case cbpf_alu ?op (c_a s) (ref_src (c_x s) (decode_src ?i)) of
      None \<Rightarrow> gives_up | Some v \<Rightarrow> Inl (s\<lparr>c_a := v, c_pc := c_pc s + 1\<rparr>))"
    using lt c by (simp add: cbpf_step_def Let_def cbpf_class_distinct decode_src_def)
  show ?thesis
  proof (cases "cbpf_alu ?op (c_a s) (ref_src (c_x s) (decode_src ?i))")
    case None
    with st lt c show ?thesis
      by (cases "decode_op ?op") (simp_all add: turn_ok_def rest_value_unfold decode_def cbpf_class_distinct cbpf_alu_ref)
  next
    case (Some w)
    with st lt c show ?thesis using ft [of "s\<lparr>c_a := w, c_pc := c_pc s + 1\<rparr>"] m
      by (cases "decode_op ?op")
        (simp_all add: turn_ok_def rest_value_unfold decode_def cbpf_class_distinct cbpf_alu_ref, simp add: rest_value_def)
  qed
qed

lemma turn_jmp:
  assumes g: "cbpf_good p s" and v: "insn_valid (length p) (c_pc s) (p ! c_pc s)"
    and c: "c_code (p ! c_pc s) AND CBPF_CLASS_MASK = CBPF_JMP"
  shows "turn_ok p packet s (cbpf_step (p, packet) s)"
proof -
  let ?i = "p ! c_pc s" and ?op = "c_code (p ! c_pc s) AND CBPF_OP_MASK"
  have lt: "c_pc s < length p" using g by (simp add: cbpf_good_def)
  have land: "turn_ok p packet s (cbpf_jump (1 + n) s)"
    if "c_pc s + (1 + n) < length p"
      "rest_value p packet s = cbpf_ref packet (drop n (drop (Suc (c_pc s)) (map decode p))) (c_a s) (c_x s) (abs_mem (c_mem s))" for n
    using jump_to [OF g that(1)] that(2) by (simp add: turn_ok_def rest_value_def add.commute)
  show ?thesis
  proof (cases "?op = CBPF_JA")
    case True
    with lt c have "cbpf_step (p, packet) s = cbpf_jump (1 + unat (c_k ?i)) s"
      by (simp add: cbpf_step_def Let_def cbpf_class_distinct)
    moreover have "turn_ok p packet s (cbpf_jump (1 + unat (c_k ?i)) s)"
      using ja_target [OF v c True] by (rule land) (use lt c True in \<open>simp add: rest_value_unfold decode_def cbpf_class_distinct\<close>)
    ultimately show ?thesis by simp
  next
    case False
    have st: "cbpf_step (p, packet) s = (case cbpf_cond ?op (c_a s) (ref_src (c_x s) (decode_src ?i)) of None \<Rightarrow> gives_up
        | Some taken \<Rightarrow> cbpf_jump (1 + unat (if taken then c_jt ?i else c_jf ?i)) s)"
      using lt c False by (simp add: cbpf_step_def Let_def cbpf_class_distinct decode_src_def)
    show ?thesis
    proof (cases "decode_cond ?op")
      case None
      with st lt c False show ?thesis
        by (simp add: turn_ok_def rest_value_unfold decode_def cbpf_class_distinct cbpf_cond_ref)
    next
      case (Some cd)
      let ?n = "unat (if ref_cond cd (c_a s) (ref_src (c_x s) (decode_src ?i)) then c_jt ?i else c_jf ?i)"
      have "turn_ok p packet s (cbpf_jump (1 + ?n) s)"
        by (rule land) (use jmp_target [OF v c False] lt c False Some in
          \<open>simp_all add: rest_value_unfold decode_def cbpf_class_distinct\<close>)
      with st Some show ?thesis by (simp add: cbpf_cond_ref)
    qed
  qed
qed

lemma turn_misc:
  assumes g: "cbpf_good p s" and c: "c_code (p ! c_pc s) AND CBPF_CLASS_MASK = CBPF_MISC"
  shows "turn_ok p packet s (cbpf_step (p, packet) s)"
proof -
  let ?i = "p ! c_pc s"
  have lt: "c_pc s < length p" and m: "length (c_mem s) = CBPF_MEMWORDS" using g by (auto simp: cbpf_good_def)
  have nr: "c_code ?i AND CBPF_CLASS_MASK \<noteq> CBPF_RET" using c by (simp add: cbpf_class_distinct)
  note ft = fall_through [OF g nr]
  show ?thesis
    using lt c ft [of "s\<lparr>c_x := c_a s, c_pc := c_pc s + 1\<rparr>"] ft [of "s\<lparr>c_a := c_x s, c_pc := c_pc s + 1\<rparr>"] m
    by (simp add: turn_ok_def cbpf_step_def Let_def rest_value_unfold decode_def cbpf_class_distinct) (simp add: rest_value_def)
qed

lemma turn_ret:
  assumes "cbpf_good p s" and "c_code (p ! c_pc s) AND CBPF_CLASS_MASK = CBPF_RET"
  shows "turn_ok p packet s (cbpf_step (p, packet) s)"
  using assms by (simp add: cbpf_good_def turn_ok_def cbpf_step_def Let_def rest_value_unfold decode_def cbpf_class_distinct)

lemma cbpf_turn:
  assumes g: "cbpf_good p s"
  shows "turn_ok p packet s (cbpf_step (p, packet) s)"
proof -
  have v: "insn_valid (length p) (c_pc s) (p ! c_pc s)" using validate_insn(1) g by (simp add: cbpf_good_def)
  show ?thesis
    by (rule class_cases [of "c_code (p ! c_pc s)"])
      (simp_all add: turn_ld [OF g v] turn_st [OF g v] turn_alu [OF g] turn_jmp [OF g v] turn_misc [OF g] turn_ret [OF g])
qed

section \<open>The machine\<close>

definition cgood :: "(cbpf_program \<times> u8 list) \<times> u32 option \<Rightarrow> cvm \<Rightarrow> bool" where
  "cgood p s \<longleftrightarrow> cbpf_good (fst (fst p)) s \<and> rest_value (fst (fst p)) (snd (fst p)) s = snd p"

interpretation cbpf: forward_machine "\<lambda>p. cbpf_step (fst p)" "\<lambda>p. cbpf_loop (fst p)" cgood
  "\<lambda>p r. r = Ok (snd p)" "\<lambda>p s. length (fst (fst p)) - c_pc s"
proof
  fix p :: "(cbpf_program \<times> u8 list) \<times> u32 option" and s s' r
  show "cbpf_loop (fst p) s = (case cbpf_step (fst p) s of Inl s' \<Rightarrow> cbpf_loop (fst p) s' | Inr r \<Rightarrow> Some r)"
    by (rule cbpf_loop.simps)
  assume g: "cgood p s"
  then have t: "turn_ok (fst (fst p)) (snd (fst p)) s (cbpf_step (fst p) s)"
    using cbpf_turn [of "fst (fst p)" s "snd (fst p)"] by (simp add: cgood_def)
  show "cgood p s' \<and> length (fst (fst p)) - c_pc s' < length (fst (fst p)) - c_pc s" if "cbpf_step (fst p) s = Inl s'"
    using t g that by (auto simp: turn_ok_def cgood_def cbpf_good_def)
  show "r = Ok (snd p)" if "cbpf_step (fst p) s = Inr r"
    using t g that by (simp add: turn_ok_def cgood_def)
qed

definition cbpf_value :: "cbpf_program \<Rightarrow> u8 list \<Rightarrow> u32 option" where
  "cbpf_value p packet = cbpf_ref packet (map decode p) 0 0 (\<lambda>_. 0)"

lemma cbpf_start_good:
  assumes "validate p = Inr ()"
  shows "cgood ((p, packet), cbpf_value p packet) cbpf_start"
proof -
  have "abs_mem (replicate CBPF_MEMWORDS 0) = (\<lambda>_. 0)" by (rule ext) (simp add: abs_mem_def)
  then show ?thesis using assms validate_insn(2) [OF assms]
    by (simp add: cgood_def cbpf_good_def cbpf_start_def rest_value_def cbpf_value_def)
qed

lemma cbpf_execute_value: "validate p = Inr () \<Longrightarrow> cbpf_execute p packet = Some (Ok (cbpf_value p packet))"
  using cbpf.run_returns [OF cbpf_start_good, of p packet] by (auto simp: cbpf_execute_def)

lemma snap_bound: "snap packet r = Some n \<Longrightarrow> n \<le> length packet \<and> (packet \<noteq> [] \<longrightarrow> 0 < n)"
proof -
  have "0 < unat w" if "w \<noteq> 0" for w :: u32 using that by (simp add: unat_gt_0)
  then show "snap packet r = Some n \<Longrightarrow> n \<le> length packet \<and> (packet \<noteq> [] \<longrightarrow> 0 < n)"
    by (auto simp: snap_def split: option.splits if_splits)
qed

lemma cbpf_filter_value: "validate p = Inr () \<Longrightarrow> cbpf_filter_len p packet = Some (Ok (snap packet (cbpf_value p packet)))"
  by (simp add: cbpf_filter_len_def cbpf_execute_value)

interpretation cbpf_filter: packet_filter "\<lambda>p. validate p = Inr ()"
  "\<lambda>p packet. case cbpf_filter_len p packet of Some (Ok k) \<Rightarrow> Some k | _ \<Rightarrow> None"
  by unfold_locales (auto simp: cbpf_filter_value dest: snap_bound)

section \<open>The \<open>sock_filter\<close> format\<close>

lemma insn_bytes_roundtrip:
  "cbpf_insn_of_bytes (to_le_bytes 2 (c_code i) @ [c_jt i] @ [c_jf i] @ to_le_bytes 4 (c_k i)) = i"
  by (simp add: cbpf_insn_of_bytes_def slice_def nth_append from_to_le_bytes)

lemma to_sock_filter_bytes_Cons:
  "to_sock_filter_bytes (i # p) = (to_le_bytes 2 (c_code i) @ [c_jt i] @ [c_jf i] @ to_le_bytes 4 (c_k i)) @ to_sock_filter_bytes p"
  by (simp add: to_sock_filter_bytes_def)

lemma chunks_of_bytes: "cbpf_chunks (length p) (to_sock_filter_bytes p) = p"
proof (induction p)
  case (Cons i p)
  let ?b = "to_le_bytes 2 (c_code i) @ [c_jt i] @ [c_jf i] @ to_le_bytes 4 (c_k i)"
  have "length ?b = 8" by simp
  then have "take 8 (to_sock_filter_bytes (i # p)) = ?b" "drop 8 (to_sock_filter_bytes (i # p)) = to_sock_filter_bytes p"
    unfolding to_sock_filter_bytes_Cons by simp_all
  then show ?case using Cons.IH insn_bytes_roundtrip [of i] by simp
qed (simp add: to_sock_filter_bytes_def)

lemma bytes_of_insn:
  assumes "length bs = 8"
  shows "to_le_bytes 2 (c_code (cbpf_insn_of_bytes bs)) @ [c_jt (cbpf_insn_of_bytes bs)] @ [c_jf (cbpf_insn_of_bytes bs)] @
    to_le_bytes 4 (c_k (cbpf_insn_of_bytes bs)) = bs"
proof -
  have l: "length (slice bs 0 2) = 2" "length (slice bs 4 8) = 4" using assms by (simp_all add: length_slice)
  have c: "to_le_bytes 2 (from_le_bytes (slice bs 0 2) :: u16) = slice bs 0 2"
    "to_le_bytes 4 (from_le_bytes (slice bs 4 8) :: u32) = slice bs 4 8"
    using to_from_le_bytes [OF l(1), where 'a = 16] to_from_le_bytes [OF l(2), where 'a = 32] by simp_all
  have "bs = take 2 bs @ bs ! 2 # drop 3 bs" using id_take_nth_drop [of 2 bs] assms by simp
  also have "drop 3 bs = bs ! 3 # drop 4 bs" using Cons_nth_drop_Suc [of 3 bs] assms by simp
  finally have "slice bs 0 2 @ [bs ! 2] @ [bs ! 3] @ slice bs 4 8 = bs" using assms by (simp add: slice_def)
  then show ?thesis by (simp add: cbpf_insn_of_bytes_def c)
qed

lemma bytes_of_chunks: "length raw = 8 * n \<Longrightarrow> to_sock_filter_bytes (cbpf_chunks n raw) = raw"
proof (induction n arbitrary: raw)
  case (Suc n)
  have "to_sock_filter_bytes (cbpf_chunks n (drop 8 raw)) = drop 8 raw" using Suc by simp
  moreover have "length (take 8 raw) = 8" using Suc.prems by simp
  ultimately show ?case
    by (simp only: cbpf_chunks.simps to_sock_filter_bytes_Cons bytes_of_insn append_take_drop_id)
qed (simp add: to_sock_filter_bytes_def)

section \<open>Properties\<close>

text \<open>C11: The interpreter of classic BPF implements the reference semantics. For a program that passed
  \<open>validate\<close> and any packet it returns, within as many turns as the program has instructions and
  without a panic, exactly the value obtained by decoding the instructions and running them by
  recursion on the rest of the program.\<close>

theorem cbpf_refines_reference:
  assumes "validate p = Inr ()"
  shows "cbpf_execute p packet = Some (Ok (cbpf_ref packet (map decode p) 0 0 (\<lambda>_. 0))) \<and>
    cbpf.run_for (length p + 1) ((p, packet), cbpf_value p packet) cbpf_start = cbpf_execute p packet"
  using cbpf_execute_value [OF assms, of packet] cbpf.run_bounded [OF cbpf_start_good [OF assms, of packet], of "length p + 1"]
  by (simp add: cbpf_value_def cbpf_execute_def less_Suc_eq_le)

text \<open>The filter \<open>ldh [12]; jeq #0x800, 0, 1; ret #96; ret #0\<close>, which keeps IPv4 frames.\<close>

definition demo_filter :: cbpf_program where
  "demo_filter = [\<lparr>c_code = 0x28, c_jt = 0, c_jf = 0, c_k = 12\<rparr>, \<lparr>c_code = 0x15, c_jt = 0, c_jf = 1, c_k = 0x800\<rparr>,
     \<lparr>c_code = 0x06, c_jt = 0, c_jf = 0, c_k = 96\<rparr>, \<lparr>c_code = 0x06, c_jt = 0, c_jf = 0, c_k = 0\<rparr>]"

lemma demo_filter_valid: "validate demo_filter = Inr ()"
  by (simp add: validate_def demo_filter_def insn_valid_def code_allowed_def cbpf_consts CBPF_MAXINSNS_def CBPF_MEMWORDS_def
      CBPF_SKF_AD_OFF_def upt_rec)

definition demo_frame :: "u8 list" where
  "demo_frame = replicate 12 0xff @ [0x08, 0x00] @ replicate 20 7"

theorem cbpf_refines_reference_witness:
  "cbpf_execute demo_filter demo_frame = Some (Ok (Some 96))"
proof -
  have "cbpf_ref demo_frame (map decode demo_filter) 0 0 (\<lambda>_. 0) = Some 96"
    by (simp add: demo_filter_def demo_frame_def decode_def decode_addr_def decode_width_def decode_cond_def decode_src_def
        cbpf_consts read_be_def slice_def from_be_bytes_def)
  with cbpf_refines_reference [OF demo_filter_valid, of demo_frame] show ?thesis by simp
qed

text \<open>An attached classic filter decides every packet and never lets a socket read past it: a packet
  is dropped exactly when the program returns zero or fails, and otherwise truncated to the returned
  length if that is shorter.\<close>

theorem cbpf_filter_decides:
  assumes "validate p = Inr ()"
  shows "cbpf_filter.deliver p packet =
    (case cbpf_ref packet (map decode p) 0 0 (\<lambda>_. 0) of
       None \<Rightarrow> None | Some n \<Rightarrow> if n = 0 then None else Some (take (unat n) packet))"
proof -
  have v: "cbpf_filter_len p packet = Some (Ok (snap packet (cbpf_value p packet)))" by (rule cbpf_filter_value [OF assms])
  show ?thesis
  proof (cases "cbpf_filter.deliver p packet")
    case None
    with cbpf_filter.deliver_None_iff [OF assms, of packet] v show ?thesis
      by (auto simp: snap_def cbpf_value_def split: option.splits if_splits)
  next
    case (Some d)
    from cbpf_filter.deliver_prefix [OF assms Some] v obtain n where n: "snap packet (cbpf_value p packet) = Some n"
      and d: "d = take n packet" by fastforce
    from n obtain w where "cbpf_value p packet = Some w" "w \<noteq> 0" "n = min (unat w) (length packet)"
      by (auto simp: snap_def split: option.splits if_splits)
    then show ?thesis using Some d by (simp add: cbpf_value_def min_def)
  qed
qed

theorem cbpf_filter_decides_witness:
  "cbpf_filter.deliver demo_filter demo_frame = Some demo_frame"
proof -
  have "cbpf_ref demo_frame (map decode demo_filter) 0 0 (\<lambda>_. 0) = Some 96"
    by (simp add: demo_filter_def demo_frame_def decode_def decode_addr_def decode_width_def decode_cond_def decode_src_def
        cbpf_consts read_be_def slice_def from_be_bytes_def)
  with cbpf_filter_decides [OF demo_filter_valid, of demo_frame] show ?thesis by (simp add: demo_frame_def)
qed

text \<open>C36: What \<open>SO_ATTACH_FILTER\<close> accepts is a validated program, it has as many instructions as the
  length field of the \<open>sock_fprog\<close> structure says, and \<open>SO_GET_FILTER\<close> gives user space back exactly the
  bytes that lie where the pointer field of that structure points; decoding what is given back yields the
  attached program. The copy from user memory returns as many bytes as were asked for.\<close>

theorem sock_filter_roundtrip:
  assumes "\<And>a n bs. copy_in a n = Some bs \<Longrightarrow> length bs = n"
    and "from_sock_fprog_user copy_in optval optlen = Inr p"
    and "copy_in optval 16 = Some fprog"
  shows "validate p = Inr () \<and>
    instruction_count p = unat (from_le_bytes (slice fprog 0 2) :: u16) \<and>
    copy_in (from_le_bytes (slice fprog 8 16)) (8 * instruction_count p) = Some (to_sock_filter_bytes p) \<and>
    cbpf_chunks (instruction_count p) (to_sock_filter_bytes p) = p"
proof -
  define n where "n = unat (from_le_bytes (slice fprog 0 2) :: u16)"
  from assms(2, 3) obtain raw where raw: "copy_in (from_le_bytes (slice fprog 8 16)) (n * 8) = Some raw"
    and p: "p = cbpf_chunks (length raw div 8) raw" "validate p = Inr ()"
    by (auto simp: from_sock_fprog_user_def rbind_eq_Inr_iff Let_def n_def split: if_splits)
  have len: "length raw = n * 8" using assms(1) [OF raw] .
  have chunks: "length (cbpf_chunks k r) = k" for k r by (induction k arbitrary: r) simp_all
  have "to_sock_filter_bytes p = raw" unfolding p(1) using len by (intro bytes_of_chunks) simp
  moreover have "length p = n" unfolding p(1) chunks using len by simp
  ultimately show ?thesis using raw p(2) chunks_of_bytes [of p]
    by (simp add: instruction_count_def mult.commute n_def)
qed

definition demo_copy :: "usize \<Rightarrow> nat \<Rightarrow> u8 list option" where
  "demo_copy a n =
     (if a = 64 \<and> n = 16 then Some [4, 0, 0, 0, 0, 0, 0, 0, 128, 0, 0, 0, 0, 0, 0, 0]
      else if a = 128 \<and> n = 32 then Some (to_sock_filter_bytes demo_filter) else None)"

theorem sock_filter_roundtrip_witness:
  "from_sock_fprog_user demo_copy 64 16 = Inr demo_filter \<and>
   demo_copy 128 32 = Some (to_sock_filter_bytes demo_filter)"
proof -
  have l: "length (to_sock_filter_bytes demo_filter) = 32" by (simp add: to_sock_filter_bytes_def demo_filter_def)
  have len: "length bs = n" if "demo_copy a n = Some bs" for a n bs
    using that l by (auto simp: demo_copy_def split: if_splits)
  have ch: "cbpf_chunks 4 (to_sock_filter_bytes demo_filter) = demo_filter"
  proof -
    have "length demo_filter = 4" by (simp add: demo_filter_def)
    with chunks_of_bytes [of demo_filter] show ?thesis by simp
  qed
  have f: "from_sock_fprog_user demo_copy 64 16 = Inr demo_filter"
    by (simp add: from_sock_fprog_user_def demo_copy_def slice_def from_le_bytes_def CBPF_MAXINSNS_def l ch
        demo_filter_valid)
  let ?fp = "[4, 0, 0, 0, 0, 0, 0, 0, 128, 0, 0, 0, 0, 0, 0, 0] :: u8 list"
  have m: "demo_copy 64 16 = Some ?fp" by (simp add: demo_copy_def)
  have "demo_copy (from_le_bytes (slice ?fp 8 16)) (8 * instruction_count demo_filter) = Some (to_sock_filter_bytes demo_filter)"
    by (rule sock_filter_roundtrip [OF _ f m, THEN conjunct2, THEN conjunct2, THEN conjunct1]) (rule len)
  moreover have "instruction_count demo_filter = 4" by (simp add: instruction_count_def demo_filter_def)
  moreover have "(from_le_bytes (slice ?fp 8 16) :: usize) = 128" by (simp add: slice_def from_le_bytes_def)
  ultimately show ?thesis using f by simp
qed

end
