(* ===== verification/Record_Locks.thy ===== *)
theory Record_Locks
  imports Ordered_Maps Errno
begin

text \<open>
  Advisory file locks: \<open>src/src/syscall/filesystem/lock_utils.rs\<close> with the lock commands of
  \<open>fcntl\<close> and \<open>flock\<close> (\<open>fcntl.rs\<close>) and the release at process exit (\<open>ctl.rs\<close>).

  Offsets (\<open>i64\<close>), lock types (\<open>i16\<close>) and pids are integers and naturals with the overflow checks of
  the source written out. A record lock covers the bytes from its start to its end, or to the end of
  the file space when it has no end; \<open>holds\<close> is the meaning of a list of locks: which owner has which
  type of lock on which byte.

  \<open>RECORD_LOCKS\<close>, \<open>RECORD_LOCK_BLOCKED\<close>, \<open>RECORD_LOCK_WAITERS\<close>, \<open>FLOCK_LOCKS\<close> and \<open>FILE_LEASES\<close> are the
  fields of \<open>lock_state\<close>; tasks and open file descriptions are numbers.
\<close>

type_synonym pid = nat
type_synonym lock_key = "u64 \<times> u64"

datatype record_lock_owner = Process pid | OpenFile nat

instantiation record_lock_owner :: linorder
begin

fun less_eq_record_lock_owner :: "record_lock_owner \<Rightarrow> record_lock_owner \<Rightarrow> bool" where
  "less_eq_record_lock_owner (Process p) (Process q) = (p \<le> q)"
| "less_eq_record_lock_owner (Process p) (OpenFile q) = True"
| "less_eq_record_lock_owner (OpenFile p) (Process q) = False"
| "less_eq_record_lock_owner (OpenFile p) (OpenFile q) = (p \<le> q)"

definition less_record_lock_owner :: "record_lock_owner \<Rightarrow> record_lock_owner \<Rightarrow> bool" where
  "less_record_lock_owner a b \<longleftrightarrow> a \<le> b \<and> \<not> b \<le> a"

instance
proof
  fix a b c :: record_lock_owner
  show "a < b \<longleftrightarrow> a \<le> b \<and> \<not> b \<le> a" by (rule less_record_lock_owner_def)
  show "a \<le> a" by (cases a) simp_all
  show "a \<le> b \<Longrightarrow> b \<le> c \<Longrightarrow> a \<le> c" by (cases a; cases b; cases c) simp_all
  show "a \<le> b \<Longrightarrow> b \<le> a \<Longrightarrow> a = b" by (cases a; cases b) simp_all
  show "a \<le> b \<or> b \<le> a" by (cases a; cases b) auto
qed

end

record record_lock =
  lock_owner :: record_lock_owner
  lock_owner_pid :: pid
  lock_type :: int
  lock_start :: int
  lock_end :: "int option"

definition F_RDLCK :: int where "F_RDLCK = 0"
definition F_WRLCK :: int where "F_WRLCK = 1"
definition F_UNLCK :: int where "F_UNLCK = 2"
definition I64_MAX :: int where "I64_MAX = 2 ^ 63 - 1"

lemmas lock_types = F_RDLCK_def F_WRLCK_def F_UNLCK_def

section \<open>Ranges\<close>

definition range_end_i128 :: "int option \<Rightarrow> int" where
  "range_end_i128 e = (case e of None \<Rightarrow> 2 ^ 127 - 1 | Some v \<Rightarrow> v)"

definition lock_ranges_overlap :: "int \<Rightarrow> int option \<Rightarrow> int \<Rightarrow> int option \<Rightarrow> bool" where
  "lock_ranges_overlap a_start a_end b_start b_end \<longleftrightarrow>
     a_start \<le> range_end_i128 b_end \<and> b_start \<le> range_end_i128 a_end"

definition max_range_end :: "int option \<Rightarrow> int option \<Rightarrow> int option" where
  "max_range_end a b = (case (a, b) of (Some x, Some y) \<Rightarrow> Some (max x y) | _ \<Rightarrow> None)"

definition ranges_touch_or_overlap_sorted :: "int option \<Rightarrow> int \<Rightarrow> bool" where
  "ranges_touch_or_overlap_sorted left_end right_start =
     (case left_end of None \<Rightarrow> True | Some e \<Rightarrow> right_start \<le> saturating_add_i64 e 1)"

section \<open>Conflicts\<close>

definition lock_conflicts :: "int \<Rightarrow> int \<Rightarrow> int option \<Rightarrow> record_lock_owner \<Rightarrow> record_lock \<Rightarrow> bool" where
  "lock_conflicts req_type req_start req_end owner existing =
     (if lock_owner existing = owner \<or> lock_type existing = F_UNLCK then False
      else if \<not> lock_ranges_overlap req_start req_end (lock_start existing) (lock_end existing) then False
      else if req_type = F_RDLCK then lock_type existing = F_WRLCK
      else if req_type = F_WRLCK then lock_type existing = F_RDLCK \<or> lock_type existing = F_WRLCK
      else False)"

definition first_conflicting_lock ::
  "record_lock list \<Rightarrow> int \<Rightarrow> int \<Rightarrow> int option \<Rightarrow> record_lock_owner \<Rightarrow> record_lock option" where
  "first_conflicting_lock locks req_type req_start req_end owner =
     (case filter (lock_conflicts req_type req_start req_end owner) locks of
        [] \<Rightarrow> None
      | ls \<Rightarrow> Some (arg_min_list
          (\<lambda>l. (lock_start l, range_end_i128 (lock_end l), lock_owner l, lock_owner_pid l)) ls))"

section \<open>Applying a request\<close>

definition lock_sort_key :: "record_lock \<Rightarrow> record_lock_owner \<times> int \<times> int \<times> int \<times> pid" where
  "lock_sort_key l = (lock_owner l, lock_start l, range_end_i128 (lock_end l), lock_type l, lock_owner_pid l)"

text \<open>The loop that builds \<open>merged\<close>, whose last element is \<open>prev\<close>.\<close>

fun merge_locks :: "record_lock \<Rightarrow> record_lock list \<Rightarrow> record_lock list" where
  "merge_locks prev [] = [prev]"
| "merge_locks prev (lock # rest) =
     (if lock_owner prev = lock_owner lock \<and> lock_type prev = lock_type lock \<and>
         ranges_touch_or_overlap_sorted (lock_end prev) (lock_start lock)
      then merge_locks (prev\<lparr>lock_end := max_range_end (lock_end prev) (lock_end lock)\<rparr>) rest
      else prev # merge_locks lock rest)"

definition normalize_record_locks :: "record_lock list \<Rightarrow> record_lock list" where
  "normalize_record_locks locks =
     (case sort_key lock_sort_key (filter (\<lambda>l. lock_type l \<noteq> F_UNLCK) locks) of
        [] \<Rightarrow> []
      | lock # rest \<Rightarrow> merge_locks lock rest)"

text \<open>What remains of a lock of the owner outside the requested range.\<close>

definition cut_lock :: "int \<Rightarrow> int option \<Rightarrow> record_lock \<Rightarrow> record_lock list" where
  "cut_lock req_start req_end lock =
     (if lock_start lock < req_start then [lock\<lparr>lock_end := Some (req_start - 1)\<rparr>] else []) @
     (case req_end of
        None \<Rightarrow> []
      | Some e \<Rightarrow>
          if e < I64_MAX \<and> (case lock_end lock of None \<Rightarrow> True | Some le \<Rightarrow> le \<ge> e + 1)
          then [lock\<lparr>lock_start := e + 1\<rparr>] else [])"

definition apply_record_lock_for_owner ::
  "record_lock list \<Rightarrow> record_lock_owner \<Rightarrow> pid \<Rightarrow> int \<Rightarrow> int \<Rightarrow> int option \<Rightarrow> bool \<times> record_lock list" where
  "apply_record_lock_for_owner locks owner owner_pid req_type req_start req_end =
     (let kept = concat (map (\<lambda>lock.
            if lock_owner lock \<noteq> owner \<or> \<not> lock_ranges_overlap req_start req_end (lock_start lock) (lock_end lock)
            then [lock] else cut_lock req_start req_end lock) locks);
          new = (if req_type \<noteq> F_UNLCK
                 then [\<lparr>lock_owner = owner, lock_owner_pid = owner_pid, lock_type = req_type,
                        lock_start = req_start, lock_end = req_end\<rparr>] else []);
          updated = normalize_record_locks (kept @ new)
      in (locks \<noteq> updated, updated))"

definition collect_conflict_process_owners ::
  "record_lock list \<Rightarrow> int \<Rightarrow> int \<Rightarrow> int option \<Rightarrow> pid \<Rightarrow> pid list" where
  "collect_conflict_process_owners locks req_type req_start req_end owner_pid =
     fold (\<lambda>lock owners.
       if lock_conflicts req_type req_start req_end (Process owner_pid) lock
       then (case lock_owner lock of Process p \<Rightarrow> bts_insert p owners | OpenFile _ \<Rightarrow> owners)
       else owners) locks []"

section \<open>The lock tables\<close>

record waiting_record_lock =
  wait_key :: lock_key
  wait_type :: int
  wait_start :: int
  wait_end :: "int option"

record flock_lock =
  flock_owner :: nat
  flock_exclusive :: bool

record file_lease =
  lease_owner_pid :: pid
  lease_type :: int
  pending_break_write :: bool

record lock_state =
  record_locks :: "(lock_key, record_lock list) btree_map"
  flock_locks :: "(lock_key, flock_lock list) btree_map"
  lock_waiters :: "(lock_key, nat list) btree_map"
  lock_blocked :: "(pid, waiting_record_lock) btree_map"
  file_leases :: "(lock_key, file_lease) btree_map"

definition release_flock_locks_for_owner :: "nat \<Rightarrow> lock_state \<Rightarrow> lock_state" where
  "release_flock_locks_for_owner owner s =
     s\<lparr>flock_locks := filter (\<lambda>(k, ls). ls \<noteq> [])
        (map (\<lambda>(k, ls). (k, filter (\<lambda>l. flock_owner l \<noteq> owner) ls)) (flock_locks s))\<rparr>"

definition set_record_lock_waiting :: "pid \<Rightarrow> waiting_record_lock \<Rightarrow> lock_state \<Rightarrow> lock_state" where
  "set_record_lock_waiting p w s = s\<lparr>lock_blocked := btm_insert p w (lock_blocked s)\<rparr>"

definition clear_record_lock_waiting :: "pid \<Rightarrow> lock_state \<Rightarrow> lock_state" where
  "clear_record_lock_waiting p s = s\<lparr>lock_blocked := btm_remove p (lock_blocked s)\<rparr>"

text \<open>The processes a blocked process waits for: the owners its request conflicts with.\<close>

definition blockers :: "lock_state \<Rightarrow> pid \<Rightarrow> pid list" where
  "blockers s p =
     (case btm_get (lock_blocked s) p of
        None \<Rightarrow> []
      | Some w \<Rightarrow>
          (case btm_get (record_locks s) (wait_key w) of
             None \<Rightarrow> []
           | Some locks \<Rightarrow> collect_conflict_process_owners locks (wait_type w) (wait_start w) (wait_end w) p))"

definition enqueue_record_lock_waiter :: "lock_key \<Rightarrow> nat \<Rightarrow> lock_state \<Rightarrow> lock_state" where
  "enqueue_record_lock_waiter key task s =
     (let queue = (case btm_get (lock_waiters s) key of None \<Rightarrow> [] | Some q \<Rightarrow> q)
      in s\<lparr>lock_waiters := btm_insert key (if task \<in> set queue then queue else queue @ [task]) (lock_waiters s)\<rparr>)"

definition remove_record_lock_waiter :: "lock_key \<Rightarrow> nat \<Rightarrow> lock_state \<Rightarrow> lock_state" where
  "remove_record_lock_waiter key task s =
     (case btm_get (lock_waiters s) key of
        None \<Rightarrow> s
      | Some queue \<Rightarrow>
          let q = filter (\<lambda>t. t \<noteq> task) queue
          in s\<lparr>lock_waiters := if q = [] then btm_remove key (lock_waiters s) else btm_insert key q (lock_waiters s)\<rparr>)"

definition take_record_lock_waiters :: "lock_key \<Rightarrow> lock_state \<Rightarrow> nat list \<times> lock_state" where
  "take_record_lock_waiters key s =
     ((case btm_get (lock_waiters s) key of None \<Rightarrow> [] | Some q \<Rightarrow> q),
      s\<lparr>lock_waiters := btm_remove key (lock_waiters s)\<rparr>)"

text \<open>\<open>put_locks\<close> is \<open>get_mut\<close> followed by the removal of an empty entry.\<close>

definition put_locks :: "lock_key \<Rightarrow> record_lock list \<Rightarrow> lock_state \<Rightarrow> lock_state" where
  "put_locks key locks s =
     s\<lparr>record_locks := if locks = [] then btm_remove key (record_locks s) else btm_insert key locks (record_locks s)\<rparr>"

text \<open>The critical sections on \<open>RECORD_LOCKS\<close> of the release of locks. Part of the result are the files
  whose waiters are woken after the section, by \<open>wake_record_lock_waiters\<close>.\<close>

definition remove_process_record_locks_for_key :: "pid \<Rightarrow> lock_key \<Rightarrow> lock_state \<Rightarrow> lock_key list \<times> lock_state" where
  "remove_process_record_locks_for_key owner_pid key s =
     (case btm_get (record_locks s) key of
        None \<Rightarrow> ([], s)
      | Some locks \<Rightarrow>
          let kept = filter (\<lambda>l. lock_owner l \<noteq> Process owner_pid) locks;
              s' = put_locks key kept s
          in (if length kept \<noteq> length locks then [key] else [], s'))"

fun release_keys :: "pid \<Rightarrow> lock_key list \<Rightarrow> lock_state \<Rightarrow> lock_key list \<times> lock_state" where
  "release_keys owner_pid [] s = ([], s)"
| "release_keys owner_pid (key # ks) s =
     (case btm_get (record_locks s) key of
        None \<Rightarrow> release_keys owner_pid ks s
      | Some locks \<Rightarrow>
          let kept = filter (\<lambda>l. lock_owner_pid l \<noteq> owner_pid) locks;
              (changed, s') = release_keys owner_pid ks (put_locks key kept s)
          in (if length kept \<noteq> length locks then key # changed else changed, s'))"

definition release_all_record_locks_for_owner :: "pid \<Rightarrow> lock_state \<Rightarrow> lock_key list \<times> lock_state" where
  "release_all_record_locks_for_owner owner_pid s = release_keys owner_pid (map fst (record_locks s)) s"

section \<open>Deadlock detection\<close>

definition lock_owners :: "lock_state \<Rightarrow> pid set" where
  "lock_owners s = {p. \<exists>(key, locks)\<in>set (record_locks s). \<exists>l\<in>set locks. lock_owner l = Process p}"

lemma finite_lock_owners: "finite (lock_owners s)"
proof -
  have "lock_owners s \<subseteq> (\<Union>(key, locks)\<in>set (record_locks s). (\<lambda>l. case lock_owner l of Process p \<Rightarrow> p | OpenFile n \<Rightarrow> n) ` set locks)"
    by (force simp: lock_owners_def)
  then show ?thesis by (rule finite_subset) auto
qed

lemma set_conflict_owners:
  "set (collect_conflict_process_owners locks t a e p) =
     {q. \<exists>l\<in>set locks. lock_conflicts t a e (Process p) l \<and> lock_owner l = Process q}"
proof -
  have "set (fold (\<lambda>lock owners. if lock_conflicts t a e (Process p) lock
       then (case lock_owner lock of Process p \<Rightarrow> bts_insert p owners | OpenFile _ \<Rightarrow> owners) else owners) locks acc) =
     set acc \<union> {q. \<exists>l\<in>set locks. lock_conflicts t a e (Process p) l \<and> lock_owner l = Process q}" for acc
    by (induction locks arbitrary: acc) (auto split: record_lock_owner.splits)
  then show ?thesis by (simp add: collect_conflict_process_owners_def)
qed

lemma blockers_owners: "set (blockers s p) \<subseteq> lock_owners s"
  by (auto simp: blockers_def set_conflict_owners lock_owners_def split: option.splits dest!: btm_get_in_set [OF sym])

text \<open>What the search may still visit; it shrinks, or the stack does.\<close>

definition search_space :: "lock_state \<Rightarrow> pid list \<Rightarrow> pid list \<Rightarrow> pid set" where
  "search_space s st v = (lock_owners s \<union> set st) - set v"

lemma finite_search_space: "finite (search_space s st v)"
  using finite_lock_owners [of s] by (simp add: search_space_def)

lemma search_pop: "card (search_space s rest v) \<le> card (search_space s (p # rest) v)"
  by (rule card_mono [OF finite_search_space]) (auto simp: search_space_def)

lemma search_push:
  "p \<notin> set v \<Longrightarrow> card (search_space s (rev (filter (\<lambda>q. q \<notin> set (bts_insert p v)) (blockers s p)) @ rest) (bts_insert p v)) <
    card (search_space s (p # rest) v)"
  by (rule psubset_card_mono [OF finite_search_space]) (use blockers_owners [of s p] in \<open>auto simp: search_space_def\<close>)

text \<open>The depth-first search of \<open>detect_record_lock_deadlock\<close>; the head of the list is the top of the
  stack.\<close>

function deadlock_search :: "lock_state \<Rightarrow> pid \<Rightarrow> pid list \<Rightarrow> pid list \<Rightarrow> bool" where
  "deadlock_search s waiter stack visited =
     (case stack of
        [] \<Rightarrow> False
      | p # rest \<Rightarrow>
          if p = waiter then True
          else if p \<in> set visited then deadlock_search s waiter rest visited
          else deadlock_search s waiter
            (rev (filter (\<lambda>q. q \<notin> set (bts_insert p visited)) (blockers s p)) @ rest) (bts_insert p visited))"
  by auto
termination
proof (relation "measures [\<lambda>(s, w, st, v). card (search_space s st v), \<lambda>(s, w, st, v). length st]", goal_cases)
  case (2 s w st v p rest)
  then show ?case using search_pop [of s rest v p] by auto
next
  case (3 s w st v p rest)
  then show ?case using search_push [of p v s rest] by simp
qed simp

declare deadlock_search.simps [simp del]

text \<open>\<open>conflict_owners.to_vec()\<close> is popped from its end.\<close>

definition detect_record_lock_deadlock :: "lock_state \<Rightarrow> pid \<Rightarrow> pid list \<Rightarrow> bool" where
  "detect_record_lock_deadlock s waiter_pid conflict_owners =
     deadlock_search s waiter_pid (rev conflict_owners) []"

section \<open>The lock commands of \<open>fcntl\<close>\<close>

record fcntl_flock =
  l_type :: int
  l_whence :: int
  l_start :: int
  l_len :: int
  l_pid :: int

text \<open>What the commands read of an open file: its inode key if it has one, the identity of the open
  file description, its access mode, offset and size.\<close>

record lock_file =
  lf_key :: "lock_key option"
  lf_id :: nat
  lf_readable :: bool
  lf_writable :: bool
  lf_offset :: nat
  lf_size :: nat

definition i64_of_nat :: "nat \<Rightarrow> syscall_error + int" where
  "i64_of_nat n = (if int n \<le> I64_MAX then Inr (int n) else Inl EOVERFLOW)"

definition flock_base :: "lock_file \<Rightarrow> int \<Rightarrow> syscall_error + int" where
  "flock_base file whence =
     (if whence = 0 then Inr 0
      else if whence = 1 then (if lf_key file = None then Inl EINVAL else i64_of_nat (lf_offset file))
      else if whence = 2 then (if lf_key file = None then Inl EINVAL else i64_of_nat (lf_size file))
      else Inl EINVAL)"

definition lock_range_from_flock :: "lock_file \<Rightarrow> fcntl_flock \<Rightarrow> syscall_error + (int \<times> int option)" where
  "lock_range_from_flock file fl =
     rbind (flock_base file (l_whence fl)) (\<lambda>base.
     rbind (ok_or EOVERFLOW (checked_add_i64 base (l_start fl))) (\<lambda>start.
       if start < 0 then Inl EINVAL
       else if l_len fl > 0 then
         rbind (ok_or EOVERFLOW (checked_add_i64 start (l_len fl - 1))) (\<lambda>e. Inr (start, Some e))
       else if l_len fl = 0 then Inr (start, None)
       else
         rbind (ok_or EOVERFLOW (checked_add_i64 start (l_len fl))) (\<lambda>neg_start.
         rbind (ok_or EOVERFLOW (checked_sub_i64 start 1)) (\<lambda>e.
           if neg_start < 0 then Inl EINVAL else Inr (neg_start, Some e)))))"

definition owner_of :: "bool \<Rightarrow> pid \<Rightarrow> lock_file \<Rightarrow> record_lock_owner" where
  "owner_of is_ofd p file = (if is_ofd then OpenFile (lf_id file) else Process p)"

text \<open>The checks before any table is touched: the key, the owner and the range of the request.\<close>

definition lock_request ::
  "bool \<Rightarrow> pid \<Rightarrow> lock_file \<Rightarrow> fcntl_flock \<Rightarrow> syscall_error + (lock_key \<times> record_lock_owner \<times> int \<times> int option)" where
  "lock_request is_ofd p file fl =
     (if is_ofd \<and> l_pid fl \<noteq> 0 then Inl EINVAL
      else rbind (ok_or EINVAL (lf_key file)) (\<lambda>key.
        rbind (lock_range_from_flock file fl) (\<lambda>(start, e).
          if l_type fl = F_RDLCK then
            (if \<not> lf_readable file then Inl EBADF else Inr (key, owner_of is_ofd p file, start, e))
          else if l_type fl = F_WRLCK then
            (if \<not> lf_writable file then Inl EBADF else Inr (key, owner_of is_ofd p file, start, e))
          else if l_type fl = F_UNLCK then Inr (key, owner_of is_ofd p file, start, e)
          else Inl EINVAL)))"

definition locks_of :: "lock_state \<Rightarrow> lock_key \<Rightarrow> record_lock list" where
  "locks_of s key = (case btm_get (record_locks s) key of None \<Rightarrow> [] | Some ls \<Rightarrow> ls)"

definition fcntl_getlk :: "lock_state \<Rightarrow> lock_key \<Rightarrow> record_lock_owner \<Rightarrow> int \<Rightarrow> int option \<Rightarrow> fcntl_flock \<Rightarrow> fcntl_flock" where
  "fcntl_getlk s key owner start e fl =
     (case Option.bind (btm_get (record_locks s) key) (\<lambda>locks. first_conflicting_lock locks (l_type fl) start e owner) of
        Some lock \<Rightarrow>
          fl\<lparr>l_type := lock_type lock, l_whence := 0, l_start := lock_start lock,
             l_len := (case lock_end lock of
                Some le \<Rightarrow> saturating_add_i64 (saturating_add_i64 le (- lock_start lock)) 1 | None \<Rightarrow> 0),
             l_pid := (case lock_owner lock of Process p \<Rightarrow> sint (of_nat p :: i32) | OpenFile _ \<Rightarrow> - 1)\<rparr>
      | None \<Rightarrow> fl\<lparr>l_type := F_UNLCK\<rparr>)"

definition conflict_exists :: "record_lock list \<Rightarrow> record_lock_owner \<Rightarrow> int \<Rightarrow> int \<Rightarrow> int option \<Rightarrow> bool" where
  "conflict_exists locks owner t start e \<longleftrightarrow> list_ex (lock_conflicts t start e owner) locks"

text \<open>A checked request to change the locks.\<close>

record lock_req =
  rq_ofd :: bool
  rq_key :: lock_key
  rq_owner :: record_lock_owner
  rq_pid :: pid
  rq_type :: int
  rq_start :: int
  rq_end :: "int option"

definition req_conflicts :: "lock_req \<Rightarrow> lock_state \<Rightarrow> bool" where
  "req_conflicts r s \<longleftrightarrow> conflict_exists (locks_of s (rq_key r)) (rq_owner r) (rq_type r) (rq_start r) (rq_end r)"

text \<open>The critical section of an attempt: without a conflict the request is applied; the result tells
  whether the locks changed, so that the tasks waiting on the file have to be woken.\<close>

definition setlk_section :: "lock_req \<Rightarrow> lock_state \<Rightarrow> (bool \<times> lock_state) option" where
  "setlk_section r s =
     (if req_conflicts r s then None
      else
        let (changed, locks') = apply_record_lock_for_owner (locks_of s (rq_key r)) (rq_owner r) (rq_pid r)
              (rq_type r) (rq_start r) (rq_end r)
        in Some (changed, put_locks (rq_key r) locks' s))"

definition clear_unless_ofd :: "lock_req \<Rightarrow> lock_state \<Rightarrow> lock_state" where
  "clear_unless_ofd r s = (if rq_ofd r then s else clear_record_lock_waiting (rq_pid r) s)"

text \<open>\<open>F_SETLK\<close> and \<open>F_OFD_SETLK\<close> run without interruption: the loop ends in its first round. The tasks
  woken are part of the result.\<close>

definition fcntl_setlk :: "lock_req \<Rightarrow> lock_state \<Rightarrow> int \<times> nat list \<times> lock_state" where
  "fcntl_setlk r s =
     (let s0 = clear_unless_ofd r s in
      case setlk_section r s0 of
        None \<Rightarrow> (err EAGAIN, [], clear_unless_ofd r s0)
      | Some (changed, s1) \<Rightarrow>
          let (woken, s2) = (if changed then take_record_lock_waiters (rq_key r) s1 else ([], s1))
          in (0, woken, clear_unless_ofd r s2))"

text \<open>The four commands as they interleave with other tasks: between two points of the loop lies one
  critical section of \<open>RECORD_LOCKS\<close>, \<open>RECORD_LOCK_BLOCKED\<close> or \<open>RECORD_LOCK_WAITERS\<close>, or a look at the signals.
  \<open>Lk_remove\<close> and \<open>Lk_clear\<close> are the clean-up, which is followed by another round, by the end of the loop
  or by the return.\<close>

datatype setlk_next = Lk_again | Lk_break int | Lk_return int

datatype setlk_pc = Lk_start | Lk_try | Lk_check "pid list" | Lk_mark | Lk_enqueue | Lk_recheck | Lk_block | Lk_asleep
  | Lk_remove setlk_next | Lk_clear setlk_next | Lk_returned int

text \<open>After the loop the waiter is removed from the queue if there is a \<open>waiter_task\<close>.\<close>

definition setlk_finish :: "nat option \<Rightarrow> int \<Rightarrow> setlk_pc" where
  "setlk_finish task ret = (case task of None \<Rightarrow> Lk_clear (Lk_return ret) | Some _ \<Rightarrow> Lk_remove (Lk_return ret))"

text \<open>The files in the result are those whose waiters the task wakes next.\<close>

definition setlk_step ::
  "bool \<Rightarrow> lock_req \<Rightarrow> nat option \<Rightarrow> bool \<Rightarrow> setlk_pc \<Rightarrow> lock_state \<Rightarrow> setlk_pc \<times> lock_key list \<times> lock_state" where
  "setlk_step blocking r task signal pc s =
     (case pc of
        Lk_start \<Rightarrow> (Lk_try, [], clear_unless_ofd r s)
      | Lk_try \<Rightarrow>
          (case setlk_section r s of
             Some (changed, s') \<Rightarrow> (setlk_finish task 0, if changed then [rq_key r] else [], s')
           | None \<Rightarrow>
               if \<not> blocking then (setlk_finish task (err EAGAIN), [], s)
               else (Lk_check (if rq_ofd r then [] else collect_conflict_process_owners (locks_of s (rq_key r))
                       (rq_type r) (rq_start r) (rq_end r) (rq_pid r)), [], s))
      | Lk_check conflict_owners \<Rightarrow>
          if \<not> rq_ofd r \<and> detect_record_lock_deadlock s (rq_pid r) conflict_owners
          then (setlk_finish task (err EDEADLK), [], s)
          else (case task of None \<Rightarrow> (setlk_finish task (err EACCES), [], s) | Some _ \<Rightarrow> (Lk_mark, [], s))
      | Lk_mark \<Rightarrow>
          (Lk_enqueue, [], if rq_ofd r then s else set_record_lock_waiting (rq_pid r)
             \<lparr>wait_key = rq_key r, wait_type = rq_type r, wait_start = rq_start r, wait_end = rq_end r\<rparr> s)
      | Lk_enqueue \<Rightarrow>
          (Lk_recheck, [], case task of None \<Rightarrow> s | Some tk \<Rightarrow> enqueue_record_lock_waiter (rq_key r) tk s)
      | Lk_recheck \<Rightarrow> (if req_conflicts r s then Lk_block else Lk_remove Lk_again, [], s)
      | Lk_block \<Rightarrow> (if signal then Lk_remove (Lk_break (err EINTR)) else Lk_asleep, [], s)
      | Lk_asleep \<Rightarrow> (if signal then Lk_remove (Lk_break (err EINTR)) else Lk_try, [], s)
      | Lk_remove nxt \<Rightarrow>
          (Lk_clear nxt, [], case task of None \<Rightarrow> s | Some tk \<Rightarrow> remove_record_lock_waiter (rq_key r) tk s)
      | Lk_clear nxt \<Rightarrow>
          ((case nxt of Lk_again \<Rightarrow> Lk_try | Lk_break ret \<Rightarrow> setlk_finish task ret | Lk_return ret \<Rightarrow> Lk_returned ret),
           [], clear_unless_ofd r s)
      | Lk_returned ret \<Rightarrow> (Lk_returned ret, [], s))"

text \<open>The commands from the user's arguments: \<open>fl\<close> is what was read at the address, \<open>writable\<close> whether
  the answer of \<open>F_GETLK\<close> can be written there.\<close>

definition make_req :: "bool \<Rightarrow> pid \<Rightarrow> fcntl_flock \<Rightarrow> lock_key \<times> record_lock_owner \<times> int \<times> int option \<Rightarrow> lock_req" where
  "make_req is_ofd p fl q = (case q of (key, owner, start, e) \<Rightarrow>
     \<lparr>rq_ofd = is_ofd, rq_key = key, rq_owner = owner, rq_pid = p, rq_type = l_type fl, rq_start = start, rq_end = e\<rparr>)"

definition fcntl_lock_args ::
  "bool \<Rightarrow> pid \<Rightarrow> lock_file option \<Rightarrow> fcntl_flock option \<Rightarrow> syscall_error + (fcntl_flock \<times> lock_req)" where
  "fcntl_lock_args is_ofd p file fl =
     rbind (ok_or EBADF file) (\<lambda>f. rbind (ok_or EFAULT fl) (\<lambda>v.
       rbind (lock_request is_ofd p f v) (\<lambda>q. Inr (v, make_req is_ofd p v q))))"

definition syscall_fcntl_getlk ::
  "bool \<Rightarrow> pid \<Rightarrow> lock_file option \<Rightarrow> fcntl_flock option \<Rightarrow> bool \<Rightarrow> lock_state \<Rightarrow> int \<times> fcntl_flock option" where
  "syscall_fcntl_getlk is_ofd p file fl writable s =
     (case fcntl_lock_args is_ofd p file fl of
        Inl e \<Rightarrow> (err e, None)
      | Inr (v, r) \<Rightarrow>
          if writable then (0, Some (fcntl_getlk s (rq_key r) (rq_owner r) (rq_start r) (rq_end r) v))
          else (err EFAULT, None))"

definition syscall_fcntl_setlk ::
  "bool \<Rightarrow> pid \<Rightarrow> lock_file option \<Rightarrow> fcntl_flock option \<Rightarrow> lock_state \<Rightarrow> int \<times> nat list \<times> lock_state" where
  "syscall_fcntl_setlk is_ofd p file fl s =
     (case fcntl_lock_args is_ofd p file fl of
        Inl e \<Rightarrow> (err e, [], s)
      | Inr (v, r) \<Rightarrow> fcntl_setlk r s)"

section \<open>\<open>flock\<close> and leases\<close>

definition LOCK_SH :: usize where "LOCK_SH = 1"
definition LOCK_EX :: usize where "LOCK_EX = 2"
definition LOCK_NB :: usize where "LOCK_NB = 4"
definition LOCK_UN :: usize where "LOCK_UN = 8"

definition put_flocks :: "lock_key \<Rightarrow> flock_lock list \<Rightarrow> lock_state \<Rightarrow> lock_state" where
  "put_flocks key locks s =
     s\<lparr>flock_locks := if locks = [] then btm_remove key (flock_locks s) else btm_insert key locks (flock_locks s)\<rparr>"

definition flocks_of :: "lock_state \<Rightarrow> lock_key \<Rightarrow> flock_lock list" where
  "flocks_of s key = (case btm_get (flock_locks s) key of None \<Rightarrow> [] | Some ls \<Rightarrow> ls)"

definition syscall_flock :: "lock_file option \<Rightarrow> usize \<Rightarrow> lock_state \<Rightarrow> int \<times> lock_state" where
  "syscall_flock file operation s =
     (if operation AND NOT (LOCK_SH OR LOCK_EX OR LOCK_NB OR LOCK_UN) \<noteq> 0 \<or>
         (operation AND LOCK_UN \<noteq> 0 \<and> operation AND (LOCK_SH OR LOCK_EX) \<noteq> 0) \<or>
         operation AND (LOCK_SH OR LOCK_EX) = LOCK_SH OR LOCK_EX
      then (err EINVAL, s)
      else case file of
        None \<Rightarrow> (err EBADF, s)
      | Some f \<Rightarrow>
          (case lf_key f of
             None \<Rightarrow> (err EINVAL, s)
           | Some key \<Rightarrow>
               let owner = lf_id f; locks = flocks_of s key; others = filter (\<lambda>l. flock_owner l \<noteq> owner) locks in
               if operation AND LOCK_UN \<noteq> 0 then (0, put_flocks key others s)
               else
                 let exclusive = (operation AND LOCK_EX \<noteq> 0) in
                 if list_ex (\<lambda>l. flock_owner l \<noteq> owner \<and> (exclusive \<or> flock_exclusive l)) locks
                 then (err EAGAIN, s)
                 else (0, put_flocks key (others @ [\<lparr>flock_owner = owner, flock_exclusive = exclusive\<rparr>]) s)))"

definition remove_owner_file_lease_for_key :: "pid \<Rightarrow> lock_key \<Rightarrow> lock_state \<Rightarrow> lock_state" where
  "remove_owner_file_lease_for_key owner_pid key s =
     (case btm_get (file_leases s) key of
        Some lease \<Rightarrow>
          if lease_owner_pid lease = owner_pid then s\<lparr>file_leases := btm_remove key (file_leases s)\<rparr> else s
      | None \<Rightarrow> s)"

text \<open>The descriptor tables of all processes: an identity and the keys of the open files of each.\<close>

fun count_open_fds_for_key :: "lock_key \<Rightarrow> nat list \<Rightarrow> (nat \<times> lock_key option list) list \<Rightarrow> nat" where
  "count_open_fds_for_key key seen [] = 0"
| "count_open_fds_for_key key seen ((table, fs) # ts) =
     (if table \<in> set seen then count_open_fds_for_key key seen ts
      else length (filter (\<lambda>k. k = Some key) fs) + count_open_fds_for_key key (bts_insert table seen) ts)"

definition set_file_lease ::
  "(nat \<times> lock_key option list) list \<Rightarrow> lock_key \<Rightarrow> pid \<Rightarrow> int \<Rightarrow> lock_file \<Rightarrow> lock_state \<Rightarrow> int \<times> lock_state" where
  "set_file_lease tables key owner_pid ty file s =
     (if ty \<noteq> F_RDLCK \<and> ty \<noteq> F_WRLCK \<and> ty \<noteq> F_UNLCK then (err EINVAL, s)
      else if ty = F_UNLCK then
        (case btm_get (file_leases s) key of
           Some lease \<Rightarrow>
             if lease_owner_pid lease \<noteq> owner_pid then (err EAGAIN, s)
             else (0, s\<lparr>file_leases := btm_remove key (file_leases s)\<rparr>)
         | None \<Rightarrow> (0, s))
      else if (case btm_get (file_leases s) key of
           Some lease \<Rightarrow> lease_owner_pid lease \<noteq> owner_pid \<or> pending_break_write lease | None \<Rightarrow> False)
      then (err EAGAIN, s)
      else if ty = F_RDLCK \<and> (\<not> lf_readable file \<or> lf_writable file) then (err EAGAIN, s)
      else if ty = F_WRLCK \<and> count_open_fds_for_key key [] tables > 1 then (err EBUSY, s)
      else (0, s\<lparr>file_leases := btm_insert key
             \<lparr>lease_owner_pid = owner_pid, lease_type = ty, pending_break_write = False\<rparr> (file_leases s)\<rparr>))"

definition get_file_lease_type :: "lock_key \<Rightarrow> pid \<Rightarrow> lock_state \<Rightarrow> int" where
  "get_file_lease_type key owner_pid s =
     (case btm_get (file_leases s) key of
        Some lease \<Rightarrow> if lease_owner_pid lease = owner_pid then lease_type lease else 2
      | None \<Rightarrow> 2)"

text \<open>The holder to be signalled with \<open>SIGIO\<close>, if any.\<close>

definition maybe_signal_lease_break :: "lock_key \<Rightarrow> bool \<Rightarrow> bool \<Rightarrow> pid \<Rightarrow> lock_state \<Rightarrow> pid option \<times> lock_state" where
  "maybe_signal_lease_break key open_write truncate_op breaker_pid s =
     (case btm_get (file_leases s) key of
        None \<Rightarrow> (None, s)
      | Some lease \<Rightarrow>
          if lease_owner_pid lease = breaker_pid then (None, s)
          else if lease_type lease = F_WRLCK \<or> (lease_type lease = F_RDLCK \<and> (open_write \<or> truncate_op)) then
            (Some (lease_owner_pid lease),
             if lease_type lease = F_RDLCK \<or> open_write \<or> truncate_op
             then s\<lparr>file_leases := btm_insert key (lease\<lparr>pending_break_write := True\<rparr>) (file_leases s)\<rparr> else s)
          else (None, s))"

definition release_all_file_leases_for_owner :: "pid \<Rightarrow> lock_state \<Rightarrow> lock_state" where
  "release_all_file_leases_for_owner owner_pid s =
     s\<lparr>file_leases := filter (\<lambda>(k, lease). lease_owner_pid lease \<noteq> owner_pid) (file_leases s)\<rparr>"

section \<open>The search decides reachability\<close>

definition waits_for :: "lock_state \<Rightarrow> (pid \<times> pid) set" where
  "waits_for s = {(p, q). q \<in> set (blockers s p)}"

lemma finite_waits_for: "finite (waits_for s)"
proof -
  have "waits_for s \<subseteq> set (map fst (lock_blocked s)) \<times> lock_owners s"
  proof
    fix x assume "x \<in> waits_for s"
    then obtain p q where x: "x = (p, q)" and q: "q \<in> set (blockers s p)" by (auto simp: waits_for_def)
    then obtain w where "btm_get (lock_blocked s) p = Some w" by (cases "btm_get (lock_blocked s) p") (simp_all add: blockers_def)
    then have "p \<in> set (map fst (lock_blocked s))" by (force dest: btm_get_in_set)
    then show "x \<in> set (map fst (lock_blocked s)) \<times> lock_owners s" using q blockers_owners [of s p] x by auto
  qed
  then show ?thesis by (rule finite_subset) (simp add: finite_lock_owners)
qed

lemma reach_leaves:
  assumes "(a, w) \<in> (waits_for s)\<^sup>*" and "a \<in> V" and "w \<notin> V"
    and "\<And>b. b \<in> V \<Longrightarrow> set (blockers s b) \<subseteq> V \<union> R"
  shows "\<exists>q\<in>R. (q, w) \<in> (waits_for s)\<^sup>*"
  using assms(1,2)
proof (induction rule: converse_rtrancl_induct)
  case base
  then show ?case using assms(3) by simp
next
  case (step y z)
  then have "z \<in> V \<union> R" using assms(4) [of y] by (auto simp: waits_for_def)
  then show ?case using step by blast
qed

lemma deadlock_search_iff:
  assumes "w \<notin> set v" and "\<And>b. b \<in> set v \<Longrightarrow> set (blockers s b) \<subseteq> set v \<union> set st"
  shows "deadlock_search s w st v \<longleftrightarrow> w \<in> (waits_for s)\<^sup>* `` set st"
  using assms
proof (induction s w st v rule: deadlock_search.induct)
  case (1 s w st v)
  show ?case
  proof (cases st)
    case Nil
    then show ?thesis by (simp add: deadlock_search.simps)
  next
    case (Cons p rest)
    let ?new = "rev (filter (\<lambda>q. q \<notin> set (bts_insert p v)) (blockers s p)) @ rest"
    consider (hit) "p = w" | (seen) "p \<noteq> w" "p \<in> set v" | (fresh) "p \<noteq> w" "p \<notin> set v" by blast
    then show ?thesis
    proof cases
      case hit
      then show ?thesis using Cons by (auto simp: deadlock_search.simps [of s w])
    next
      case seen
      have cl: "set (blockers s b) \<subseteq> set v \<union> set rest" if "b \<in> set v" for b
        using "1.prems"(2) [OF that] seen(2) Cons by auto
      have "w \<in> (waits_for s)\<^sup>* `` set st \<longleftrightarrow> w \<in> (waits_for s)\<^sup>* `` set rest"
        using reach_leaves [of p w s "set v" "set rest"] seen(2) "1.prems"(1) cl Cons by auto
      then show ?thesis using "1.IH"(1) [OF Cons seen "1.prems"(1) cl] seen Cons
        by (simp add: deadlock_search.simps [of s w "p # rest" v])
    next
      case fresh
      have w: "w \<notin> set (bts_insert p v)" using "1.prems"(1) fresh by simp
      have cl: "set (blockers s b) \<subseteq> set (bts_insert p v) \<union> set ?new" if "b \<in> set (bts_insert p v)" for b
        using that "1.prems"(2) [of b] Cons by auto
      have "w \<in> (waits_for s)\<^sup>* `` set st \<longleftrightarrow> w \<in> (waits_for s)\<^sup>* `` set ?new"
      proof
        assume "w \<in> (waits_for s)\<^sup>* `` set st"
        then obtain a where a: "a \<in> set st" "(a, w) \<in> (waits_for s)\<^sup>*" by auto
        show "w \<in> (waits_for s)\<^sup>* `` set ?new"
        proof (cases "a = p")
          case True
          then show ?thesis using reach_leaves [OF a(2), of "set (bts_insert p v)" "set ?new"] w cl by auto
        next
          case False
          then show ?thesis using a Cons by auto
        qed
      next
        assume "w \<in> (waits_for s)\<^sup>* `` set ?new"
        then obtain a where a: "a \<in> set ?new" "(a, w) \<in> (waits_for s)\<^sup>*" by blast
        have "a \<in> set rest \<or> (p, a) \<in> waits_for s" using a(1) by (auto simp: waits_for_def)
        then show "w \<in> (waits_for s)\<^sup>* `` set st" using a(2) Cons by (auto intro: converse_rtrancl_into_rtrancl)
      qed
      then show ?thesis using "1.IH"(2) [OF Cons fresh w cl] fresh Cons
        by (simp add: deadlock_search.simps [of s w "p # rest" v])
    qed
  qed
qed

lemma detect_deadlock_iff:
  "detect_record_lock_deadlock s w owners \<longleftrightarrow> w \<in> (waits_for s)\<^sup>* `` set owners"
  using deadlock_search_iff [of w "[]" s "rev owners"] by (simp add: detect_record_lock_deadlock_def)

section \<open>The meaning of a list of locks\<close>

definition covers :: "int \<Rightarrow> int option \<Rightarrow> int \<Rightarrow> bool" where
  "covers start e off \<longleftrightarrow> start \<le> off \<and> (case e of None \<Rightarrow> True | Some x \<Rightarrow> off \<le> x)"

definition holds :: "record_lock list \<Rightarrow> record_lock_owner \<Rightarrow> int \<Rightarrow> int \<Rightarrow> bool" where
  "holds locks o' off t \<longleftrightarrow>
     (\<exists>l\<in>set locks. lock_owner l = o' \<and> lock_type l = t \<and> covers (lock_start l) (lock_end l) off)"

definition range_ok :: "int \<Rightarrow> int option \<Rightarrow> bool" where
  "range_ok start e \<longleftrightarrow> 0 \<le> start \<and> start \<le> I64_MAX \<and>
     (case e of None \<Rightarrow> True | Some x \<Rightarrow> start \<le> x \<and> x \<le> I64_MAX)"

definition lock_ok :: "record_lock \<Rightarrow> bool" where
  "lock_ok l \<longleftrightarrow> (lock_type l = F_RDLCK \<or> lock_type l = F_WRLCK) \<and> range_ok (lock_start l) (lock_end l)"

lemma I64_MAX_less: "I64_MAX < 2 ^ 127 - 1" by (simp add: I64_MAX_def)

lemma overlap_iff:
  assumes "range_ok a e" and "range_ok b f"
  shows "lock_ranges_overlap a e b f \<longleftrightarrow> (\<exists>off. 0 \<le> off \<and> off \<le> I64_MAX \<and> covers a e off \<and> covers b f off)"
proof
  assume "lock_ranges_overlap a e b f"
  then show "\<exists>off. 0 \<le> off \<and> off \<le> I64_MAX \<and> covers a e off \<and> covers b f off"
    using assms by (intro exI [of _ "max a b"])
      (auto simp: lock_ranges_overlap_def range_end_i128_def range_ok_def covers_def split: option.splits)
next
  assume "\<exists>off. 0 \<le> off \<and> off \<le> I64_MAX \<and> covers a e off \<and> covers b f off"
  then show "lock_ranges_overlap a e b f"
    using assms I64_MAX_less
    by (auto simp: lock_ranges_overlap_def range_end_i128_def range_ok_def covers_def split: option.splits)
qed

lemma holds_Nil [simp]: "\<not> holds [] o' off t" by (simp add: holds_def)

lemma holds_Cons: "holds (l # ls) o' off t \<longleftrightarrow>
    lock_owner l = o' \<and> lock_type l = t \<and> covers (lock_start l) (lock_end l) off \<or> holds ls o' off t"
  by (auto simp: holds_def)

lemma holds_append [simp]: "holds (ls @ ms) o' off t \<longleftrightarrow> holds ls o' off t \<or> holds ms o' off t"
  by (auto simp: holds_def)

lemma holds_set: "set ls = set ms \<Longrightarrow> holds ls = holds ms"
  by (auto simp: holds_def fun_eq_iff)

definition starts_sorted :: "record_lock list \<Rightarrow> bool" where
  "starts_sorted = sorted_wrt (\<lambda>l m. lock_owner l = lock_owner m \<longrightarrow> lock_start l \<le> lock_start m)"

lemma covers_merge:
  assumes "range_ok a e" "range_ok b f" "a \<le> b" "ranges_touch_or_overlap_sorted e b"
  shows "covers a (max_range_end e f) off \<longleftrightarrow> covers a e off \<or> covers b f off"
  using assms
  by (auto simp: range_ok_def covers_def max_range_end_def ranges_touch_or_overlap_sorted_def saturating_add_i64_def
    I64_MAX_def max_def split: option.splits if_splits)

lemma range_ok_merge: "range_ok a e \<Longrightarrow> range_ok b f \<Longrightarrow> range_ok a (max_range_end e f)"
  by (auto simp: range_ok_def max_range_end_def split: option.splits)

lemma merge_locks_sound:
  assumes "\<forall>l\<in>set (prev # rest). lock_ok l" and "starts_sorted (prev # rest)"
  shows "holds (merge_locks prev rest) o' off t = holds (prev # rest) o' off t"
    and "\<forall>l\<in>set (merge_locks prev rest). lock_ok l"
  using assms
proof (induction prev rest rule: merge_locks.induct)
  case (2 prev lock rest)
  let ?m = "prev\<lparr>lock_end := max_range_end (lock_end prev) (lock_end lock)\<rparr>"
  let ?c = "lock_owner prev = lock_owner lock \<and> lock_type prev = lock_type lock \<and>
      ranges_touch_or_overlap_sorted (lock_end prev) (lock_start lock)"
  { case 1
    show ?case
    proof (cases ?c)
      case True
      have le: "lock_start prev \<le> lock_start lock" using 1(2) True by (simp add: starts_sorted_def)
      have "holds (merge_locks ?m rest) o' off t = holds (?m # rest) o' off t"
        using 1 True by (intro "2.IH"(1)) (auto simp: lock_ok_def range_ok_merge starts_sorted_def)
      also have "\<dots> = holds (prev # lock # rest) o' off t"
        using covers_merge [of "lock_start prev" "lock_end prev" "lock_start lock" "lock_end lock" off] le 1(1) True
        by (auto simp: holds_Cons lock_ok_def)
      finally show ?thesis using True by simp
    next
      case False
      have "holds (merge_locks lock rest) o' off t = holds (lock # rest) o' off t"
        using 1 by (intro "2.IH"(3) [OF False]) (simp_all add: starts_sorted_def)
      moreover have "merge_locks prev (lock # rest) = prev # merge_locks lock rest" using False by auto
      ultimately show ?thesis by (simp add: holds_Cons [of prev])
    qed
  next
    case 2
    show ?case
    proof (cases ?c)
      case True
      have "\<forall>l\<in>set (merge_locks ?m rest). lock_ok l"
        using 2 True by (intro "2.IH"(2)) (auto simp: lock_ok_def range_ok_merge starts_sorted_def)
      then show ?thesis using True by simp
    next
      case False
      have "\<forall>l\<in>set (merge_locks lock rest). lock_ok l"
        using 2 by (intro "2.IH"(4) [OF False]) (simp_all add: starts_sorted_def)
      moreover have "merge_locks prev (lock # rest) = prev # merge_locks lock rest" using False by auto
      ultimately show ?thesis using 2 by simp
    qed
  }
qed (simp_all add: holds_Cons)

lemma sort_starts_sorted: "starts_sorted (sort_key lock_sort_key ls)"
proof -
  have "sorted_wrt (\<lambda>l m. lock_sort_key l \<le> lock_sort_key m) (sort_key lock_sort_key ls)"
    using sorted_sort_key [of lock_sort_key ls] by (simp add: sorted_map)
  then show ?thesis unfolding starts_sorted_def
    by (rule sorted_wrt_mono_rel [rotated]) (auto simp: lock_sort_key_def less_eq_prod_def)
qed

lemma normalize_sound:
  assumes "\<forall>l\<in>set ls. lock_ok l"
  shows "holds (normalize_record_locks ls) o' off t = holds ls o' off t"
    and "\<forall>l\<in>set (normalize_record_locks ls). lock_ok l"
proof -
  have f: "filter (\<lambda>l. lock_type l \<noteq> F_UNLCK) ls = ls"
    using assms by (auto simp: filter_id_conv lock_ok_def lock_types)
  let ?s = "sort_key lock_sort_key ls"
  have ok: "\<forall>l\<in>set ?s. lock_ok l" using assms by simp
  have h: "holds ?s = holds ls" by (rule holds_set) simp
  show "holds (normalize_record_locks ls) o' off t = holds ls o' off t"
    using merge_locks_sound(1) [of "hd ?s" "tl ?s"] ok sort_starts_sorted [of ls] h
    by (cases ?s) (auto simp: normalize_record_locks_def f)
  show "\<forall>l\<in>set (normalize_record_locks ls). lock_ok l"
    using merge_locks_sound(2) [of "hd ?s" "tl ?s"] ok sort_starts_sorted [of ls]
    by (cases ?s) (auto simp: normalize_record_locks_def f)
qed

section \<open>A request changes exactly its bytes\<close>

definition locks_ok :: "record_lock list \<Rightarrow> bool" where
  "locks_ok ls \<longleftrightarrow> (\<forall>l\<in>set ls. lock_ok l)"

definition byte_ok :: "int \<Rightarrow> bool" where
  "byte_ok off \<longleftrightarrow> 0 \<le> off \<and> off \<le> I64_MAX"

lemma cut_lock_ok: "lock_ok l \<Longrightarrow> range_ok a e \<Longrightarrow> lock_ranges_overlap a e (lock_start l) (lock_end l) \<Longrightarrow>
    x \<in> set (cut_lock a e l) \<Longrightarrow> lock_ok x"
  by (auto simp: cut_lock_def lock_ok_def range_ok_def lock_ranges_overlap_def range_end_i128_def
    split: option.splits if_splits)

lemma cut_lock_holds:
  assumes "lock_ok l" "range_ok a e" "byte_ok off" "lock_ranges_overlap a e (lock_start l) (lock_end l)"
  shows "holds (cut_lock a e l) o' off t \<longleftrightarrow>
     lock_owner l = o' \<and> lock_type l = t \<and> covers (lock_start l) (lock_end l) off \<and> \<not> covers a e off"
  using assms I64_MAX_less
  by (cases e; cases "lock_end l")
    (auto simp: cut_lock_def holds_Cons lock_ok_def range_ok_def covers_def byte_ok_def lock_ranges_overlap_def range_end_i128_def)

definition keep_lock :: "record_lock_owner \<Rightarrow> int \<Rightarrow> int option \<Rightarrow> record_lock \<Rightarrow> record_lock list" where
  "keep_lock owner a e lock =
     (if lock_owner lock \<noteq> owner \<or> \<not> lock_ranges_overlap a e (lock_start lock) (lock_end lock)
      then [lock] else cut_lock a e lock)"

lemma keep_lock_ok: "lock_ok l \<Longrightarrow> range_ok a e \<Longrightarrow> x \<in> set (keep_lock owner a e l) \<Longrightarrow> lock_ok x"
  using cut_lock_ok by (auto simp: keep_lock_def split: if_splits)

lemma keep_lock_holds:
  assumes "lock_ok l" "range_ok a e" "byte_ok off"
  shows "holds (keep_lock owner a e l) o' off t \<longleftrightarrow>
     lock_owner l = o' \<and> lock_type l = t \<and> covers (lock_start l) (lock_end l) off \<and> \<not> (o' = owner \<and> covers a e off)"
proof (cases "lock_owner l = owner \<and> lock_ranges_overlap a e (lock_start l) (lock_end l)")
  case True
  then show ?thesis using cut_lock_holds [OF assms conjunct2 [OF True]] by (auto simp: keep_lock_def)
next
  case False
  have "range_ok (lock_start l) (lock_end l)" using assms(1) by (simp add: lock_ok_def)
  from overlap_iff [OF assms(2) this] False assms(3) show ?thesis
    by (auto simp: keep_lock_def holds_Cons byte_ok_def)
qed

lemma holds_concat: "holds (concat (map f ls)) o' off t \<longleftrightarrow> (\<exists>l\<in>set ls. holds (f l) o' off t)"
  by (auto simp: holds_def)

lemma apply_exact:
  assumes "locks_ok ls" "range_ok a e" "t = F_RDLCK \<or> t = F_WRLCK \<or> t = F_UNLCK"
  shows "locks_ok (snd (apply_record_lock_for_owner ls owner p t a e))"
    and "byte_ok off \<Longrightarrow> holds (snd (apply_record_lock_for_owner ls owner p t a e)) o' off t' \<longleftrightarrow>
      (if o' = owner \<and> covers a e off then t' = t \<and> t \<noteq> F_UNLCK else holds ls o' off t')"
proof -
  let ?new = "if t \<noteq> F_UNLCK then [\<lparr>lock_owner = owner, lock_owner_pid = p, lock_type = t, lock_start = a, lock_end = e\<rparr>] else []"
  let ?all = "concat (map (keep_lock owner a e) ls) @ ?new"
  have u: "snd (apply_record_lock_for_owner ls owner p t a e) = normalize_record_locks ?all"
    by (simp add: apply_record_lock_for_owner_def Let_def keep_lock_def [abs_def])
  have l: "lock_ok l" if "l \<in> set ls" for l using assms(1) that by (simp add: locks_ok_def)
  have old: "lock_ok x" if "x \<in> set (concat (map (keep_lock owner a e) ls))" for x
    using that keep_lock_ok [OF l assms(2)] by auto
  have "lock_ok x" if "x \<in> set ?new" for x using that assms(2,3) by (auto simp: lock_ok_def split: if_splits)
  with old have ok: "\<forall>l\<in>set ?all. lock_ok l" unfolding set_append by blast
  then show "locks_ok (snd (apply_record_lock_for_owner ls owner p t a e))"
    unfolding u locks_ok_def by (rule normalize_sound(2))
  assume b: "byte_ok off"
  have "holds (concat (map (keep_lock owner a e) ls)) o' off t' \<longleftrightarrow> \<not> (o' = owner \<and> covers a e off) \<and> holds ls o' off t'"
    unfolding holds_concat using keep_lock_holds [OF l assms(2) b] by (simp add: holds_def cong: bex_cong) blast
  then show "holds (snd (apply_record_lock_for_owner ls owner p t a e)) o' off t' \<longleftrightarrow>
      (if o' = owner \<and> covers a e off then t' = t \<and> t \<noteq> F_UNLCK else holds ls o' off t')"
    unfolding u normalize_sound(1) [OF ok] by (auto simp: holds_Cons)
qed

text \<open>A request conflicts with what the list holds exactly when another owner has an incompatible
  lock on one of its bytes.\<close>

definition incompatible :: "int \<Rightarrow> int \<Rightarrow> bool" where
  "incompatible t t' \<longleftrightarrow> t = F_WRLCK \<and> (t' = F_RDLCK \<or> t' = F_WRLCK) \<or> t = F_RDLCK \<and> t' = F_WRLCK"

lemma conflict_iff:
  assumes "locks_ok ls" "range_ok a e"
  shows "conflict_exists ls owner t a e \<longleftrightarrow>
    (\<exists>off o' t'. byte_ok off \<and> covers a e off \<and> o' \<noteq> owner \<and> holds ls o' off t' \<and> incompatible t t')"
proof -
  have l: "lock_conflicts t a e owner l \<longleftrightarrow> lock_owner l \<noteq> owner \<and> incompatible t (lock_type l) \<and>
      (\<exists>off. byte_ok off \<and> covers a e off \<and> covers (lock_start l) (lock_end l) off)" if "l \<in> set ls" for l
  proof -
    have "lock_ok l" using that assms(1) by (simp add: locks_ok_def)
    then have "range_ok (lock_start l) (lock_end l)" by (simp add: lock_ok_def)
    from overlap_iff [OF assms(2) this] show ?thesis
      by (auto simp: lock_conflicts_def incompatible_def lock_types byte_ok_def)
  qed
  show ?thesis
    unfolding conflict_exists_def list_ex_iff holds_def using l by blast
qed

text \<open>One owner has at most one type on a byte, and two owners share a byte only by reading.\<close>

definition exclusive_locks :: "record_lock list \<Rightarrow> bool" where
  "exclusive_locks ls \<longleftrightarrow> (\<forall>off o1 o2 t1 t2. byte_ok off \<longrightarrow> holds ls o1 off t1 \<longrightarrow> holds ls o2 off t2 \<longrightarrow>
     (if o1 = o2 then t1 = t2 else \<not> incompatible t1 t2))"

lemma exclusive_apply:
  assumes ok: "locks_ok ls" "range_ok a e" "t = F_RDLCK \<or> t = F_WRLCK \<or> t = F_UNLCK"
    and ex: "exclusive_locks ls" and nc: "\<not> conflict_exists ls owner t a e"
  shows "exclusive_locks (snd (apply_record_lock_for_owner ls owner p t a e))"
proof -
  let ?ls = "snd (apply_record_lock_for_owner ls owner p t a e)"
  have free: "\<not> incompatible t t'" if "byte_ok off" "covers a e off" "o' \<noteq> owner" "holds ls o' off t'" for off o' t'
    using nc conflict_iff [OF ok(1,2)] that by blast
  have sym: "incompatible t1 t2 \<Longrightarrow> t2 = F_RDLCK \<or> t2 = F_WRLCK \<Longrightarrow> incompatible t2 t1" for t1 t2
    by (auto simp: incompatible_def lock_types)
  have "if o1 = o2 then t1 = t2 else \<not> incompatible t1 t2"
    if b: "byte_ok off" and h: "holds ?ls o1 off t1" "holds ?ls o2 off t2" for off o1 o2 t1 t2
  proof -
    note h' = h [unfolded apply_exact(2) [OF ok b]]
    consider "\<not> covers a e off \<or> (o1 \<noteq> owner \<and> o2 \<noteq> owner)" | "covers a e off" "o1 = owner" "o2 = owner"
      | "covers a e off" "o1 = owner" "o2 \<noteq> owner" | "covers a e off" "o1 \<noteq> owner" "o2 = owner" by blast
    then show ?thesis
    proof cases
      case 1
      then have "holds ls o1 off t1" "holds ls o2 off t2" using h' by (auto split: if_splits)
      then show ?thesis using ex b unfolding exclusive_locks_def by blast
    next
      case 2
      then show ?thesis using h' by simp
    next
      case 3
      then show ?thesis using h' free [OF b] by auto
    next
      case 4
      then have "holds ls o1 off t1" "t2 = t" "t \<noteq> F_UNLCK" using h' by auto
      then show ?thesis using 4 free [OF b 4(1,2)] sym [of t1 t] ok(3) by auto
    qed
  qed
  then show ?thesis unfolding exclusive_locks_def by blast
qed

lemma exclusive_mono: "exclusive_locks ls \<Longrightarrow> set ms \<subseteq> set ls \<Longrightarrow> exclusive_locks ms"
  unfolding exclusive_locks_def holds_def by blast

lemma locks_ok_mono: "locks_ok ls \<Longrightarrow> set ms \<subseteq> set ls \<Longrightarrow> locks_ok ms"
  by (auto simp: locks_ok_def)

end
