(* ===== verification/Lock_System.thy ===== *)
theory Lock_System
  imports Record_Locks
begin

text \<open>
  The lock tables of \<open>Record_Locks\<close> under all operations that reach them: a transition system whose
  steps are the critical sections of the \<open>fcntl\<close> lock commands, of the release of locks when a descriptor
  is closed and when a process exits, and of \<open>flock\<close>, interleaved in any order by any number of tasks.
  \<open>proc\<close> gives the process of every task.

  The tables have a lock each, and the code takes them one after the other. Looking for a conflict and
  applying the request, the deadlock check, the registration of the waiting process, the entry in the
  queue of the file, the second look at the locks, the removal from the queue and the removal of the
  registration are separate steps, as are the taking of a queue and every single wake-up after it.
  \<open>ls_wakes\<close> holds for every task the files whose queues it has still to take and the tasks it has still
  to wake. \<open>ls_woken\<close> holds the tasks for which \<open>wakeup_tasks\<close> has been called since they entered the
  queue: the scheduler keeps such a wake-up for a task that has not yet gone to sleep.

  With the parameter \<open>excl\<close> no other task acts while a task is between its failed attempt and the
  registration of its process as waiting. The code gives no such guarantee; two properties need the
  parameter to tell what the deadlock check achieves with it and what happens without it.

  The theory shows that two owners never hold incompatible locks on a byte, that no sleeper whose request
  could be granted is left without a wake-up, and that processes do not wait for one another in a circle
  when the check and the registration are not interrupted, and may do so when they are.
\<close>

section \<open>The transition system\<close>

text \<open>What a task does: a lock command, or the second half of the release at exit.\<close>

datatype lock_call = Setlk bool lock_req setlk_pc | Exiting

record lock_sys =
  ls_state :: lock_state
  ls_calls :: "nat \<Rightarrow> lock_call option"
  ls_wakes :: "nat \<Rightarrow> lock_key list \<times> nat list"
  ls_woken :: "nat set"

definition lock_init :: lock_state where
  "lock_init = \<lparr>record_locks = [], flock_locks = [], lock_waiters = [], lock_blocked = [], file_leases = []\<rparr>"

definition sys_init :: lock_sys where
  "sys_init = \<lparr>ls_state = lock_init, ls_calls = (\<lambda>t. None), ls_wakes = (\<lambda>t. ([], [])), ls_woken = {}\<rparr>"

text \<open>What \<open>lock_request\<close> guarantees of a request of process \<open>p\<close>.\<close>

definition req_ok :: "pid \<Rightarrow> lock_req \<Rightarrow> bool" where
  "req_ok p r \<longleftrightarrow> rq_pid r = p \<and> (rq_type r = F_RDLCK \<or> rq_type r = F_WRLCK \<or> rq_type r = F_UNLCK) \<and>
     range_ok (rq_start r) (rq_end r) \<and>
     (if rq_ofd r then (\<exists>n. rq_owner r = OpenFile n) else rq_owner r = Process p)"

text \<open>The window between the failed attempt and the registration.\<close>

fun in_window :: "lock_call option \<Rightarrow> bool" where
  "in_window (Some (Setlk blocking r (Lk_check owners))) = (\<not> rq_ofd r)"
| "in_window (Some (Setlk blocking r Lk_mark)) = (\<not> rq_ofd r)"
| "in_window c = False"

definition undisturbed :: "bool \<Rightarrow> lock_sys \<Rightarrow> nat \<Rightarrow> bool" where
  "undisturbed excl S t \<longleftrightarrow> (excl \<longrightarrow> (\<forall>u. u \<noteq> t \<longrightarrow> \<not> in_window (ls_calls S u)))"

text \<open>A task acts when it has no wake-ups to finish.\<close>

definition may_act :: "bool \<Rightarrow> lock_sys \<Rightarrow> nat \<Rightarrow> bool" where
  "may_act excl S t \<longleftrightarrow> ls_wakes S t = ([], []) \<and> undisturbed excl S t"

inductive lock_step :: "bool \<Rightarrow> (nat \<Rightarrow> pid) \<Rightarrow> lock_sys \<Rightarrow> lock_sys \<Rightarrow> bool" for excl proc where
  enter: "may_act excl S t \<Longrightarrow> ls_calls S t = None \<Longrightarrow> fcntl_lock_args is_ofd (proc t) fl v = Inr (v', r) \<Longrightarrow>
    lock_step excl proc S (S\<lparr>ls_calls := (ls_calls S)(t \<mapsto> Setlk blocking r Lk_start)\<rparr>)"
| advance: "may_act excl S t \<Longrightarrow> ls_calls S t = Some (Setlk blocking r pc) \<Longrightarrow> pc = Lk_asleep \<longrightarrow> t \<in> ls_woken S \<or> signal \<Longrightarrow>
    setlk_step blocking r (if blocking then Some t else None) signal pc (ls_state S) = (pc', keys, s') \<Longrightarrow>
    lock_step excl proc S (S\<lparr>ls_state := s', ls_calls := (ls_calls S)(t \<mapsto> Setlk blocking r pc'),
      ls_wakes := (ls_wakes S)(t := (keys, [])),
      ls_woken := if pc = Lk_enqueue \<or> pc = Lk_asleep then ls_woken S - {t} else ls_woken S\<rparr>)"
| leave: "may_act excl S t \<Longrightarrow> ls_calls S t = Some (Setlk blocking r (Lk_returned ret)) \<Longrightarrow>
    lock_step excl proc S (S\<lparr>ls_calls := (ls_calls S)(t := None)\<rparr>)"
| take_queue: "ls_wakes S t = (key # keys, []) \<Longrightarrow> take_record_lock_waiters key (ls_state S) = (ts, s') \<Longrightarrow>
    lock_step excl proc S (S\<lparr>ls_state := s', ls_wakes := (ls_wakes S)(t := (keys, ts))\<rparr>)"
| wake_one: "ls_wakes S t = (keys, u # ts) \<Longrightarrow>
    lock_step excl proc S (S\<lparr>ls_wakes := (ls_wakes S)(t := (keys, ts)), ls_woken := insert u (ls_woken S)\<rparr>)"
| close: "may_act excl S t \<Longrightarrow> ls_calls S t = None \<Longrightarrow>
    remove_process_record_locks_for_key (proc t) key (ls_state S) = (keys, s') \<Longrightarrow>
    lock_step excl proc S (S\<lparr>ls_state := s', ls_wakes := (ls_wakes S)(t := (keys, []))\<rparr>)"
| exit_clear: "may_act excl S t \<Longrightarrow> ls_calls S t = None \<Longrightarrow>
    lock_step excl proc S (S\<lparr>ls_state := clear_record_lock_waiting (proc t) (ls_state S),
      ls_calls := (ls_calls S)(t \<mapsto> Exiting)\<rparr>)"
| exit_release: "may_act excl S t \<Longrightarrow> ls_calls S t = Some Exiting \<Longrightarrow>
    release_all_record_locks_for_owner (proc t) (ls_state S) = (keys, s') \<Longrightarrow>
    lock_step excl proc S (S\<lparr>ls_state := s', ls_calls := (ls_calls S)(t := None),
      ls_wakes := (ls_wakes S)(t := (keys, []))\<rparr>)"
| flock: "syscall_flock fl op (ls_state S) = (ret, s') \<Longrightarrow> lock_step excl proc S (S\<lparr>ls_state := s'\<rparr>)"
| drop: "lock_step excl proc S (S\<lparr>ls_state := release_flock_locks_for_owner owner (ls_state S)\<rparr>)"

definition lock_reachable :: "bool \<Rightarrow> (nat \<Rightarrow> pid) \<Rightarrow> lock_sys \<Rightarrow> bool" where
  "lock_reachable excl proc S \<longleftrightarrow> (lock_step excl proc)\<^sup>*\<^sup>* sys_init S"

lemma lock_reachable_induct [consumes 1, case_names init step]:
  assumes "lock_reachable excl proc S" and "P sys_init"
    and "\<And>S S'. P S \<Longrightarrow> lock_step excl proc S S' \<Longrightarrow> P S'"
  shows "P S"
  using assms(1) unfolding lock_reachable_def by (induction rule: rtranclp_induct) (use assms(2,3) in blast)+

section \<open>Requests are well formed\<close>

lemma lock_range_ok:
  assumes "lock_range_from_flock file fl = Inr (a, e)"
  shows "range_ok a e"
proof -
  obtain base where b: "flock_base file (l_whence fl) = Inr base"
    using assms by (cases "flock_base file (l_whence fl)") (auto simp: lock_range_from_flock_def)
  show ?thesis
    using assms b by (auto simp: lock_range_from_flock_def range_ok_def checked_add_i64_def checked_sub_i64_def
      in_i64_def I64_MAX_def ok_or_def split: if_splits)
qed

lemma lock_args_ok:
  assumes "fcntl_lock_args is_ofd p fl v = Inr (v', r)"
  shows "req_ok p r"
proof -
  obtain f q where f: "lock_request is_ofd p f v' = Inr q" and r: "r = make_req is_ofd p v' q"
    using assms by (auto simp: fcntl_lock_args_def rbind_eq_Inr_iff)
  obtain key owner a e where q: "q = (key, owner, a, e)" by (cases q)
  have "range_ok a e \<and> (l_type v' = F_RDLCK \<or> l_type v' = F_WRLCK \<or> l_type v' = F_UNLCK) \<and> owner = owner_of is_ofd p f"
    using f q by (auto simp: lock_request_def rbind_eq_Inr_iff split: if_splits dest: lock_range_ok)
  then show ?thesis using r q by (auto simp: req_ok_def make_req_def owner_of_def)
qed

section \<open>What each operation does to the tables\<close>

definition queue_of :: "lock_state \<Rightarrow> lock_key \<Rightarrow> nat list" where
  "queue_of s key = (case btm_get (lock_waiters s) key of None \<Rightarrow> [] | Some q \<Rightarrow> q)"

definition wait_of :: "lock_req \<Rightarrow> waiting_record_lock" where
  "wait_of r = \<lparr>wait_key = rq_key r, wait_type = rq_type r, wait_start = rq_start r, wait_end = rq_end r\<rparr>"

named_theorems lock_simps

lemma put_locks_simps [lock_simps]:
  "locks_of (put_locks key ls s) k = (if k = key then ls else locks_of s k)"
  "queue_of (put_locks key ls s) k = queue_of s k"
  "lock_blocked (put_locks key ls s) = lock_blocked s"
  "flock_locks (put_locks key ls s) = flock_locks s"
  by (simp_all add: put_locks_def locks_of_def queue_of_def)

lemma take_waiters_simps [lock_simps]:
  "locks_of (snd (take_record_lock_waiters key s)) k = locks_of s k"
  "queue_of (snd (take_record_lock_waiters key s)) k = (if k = key then [] else queue_of s k)"
  "lock_blocked (snd (take_record_lock_waiters key s)) = lock_blocked s"
  "flock_locks (snd (take_record_lock_waiters key s)) = flock_locks s"
  "fst (take_record_lock_waiters key s) = queue_of s key"
  by (simp_all add: take_record_lock_waiters_def locks_of_def queue_of_def)

lemma clear_simps [lock_simps]:
  "locks_of (clear_unless_ofd r s) k = locks_of s k"
  "queue_of (clear_unless_ofd r s) k = queue_of s k"
  "flock_locks (clear_unless_ofd r s) = flock_locks s"
  "btm_get (lock_blocked (clear_unless_ofd r s)) q =
     (if \<not> rq_ofd r \<and> q = rq_pid r then None else btm_get (lock_blocked s) q)"
  by (simp_all add: clear_unless_ofd_def clear_record_lock_waiting_def locks_of_def queue_of_def)

lemma clear_waiting_simps [lock_simps]:
  "locks_of (clear_record_lock_waiting p s) k = locks_of s k"
  "queue_of (clear_record_lock_waiting p s) k = queue_of s k"
  "flock_locks (clear_record_lock_waiting p s) = flock_locks s"
  "btm_get (lock_blocked (clear_record_lock_waiting p s)) q = (if q = p then None else btm_get (lock_blocked s) q)"
  by (simp_all add: clear_record_lock_waiting_def locks_of_def queue_of_def)

lemma remove_waiter_simps [lock_simps]:
  "locks_of (remove_record_lock_waiter key t s) k = locks_of s k"
  "queue_of (remove_record_lock_waiter key t s) k = (if k = key then filter (\<lambda>x. x \<noteq> t) (queue_of s k) else queue_of s k)"
  "lock_blocked (remove_record_lock_waiter key t s) = lock_blocked s"
  "flock_locks (remove_record_lock_waiter key t s) = flock_locks s"
  by (auto simp: remove_record_lock_waiter_def locks_of_def queue_of_def Let_def split: option.splits)

lemma enqueue_simps [lock_simps]:
  "locks_of (enqueue_record_lock_waiter key t s) k = locks_of s k"
  "set (queue_of (enqueue_record_lock_waiter key t s) k) = (if k = key then insert t (set (queue_of s k)) else set (queue_of s k))"
  "lock_blocked (enqueue_record_lock_waiter key t s) = lock_blocked s"
  "flock_locks (enqueue_record_lock_waiter key t s) = flock_locks s"
  by (auto simp: enqueue_record_lock_waiter_def locks_of_def queue_of_def Let_def split: option.splits)

lemma set_waiting_simps [lock_simps]:
  "locks_of (set_record_lock_waiting p w s) k = locks_of s k"
  "queue_of (set_record_lock_waiting p w s) k = queue_of s k"
  "flock_locks (set_record_lock_waiting p w s) = flock_locks s"
  "btm_get (lock_blocked (set_record_lock_waiting p w s)) q = (if q = p then Some w else btm_get (lock_blocked s) q)"
  by (simp_all add: set_record_lock_waiting_def locks_of_def queue_of_def)

text \<open>The effect of a critical section on \<open>RECORD_LOCKS\<close>: no queue changes, and the waiters of every file
  whose locks change are to be woken.\<close>

definition changes_marked :: "lock_state \<Rightarrow> lock_key list \<Rightarrow> lock_state \<Rightarrow> bool" where
  "changes_marked s keys s' \<longleftrightarrow>
     (\<forall>key. queue_of s' key = queue_of s key \<and> (locks_of s' key = locks_of s key \<or> key \<in> set keys))"

definition lock_inv :: "lock_state \<Rightarrow> bool" where
  "lock_inv s \<longleftrightarrow> (\<forall>key. locks_ok (locks_of s key) \<and> exclusive_locks (locks_of s key))"

lemma lock_invD: "lock_inv s \<Longrightarrow> locks_ok (locks_of s k)" "lock_inv s \<Longrightarrow> exclusive_locks (locks_of s k)"
  unfolding lock_inv_def by blast+

lemma lock_invI: "(\<And>k. locks_ok (locks_of s k) \<and> exclusive_locks (locks_of s k)) \<Longrightarrow> lock_inv s"
  unfolding lock_inv_def by blast

text \<open>No byte is gained by an owner other than \<open>o\<close>.\<close>

definition gains_only :: "record_lock_owner option \<Rightarrow> lock_state \<Rightarrow> lock_state \<Rightarrow> bool" where
  "gains_only o' s s' \<longleftrightarrow> (\<forall>key q off t. byte_ok off \<longrightarrow> Some q \<noteq> o' \<longrightarrow>
     holds (locks_of s' key) q off t \<longrightarrow> holds (locks_of s key) q off t)"

lemma section_result:
  assumes "setlk_section r s = Some (changed, s')"
  obtains ls' where "apply_record_lock_for_owner (locks_of s (rq_key r)) (rq_owner r) (rq_pid r) (rq_type r) (rq_start r) (rq_end r)
      = (changed, ls')" "s' = put_locks (rq_key r) ls' s" "\<not> req_conflicts r s" "changed \<longleftrightarrow> locks_of s (rq_key r) \<noteq> ls'"
proof -
  obtain c ls' where ap: "apply_record_lock_for_owner (locks_of s (rq_key r)) (rq_owner r) (rq_pid r) (rq_type r) (rq_start r) (rq_end r)
      = (c, ls')" by fastforce
  moreover from this have "c \<longleftrightarrow> locks_of s (rq_key r) \<noteq> ls'" by (auto simp: apply_record_lock_for_owner_def Let_def)
  ultimately show thesis using that assms by (auto simp: setlk_section_def split: if_splits)
qed

lemma section_effect:
  assumes "setlk_section r s = Some (changed, s')" "lock_inv s" "req_ok p r"
  shows "lock_inv s'" "changes_marked s (if changed then [rq_key r] else []) s'" "gains_only (Some (rq_owner r)) s s'"
    "lock_blocked s' = lock_blocked s" "flock_locks s' = flock_locks s" "\<not> req_conflicts r s'"
proof -
  let ?ls = "locks_of s (rq_key r)"
  obtain ls' where ap: "apply_record_lock_for_owner ?ls (rq_owner r) (rq_pid r) (rq_type r) (rq_start r) (rq_end r) = (changed, ls')"
    and s': "s' = put_locks (rq_key r) ls' s" and c: "changed \<longleftrightarrow> ?ls \<noteq> ls'"
    and nc: "\<not> conflict_exists ?ls (rq_owner r) (rq_type r) (rq_start r) (rq_end r)"
    using assms(1) by (rule section_result) (simp add: req_conflicts_def)
  have ok: "locks_ok ?ls" "range_ok (rq_start r) (rq_end r)"
      "rq_type r = F_RDLCK \<or> rq_type r = F_WRLCK \<or> rq_type r = F_UNLCK" and ex: "exclusive_locks ?ls"
    using assms(2,3) by (simp_all add: lock_invD req_ok_def)
  have locks: "locks_of s' k = (if k = rq_key r then ls' else locks_of s k)" for k by (simp add: s' lock_simps)
  have ls': "locks_ok ls'" "exclusive_locks ls'"
    using apply_exact(1) [OF ok, of "rq_owner r" "rq_pid r"] exclusive_apply [OF ok ex nc, of "rq_pid r"] ap by simp_all
  have holds': "holds ls' o' off t = (if o' = rq_owner r \<and> covers (rq_start r) (rq_end r) off
      then t = rq_type r \<and> rq_type r \<noteq> F_UNLCK else holds ?ls o' off t)" if "byte_ok off" for o' off t
    using apply_exact(2) [OF ok that, of "rq_owner r" "rq_pid r"] ap by simp
  show "lock_inv s'" by (rule lock_invI) (simp add: assms(2) lock_invD ls' locks)
  show "changes_marked s (if changed then [rq_key r] else []) s'" using c by (auto simp: changes_marked_def s' lock_simps)
  show "gains_only (Some (rq_owner r)) s s'" by (auto simp: gains_only_def locks holds' split: if_splits)
  show "lock_blocked s' = lock_blocked s" "flock_locks s' = flock_locks s" by (simp_all add: s' lock_simps)
  show "\<not> req_conflicts r s'"
    using nc unfolding req_conflicts_def locks conflict_iff [OF ls'(1) ok(2)] conflict_iff [OF ok(1,2)]
    by (auto simp: conflict_iff [OF ls'(1) ok(2)] holds')
qed

lemma filter_length_eq: "length (filter P xs) = length xs \<Longrightarrow> filter P xs = xs"
  by (metis filter_True length_filter_less less_irrefl)

lemma locks_of_None: "btm_get (record_locks s) k = None \<Longrightarrow> locks_of s k = []"
  by (simp add: locks_of_def)

text \<open>A section that only removes locks.\<close>

lemma removal_effect:
  assumes "lock_inv s" and "\<And>k. set (locks_of s' k) \<subseteq> set (locks_of s k)"
  shows "lock_inv s'" "gains_only None s s'"
proof -
  have "locks_ok (locks_of s' k) \<and> exclusive_locks (locks_of s' k)" for k
    using locks_ok_mono [OF lock_invD(1) [OF assms(1)] assms(2)] exclusive_mono [OF lock_invD(2) [OF assms(1)] assms(2)]
    by blast
  then show "lock_inv s'" by (rule lock_invI)
  show "gains_only None s s'" using assms(2) unfolding gains_only_def holds_def by blast
qed

lemma close_effect:
  assumes "remove_process_record_locks_for_key p key s = (keys, s')" "lock_inv s"
  shows "lock_inv s'" "changes_marked s keys s'" "gains_only None s s'"
    "lock_blocked s' = lock_blocked s" "flock_locks s' = flock_locks s"
proof -
  let ?kept = "filter (\<lambda>l. lock_owner l \<noteq> Process p) (locks_of s key)"
  have res: "s' = (if btm_get (record_locks s) key = None then s else put_locks key ?kept s)"
      "keys = (if ?kept \<noteq> locks_of s key then [key] else [])"
    using assms(1) filter_length_eq [of "\<lambda>l. lock_owner l \<noteq> Process p" "locks_of s key"]
    by (auto simp: remove_process_record_locks_for_key_def locks_of_def Let_def split: option.splits if_splits)
  have locks: "locks_of s' k = (if k = key then ?kept else locks_of s k)" for k
    by (auto simp: res(1) lock_simps locks_of_None)
  have "set (locks_of s' k) \<subseteq> set (locks_of s k)" for k by (auto simp: locks)
  from removal_effect [OF assms(2) this] show "lock_inv s'" "gains_only None s s'" by blast+
  have "queue_of s' k = queue_of s k" for k by (simp add: res(1) lock_simps)
  then show "changes_marked s keys s'" by (simp add: changes_marked_def locks res(2))
  show "lock_blocked s' = lock_blocked s" "flock_locks s' = flock_locks s" by (simp_all add: res(1) lock_simps)
qed

lemma release_keys_conj:
  "release_keys p ks s = (changed, s') \<Longrightarrow>
    locks_of s' k = (if k \<in> set ks then filter (\<lambda>l. lock_owner_pid l \<noteq> p) (locks_of s k) else locks_of s k) \<and>
    queue_of s' k = queue_of s k \<and> lock_blocked s' = lock_blocked s \<and> flock_locks s' = flock_locks s \<and>
    (k \<in> set changed \<or> locks_of s' k = locks_of s k)"
proof (induction ks arbitrary: s changed)
  case (Cons key ks)
  let ?kept = "filter (\<lambda>l. lock_owner_pid l \<noteq> p) (locks_of s key)"
  show ?case
  proof (cases "btm_get (record_locks s) key")
    case None
    then have "release_keys p ks s = (changed, s')" using Cons.prems by simp
    from Cons.IH [OF this] None show ?thesis by (auto simp: locks_of_None)
  next
    case (Some ls)
    then have ls: "locks_of s key = ls" by (simp add: locks_of_def)
    obtain c where c: "release_keys p ks (put_locks key ?kept s) = (c, s')"
        "changed = (if length ?kept \<noteq> length (locks_of s key) then key # c else c)"
      using Cons.prems Some ls by (auto simp: Let_def split: prod.splits)
    from Cons.IH [OF c(1)] c(2) filter_length_eq [of "\<lambda>l. lock_owner_pid l \<noteq> p" "locks_of s key"]
    show ?thesis by (auto simp: lock_simps split: if_splits)
  qed
qed simp

lemma exit_effect:
  assumes "release_all_record_locks_for_owner p s = (keys, s')" "lock_inv s"
  shows "lock_inv s'" "changes_marked s keys s'" "gains_only None s s'"
    "lock_blocked s' = lock_blocked s" "flock_locks s' = flock_locks s"
proof -
  note rel = release_keys_conj [OF assms(1) [unfolded release_all_record_locks_for_owner_def]]
  have "set (locks_of s' k) \<subseteq> set (locks_of s k)" for k using rel [of k] by (auto split: if_splits)
  from removal_effect [OF assms(2) this] show "lock_inv s'" "gains_only None s s'" by blast+
  show "changes_marked s keys s'" using rel unfolding changes_marked_def by blast
  show "lock_blocked s' = lock_blocked s" "flock_locks s' = flock_locks s" using rel by blast+
qed

section \<open>The waits-for graph\<close>

lemma conflict_owners_iff:
  assumes "locks_ok ls" "range_ok a e"
  shows "q \<in> set (collect_conflict_process_owners ls t a e p) \<longleftrightarrow>
    q \<noteq> p \<and> (\<exists>off t'. byte_ok off \<and> covers a e off \<and> holds ls (Process q) off t' \<and> incompatible t t')"
proof -
  have "q \<in> set (collect_conflict_process_owners ls t a e p) \<longleftrightarrow>
      (\<exists>l\<in>set (filter (\<lambda>l. lock_owner l = Process q) ls). lock_conflicts t a e (Process p) l)"
    by (auto simp: set_conflict_owners)
  also have "\<dots> \<longleftrightarrow> conflict_exists (filter (\<lambda>l. lock_owner l = Process q) ls) (Process p) t a e"
    by (simp add: conflict_exists_def list_ex_iff)
  also have "\<dots> \<longleftrightarrow> q \<noteq> p \<and> (\<exists>off t'. byte_ok off \<and> covers a e off \<and> holds ls (Process q) off t' \<and> incompatible t t')"
    using assms(1) by (subst conflict_iff) (auto simp: assms locks_ok_def holds_def)
  finally show ?thesis .
qed

definition blocked_ok :: "lock_state \<Rightarrow> bool" where
  "blocked_ok s \<longleftrightarrow> (\<forall>p w. btm_get (lock_blocked s) p = Some w \<longrightarrow> range_ok (wait_start w) (wait_end w))"

lemma waits_for_iff:
  assumes "lock_inv s" "blocked_ok s"
  shows "(p, q) \<in> waits_for s \<longleftrightarrow> q \<noteq> p \<and> (\<exists>w off t. btm_get (lock_blocked s) p = Some w \<and> byte_ok off \<and>
     covers (wait_start w) (wait_end w) off \<and> holds (locks_of s (wait_key w)) (Process q) off t \<and> incompatible (wait_type w) t)"
proof (cases "btm_get (lock_blocked s) p")
  case None
  then show ?thesis by (simp add: waits_for_def blockers_def)
next
  case (Some w)
  have "range_ok (wait_start w) (wait_end w)" using assms(2) Some unfolding blocked_ok_def by blast
  note it = conflict_owners_iff [OF lock_invD(1) [OF assms(1), of "wait_key w"] this, of q "wait_type w" p]
  have "(p, q) \<in> waits_for s \<longleftrightarrow> q \<in> set (collect_conflict_process_owners (locks_of s (wait_key w))
      (wait_type w) (wait_start w) (wait_end w) p)"
    using Some by (cases "btm_get (record_locks s) (wait_key w)")
      (simp_all add: waits_for_def blockers_def locks_of_def collect_conflict_process_owners_def)
  then show ?thesis unfolding it using Some by auto
qed

lemma acyclic_into_sink:
  assumes "acyclic R" "R' \<subseteq> R \<union> UNIV \<times> {x}" "\<And>y. (x, y) \<notin> R'"
  shows "acyclic R'"
proof (rule ccontr)
  assume "\<not> acyclic R'"
  then obtain a where a: "(a, a) \<in> R'\<^sup>+" by (auto simp: acyclic_def)
  have sink: "(x, y) \<notin> R'\<^sup>+" for y using assms(3) by (meson tranclD)
  have "(b, c) \<in> R\<^sup>+ \<or> c = x" if "(b, c) \<in> R'\<^sup>+" for b c
    using that
  proof (induction rule: trancl_induct)
    case (base y)
    then show ?case using assms(2) by auto
  next
    case (step y z)
    then show ?case using assms(2,3) by (auto intro: trancl_into_trancl)
  qed
  from this [OF a] sink [of a] a assms(1) show False by (auto simp: acyclic_def)
qed

lemma acyclic_new_out:
  assumes "acyclic R" "R' \<subseteq> R \<union> {p} \<times> Q" "p \<notin> R\<^sup>* `` Q"
  shows "acyclic R'"
proof -
  have step: "(b, c) \<in> R\<^sup>+ \<or> ((b, p) \<in> R\<^sup>* \<and> c \<in> R\<^sup>* `` Q)" if "(b, c) \<in> R'\<^sup>+" for b c
    using that
  proof (induction rule: trancl_induct)
    case (base y)
    then show ?case using assms(2) by auto
  next
    case (step y z)
    from step.hyps(2) assms(2) consider "(y, z) \<in> R" | "y = p" "z \<in> Q" by auto
    then show ?case
    proof cases
      case 1
      then show ?thesis using step.IH by (auto intro: trancl_into_trancl rtrancl_into_rtrancl)
    next
      case 2
      then show ?thesis using step.IH assms(3) by (auto dest: trancl_into_rtrancl)
    qed
  qed
  have "(a, a) \<notin> R'\<^sup>+" for a
  proof
    assume "(a, a) \<in> R'\<^sup>+"
    from step [OF this] assms(1) obtain q where "(a, p) \<in> R\<^sup>*" "q \<in> Q" "(q, a) \<in> R\<^sup>*" by (auto simp: acyclic_def)
    then show False using assms(3) by (meson Image_iff rtrancl_trans)
  qed
  then show ?thesis by (simp add: acyclic_def)
qed

section \<open>Locks and requests are well formed throughout\<close>

fun call_ok :: "pid \<Rightarrow> lock_call \<Rightarrow> bool" where
  "call_ok p (Setlk b r pc) = (req_ok p r \<and> (pc = Lk_mark \<or> pc = Lk_enqueue \<longrightarrow> b))"
| "call_ok p Exiting = True"

definition calls_ok :: "(nat \<Rightarrow> pid) \<Rightarrow> lock_sys \<Rightarrow> bool" where
  "calls_ok proc S \<longleftrightarrow> lock_inv (ls_state S) \<and> (\<forall>t c. ls_calls S t = Some c \<longrightarrow> call_ok (proc t) c)"

lemma calls_okD:
  assumes "calls_ok proc S"
  shows "lock_inv (ls_state S)" "ls_calls S t = Some (Setlk b r pc) \<Longrightarrow> req_ok (proc t) r"
    "ls_calls S t = Some (Setlk b r pc) \<Longrightarrow> pc = Lk_mark \<or> pc = Lk_enqueue \<Longrightarrow> b"
  using assms unfolding calls_ok_def by fastforce+

lemma req_conflicts_cong: "locks_of s' (rq_key r) = locks_of s (rq_key r) \<Longrightarrow> req_conflicts r s' = req_conflicts r s"
  by (simp add: req_conflicts_def)

lemma lock_inv_cong: "lock_inv s \<Longrightarrow> (\<And>k. locks_of s' k = locks_of s k) \<Longrightarrow> lock_inv s'"
  by (rule lock_invI) (simp add: lock_invD)

lemma gains_cong: "(\<And>k. locks_of s' k = locks_of s k) \<Longrightarrow> gains_only o' s s'"
  by (simp add: gains_only_def)

lemma record_locks_simps [lock_simps]:
  "record_locks (enqueue_record_lock_waiter key t s) = record_locks s"
  "record_locks (remove_record_lock_waiter key t s) = record_locks s"
  "record_locks (set_record_lock_waiting p w s) = record_locks s"
  "record_locks (clear_record_lock_waiting p s) = record_locks s"
  "record_locks (clear_unless_ofd r s) = record_locks s"
  "record_locks (snd (take_record_lock_waiters key s)) = record_locks s"
  by (simp_all add: enqueue_record_lock_waiter_def remove_record_lock_waiter_def set_record_lock_waiting_def
    clear_unless_ofd_def clear_record_lock_waiting_def take_record_lock_waiters_def Let_def split: option.splits)

lemma tables_cong: "record_locks s' = record_locks s \<Longrightarrow> locks_of s' k = locks_of s k"
    "lock_waiters s' = lock_waiters s \<Longrightarrow> queue_of s' k = queue_of s k"
  by (simp_all add: locks_of_def queue_of_def)

text \<open>Only the attempt changes locks; the other steps touch the queue and the registration of the caller.\<close>

lemma setlk_step_frame:
  assumes "setlk_step b r task sg pc s = (pc', keys, s')" and "pc \<noteq> Lk_try"
  shows "keys = []" "locks_of s' k = locks_of s k" "flock_locks s' = flock_locks s" "record_locks s' = record_locks s"
proof -
  have "keys = [] \<and> flock_locks s' = flock_locks s \<and> record_locks s' = record_locks s"
    using assms by (cases pc) (auto simp: setlk_step_def lock_simps split: option.splits if_splits)
  then show "keys = []" "locks_of s' k = locks_of s k" "flock_locks s' = flock_locks s" "record_locks s' = record_locks s"
    using tables_cong(1) by blast+
qed

lemma setlk_try_cases:
  assumes "setlk_step b r task sg Lk_try s = (pc', keys, s')"
  obtains (granted) changed where "setlk_section r s = Some (changed, s')" "keys = (if changed then [rq_key r] else [])"
      "pc' = setlk_finish task 0"
    | (refused) "req_conflicts r s" "\<not> b" "keys = []" "s' = s" "pc' = setlk_finish task (err EAGAIN)"
    | (waits) "req_conflicts r s" "b" "keys = []" "s' = s"
        "pc' = Lk_check (if rq_ofd r then [] else collect_conflict_process_owners (locks_of s (rq_key r))
           (rq_type r) (rq_start r) (rq_end r) (rq_pid r))"
proof (cases "setlk_section r s")
  case None
  then have c: "req_conflicts r s" by (auto simp: setlk_section_def split: if_splits prod.splits)
  show thesis
  proof (cases b)
    case True
    show thesis by (rule waits [OF c True]) (use assms None True in \<open>simp_all add: setlk_step_def\<close>)
  next
    case False
    show thesis by (rule refused [OF c False]) (use assms None False in \<open>simp_all add: setlk_step_def\<close>)
  qed
next
  case (Some x)
  obtain changed s1 where x: "x = (changed, s1)" by (cases x)
  show thesis by (rule granted [of changed]) (use assms Some x in \<open>simp_all add: setlk_step_def\<close>)
qed

lemma setlk_step_effect:
  assumes "setlk_step b r task sg pc s = (pc', keys, s')" "lock_inv s" "req_ok p r"
  shows "lock_inv s'" "locks_of s' k = locks_of s k \<or> k \<in> set keys" "flock_locks s' = flock_locks s"
proof -
  have "lock_inv s' \<and> (locks_of s' k = locks_of s k \<or> k \<in> set keys) \<and> flock_locks s' = flock_locks s"
  proof (cases "pc = Lk_try")
    case True
    from assms(1) [unfolded True] show ?thesis
    proof (cases rule: setlk_try_cases)
      case (granted changed)
      note eff = section_effect [OF granted(1) assms(2,3)]
      have "locks_of s' k = locks_of s k \<or> k \<in> set keys" using eff(2) granted(2) unfolding changes_marked_def by blast
      then show ?thesis using eff(1,5) by blast
    qed (use assms(2) in simp_all)
  next
    case False
    note f = setlk_step_frame [OF assms(1) False]
    show ?thesis using lock_inv_cong [OF assms(2)] f(2,3) by blast
  qed
  then show "lock_inv s'" "locks_of s' k = locks_of s k \<or> k \<in> set keys" "flock_locks s' = flock_locks s" by blast+
qed

lemma setlk_step_blocking:
  "setlk_step b r (if b then Some t else None) sg pc s = (pc', keys, s') \<Longrightarrow> pc' = Lk_mark \<or> pc' = Lk_enqueue \<Longrightarrow>
    (pc = Lk_mark \<or> pc = Lk_enqueue \<longrightarrow> b) \<Longrightarrow> b"
  by (auto simp: setlk_step_def setlk_finish_def split: setlk_pc.splits setlk_next.splits option.splits if_splits)

lemma setlk_step_queue:
  assumes "setlk_step b r task sg pc s = (pc', keys, s')" and "task \<noteq> Some u"
  shows "u \<in> set (queue_of s' k) \<longleftrightarrow> u \<in> set (queue_of s k)"
proof (cases "pc = Lk_try")
  case True
  from assms(1) [unfolded True] show ?thesis
  proof (cases rule: setlk_try_cases)
    case (granted changed)
    from granted(1) obtain ls' where "s' = put_locks (rq_key r) ls' s" by (rule section_result)
    then show ?thesis by (simp add: lock_simps)
  qed simp_all
next
  case False
  then show ?thesis using assms
    by (auto simp: setlk_step_def lock_simps split: setlk_pc.splits option.splits if_splits)
qed

lemma lock_inv_take: "take_record_lock_waiters key s = (ts, s') \<Longrightarrow> lock_inv s \<Longrightarrow> lock_inv s'"
  by (erule lock_inv_cong) (use take_waiters_simps(1) [of key s] in auto)

lemma flock_frame:
  "record_locks (snd (syscall_flock fl op s)) = record_locks s"
  "lock_blocked (snd (syscall_flock fl op s)) = lock_blocked s"
  "lock_waiters (snd (syscall_flock fl op s)) = lock_waiters s"
  "record_locks (release_flock_locks_for_owner owner s) = record_locks s"
  "lock_blocked (release_flock_locks_for_owner owner s) = lock_blocked s"
  "lock_waiters (release_flock_locks_for_owner owner s) = lock_waiters s"
  by (simp_all add: syscall_flock_def put_flocks_def release_flock_locks_for_owner_def Let_def split: option.splits)

text \<open>\<open>flock\<close> in a form the step relation offers.\<close>

lemma flock_step_frame:
  assumes "syscall_flock fl op s = (ret, s')"
  shows "record_locks s' = record_locks s" "lock_blocked s' = lock_blocked s" "lock_waiters s' = lock_waiters s"
  using flock_frame(1-3) [of fl op s] assms by simp_all

lemma calls_ok_step:
  assumes "lock_step excl proc S S'" "calls_ok proc S"
  shows "calls_ok proc S'"
  using assms(1)
proof cases
  case (enter t is_ofd fl v v' r blocking)
  then show ?thesis using assms(2) lock_args_ok unfolding calls_ok_def by auto
next
  case (advance t blocking r pc signal pc' keys s')
  note c = calls_okD [OF assms(2)]
  have "lock_inv s'" using setlk_step_effect(1) [OF advance(5) c(1) c(2) [OF advance(3)]] .
  moreover have "pc' = Lk_mark \<or> pc' = Lk_enqueue \<longrightarrow> blocking"
    using setlk_step_blocking [OF advance(5)] c(3) [OF advance(3)] by blast
  ultimately show ?thesis using assms(2) c(2) [OF advance(3)] unfolding advance(1) calls_ok_def by auto
next
  case (take_queue t key keys ts s')
  then show ?thesis using assms(2) lock_inv_take unfolding calls_ok_def by auto
next
  case (close t key keys s')
  then show ?thesis using assms(2) close_effect(1) unfolding calls_ok_def by auto
next
  case (exit_clear t)
  have "lock_inv (clear_record_lock_waiting (proc t) (ls_state S))"
    by (rule lock_inv_cong [OF calls_okD(1) [OF assms(2)]]) (simp add: lock_simps)
  then show ?thesis using assms(2) exit_clear unfolding calls_ok_def by auto
next
  case (exit_release t keys s')
  then show ?thesis using assms(2) exit_effect(1) unfolding calls_ok_def by auto
next
  case (flock fl op ret s')
  have "lock_inv s'"
    by (rule lock_inv_cong [OF calls_okD(1) [OF assms(2)]]) (rule tables_cong(1) [OF flock_step_frame(1) [OF flock(2)]])
  then show ?thesis using assms(2) flock unfolding calls_ok_def by auto
next
  case (drop owner)
  have "lock_inv (release_flock_locks_for_owner owner (ls_state S))"
    by (rule lock_inv_cong [OF calls_okD(1) [OF assms(2)]]) (rule tables_cong(1) [OF flock_frame(4)])
  then show ?thesis using assms(2) drop unfolding calls_ok_def by auto
qed (use assms(2) in \<open>auto simp: calls_ok_def\<close>)

lemma locks_of_init: "locks_of lock_init k = []" by (simp add: locks_of_def lock_init_def)

lemma calls_ok_init: "calls_ok proc sys_init"
proof -
  have "lock_inv lock_init" by (rule lock_invI) (simp add: locks_of_init locks_ok_def exclusive_locks_def)
  then show ?thesis by (simp add: calls_ok_def sys_init_def)
qed

lemma reachable_calls_ok: "lock_reachable excl proc S \<Longrightarrow> calls_ok proc S"
  by (induction rule: lock_reachable_induct) (auto intro: calls_ok_init calls_ok_step)

section \<open>Sleepers\<close>

text \<open>A task whose wake-up has been called or is about to be called by a task that took the queue, and a
  file whose queue a task has still to take.\<close>

definition waking :: "lock_sys \<Rightarrow> nat \<Rightarrow> bool" where
  "waking S t \<longleftrightarrow> t \<in> ls_woken S \<or> (\<exists>u. t \<in> set (snd (ls_wakes S u)))"

definition draining :: "lock_sys \<Rightarrow> lock_key \<Rightarrow> bool" where
  "draining S key \<longleftrightarrow> (\<exists>u. key \<in> set (fst (ls_wakes S u)))"

fun sleeper_ok :: "lock_sys \<Rightarrow> nat \<Rightarrow> lock_call \<Rightarrow> bool" where
  "sleeper_ok S t (Setlk b r pc) = (pc \<in> {Lk_recheck, Lk_block, Lk_asleep} \<longrightarrow> waking S t \<or>
     t \<in> set (queue_of (ls_state S) (rq_key r)) \<and>
     (pc \<noteq> Lk_recheck \<longrightarrow> req_conflicts r (ls_state S) \<or> draining S (rq_key r)))"
| "sleeper_ok S t Exiting = True"

definition sleepers_ok :: "lock_sys \<Rightarrow> bool" where
  "sleepers_ok S \<longleftrightarrow> (\<forall>t c. ls_calls S t = Some c \<longrightarrow> sleeper_ok S t c)"

text \<open>What a step must not do to the tasks that it does not belong to.\<close>

definition keeps_sleepers :: "nat set \<Rightarrow> lock_sys \<Rightarrow> lock_sys \<Rightarrow> bool" where
  "keeps_sleepers X S S' \<longleftrightarrow>
     (\<forall>t. t \<notin> X \<longrightarrow> waking S t \<longrightarrow> waking S' t) \<and>
     (\<forall>t k. t \<notin> X \<longrightarrow> t \<in> set (queue_of (ls_state S) k) \<longrightarrow> t \<in> set (queue_of (ls_state S') k) \<or> waking S' t) \<and>
     (\<forall>k. locks_of (ls_state S') k = locks_of (ls_state S) k \<or> draining S' k) \<and>
     (\<forall>k. draining S k \<longrightarrow> draining S' k \<or> (\<forall>t\<in>set (queue_of (ls_state S) k). waking S' t))"

lemma sleeper_kept:
  assumes "sleeper_ok S t c" "keeps_sleepers X S S'" "t \<notin> X"
  shows "sleeper_ok S' t c"
proof (cases c)
  case (Setlk b r pc)
  show ?thesis
  proof (cases "pc \<in> {Lk_recheck, Lk_block, Lk_asleep} \<and> \<not> waking S' t")
    case True
    then have nw: "\<not> waking S t" using assms(2,3) unfolding keeps_sleepers_def by blast
    have q: "t \<in> set (queue_of (ls_state S) (rq_key r))"
      and s: "pc \<noteq> Lk_recheck \<longrightarrow> req_conflicts r (ls_state S) \<or> draining S (rq_key r)"
      using assms(1) True nw unfolding Setlk by auto
    have "t \<in> set (queue_of (ls_state S') (rq_key r))" using q True assms(2,3) unfolding keeps_sleepers_def by blast
    moreover have "req_conflicts r (ls_state S') \<or> draining S' (rq_key r)" if "pc \<noteq> Lk_recheck"
    proof (cases "draining S' (rq_key r)")
      case False
      then have "locks_of (ls_state S') (rq_key r) = locks_of (ls_state S) (rq_key r)" "\<not> draining S (rq_key r)"
        using assms(2) q True unfolding keeps_sleepers_def by blast+
      then show ?thesis using s that req_conflicts_cong by blast
    qed simp
    ultimately show ?thesis unfolding Setlk by simp
  qed (auto simp: Setlk)
qed simp

lemma sleepers_step:
  assumes "sleepers_ok S" "keeps_sleepers X S S'" "\<And>t. t \<notin> X \<Longrightarrow> ls_calls S' t = ls_calls S t"
    and "\<And>t c. t \<in> X \<Longrightarrow> ls_calls S' t = Some c \<Longrightarrow> sleeper_ok S' t c"
  shows "sleepers_ok S'"
  unfolding sleepers_ok_def
proof (intro allI impI)
  fix t c assume c: "ls_calls S' t = Some c"
  show "sleeper_ok S' t c"
  proof (cases "t \<in> X")
    case False
    then have "sleeper_ok S t c" using c assms(1,3) unfolding sleepers_ok_def by simp
    then show ?thesis using sleeper_kept assms(2) False by blast
  qed (use assms(4) c in blast)
qed

text \<open>A task without unfinished wake-ups changes the locks of some files and takes on their wake-ups.\<close>

lemma keeps_marked:
  assumes "ls_wakes S t = ([], [])" "ls_wakes S' = (ls_wakes S)(t := (keys, []))"
    and "ls_woken S - {t} \<subseteq> ls_woken S'"
    and "\<And>k. locks_of (ls_state S') k = locks_of (ls_state S) k \<or> k \<in> set keys"
    and "\<And>u k. u \<noteq> t \<Longrightarrow> u \<in> set (queue_of (ls_state S) k) \<Longrightarrow> u \<in> set (queue_of (ls_state S') k)"
  shows "keeps_sleepers {t} S S'"
proof -
  have "waking S' u" if "u \<noteq> t" "waking S u" for u
  proof -
    from that consider "u \<in> ls_woken S'" | v where "u \<in> set (snd (ls_wakes S v))" using assms(3) by (auto simp: waking_def)
    then show ?thesis
    proof cases
      case (2 v)
      then have "u \<in> set (snd (ls_wakes S' v))" using assms(1,2) by (cases "v = t") auto
      then show ?thesis unfolding waking_def by blast
    qed (simp add: waking_def)
  qed
  moreover have "draining S' k" if "draining S k" for k
  proof -
    from that obtain v where "k \<in> set (fst (ls_wakes S v))" by (auto simp: draining_def)
    then have "k \<in> set (fst (ls_wakes S' v))" using assms(1,2) by (cases "v = t") auto
    then show ?thesis unfolding draining_def by blast
  qed
  moreover have "locks_of (ls_state S') k = locks_of (ls_state S) k \<or> draining S' k" for k
  proof -
    have "draining S' k" if "k \<in> set keys"
      unfolding draining_def using that assms(2) by (intro exI [of _ t]) simp
    then show ?thesis using assms(4) [of k] by blast
  qed
  ultimately show ?thesis using assms(5) unfolding keeps_sleepers_def by blast
qed

lemma keeps_take:
  assumes "ls_wakes S t = (key # keys, [])" "take_record_lock_waiters key (ls_state S) = (ts, s')"
  shows "keeps_sleepers {} S (S\<lparr>ls_state := s', ls_wakes := (ls_wakes S)(t := (keys, ts))\<rparr>)" (is "keeps_sleepers {} S ?S'")
proof -
  have ts: "ts = queue_of (ls_state S) key" and s': "s' = snd (take_record_lock_waiters key (ls_state S))"
    using assms(2) take_waiters_simps(5) [of key "ls_state S"] by simp_all
  have taken: "waking ?S' u" if "u \<in> set (queue_of (ls_state S) key)" for u
    unfolding waking_def using that by (intro disjI2 exI [of _ t]) (simp add: ts)
  have "waking ?S' u" if "waking S u" for u
  proof -
    from that consider "u \<in> ls_woken S" | v where "u \<in> set (snd (ls_wakes S v))" by (auto simp: waking_def)
    then show ?thesis
    proof cases
      case (2 v)
      then have "u \<in> set (snd (ls_wakes ?S' v))" using assms(1) by (cases "v = t") auto
      then show ?thesis unfolding waking_def by blast
    qed (simp add: waking_def)
  qed
  moreover have "u \<in> set (queue_of (ls_state ?S') k) \<or> waking ?S' u" if "u \<in> set (queue_of (ls_state S) k)" for u k
    using that taken by (cases "k = key") (simp_all add: s' lock_simps)
  moreover have "draining ?S' k \<or> (\<forall>u\<in>set (queue_of (ls_state S) k). waking ?S' u)" if "draining S k" for k
  proof (cases "k = key")
    case False
    from that obtain v where "k \<in> set (fst (ls_wakes S v))" by (auto simp: draining_def)
    then have "k \<in> set (fst (ls_wakes ?S' v))" using assms(1) False by (cases "v = t") auto
    then show ?thesis unfolding draining_def by blast
  qed (use taken in blast)
  moreover have "locks_of (ls_state ?S') k = locks_of (ls_state S) k" for k by (simp add: s' lock_simps)
  ultimately show ?thesis unfolding keeps_sleepers_def by blast
qed

lemma keeps_wake:
  assumes "ls_wakes S t = (keys, u # ts)"
  shows "keeps_sleepers {} S (S\<lparr>ls_wakes := (ls_wakes S)(t := (keys, ts)), ls_woken := insert u (ls_woken S)\<rparr>)"
    (is "keeps_sleepers {} S ?S'")
proof -
  have "waking ?S' x" if "waking S x" for x
  proof -
    from that consider "x \<in> ls_woken S" | v where "x \<in> set (snd (ls_wakes S v))" by (auto simp: waking_def)
    then show ?thesis
    proof cases
      case (2 v)
      then have "x \<in> set (snd (ls_wakes ?S' v)) \<or> x = u" using assms by (cases "v = t") auto
      then show ?thesis unfolding waking_def by (elim disjE) (blast, simp)
    qed (simp add: waking_def)
  qed
  moreover have "draining ?S' k" if "draining S k" for k
  proof -
    from that obtain v where "k \<in> set (fst (ls_wakes S v))" by (auto simp: draining_def)
    then have "k \<in> set (fst (ls_wakes ?S' v))" using assms by (cases "v = t") auto
    then show ?thesis unfolding draining_def by blast
  qed
  ultimately show ?thesis unfolding keeps_sleepers_def by simp
qed

lemma setlk_step_registered:
  assumes "setlk_step b r (if b then Some t else None) sg pc s = (pc', keys, s')" "pc' \<in> {Lk_recheck, Lk_block, Lk_asleep}"
  obtains (enqueued) "pc = Lk_enqueue" "pc' = Lk_recheck" "b \<Longrightarrow> s' = enqueue_record_lock_waiter (rq_key r) t s"
    | (rechecked) "pc = Lk_recheck" "pc' = Lk_block" "req_conflicts r s" "s' = s"
    | (slept) "pc = Lk_block" "pc' = Lk_asleep" "s' = s"
proof (cases pc)
  case Lk_try
  from assms(1) [unfolded Lk_try] show thesis
    by (cases rule: setlk_try_cases) (use assms(2) in \<open>auto simp: setlk_finish_def split: option.splits\<close>)
next
  case Lk_enqueue
  show thesis by (rule enqueued) (use assms Lk_enqueue in \<open>auto simp: setlk_step_def\<close>)
next
  case Lk_recheck
  show thesis by (rule rechecked) (use assms Lk_recheck in \<open>auto simp: setlk_step_def split: if_splits\<close>)
next
  case Lk_block
  show thesis by (rule slept) (use assms Lk_block in \<open>auto simp: setlk_step_def split: if_splits\<close>)
qed (use assms in \<open>auto simp: setlk_step_def setlk_finish_def split: setlk_next.splits if_splits\<close>)

lemma advance_sleeper:
  assumes "calls_ok proc S" "sleepers_ok S" "ls_calls S t = Some (Setlk b r pc)" "ls_wakes S t = ([], [])"
    and e: "setlk_step b r (if b then Some t else None) sg pc (ls_state S) = (pc', keys, s')"
  shows "sleepers_ok (S\<lparr>ls_state := s', ls_calls := (ls_calls S)(t \<mapsto> Setlk b r pc'), ls_wakes := (ls_wakes S)(t := (keys, [])),
      ls_woken := if pc = Lk_enqueue \<or> pc = Lk_asleep then ls_woken S - {t} else ls_woken S\<rparr>)" (is "sleepers_ok ?S'")
proof (rule sleepers_step [OF assms(2), of "{t}"])
  note c = calls_okD [OF assms(1)]
  show k: "keeps_sleepers {t} S ?S'"
    by (rule keeps_marked [OF assms(4)])
      (use setlk_step_effect(2) [OF e c(1) c(2) [OF assms(3)]] setlk_step_queue [OF e] in \<open>auto split: if_splits\<close>)
  have old: "sleeper_ok S t (Setlk b r pc)" using assms(2,3) unfolding sleepers_ok_def by blast
  have wk: "waking ?S' t" if "waking S t" "pc = Lk_recheck \<or> pc = Lk_block"
  proof -
    from that consider "t \<in> ls_woken S" | v where "t \<in> set (snd (ls_wakes S v))" by (auto simp: waking_def)
    then show ?thesis
    proof cases
      case (2 v)
      then have "t \<in> set (snd (ls_wakes ?S' v))" using assms(4) by (cases "v = t") auto
      then show ?thesis unfolding waking_def by blast
    qed (use that(2) in \<open>auto simp: waking_def\<close>)
  qed
  have dr: "draining ?S' k'" if "draining S k'" for k'
  proof -
    from that obtain v where v: "k' \<in> set (fst (ls_wakes S v))" by (auto simp: draining_def)
    then have "v \<noteq> t" using assms(4) by auto
    then show ?thesis unfolding draining_def using v by (intro exI [of _ v]) simp
  qed
  show "sleeper_ok ?S' u c'" if u: "u \<in> {t}" "ls_calls ?S' u = Some c'" for u c'
  proof (cases "pc' \<in> {Lk_recheck, Lk_block, Lk_asleep}")
    case True
    from e True have "sleeper_ok ?S' t (Setlk b r pc')"
    proof (cases rule: setlk_step_registered)
      case enqueued
      then show ?thesis using c(3) [OF assms(3)] by (simp add: lock_simps)
    next
      case rechecked
      then show ?thesis using old wk by auto
    next
      case slept
      then show ?thesis using old wk dr [of "rq_key r"] by auto
    qed
    moreover have "u = t" "c' = Setlk b r pc'" using u by auto
    ultimately show ?thesis by (simp only:)
  qed (use u in auto)
qed simp

lemma sleepers_ok_step:
  assumes "lock_step excl proc S S'" "calls_ok proc S" "sleepers_ok S"
  shows "sleepers_ok S'"
  using assms(1)
proof cases
  case (enter t is_ofd fl v v' r blocking)
  show ?thesis unfolding enter(1)
    by (rule sleepers_step [OF assms(3), of "{t}"], rule keeps_marked [of _ t _ "[]"])
      (use enter(2) in \<open>auto simp: may_act_def\<close>)
next
  case (advance t blocking r pc signal pc' keys s')
  then show ?thesis using advance_sleeper [OF assms(2,3) advance(3)] by (simp add: may_act_def)
next
  case (leave t blocking r ret)
  show ?thesis unfolding leave(1)
    by (rule sleepers_step [OF assms(3), of "{t}"], rule keeps_marked [of _ t _ "[]"])
      (use leave(2) in \<open>auto simp: may_act_def\<close>)
next
  case (take_queue t key keys ts s')
  show ?thesis unfolding take_queue(1)
    by (rule sleepers_step [OF assms(3) keeps_take [OF take_queue(2,3)]]) simp_all
next
  case (wake_one t keys u ts)
  show ?thesis unfolding wake_one(1) by (rule sleepers_step [OF assms(3) keeps_wake [OF wake_one(2)]]) simp_all
next
  case (close t key keys s')
  note eff = close_effect(2) [OF close(4) calls_okD(1) [OF assms(2)], unfolded changes_marked_def]
  show ?thesis unfolding close(1)
    by (rule sleepers_step [OF assms(3), of "{t}"], rule keeps_marked [of _ t _ keys])
      (use close(2,3) eff in \<open>auto simp: may_act_def\<close>)
next
  case (exit_clear t)
  show ?thesis unfolding exit_clear(1)
    by (rule sleepers_step [OF assms(3), of "{t}"], rule keeps_marked [of _ t _ "[]"])
      (use exit_clear(2) in \<open>auto simp: may_act_def lock_simps\<close>)
next
  case (exit_release t keys s')
  note eff = exit_effect(2) [OF exit_release(4) calls_okD(1) [OF assms(2)], unfolded changes_marked_def]
  show ?thesis unfolding exit_release(1)
    by (rule sleepers_step [OF assms(3), of "{t}"], rule keeps_marked [of _ t _ keys])
      (use exit_release(2,3) eff in \<open>auto simp: may_act_def\<close>)
next
  case (flock fl op ret s')
  note f = tables_cong(1) [OF flock_step_frame(1) [OF flock(2)]] tables_cong(2) [OF flock_step_frame(3) [OF flock(2)]]
  show ?thesis unfolding flock(1)
    by (rule sleepers_step [OF assms(3), of "{}"]) (simp_all add: keeps_sleepers_def f waking_def draining_def)
next
  case (drop owner)
  note f = tables_cong(1) [OF flock_frame(4)] tables_cong(2) [OF flock_frame(6)]
  show ?thesis unfolding drop(1)
    by (rule sleepers_step [OF assms(3), of "{}"]) (simp_all add: keeps_sleepers_def f waking_def draining_def)
qed

lemma sleepers_ok_init: "sleepers_ok sys_init"
  by (simp add: sleepers_ok_def sys_init_def)

lemma reachable_sleepers_ok: "lock_reachable excl proc S \<Longrightarrow> calls_ok proc S \<and> sleepers_ok S"
  by (induction rule: lock_reachable_induct) (auto intro: calls_ok_init calls_ok_step sleepers_ok_init sleepers_ok_step)

section \<open>\<open>flock\<close>\<close>

definition flocks_ok :: "flock_lock list \<Rightarrow> bool" where
  "flocks_ok ls \<longleftrightarrow> distinct (map flock_owner ls) \<and> (\<forall>l\<in>set ls. flock_exclusive l \<longrightarrow> ls = [l])"

definition flock_inv :: "lock_state \<Rightarrow> bool" where
  "flock_inv s \<longleftrightarrow> (\<forall>(k, ls)\<in>set (flock_locks s). flocks_ok ls)"

lemma flocks_ok_filter: "flocks_ok ls \<Longrightarrow> flocks_ok (filter P ls)"
proof -
  assume a: "flocks_ok ls"
  have "filter P ls = [l]" if l: "l \<in> set (filter P ls)" "flock_exclusive l" for l
  proof -
    have "ls = [l]" using a l by (auto simp: flocks_ok_def)
    then show ?thesis using l(1) by (cases "P l") simp_all
  qed
  moreover have "distinct (map flock_owner (filter P ls))" using a by (simp add: flocks_ok_def distinct_map_filter)
  ultimately show "flocks_ok (filter P ls)" unfolding flocks_ok_def by blast
qed

lemma flocks_of_ok: "flock_inv s \<Longrightarrow> flocks_ok (flocks_of s key)"
  by (auto simp: flock_inv_def flocks_of_def flocks_ok_def [of "[]"] split: option.splits dest!: btm_get_in_set)

lemma put_flocks_inv: "flock_inv s \<Longrightarrow> flocks_ok ls \<Longrightarrow> flock_inv (put_flocks key ls s)"
  by (auto simp: flock_inv_def put_flocks_def btm_remove_def dest!: set_btm_insert)

lemma flocks_ok_add:
  assumes "flocks_ok ls" and free: "\<not> list_ex (\<lambda>l. flock_owner l \<noteq> owner \<and> (exclusive \<or> flock_exclusive l)) ls"
  shows "flocks_ok (filter (\<lambda>l. flock_owner l \<noteq> owner) ls @ [\<lparr>flock_owner = owner, flock_exclusive = exclusive\<rparr>])"
proof -
  let ?f = "filter (\<lambda>l. flock_owner l \<noteq> owner) ls"
  have sh: "\<not> exclusive \<and> \<not> flock_exclusive l" if "l \<in> set ?f" for l using free that by (auto simp: list_ex_iff)
  have "?f = []" if exclusive using sh that by (cases ?f) auto
  moreover have "distinct (map flock_owner ?f)" using assms(1) by (simp add: flocks_ok_def distinct_map_filter)
  ultimately show ?thesis using sh by (auto simp: flocks_ok_def)
qed

text \<open>The outcomes of \<open>flock\<close>: nothing changes, the lock of the owner is dropped, or it is replaced.\<close>

lemma syscall_flock_cases:
  obtains (same) "snd (syscall_flock fl op s) = s"
    | (unlock) f key where "fl = Some f" "lf_key f = Some key"
        "snd (syscall_flock fl op s) = put_flocks key (filter (\<lambda>l. flock_owner l \<noteq> lf_id f) (flocks_of s key)) s"
    | (lock) f key ex where "fl = Some f" "lf_key f = Some key"
        "\<not> list_ex (\<lambda>l. flock_owner l \<noteq> lf_id f \<and> (ex \<or> flock_exclusive l)) (flocks_of s key)"
        "snd (syscall_flock fl op s) = put_flocks key (filter (\<lambda>l. flock_owner l \<noteq> lf_id f) (flocks_of s key) @
           [\<lparr>flock_owner = lf_id f, flock_exclusive = ex\<rparr>]) s"
proof (cases fl)
  case None
  then show thesis using same by (simp add: syscall_flock_def)
next
  case (Some f)
  show thesis
  proof (cases "lf_key f")
    case None
    then show thesis using same Some by (simp add: syscall_flock_def)
  next
    case key: (Some key)
    note def = syscall_flock_def [of fl op s, unfolded Some key option.case Let_def]
    let ?bad = "op AND NOT (LOCK_SH OR LOCK_EX OR LOCK_NB OR LOCK_UN) \<noteq> 0 \<or>
         (op AND LOCK_UN \<noteq> 0 \<and> op AND (LOCK_SH OR LOCK_EX) \<noteq> 0) \<or> op AND (LOCK_SH OR LOCK_EX) = LOCK_SH OR LOCK_EX"
    let ?un = "op AND LOCK_UN \<noteq> 0" and ?ex = "op AND LOCK_EX \<noteq> 0"
    let ?held = "list_ex (\<lambda>l. flock_owner l \<noteq> lf_id f \<and> (?ex \<or> flock_exclusive l)) (flocks_of s key)"
    consider (bad) ?bad | (un) "\<not> ?bad" ?un | (held) "\<not> ?bad" "\<not> ?un" ?held | (free) "\<not> ?bad" "\<not> ?un" "\<not> ?held" by blast
    then show thesis
    proof cases
      case bad
      then show thesis using same by (simp only: def if_True Some snd_conv)
    next
      case un
      then show thesis using unlock [OF Some key] by (simp only: def if_False if_True Some snd_conv simp_thms)
    next
      case held
      then show thesis using same by (simp only: def if_False if_True Some snd_conv simp_thms)
    next
      case free
      then show thesis using lock [OF Some key free(3)] by (simp only: def if_False Some snd_conv simp_thms)
    qed
  qed
qed

lemma syscall_flock_inv:
  assumes "flock_inv s"
  shows "flock_inv (snd (syscall_flock fl op s))"
  using flocks_of_ok [OF assms] put_flocks_inv [OF assms] flocks_ok_filter flocks_ok_add assms
  by (cases rule: syscall_flock_cases [of fl op s]) simp_all

lemma release_flock_inv: "flock_inv s \<Longrightarrow> flock_inv (release_flock_locks_for_owner owner s)"
  using flocks_ok_filter by (fastforce simp: flock_inv_def release_flock_locks_for_owner_def)

section \<open>\<open>flock\<close> throughout\<close>

lemma flock_inv_step:
  assumes "lock_step excl proc S S'" "calls_ok proc S" "flock_inv (ls_state S)"
  shows "flock_inv (ls_state S')"
proof -
  note li = calls_okD(1) [OF assms(2)]
  show ?thesis using assms(1)
  proof cases
    case (advance t blocking r pc signal pc' keys s')
    then show ?thesis
      using setlk_step_effect(3) [OF advance(5) li calls_okD(2) [OF assms(2) advance(3)]] assms(3) by (simp add: flock_inv_def)
  next
    case (take_queue t key keys ts s')
    then have "flock_locks s' = flock_locks (ls_state S)" using take_waiters_simps(4) [of key "ls_state S"] by simp
    then show ?thesis using assms(3) take_queue by (simp add: flock_inv_def)
  next
    case (close t key keys s')
    then show ?thesis using close_effect(5) [OF close(4) li] assms(3) by (simp add: flock_inv_def)
  next
    case (exit_release t keys s')
    then show ?thesis using exit_effect(5) [OF exit_release(4) li] assms(3) by (simp add: flock_inv_def)
  next
    case (flock fl op ret s')
    then show ?thesis using syscall_flock_inv [OF assms(3), of fl op] by simp
  next
    case (drop owner)
    then show ?thesis using release_flock_inv [OF assms(3)] by simp
  qed (use assms(3) in \<open>simp_all add: flock_inv_def lock_simps\<close>)
qed

lemma reachable_flock_inv: "lock_reachable excl proc S \<Longrightarrow> calls_ok proc S \<and> flock_inv (ls_state S)"
proof (induction rule: lock_reachable_induct)
  case init
  then show ?case by (simp add: calls_ok_init) (simp add: sys_init_def flock_inv_def lock_init_def)
next
  case (step S S')
  then show ?case using calls_ok_step flock_inv_step by blast
qed

section \<open>No circle, when the check is not interrupted\<close>

definition shrinks_blocked :: "lock_state \<Rightarrow> lock_state \<Rightarrow> bool" where
  "shrinks_blocked s s' \<longleftrightarrow> (\<forall>q w. btm_get (lock_blocked s') q = Some w \<longrightarrow> btm_get (lock_blocked s) q = Some w)"

lemma waits_gain:
  assumes "lock_inv s" "lock_inv s'" "blocked_ok s" "shrinks_blocked s s'" "gains_only o' s s'"
  shows "waits_for s' \<subseteq> waits_for s \<union> UNIV \<times> {p. o' = Some (Process p)}"
proof
  fix x assume x: "x \<in> waits_for s'"
  obtain p q where pq: "x = (p, q)" by (cases x)
  have b': "blocked_ok s'" using assms(3,4) unfolding blocked_ok_def shrinks_blocked_def by blast
  from x [unfolded pq waits_for_iff [OF assms(2) b']] obtain w off t where w: "q \<noteq> p" "btm_get (lock_blocked s') p = Some w"
      "byte_ok off" "covers (wait_start w) (wait_end w) off" "holds (locks_of s' (wait_key w)) (Process q) off t"
      "incompatible (wait_type w) t" by blast
  have bl: "btm_get (lock_blocked s) p = Some w" using assms(4) w(2) unfolding shrinks_blocked_def by blast
  show "x \<in> waits_for s \<union> UNIV \<times> {p. o' = Some (Process p)}"
  proof (cases "o' = Some (Process q)")
    case True
    then show ?thesis using pq by simp
  next
    case False
    then have "holds (locks_of s (wait_key w)) (Process q) off t"
      using assms(5) w(3,5) unfolding gains_only_def by metis
    then have "(p, q) \<in> waits_for s" unfolding waits_for_iff [OF assms(1,3)] using w bl by blast
    then show ?thesis using pq by simp
  qed
qed

lemma granted_no_out:
  assumes "lock_inv s" "blocked_ok s" "req_ok p r" "\<not> rq_ofd r" "\<not> req_conflicts r s"
    and "btm_get (lock_blocked s) p = None \<or> btm_get (lock_blocked s) p = Some (wait_of r)"
  shows "(p, y) \<notin> waits_for s"
proof
  assume "(p, y) \<in> waits_for s"
  then obtain off t where y: "y \<noteq> p" "byte_ok off" "covers (rq_start r) (rq_end r) off"
      "holds (locks_of s (rq_key r)) (Process y) off t" "incompatible (rq_type r) t"
    using assms(6) unfolding waits_for_iff [OF assms(1,2)] by (auto simp: wait_of_def)
  have r: "range_ok (rq_start r) (rq_end r)" "Process y \<noteq> rq_owner r" using assms(3,4) y(1) by (simp_all add: req_ok_def)
  have "req_conflicts r s"
    unfolding req_conflicts_def conflict_iff [OF lock_invD(1) [OF assms(1)] r(1)] using y r(2) by blast
  then show False using assms(5) by contradiction
qed

text \<open>The three ways in which the graph changes: it shrinks, a process without outgoing edges gains
  incoming ones, or a process registers after the check.\<close>

lemma acyclic_shrink:
  assumes "acyclic (waits_for s)" "lock_inv s" "lock_inv s'" "blocked_ok s" "shrinks_blocked s s'" "gains_only None s s'"
  shows "acyclic (waits_for s')"
  using waits_gain [OF assms(2-6)] assms(1) by (auto intro: acyclic_subset)

lemma acyclic_granted:
  assumes "acyclic (waits_for s)" "lock_inv s" "blocked_ok s" "req_ok p r" "setlk_section r s = Some (changed, s')"
    and "btm_get (lock_blocked s) p = None \<or> rq_ofd r \<or> btm_get (lock_blocked s) p = Some (wait_of r)"
  shows "acyclic (waits_for s')"
proof -
  note eff = section_effect [OF assms(5,2,4)]
  have sb: "shrinks_blocked s s'" and b': "blocked_ok s'" using eff(4) assms(3) by (simp_all add: shrinks_blocked_def blocked_ok_def)
  note g = waits_gain [OF assms(2) eff(1) assms(3) sb eff(3)]
  show ?thesis
  proof (cases "rq_ofd r")
    case True
    then have "{p. Some (rq_owner r) = Some (Process p)} = {}" using assms(4) by (auto simp: req_ok_def)
    then show ?thesis using g assms(1) by (auto intro: acyclic_subset)
  next
    case False
    then have "waits_for s' \<subseteq> waits_for s \<union> UNIV \<times> {p}" using g assms(4) by (auto simp: req_ok_def)
    moreover have "(p, y) \<notin> waits_for s'" for y
      using granted_no_out [OF eff(1) b' assms(4) False eff(6)] assms(6) eff(4) False by simp
    ultimately show ?thesis by (rule acyclic_into_sink [OF assms(1)])
  qed
qed

lemma waits_for_cong:
  assumes "record_locks s' = record_locks s" "lock_blocked s' = lock_blocked s"
  shows "waits_for s' = waits_for s"
  using assms by (simp add: waits_for_def blockers_def)

lemma acyclic_register:
  assumes "acyclic (waits_for s)" "\<not> detect_record_lock_deadlock s p
      (collect_conflict_process_owners (locks_of s (rq_key r)) (rq_type r) (rq_start r) (rq_end r) p)"
  shows "acyclic (waits_for (set_record_lock_waiting p (wait_of r) s))"
proof -
  let ?Q = "set (collect_conflict_process_owners (locks_of s (rq_key r)) (rq_type r) (rq_start r) (rq_end r) p)"
  have "waits_for (set_record_lock_waiting p (wait_of r) s) \<subseteq> waits_for s \<union> {p} \<times> ?Q"
    by (auto simp: waits_for_def blockers_def lock_simps wait_of_def locks_of_def split: option.splits if_splits)
  then show ?thesis
    using assms(2) unfolding detect_deadlock_iff by (rule acyclic_new_out [OF assms(1)])
qed

text \<open>A process is registered as waiting only by its own unfinished command.\<close>

definition registers :: "lock_call option \<Rightarrow> waiting_record_lock \<Rightarrow> bool" where
  "registers c w \<longleftrightarrow> (\<exists>b r pc. c = Some (Setlk b r pc) \<and> \<not> rq_ofd r \<and> w = wait_of r \<and> (\<forall>x. pc \<noteq> Lk_returned x))"

definition registered_ok :: "(nat \<Rightarrow> pid) \<Rightarrow> lock_sys \<Rightarrow> bool" where
  "registered_ok proc S \<longleftrightarrow> (\<forall>p w. btm_get (lock_blocked (ls_state S)) p = Some w \<longrightarrow>
     (\<exists>t. proc t = p \<and> registers (ls_calls S t) w))"

text \<open>What a task knows inside the window.\<close>

definition owners_now :: "lock_req \<Rightarrow> lock_state \<Rightarrow> pid list" where
  "owners_now r s =
     collect_conflict_process_owners (locks_of s (rq_key r)) (rq_type r) (rq_start r) (rq_end r) (rq_pid r)"

fun window_ok :: "lock_state \<Rightarrow> lock_call \<Rightarrow> bool" where
  "window_ok s (Setlk b r (Lk_check owners)) = (rq_ofd r \<or> owners = owners_now r s)"
| "window_ok s (Setlk b r Lk_mark) = (rq_ofd r \<or> \<not> detect_record_lock_deadlock s (rq_pid r) (owners_now r s))"
| "window_ok s c = True"

definition graph_ok :: "(nat \<Rightarrow> pid) \<Rightarrow> lock_sys \<Rightarrow> bool" where
  "graph_ok proc S \<longleftrightarrow> registered_ok proc S \<and> acyclic (waits_for (ls_state S)) \<and>
     (\<forall>t c. ls_calls S t = Some c \<longrightarrow> window_ok (ls_state S) c)"

lemma outside_window: "\<not> in_window (Some c) \<Longrightarrow> window_ok s c"
  by (cases "(s, c)" rule: window_ok.cases) auto

lemma registered_blocked_ok: "calls_ok proc S \<Longrightarrow> registered_ok proc S \<Longrightarrow> blocked_ok (ls_state S)"
  unfolding registered_ok_def blocked_ok_def registers_def by (fastforce simp: wait_of_def req_ok_def dest: calls_okD(2))

lemma own_registration:
  assumes "registered_ok proc S" "inj proc" "btm_get (lock_blocked (ls_state S)) (proc t) = Some w"
  shows "registers (ls_calls S t) w"
  using assms unfolding registered_ok_def by (metis injD)

lemma idle_unregistered:
  assumes "registered_ok proc S" "inj proc" "ls_calls S t = None \<or> ls_calls S t = Some Exiting"
  shows "btm_get (lock_blocked (ls_state S)) (proc t) = None"
  using own_registration [OF assms(1,2)] assms(3)
  by (cases "btm_get (lock_blocked (ls_state S)) (proc t)") (fastforce simp: registers_def)+

lemma registered_step:
  assumes "registered_ok proc S" "\<And>u. u \<noteq> t \<Longrightarrow> ls_calls S' u = ls_calls S u"
    and "\<And>p w. btm_get (lock_blocked (ls_state S')) p = Some w \<Longrightarrow> p \<noteq> proc t \<Longrightarrow>
      btm_get (lock_blocked (ls_state S)) p = Some w"
    and "\<And>w. btm_get (lock_blocked (ls_state S')) (proc t) = Some w \<Longrightarrow> registers (ls_calls S' t) w"
  shows "registered_ok proc S'"
  unfolding registered_ok_def
proof (intro allI impI)
  fix p w assume w: "btm_get (lock_blocked (ls_state S')) p = Some w"
  show "\<exists>t. proc t = p \<and> registers (ls_calls S' t) w"
  proof (cases "p = proc t")
    case False
    then obtain u where "proc u = p" "registers (ls_calls S u) w" using assms(1,3) w unfolding registered_ok_def by blast
    then show ?thesis using False assms(2) by metis
  qed (use assms(4) w in blast)
qed

text \<open>A step of a task when no other task is in the window.\<close>

lemma graph_step:
  assumes G: "graph_ok proc S" and act: "may_act True S t"
    and calls: "\<And>u. u \<noteq> t \<Longrightarrow> ls_calls S' u = ls_calls S u"
    and blk: "\<And>p w. btm_get (lock_blocked (ls_state S')) p = Some w \<Longrightarrow> p \<noteq> proc t \<Longrightarrow>
      btm_get (lock_blocked (ls_state S)) p = Some w"
    and own: "\<And>w. btm_get (lock_blocked (ls_state S')) (proc t) = Some w \<Longrightarrow> registers (ls_calls S' t) w"
    and ac: "acyclic (waits_for (ls_state S'))"
    and win: "\<And>c. ls_calls S' t = Some c \<Longrightarrow> window_ok (ls_state S') c"
  shows "graph_ok proc S'"
proof -
  have "registered_ok proc S'" by (rule registered_step [where t = t, OF _ calls blk own]) (use G in \<open>simp add: graph_ok_def\<close>)
  moreover have "window_ok (ls_state S') c" if "ls_calls S' u = Some c" for u c
  proof (cases "u = t")
    case False
    then have "\<not> in_window (ls_calls S u)" using act by (simp add: may_act_def undisturbed_def)
    then show ?thesis using that calls [OF False] outside_window by metis
  qed (use that win in simp)
  ultimately show ?thesis using ac by (simp add: graph_ok_def)
qed

text \<open>The steps that leave the locks and the registrations alone.\<close>

lemma detect_cong:
  assumes "record_locks s' = record_locks s" "lock_blocked s' = lock_blocked s"
  shows "detect_record_lock_deadlock s' p os = detect_record_lock_deadlock s p os" "owners_now r s' = owners_now r s"
  using waits_for_cong [OF assms] tables_cong(1) [OF assms(1)] by (simp_all add: detect_deadlock_iff owners_now_def)

lemma window_cong:
  assumes "record_locks s' = record_locks s" "lock_blocked s' = lock_blocked s"
  shows "window_ok s' c = window_ok s c"
  using detect_cong [OF assms] by (cases "(s, c)" rule: window_ok.cases) simp_all

lemma graph_frame:
  assumes "graph_ok proc S" "ls_calls S' = ls_calls S" "record_locks (ls_state S') = record_locks (ls_state S)"
    "lock_blocked (ls_state S') = lock_blocked (ls_state S)"
  shows "graph_ok proc S'"
  using assms(1) waits_for_cong [OF assms(3,4)] window_cong [OF assms(3,4)]
  by (simp add: graph_ok_def registered_ok_def assms(2,4))

lemma setlk_step_blocked:
  assumes "setlk_step b r task sg pc s = (pc', keys, s')" "btm_get (lock_blocked s') q = Some w"
  shows "btm_get (lock_blocked s) q = Some w \<or> pc = Lk_mark \<and> \<not> rq_ofd r \<and> q = rq_pid r \<and> w = wait_of r"
    and "\<not> rq_ofd r \<Longrightarrow> pc' = Lk_returned x \<Longrightarrow> (\<forall>x. pc \<noteq> Lk_returned x) \<Longrightarrow> q \<noteq> rq_pid r"
proof -
  have "(btm_get (lock_blocked s) q = Some w \<or> pc = Lk_mark \<and> \<not> rq_ofd r \<and> q = rq_pid r \<and> w = wait_of r) \<and>
    (\<not> rq_ofd r \<longrightarrow> pc' = Lk_returned x \<longrightarrow> (\<forall>x. pc \<noteq> Lk_returned x) \<longrightarrow> q \<noteq> rq_pid r)"
  proof (cases "pc = Lk_try")
    case True
    from assms(1) [unfolded True] show ?thesis
    proof (cases rule: setlk_try_cases)
      case (granted changed)
      from granted(1) obtain ls' where "s' = put_locks (rq_key r) ls' s" by (rule section_result)
      then show ?thesis using assms(2) granted(3) by (auto simp: lock_simps setlk_finish_def split: option.splits)
    qed (use assms(2) in \<open>auto simp: setlk_finish_def split: option.splits\<close>)
  next
    case False
    then show ?thesis using assms
      by (cases pc) (auto simp: setlk_step_def setlk_finish_def wait_of_def lock_simps
        split: setlk_next.splits option.splits if_splits)
  qed
  then show "btm_get (lock_blocked s) q = Some w \<or> pc = Lk_mark \<and> \<not> rq_ofd r \<and> q = rq_pid r \<and> w = wait_of r"
    "\<not> rq_ofd r \<Longrightarrow> pc' = Lk_returned x \<Longrightarrow> (\<forall>x. pc \<noteq> Lk_returned x) \<Longrightarrow> q \<noteq> rq_pid r" by blast+
qed

lemma setlk_step_window:
  assumes "setlk_step b r task sg pc s = (pc', keys, s')" "window_ok s (Setlk b r pc)"
  shows "window_ok s' (Setlk b r pc')"
proof (cases "pc = Lk_try")
  case True
  from assms(1) [unfolded True] show ?thesis
    by (cases rule: setlk_try_cases) (auto simp: setlk_finish_def owners_now_def split: option.splits)
next
  case False
  then show ?thesis using assms
    by (cases pc) (auto simp: setlk_step_def setlk_finish_def split: setlk_next.splits option.splits if_splits)
qed

lemma setlk_step_acyclic:
  assumes "setlk_step b r task sg pc s = (pc', keys, s')" "window_ok s (Setlk b r pc)"
    and "acyclic (waits_for s)" "lock_inv s" "blocked_ok s" "req_ok p r"
    and "btm_get (lock_blocked s) p = None \<or> rq_ofd r \<or> btm_get (lock_blocked s) p = Some (wait_of r)"
  shows "acyclic (waits_for s')"
proof -
  consider (attempt) "pc = Lk_try" | (mark) "pc = Lk_mark" "\<not> rq_ofd r" | (other) "pc \<noteq> Lk_try" "pc = Lk_mark \<longrightarrow> rq_ofd r" by blast
  then show ?thesis
  proof cases
    case attempt
    from assms(1) [unfolded attempt] show ?thesis
    proof (cases rule: setlk_try_cases)
      case (granted changed)
      then show ?thesis using acyclic_granted [OF assms(3-6) granted(1) assms(7)] by blast
    qed (use assms(3) in simp_all)
  next
    case mark
    then have "s' = set_record_lock_waiting p (wait_of r) s"
      using assms(1,6) by (auto simp: setlk_step_def wait_of_def req_ok_def)
    moreover have "rq_pid r = p" using assms(6) by (simp add: req_ok_def)
    ultimately show ?thesis using acyclic_register [OF assms(3), of p r] assms(2) mark by (simp add: owners_now_def)
  next
    case other
    note f = setlk_step_frame [OF assms(1) other(1)]
    have "shrinks_blocked s s'"
      unfolding shrinks_blocked_def using setlk_step_blocked(1) [OF assms(1)] other(2) by blast
    from acyclic_shrink [OF assms(3,4) lock_inv_cong [OF assms(4) f(2)] assms(5) this gains_cong [OF f(2)]] show ?thesis .
  qed
qed

lemma advance_graph:
  assumes G: "graph_ok proc S" and C: "calls_ok proc S" and inj: "inj proc" and act: "may_act True S t"
    and call: "ls_calls S t = Some (Setlk b r pc)"
    and e: "setlk_step b r (if b then Some t else None) sg pc (ls_state S) = (pc', keys, s')"
  shows "graph_ok proc (S\<lparr>ls_state := s', ls_calls := (ls_calls S)(t \<mapsto> Setlk b r pc'),
      ls_wakes := (ls_wakes S)(t := (keys, [])), ls_woken := W\<rparr>)"
proof -
  note c = calls_okD [OF C]
  have r: "req_ok (proc t) r" and reg: "registered_ok proc S" and w: "window_ok (ls_state S) (Setlk b r pc)"
    and ac: "acyclic (waits_for (ls_state S))" using c(2) [OF call] G call by (auto simp: graph_ok_def)
  have pid: "rq_pid r = proc t" using r by (simp add: req_ok_def)
  have own: "\<not> rq_ofd r \<and> w = wait_of r \<and> (\<forall>x. pc \<noteq> Lk_returned x)"
    if "btm_get (lock_blocked (ls_state S)) (proc t) = Some w" for w
    using own_registration [OF reg inj that] call by (simp add: registers_def)
  note blk = setlk_step_blocked(1) [OF e] and ret = setlk_step_blocked(2) [OF e]
  have ac': "acyclic (waits_for s')"
    by (rule setlk_step_acyclic [OF e w ac c(1) registered_blocked_ok [OF C reg] r])
      (use own in \<open>cases "btm_get (lock_blocked (ls_state S)) (proc t)"\<close>, auto)
  show ?thesis
  proof (rule graph_step [OF G act])
    fix w assume w': "btm_get (lock_blocked (ls_state (S\<lparr>ls_state := s', ls_calls := (ls_calls S)(t \<mapsto> Setlk b r pc'),
      ls_wakes := (ls_wakes S)(t := (keys, [])), ls_woken := W\<rparr>))) (proc t) = Some w"
    then have b: "btm_get (lock_blocked s') (proc t) = Some w" by simp
    have o': "\<not> rq_ofd r \<and> w = wait_of r" "\<forall>x. pc \<noteq> Lk_returned x" using blk [OF b] own by auto
    moreover have "pc' \<noteq> Lk_returned x" for x using ret [OF b] o' pid by auto
    ultimately show "registers (ls_calls (S\<lparr>ls_state := s', ls_calls := (ls_calls S)(t \<mapsto> Setlk b r pc'),
      ls_wakes := (ls_wakes S)(t := (keys, [])), ls_woken := W\<rparr>) t) w" by (simp add: registers_def)
  qed (use ac' blk pid setlk_step_window [OF e w] in auto)
qed

lemma release_graph:
  assumes G: "graph_ok proc S" and C: "calls_ok proc S" and inj: "inj proc" and act: "may_act True S t"
    and call: "ls_calls S t = None \<or> ls_calls S t = Some Exiting"
    and eff: "lock_inv s'" "gains_only None (ls_state S) s'" "shrinks_blocked (ls_state S) s'"
    and S': "ls_state S' = s'" "\<And>u. u \<noteq> t \<Longrightarrow> ls_calls S' u = ls_calls S u" "\<And>c. ls_calls S' t = Some c \<Longrightarrow> window_ok s' c"
  shows "graph_ok proc S'"
proof -
  have reg: "registered_ok proc S" and ac: "acyclic (waits_for (ls_state S))" using G by (simp_all add: graph_ok_def)
  have "btm_get (lock_blocked s') (proc t) = None"
    using idle_unregistered [OF reg inj call] eff(3) unfolding shrinks_blocked_def
    by (cases "btm_get (lock_blocked s') (proc t)") fastforce+
  moreover have "acyclic (waits_for s')"
    by (rule acyclic_shrink [OF ac calls_okD(1) [OF C] eff(1) registered_blocked_ok [OF C reg] eff(3,2)])
  ultimately show ?thesis
    by (intro graph_step [OF G act]) (use S' eff(3) in \<open>auto simp: shrinks_blocked_def\<close>)
qed

lemma graph_ok_step:
  assumes "lock_step True proc S S'" "calls_ok proc S" "graph_ok proc S" "inj proc"
  shows "graph_ok proc S'"
  using assms(1)
proof cases
  case (enter t is_ofd fl v v' r blocking)
  have "graph_ok proc (S\<lparr>ls_calls := (ls_calls S)(t \<mapsto> Setlk blocking r Lk_start)\<rparr>)"
    by (rule release_graph [OF assms(3,2,4) enter(2) _ calls_okD(1) [OF assms(2)]])
      (simp_all add: enter(3) gains_cong shrinks_blocked_def)
  then show ?thesis using enter(1) by simp
next
  case (advance t blocking r pc signal pc' keys s')
  then show ?thesis using advance_graph [OF assms(3,2,4) advance(2,3,5)] by simp
next
  case (leave t blocking r ret)
  have "btm_get (lock_blocked (ls_state S)) (proc t) = None"
    using own_registration [OF _ assms(4), of S t] assms(3) leave(3)
    by (cases "btm_get (lock_blocked (ls_state S)) (proc t)") (auto simp: graph_ok_def registers_def)
  then have "graph_ok proc (S\<lparr>ls_calls := (ls_calls S)(t := None)\<rparr>)"
    by (intro graph_step [OF assms(3) leave(2)]) (use assms(3) in \<open>auto simp: graph_ok_def\<close>)
  then show ?thesis using leave(1) by simp
next
  case (take_queue t key keys ts s')
  have s': "s' = snd (take_record_lock_waiters key (ls_state S))" using take_queue(3) by simp
  show ?thesis unfolding take_queue(1)
    by (rule graph_frame [OF assms(3)]) (simp_all add: s' lock_simps)
next
  case (wake_one t keys u ts)
  then show ?thesis using graph_frame [OF assms(3)] by simp
next
  case (close t key keys s')
  note eff = close_effect [OF close(4) calls_okD(1) [OF assms(2)]]
  show ?thesis unfolding close(1)
    by (rule release_graph [OF assms(3,2,4) close(2) _ eff(1,3)]) (simp_all add: close(3) shrinks_blocked_def eff(4))
next
  case (exit_clear t)
  have l: "lock_inv (clear_record_lock_waiting (proc t) (ls_state S))"
    by (rule lock_inv_cong [OF calls_okD(1) [OF assms(2)]]) (simp add: lock_simps)
  show ?thesis unfolding exit_clear(1)
    by (rule release_graph [OF assms(3,2,4) exit_clear(2) _ l])
      (auto simp: exit_clear(3) gains_cong lock_simps shrinks_blocked_def split: if_splits)
next
  case (exit_release t keys s')
  note eff = exit_effect [OF exit_release(4) calls_okD(1) [OF assms(2)]]
  show ?thesis unfolding exit_release(1)
    by (rule release_graph [OF assms(3,2,4) exit_release(2) _ eff(1,3)]) (simp_all add: exit_release(3) shrinks_blocked_def eff(4))
next
  case (flock fl op ret s')
  then show ?thesis using graph_frame [OF assms(3)] flock_step_frame [OF flock(2)] by simp
next
  case (drop owner)
  then show ?thesis using graph_frame [OF assms(3)] flock_frame(4,5) by simp
qed

lemma graph_ok_init: "graph_ok proc sys_init"
  by (simp add: graph_ok_def registered_ok_def sys_init_def waits_for_def blockers_def lock_init_def acyclic_def)

lemma reachable_graph_ok: "lock_reachable True proc S \<Longrightarrow> inj proc \<Longrightarrow> calls_ok proc S \<and> graph_ok proc S"
  by (induction rule: lock_reachable_induct) (auto intro: calls_ok_init calls_ok_step graph_ok_init graph_ok_step)

section \<open>Runs of one task\<close>

text \<open>The system with task \<open>t\<close> at a given point; the other tasks are as in \<open>S\<close>.\<close>

definition with_task :: "lock_sys \<Rightarrow> nat \<Rightarrow> lock_call option \<Rightarrow> lock_key list \<times> nat list \<Rightarrow> lock_state \<Rightarrow> nat set \<Rightarrow> lock_sys" where
  "with_task S t c wk s W =
     \<lparr>ls_state = s, ls_calls = (ls_calls S)(t := c), ls_wakes = (ls_wakes S)(t := wk), ls_woken = W\<rparr>"

lemma with_task_simps [simp]:
  "ls_state (with_task S t c wk s W) = s" "ls_calls (with_task S t c wk s W) = (ls_calls S)(t := c)"
  "ls_wakes (with_task S t c wk s W) = (ls_wakes S)(t := wk)" "ls_woken (with_task S t c wk s W) = W"
  "with_task (with_task S t c' wk' s' W') t c wk s W = with_task S t c wk s W"
  by (simp_all add: with_task_def)

lemma with_task_same: "with_task S t (ls_calls S t) (ls_wakes S t) (ls_state S) (ls_woken S) = S"
  by (simp add: with_task_def)

lemma may_act_with: "undisturbed excl S t \<Longrightarrow> may_act excl (with_task S t c ([], []) s W) t"
  by (simp add: may_act_def undisturbed_def)

lemma enter_with:
  assumes "undisturbed excl S t" "fcntl_lock_args is_ofd (proc t) fl v = Inr (v', r)"
  shows "lock_step excl proc (with_task S t None ([], []) s W) (with_task S t (Some (Setlk b r Lk_start)) ([], []) s W)"
proof -
  let ?S = "with_task S t None ([], []) s W"
  have "lock_step excl proc ?S (?S\<lparr>ls_calls := (ls_calls ?S)(t \<mapsto> Setlk b r Lk_start)\<rparr>)"
    by (rule lock_step.enter [OF may_act_with [OF assms(1)]]) (simp, rule assms(2))
  then show ?thesis by (simp add: with_task_def)
qed

lemma advance_with:
  assumes "undisturbed excl S t" "setlk_step b r (if b then Some t else None) sg pc s = (pc', keys, s')"
    and "pc = Lk_asleep \<longrightarrow> t \<in> W \<or> sg"
    and "W' = (if pc = Lk_enqueue \<or> pc = Lk_asleep then W - {t} else W)"
  shows "lock_step excl proc (with_task S t (Some (Setlk b r pc)) ([], []) s W)
    (with_task S t (Some (Setlk b r pc')) (keys, []) s' W')"
proof -
  let ?S = "with_task S t (Some (Setlk b r pc)) ([], []) s W"
  have "lock_step excl proc ?S (?S\<lparr>ls_state := s', ls_calls := (ls_calls ?S)(t \<mapsto> Setlk b r pc'),
      ls_wakes := (ls_wakes ?S)(t := (keys, [])),
      ls_woken := if pc = Lk_enqueue \<or> pc = Lk_asleep then ls_woken ?S - {t} else ls_woken ?S\<rparr>)"
    by (rule lock_step.advance [OF may_act_with [OF assms(1)], where signal = sg]) (use assms(2,3) in simp_all)
  moreover have "(?S\<lparr>ls_state := s', ls_calls := (ls_calls ?S)(t \<mapsto> Setlk b r pc'),
      ls_wakes := (ls_wakes ?S)(t := (keys, [])),
      ls_woken := if pc = Lk_enqueue \<or> pc = Lk_asleep then ls_woken ?S - {t} else ls_woken ?S\<rparr>) =
      with_task S t (Some (Setlk b r pc')) (keys, []) s' W'"
    unfolding with_task_def assms(4) by simp
  ultimately show ?thesis by (simp only:)
qed

lemma leave_with:
  assumes "undisturbed excl S t"
  shows "lock_step excl proc (with_task S t (Some (Setlk b r (Lk_returned ret))) ([], []) s W) (with_task S t None ([], []) s W)"
proof -
  let ?S = "with_task S t (Some (Setlk b r (Lk_returned ret))) ([], []) s W"
  have "lock_step excl proc ?S (?S\<lparr>ls_calls := (ls_calls ?S)(t := None)\<rparr>)"
    by (rule lock_step.leave [OF may_act_with [OF assms]]) simp
  then show ?thesis by (simp add: with_task_def)
qed

lemma wakes_with:
  "(lock_step excl proc)\<^sup>*\<^sup>* (with_task S t c (keys, ts) s W) (with_task S t c (keys, []) s (W \<union> set ts))"
proof (induction ts arbitrary: W)
  case (Cons u ts)
  have "lock_step excl proc (with_task S t c (keys, u # ts) s W) (with_task S t c (keys, ts) s (insert u W))"
    using lock_step.wake_one [of "with_task S t c (keys, u # ts) s W" t keys u ts excl proc]
    by (simp add: with_task_def)
  then show ?case using Cons.IH [of "insert u W"] by (simp add: converse_rtranclp_into_rtranclp)
qed simp

lemma take_with:
  assumes "take_record_lock_waiters key s = (ts, s')"
  shows "(lock_step excl proc)\<^sup>*\<^sup>* (with_task S t c (key # keys, []) s W) (with_task S t c (keys, []) s' (W \<union> set ts))"
proof -
  have "lock_step excl proc (with_task S t c (key # keys, []) s W) (with_task S t c (keys, ts) s' W)"
    using lock_step.take_queue [of "with_task S t c (key # keys, []) s W" t key keys ts s' excl proc] assms
    by (simp add: with_task_def)
  then show ?thesis using wakes_with by (rule converse_rtranclp_into_rtranclp)
qed

text \<open>Finishing the wake-ups a task has begun.\<close>

lemma drain_with:
  "\<exists>s' W'. (lock_step excl proc)\<^sup>*\<^sup>* (with_task S t c (keys, []) s W) (with_task S t c ([], []) s' W') \<and>
     record_locks s' = record_locks s \<and> W \<subseteq> W' \<and> (\<forall>k\<in>set keys. set (queue_of s k) \<subseteq> W')"
proof (induction keys arbitrary: s W)
  case Nil
  then show ?case by auto
next
  case (Cons key keys)
  let ?s = "snd (take_record_lock_waiters key s)" and ?ts = "queue_of s key"
  have t: "take_record_lock_waiters key s = (?ts, ?s)" using take_waiters_simps(5) [of key s] by (metis prod.collapse)
  from Cons.IH [of ?s "W \<union> set ?ts"] obtain s' W'
    where run: "(lock_step excl proc)\<^sup>*\<^sup>* (with_task S t c (keys, []) ?s (W \<union> set ?ts)) (with_task S t c ([], []) s' W')"
      and s': "record_locks s' = record_locks ?s" "W \<union> set ?ts \<subseteq> W'" "\<forall>k\<in>set keys. set (queue_of ?s k) \<subseteq> W'"
    by blast
  have "set (queue_of s k) \<subseteq> W'" if "k \<in> set (key # keys)" for k
    using that s'(2) bspec [OF s'(3), of k] by (cases "k = key") (auto simp: lock_simps)
  moreover have "record_locks s' = record_locks s" using s'(1) by (simp add: lock_simps)
  moreover have "W \<subseteq> W'" using s'(2) by simp
  ultimately show ?case using rtranclp_trans [OF take_with [OF t] run] by blast
qed

lemma finish_wakes:
  "\<exists>s' W'. (lock_step excl proc)\<^sup>*\<^sup>* (with_task S t c (keys, ts) s W) (with_task S t c ([], []) s' W') \<and>
     record_locks s' = record_locks s \<and> W \<union> set ts \<subseteq> W' \<and> (\<forall>k\<in>set keys. set (queue_of s k) \<subseteq> W')"
  using drain_with [of excl proc S t c keys s "W \<union> set ts"] rtranclp_trans [OF wakes_with [of excl proc S t c keys ts s W]]
  by blast

text \<open>A non-blocking command that is not interrupted computes \<open>fcntl_setlk\<close>.\<close>

lemma setlk_alone:
  assumes u: "undisturbed excl S t" and args: "fcntl_lock_args is_ofd (proc t) fl v = Inr (v', r)"
    and e: "fcntl_setlk r s = (ret, woken, s')"
  shows "(lock_step excl proc)\<^sup>*\<^sup>* (with_task S t None ([], []) s W) (with_task S t None ([], []) s' (W \<union> set woken))"
proof -
  let ?at = "\<lambda>pc. with_task S t (Some (Setlk False r pc))" and ?s0 = "clear_unless_ofd r s"
  have start: "(lock_step excl proc)\<^sup>*\<^sup>* (with_task S t None ([], []) s W) (?at Lk_try ([], []) ?s0 W)"
    using enter_with [where proc = proc and t = t and b = False and s = s and W = W, OF u args]
      advance_with [OF u, of False r False Lk_start s Lk_try "[]" ?s0 W W proc]
    by (simp add: setlk_step_def)
  have finish: "(lock_step excl proc)\<^sup>*\<^sup>* (?at (Lk_clear (Lk_return ret)) ([], []) s1 W1) (with_task S t None ([], []) (clear_unless_ofd r s1) W1)"
    for s1 W1
    using advance_with [OF u, of False r False "Lk_clear (Lk_return ret)" s1 "Lk_returned ret" "[]" "clear_unless_ofd r s1" W1 W1 proc]
      leave_with [OF u, of proc False r ret "clear_unless_ofd r s1" W1]
    by (simp add: setlk_step_def)
  show ?thesis
  proof (cases "setlk_section r ?s0")
    case None
    then have "lock_step excl proc (?at Lk_try ([], []) ?s0 W) (?at (Lk_clear (Lk_return ret)) ([], []) ?s0 W)"
      using e by (intro advance_with [OF u, where sg = False]) (auto simp: setlk_step_def setlk_finish_def fcntl_setlk_def Let_def)
    then show ?thesis using start finish [of ?s0 W] e None
      by (auto simp: fcntl_setlk_def Let_def intro: rtranclp_trans converse_rtranclp_into_rtranclp)
  next
    case (Some x)
    obtain changed s1 where x: "x = (changed, s1)" by (cases x)
    let ?keys = "if changed then [rq_key r] else []"
    obtain s2 where s2: "(if changed then take_record_lock_waiters (rq_key r) s1 else ([], s1)) = (woken, s2)"
        "s' = clear_unless_ofd r s2" and ret: "ret = 0"
      using e Some x by (auto simp: fcntl_setlk_def Let_def split: prod.splits)
    have 1: "lock_step excl proc (?at Lk_try ([], []) ?s0 W) (?at (Lk_clear (Lk_return ret)) (?keys, []) s1 W)"
      using Some x ret by (intro advance_with [OF u, where sg = False]) (auto simp: setlk_step_def setlk_finish_def)
    have 2: "(lock_step excl proc)\<^sup>*\<^sup>* (?at (Lk_clear (Lk_return ret)) (?keys, []) s1 W)
        (?at (Lk_clear (Lk_return ret)) ([], []) s2 (W \<union> set woken))"
      using s2(1) take_with [of "rq_key r" s1 woken s2 excl proc] by (cases changed) auto
    show ?thesis using start 1 2 finish [of s2 "W \<union> set woken"] s2(2)
      by (auto intro: rtranclp_trans converse_rtranclp_into_rtranclp)
  qed
qed

text \<open>A task about to try whose request conflicts with nothing gets its lock and returns.\<close>

lemma try_returns:
  assumes u: "undisturbed excl S t" and free: "\<not> req_conflicts r s"
  shows "\<exists>s' W'. (lock_step excl proc)\<^sup>*\<^sup>* (with_task S t (Some (Setlk True r Lk_try)) ([], []) s W)
    (with_task S t (Some (Setlk True r (Lk_returned 0))) ([], []) s' W')"
proof -
  let ?at = "\<lambda>pc. with_task S t (Some (Setlk True r pc))"
  have "\<exists>x. setlk_section r s = Some x" using free by (simp add: setlk_section_def split_beta)
  then obtain changed s1 where s1: "setlk_section r s = Some (changed, s1)" by auto
  have 1: "lock_step excl proc (?at Lk_try ([], []) s W)
      (?at (Lk_remove (Lk_return 0)) (if changed then [rq_key r] else [], []) s1 W)"
    using s1 by (intro advance_with [OF u, where sg = False]) (simp_all add: setlk_step_def setlk_finish_def)
  obtain s2 W2 where 2: "(lock_step excl proc)\<^sup>*\<^sup>*
      (?at (Lk_remove (Lk_return 0)) (if changed then [rq_key r] else [], []) s1 W) (?at (Lk_remove (Lk_return 0)) ([], []) s2 W2)"
    using drain_with [of excl proc S t _ _ s1 W] by blast
  let ?s3 = "remove_record_lock_waiter (rq_key r) t s2"
  have 3: "lock_step excl proc (?at (Lk_remove (Lk_return 0)) ([], []) s2 W2) (?at (Lk_clear (Lk_return 0)) ([], []) ?s3 W2)"
    by (rule advance_with [OF u, where sg = False]) (simp_all add: setlk_step_def)
  have 4: "lock_step excl proc (?at (Lk_clear (Lk_return 0)) ([], []) ?s3 W2) (?at (Lk_returned 0) ([], []) (clear_unless_ofd r ?s3) W2)"
    by (rule advance_with [OF u, where sg = False]) (simp_all add: setlk_step_def)
  show ?thesis using 1 2 3 4 by (meson rtranclp.rtrancl_into_rtrancl converse_rtranclp_into_rtranclp)
qed

section \<open>Properties\<close>

definition demo_file :: lock_file where
  "demo_file = \<lparr>lf_key = Some (1, 2), lf_id = 7, lf_readable = True, lf_writable = True, lf_offset = 0, lf_size = 100\<rparr>"

definition demo_flock :: "int \<Rightarrow> fcntl_flock" where
  "demo_flock t = \<lparr>l_type = t, l_whence = 0, l_start = 10, l_len = 5, l_pid = 0\<rparr>"

definition demo_req :: "pid \<Rightarrow> int \<Rightarrow> lock_req" where
  "demo_req p t = \<lparr>rq_ofd = False, rq_key = (1, 2), rq_owner = Process p, rq_pid = p, rq_type = t, rq_start = 10, rq_end = Some 14\<rparr>"

definition demo_locked :: lock_state where
  "demo_locked = lock_init\<lparr>record_locks := [((1, 2), [\<lparr>lock_owner = Process 5, lock_owner_pid = 5, lock_type = F_WRLCK,
     lock_start = 10, lock_end = Some 14\<rparr>])]\<rparr>"

lemma demo_args: "t = F_RDLCK \<or> t = F_WRLCK \<or> t = F_UNLCK \<Longrightarrow>
    fcntl_lock_args False p (Some demo_file) (Some (demo_flock t)) = Inr (demo_flock t, demo_req p t)"
  by (auto simp: fcntl_lock_args_def lock_request_def lock_range_from_flock_def flock_base_def demo_file_def demo_flock_def
    checked_add_i64_def in_i64_def owner_of_def make_req_def demo_req_def lock_types)

lemma demo_setlk: "fcntl_setlk (demo_req 5 F_WRLCK) lock_init = (0, [], demo_locked)"
  by (simp add: fcntl_setlk_def clear_unless_ofd_def clear_record_lock_waiting_def demo_req_def lock_init_def demo_locked_def
    setlk_section_def req_conflicts_def conflict_exists_def locks_of_def apply_record_lock_for_owner_def normalize_record_locks_def
    lock_types take_record_lock_waiters_def put_locks_def btm_remove_def Let_def)

lemma undisturbed_init: "undisturbed excl sys_init t"
  by (simp add: undisturbed_def sys_init_def)

lemma sys_init_with: "sys_init = with_task sys_init t None ([], []) lock_init {}"
  by (simp add: with_task_def sys_init_def fun_eq_iff)

lemma setlk_reachable:
  assumes "lock_reachable excl proc (with_task sys_init t None ([], []) s {})"
    and "fcntl_lock_args is_ofd (proc t) fl v = Inr (v', r)" "fcntl_setlk r s = (ret, [], s')"
  shows "lock_reachable excl proc (with_task sys_init t None ([], []) s' {})"
proof -
  have "(lock_step excl proc)\<^sup>*\<^sup>* (with_task sys_init t None ([], []) s {}) (with_task sys_init t None ([], []) s' ({} \<union> set []))"
    by (rule setlk_alone [where proc = proc and t = t, OF undisturbed_init assms(2,3)])
  then show ?thesis using assms(1) unfolding lock_reachable_def by (simp add: rtranclp_trans)
qed

text \<open>All tasks are idle.\<close>

lemma idle_with: "with_task sys_init t None ([], []) s W = sys_init\<lparr>ls_state := s, ls_woken := W\<rparr>"
  by (simp add: with_task_def sys_init_def fun_eq_iff)

lemma demo_reachable: "lock_reachable excl (\<lambda>t. t) (with_task sys_init t None ([], []) demo_locked {})"
proof -
  have "lock_reachable excl (\<lambda>t. t) (with_task sys_init 5 None ([], []) demo_locked {})"
    by (rule setlk_reachable [where proc = "\<lambda>t. t" and t = 5, OF _ demo_args [of F_WRLCK 5] demo_setlk])
      (simp_all add: lock_reachable_def sys_init_with [symmetric])
  then show ?thesis by (simp add: idle_with)
qed

text \<open>C2: Record locks are exclusive. Whatever interleaving of the critical sections of lock commands, closes
  and exits of any number of tasks led to the state, if an owner holds a write lock on a byte of a file then
  nobody else holds any lock on that byte, and the owner itself holds no other type of lock there.\<close>

theorem record_locks_exclusive:
  assumes "lock_reachable excl proc S" and "byte_ok off"
    and "holds (locks_of (ls_state S) key) o1 off F_WRLCK" and "holds (locks_of (ls_state S) key) o2 off t"
  shows "o2 = o1 \<and> t = F_WRLCK"
proof -
  note inv = calls_okD(1) [OF reachable_calls_ok [OF assms(1)]]
  have "locks_ok (locks_of (ls_state S) key)" by (rule lock_invD(1) [OF inv])
  then have "t = F_RDLCK \<or> t = F_WRLCK" using assms(4) by (auto simp: holds_def locks_ok_def lock_ok_def)
  moreover have "if o1 = o2 then F_WRLCK = t else \<not> incompatible F_WRLCK t"
    using lock_invD(2) [OF inv, of key] assms(2-4) unfolding exclusive_locks_def by blast
  ultimately show ?thesis by (auto simp: incompatible_def split: if_splits)
qed

theorem record_locks_exclusive_witness:
  "holds (locks_of demo_locked (1, 2)) (Process 5) 12 F_WRLCK \<and> \<not> holds (locks_of demo_locked (1, 2)) (Process 6) 12 F_RDLCK"
proof -
  have h: "holds (locks_of demo_locked (1, 2)) (Process 5) 12 F_WRLCK"
    by (simp add: holds_def locks_of_def demo_locked_def btm_get_def covers_def)
  moreover have "q = Process 5 \<and> t = F_WRLCK" if q: "holds (locks_of demo_locked (1, 2)) q 12 t" for q t
    by (rule record_locks_exclusive [OF demo_reachable [of False 5], of 12 "(1, 2)"]) (use h q in \<open>simp_all add: byte_ok_def I64_MAX_def\<close>)
  ultimately show ?thesis by force
qed

text \<open>C39: Whole-file locks are exclusive. In every reachable state the \<open>flock\<close> table has, for each file, at
  most one lock per open file description, and an exclusive lock is the only one on its file.\<close>

theorem flock_locks_exclusive:
  assumes "lock_reachable excl proc S" and "(key, ls) \<in> set (flock_locks (ls_state S))"
  shows "distinct (map flock_owner ls) \<and> (\<forall>l\<in>set ls. flock_exclusive l \<longrightarrow> ls = [l])"
  using reachable_flock_inv [OF assms(1)] assms(2) by (auto simp: flock_inv_def flocks_ok_def)

definition demo_flocked :: lock_state where
  "demo_flocked = lock_init\<lparr>flock_locks := [((1, 2), [\<lparr>flock_owner = 7, flock_exclusive = True\<rparr>])]\<rparr>"

lemma demo_flock_step: "syscall_flock (Some demo_file) (LOCK_EX OR LOCK_NB) lock_init = (0, demo_flocked)"
  by (simp add: syscall_flock_def demo_file_def LOCK_SH_def LOCK_EX_def LOCK_NB_def LOCK_UN_def flocks_of_def lock_init_def
    put_flocks_def demo_flocked_def Let_def)

theorem flock_locks_exclusive_witness:
  "\<exists>S. lock_reachable False (\<lambda>t. t) S \<and> ((1, 2), [\<lparr>flock_owner = 7, flock_exclusive = True\<rparr>]) \<in> set (flock_locks (ls_state S)) \<and>
    distinct (map flock_owner [\<lparr>flock_owner = 7, flock_exclusive = True\<rparr>])"
proof -
  let ?S = "sys_init\<lparr>ls_state := demo_flocked\<rparr>"
  have "lock_step False (\<lambda>t. t) sys_init ?S"
    by (rule lock_step.flock [of "Some demo_file" "LOCK_EX OR LOCK_NB"]) (simp add: sys_init_def demo_flock_step)
  then have "lock_reachable False (\<lambda>t. t) ?S" by (simp add: lock_reachable_def)
  moreover have "((1, 2), [\<lparr>flock_owner = 7, flock_exclusive = True\<rparr>]) \<in> set (flock_locks (ls_state ?S))"
    by (simp add: demo_flocked_def)
  ultimately show ?thesis using flock_locks_exclusive [of False "\<lambda>t. t" ?S] by blast
qed

text \<open>C8: When the deadlock check is not interrupted, process-owned blocking requests never deadlock among
  themselves. Every process has one thread, and no other task acts between the failed attempt of a request
  and the registration of its process as waiting; the code does not ensure the second condition. Then in
  every reachable state no process waits, directly or through others, for itself, and following the
  waits-for edges from any process leads to one that waits for nobody. Requests for locks of an open file
  description neither are checked nor count as waiting.\<close>

theorem lock_waits_never_circular:
  assumes "lock_reachable True proc S" and "inj proc"
  shows "(p, p) \<notin> (waits_for (ls_state S))\<^sup>+ \<and>
    (\<exists>q. (p, q) \<in> (waits_for (ls_state S))\<^sup>* \<and> blockers (ls_state S) q = [])"
proof
  let ?R = "waits_for (ls_state S)"
  have ac: "acyclic ?R" using reachable_graph_ok [OF assms] by (simp add: graph_ok_def)
  then show "(p, p) \<notin> ?R\<^sup>+" by (simp add: acyclic_def)
  have "wf (?R\<inverse>)" using finite_acyclic_wf_converse [OF finite_waits_for ac] .
  then show "\<exists>q. (p, q) \<in> ?R\<^sup>* \<and> blockers (ls_state S) q = []"
  proof (induction p rule: wf_induct_rule)
    case (less p)
    show ?case
    proof (cases "blockers (ls_state S) p")
      case Nil
      then show ?thesis by blast
    next
      case (Cons q qs)
      then have "(p, q) \<in> ?R" by (simp add: waits_for_def)
      then show ?thesis using less.IH [of q] by (auto intro: converse_rtrancl_into_rtrancl)
    qed
  qed
qed

text \<open>Process 6 asks for the bytes process 5 has locked: the tables when it is registered and when it is
  in the queue.\<close>

definition demo_registered :: lock_state where
  "demo_registered = set_record_lock_waiting 6 (wait_of (demo_req 6 F_WRLCK)) demo_locked"

definition demo_queued :: lock_state where
  "demo_queued = enqueue_record_lock_waiter (1, 2) 6 demo_registered"

lemma demo_conflict: "req_conflicts (demo_req 6 F_WRLCK) demo_locked"
  by (simp add: req_conflicts_def conflict_exists_def locks_of_def demo_locked_def demo_req_def btm_get_def lock_conflicts_def
    lock_types lock_ranges_overlap_def range_end_i128_def)

lemma demo_queued_conflict: "req_conflicts (demo_req 6 F_WRLCK) demo_queued"
  using demo_conflict by (simp add: req_conflicts_def demo_queued_def demo_registered_def lock_simps)

lemma demo_owners: "collect_conflict_process_owners (locks_of demo_locked (1, 2)) F_WRLCK 10 (Some 14) 6 = [5]"
  by (simp add: locks_of_def demo_locked_def btm_get_def collect_conflict_process_owners_def lock_conflicts_def
    lock_types lock_ranges_overlap_def range_end_i128_def)

lemma demo_no_deadlock: "\<not> detect_record_lock_deadlock demo_locked 6 [5]"
  by (simp add: detect_record_lock_deadlock_def deadlock_search.simps blockers_def demo_locked_def lock_init_def)

abbreviation demo_at :: "setlk_pc \<Rightarrow> lock_state \<Rightarrow> lock_sys" where
  "demo_at pc s \<equiv> with_task sys_init 6 (Some (Setlk True (demo_req 6 F_WRLCK) pc)) ([], []) s {}"

lemma demo_advance:
  assumes "lock_reachable excl (\<lambda>t. t) (demo_at pc s)" "setlk_step True (demo_req 6 F_WRLCK) (Some 6) False pc s = (pc', [], s')"
    and "pc \<noteq> Lk_asleep"
  shows "lock_reachable excl (\<lambda>t. t) (demo_at pc' s')"
proof -
  have "lock_step excl (\<lambda>t. t) (demo_at pc s) (demo_at pc' s')"
    by (rule advance_with [OF undisturbed_init, where sg = False]) (use assms(2,3) in auto)
  then show ?thesis using assms(1) unfolding lock_reachable_def by (rule rtranclp.rtrancl_into_rtrancl [rotated])
qed

lemma demo_registered_reachable: "lock_reachable excl (\<lambda>t. t) (demo_at Lk_enqueue demo_registered)"
proof -
  let ?r = "demo_req 6 F_WRLCK"
  have "lock_step excl (\<lambda>t. t) (with_task sys_init 6 None ([], []) demo_locked {}) (demo_at Lk_start demo_locked)"
    by (rule enter_with [where proc = "\<lambda>t. t" and t = 6, OF undisturbed_init demo_args [of F_WRLCK 6]]) simp
  then have 0: "lock_reachable excl (\<lambda>t. t) (demo_at Lk_start demo_locked)"
    using demo_reachable [of excl 6] unfolding lock_reachable_def by (rule rtranclp.rtrancl_into_rtrancl [rotated])
  have "lock_reachable excl (\<lambda>t. t) (demo_at Lk_try demo_locked)"
    by (rule demo_advance [OF 0]) (simp_all add: setlk_step_def clear_unless_ofd_def demo_req_def clear_record_lock_waiting_def
      demo_locked_def lock_init_def btm_remove_def)
  then have "lock_reachable excl (\<lambda>t. t) (demo_at (Lk_check [5]) demo_locked)"
    by (rule demo_advance) (use demo_owners demo_conflict in \<open>simp_all add: setlk_step_def setlk_section_def\<close>, simp add: demo_req_def)
  then have "lock_reachable excl (\<lambda>t. t) (demo_at Lk_mark demo_locked)"
    by (rule demo_advance) (use demo_no_deadlock in \<open>simp_all add: setlk_step_def demo_req_def\<close>)
  then show ?thesis
    by (rule demo_advance) (simp_all add: setlk_step_def demo_req_def demo_registered_def wait_of_def)
qed

theorem lock_waits_never_circular_witness:
  "lock_reachable True (\<lambda>t. t) (demo_at Lk_enqueue demo_registered) \<and>
   (6, 5) \<in> waits_for demo_registered \<and> (6, 6) \<notin> (waits_for demo_registered)\<^sup>+"
proof -
  have "(6, 5) \<in> waits_for demo_registered"
    by (simp add: waits_for_def blockers_def demo_registered_def set_record_lock_waiting_def wait_of_def demo_req_def demo_locked_def
      lock_init_def btm_get_def collect_conflict_process_owners_def lock_conflicts_def lock_types lock_ranges_overlap_def range_end_i128_def)
  then show ?thesis
    using lock_waits_never_circular [OF demo_registered_reachable [of True], of 6] demo_registered_reachable [of True] by simp
qed

text \<open>Two processes, each holding a lock on a file of its own and asking for that of the other.\<close>

definition cross_file :: "u64 \<Rightarrow> lock_file" where
  "cross_file n = demo_file\<lparr>lf_key := Some (1, n)\<rparr>"

definition cross_req :: "pid \<Rightarrow> u64 \<Rightarrow> lock_req" where
  "cross_req p n = (demo_req p F_WRLCK)\<lparr>rq_key := (1, n)\<rparr>"

definition cross_lock :: "pid \<Rightarrow> record_lock" where
  "cross_lock p = \<lparr>lock_owner = Process p, lock_owner_pid = p, lock_type = F_WRLCK, lock_start = 10, lock_end = Some 14\<rparr>"

definition cross_held :: "pid \<Rightarrow> pid \<Rightarrow> lock_state" where
  "cross_held p q = lock_init\<lparr>record_locks := [((1, 2), [cross_lock p]), ((1, 3), [cross_lock q])]\<rparr>"

lemma cross_args: "fcntl_lock_args False p (Some (cross_file n)) (Some (demo_flock F_WRLCK)) = Inr (demo_flock F_WRLCK, cross_req p n)"
  by (auto simp: fcntl_lock_args_def lock_request_def lock_range_from_flock_def flock_base_def cross_file_def demo_file_def demo_flock_def
    checked_add_i64_def in_i64_def owner_of_def make_req_def cross_req_def demo_req_def lock_types)

lemmas cross_setlk_defs = fcntl_setlk_def clear_unless_ofd_def clear_record_lock_waiting_def cross_req_def demo_req_def lock_init_def
  cross_held_def cross_lock_def setlk_section_def req_conflicts_def conflict_exists_def locks_of_def apply_record_lock_for_owner_def
  normalize_record_locks_def lock_types take_record_lock_waiters_def put_locks_def btm_remove_def btm_get_def Let_def

lemma cross_setlk:
  "fcntl_setlk (cross_req p 2) lock_init = (0, [], lock_init\<lparr>record_locks := [((1, 2), [cross_lock p])]\<rparr>)"
  "fcntl_setlk (cross_req q 3) (lock_init\<lparr>record_locks := [((1, 2), [cross_lock p])]\<rparr>) = (0, [], cross_held p q)"
  by (simp_all add: cross_setlk_defs)

lemma cross_held_reachable: "lock_reachable excl (\<lambda>t. t) (with_task sys_init t None ([], []) (cross_held p q) {})"
proof -
  let ?A = "lock_init\<lparr>record_locks := [((1, 2), [cross_lock p])]\<rparr>"
  have "lock_reachable excl (\<lambda>t. t) (with_task sys_init p None ([], []) ?A {})"
    by (rule setlk_reachable [where proc = "\<lambda>t. t" and t = p, OF _ cross_args [of p 2] cross_setlk(1)])
      (simp add: lock_reachable_def sys_init_with [symmetric])
  then have "lock_reachable excl (\<lambda>t. t) (with_task sys_init q None ([], []) ?A {})" by (simp add: idle_with)
  then have "lock_reachable excl (\<lambda>t. t) (with_task sys_init q None ([], []) (cross_held p q) {})"
    by (rule setlk_reachable [where proc = "\<lambda>t. t" and t = q, OF _ cross_args [of q 3] cross_setlk(2)])
  then show ?thesis by (simp add: idle_with)
qed

text \<open>What matters of the tables while the two requests are under way.\<close>

definition crossed :: "pid \<Rightarrow> pid \<Rightarrow> lock_state \<Rightarrow> bool" where
  "crossed p q s \<longleftrightarrow> btm_get (record_locks s) (1, 2) = Some [cross_lock p] \<and> btm_get (record_locks s) (1, 3) = Some [cross_lock q]"

lemma crossed_cong: "crossed p q s \<Longrightarrow> record_locks s' = record_locks s \<Longrightarrow> crossed p q s'"
  by (simp add: crossed_def)

lemma crossed_held: "crossed p q (cross_held p q)"
  by (simp add: crossed_def cross_held_def btm_get_def)

lemma cross_conflict:
  assumes "crossed p q s" "p \<noteq> q"
  shows "req_conflicts (cross_req p 3) s" "req_conflicts (cross_req q 2) s"
  using assms by (simp_all add: crossed_def req_conflicts_def conflict_exists_def locks_of_def cross_req_def demo_req_def cross_lock_def
    lock_conflicts_def lock_types lock_ranges_overlap_def range_end_i128_def)

lemma cross_owners:
  assumes "p \<noteq> q"
  shows "collect_conflict_process_owners [cross_lock q] F_WRLCK 10 (Some 14) p = [q]"
  using assms by (simp add: collect_conflict_process_owners_def cross_lock_def lock_conflicts_def lock_types lock_ranges_overlap_def
    range_end_i128_def)

lemma cross_no_deadlock: "p \<noteq> q \<Longrightarrow> lock_blocked s = [] \<Longrightarrow> \<not> detect_record_lock_deadlock s p [q]"
  by (simp add: detect_record_lock_deadlock_def deadlock_search.simps blockers_def)

definition duo :: "pid \<Rightarrow> pid \<Rightarrow> lock_call option \<Rightarrow> lock_call option \<Rightarrow> lock_state \<Rightarrow> lock_sys" where
  "duo p q cp cq s = with_task (with_task sys_init p cp ([], []) s {}) q cq ([], []) s {}"

abbreviation duo_reach :: "pid \<Rightarrow> pid \<Rightarrow> setlk_pc \<Rightarrow> setlk_pc \<Rightarrow> lock_state \<Rightarrow> bool" where
  "duo_reach p q pcp pcq s \<equiv>
     lock_reachable False (\<lambda>t. t) (duo p q (Some (Setlk True (cross_req p 3) pcp)) (Some (Setlk True (cross_req q 2) pcq)) s)"

lemma duo_commute: "p \<noteq> q \<Longrightarrow> duo p q cp cq s = duo q p cq cp s"
  by (simp add: duo_def with_task_def fun_upd_twist)

lemma duo_advance:
  assumes "lock_reachable False (\<lambda>t. t) (duo p q cp (Some (Setlk True r pc)) s)"
    "setlk_step True r (Some q) False pc s = (pc', [], s')" "pc \<noteq> Lk_asleep"
  shows "lock_reachable False (\<lambda>t. t) (duo p q cp (Some (Setlk True r pc')) s')"
proof -
  have "lock_step False (\<lambda>t. t) (duo p q cp (Some (Setlk True r pc)) s)
      (with_task (with_task sys_init p cp ([], []) s {}) q (Some (Setlk True r pc')) ([], []) s' {})"
    unfolding duo_def by (rule advance_with [where sg = False]) (use assms(2,3) in \<open>auto simp: undisturbed_def\<close>)
  moreover have "with_task (with_task sys_init p cp ([], []) s {}) q (Some (Setlk True r pc')) ([], []) s' {} =
      duo p q cp (Some (Setlk True r pc')) s'" by (simp add: duo_def with_task_def)
  ultimately show ?thesis using assms(1) unfolding lock_reachable_def by (metis rtranclp.rtrancl_into_rtrancl)
qed

lemma duo_q:
  assumes "duo_reach p q pcp pcq s" "setlk_step True (cross_req q 2) (Some q) False pcq s = (pcq', [], s')" "pcq \<noteq> Lk_asleep"
  shows "duo_reach p q pcp pcq' s'"
  using duo_advance [OF assms] .

lemma duo_p:
  assumes "duo_reach p q pcp pcq s" "p \<noteq> q" "setlk_step True (cross_req p 3) (Some p) False pcp s = (pcp', [], s')" "pcp \<noteq> Lk_asleep"
  shows "duo_reach p q pcp' pcq s'"
  using duo_advance [OF assms(1) [unfolded duo_commute [OF assms(2)]] assms(3,4)] duo_commute [OF assms(2)] by simp

lemma duo_enter:
  assumes "p \<noteq> q"
  shows "duo_reach p q Lk_start Lk_start (cross_held p q)"
proof -
  let ?h = "cross_held p q" and ?cp = "Some (Setlk True (cross_req p 3) Lk_start)"
  have "lock_step False (\<lambda>t. t) (with_task sys_init p None ([], []) ?h {}) (with_task sys_init p ?cp ([], []) ?h {})"
    by (rule enter_with [where proc = "\<lambda>t. t" and t = p, OF undisturbed_init cross_args])
  then have 1: "lock_reachable False (\<lambda>t. t) (with_task sys_init p ?cp ([], []) ?h {})"
    using cross_held_reachable unfolding lock_reachable_def by (rule rtranclp.rtrancl_into_rtrancl [rotated])
  let ?S = "with_task sys_init p ?cp ([], []) ?h {}"
  have "lock_step False (\<lambda>t. t) (with_task ?S q None ([], []) ?h {}) (with_task ?S q (Some (Setlk True (cross_req q 2) Lk_start)) ([], []) ?h {})"
    by (rule enter_with [where proc = "\<lambda>t. t" and t = q, OF _ cross_args]) (simp add: undisturbed_def)
  moreover have "with_task ?S q None ([], []) ?h {} = ?S" using assms by (simp add: with_task_def sys_init_def fun_eq_iff)
  ultimately show ?thesis using 1 unfolding lock_reachable_def duo_def by (simp add: rtranclp.rtrancl_into_rtrancl)
qed

lemma cross_steps:
  assumes "crossed p q s" "p \<noteq> q"
  shows "setlk_step True (cross_req p 3) (Some p) False Lk_try s = (Lk_check [q], [], s)"
    "setlk_step True (cross_req q 2) (Some q) False Lk_try s = (Lk_check [p], [], s)"
    "setlk_step True (cross_req p 3) (Some p) False Lk_recheck s = (Lk_block, [], s)"
    "setlk_step True (cross_req q 2) (Some q) False Lk_recheck s = (Lk_block, [], s)"
  using cross_conflict [OF assms] cross_owners [OF assms(2)] cross_owners [OF assms(2) [symmetric]] assms(1)
  by (simp_all add: setlk_step_def setlk_section_def) (simp_all add: cross_req_def demo_req_def locks_of_def crossed_def)

lemma cross_simple_steps:
  "setlk_step True (cross_req p n) (Some p) False Lk_mark s = (Lk_enqueue, [], set_record_lock_waiting p (wait_of (cross_req p n)) s)"
  "setlk_step True (cross_req p n) (Some p) False Lk_enqueue s = (Lk_recheck, [], enqueue_record_lock_waiter (1, n) p s)"
  "setlk_step True (cross_req p n) (Some p) False Lk_block s = (Lk_asleep, [], s)"
  "lock_blocked s = [] \<Longrightarrow> setlk_step True (cross_req p n) (Some p) False Lk_start s = (Lk_try, [], s)"
  "lock_blocked s = [] \<Longrightarrow> p \<noteq> q \<Longrightarrow> setlk_step True (cross_req p n) (Some p) False (Lk_check [q]) s = (Lk_mark, [], s)"
  using cross_no_deadlock [of p q s]
  by (simp_all add: setlk_step_def cross_req_def demo_req_def wait_of_def clear_unless_ofd_def clear_record_lock_waiting_def btm_remove_def)

lemma duo_checked:
  assumes "p \<noteq> q"
  shows "duo_reach p q Lk_mark Lk_mark (cross_held p q)"
proof -
  let ?h = "cross_held p q"
  have b: "lock_blocked ?h = []" by (simp add: cross_held_def lock_init_def)
  note st = cross_steps [OF crossed_held assms] and si = cross_simple_steps(4) [OF b] cross_simple_steps(5) [OF b]
  have "duo_reach p q Lk_try Lk_start ?h" by (rule duo_p [OF duo_enter [OF assms] assms si(1)]) simp
  then have "duo_reach p q Lk_try Lk_try ?h" by (rule duo_q [OF _ si(1)]) simp
  then have "duo_reach p q (Lk_check [q]) Lk_try ?h" by (rule duo_p [OF _ assms st(1)]) simp
  then have "duo_reach p q (Lk_check [q]) (Lk_check [p]) ?h" by (rule duo_q [OF _ st(2)]) simp
  then have "duo_reach p q Lk_mark (Lk_check [p]) ?h" by (rule duo_p [OF _ assms si(2) [OF assms]]) simp
  then show ?thesis by (rule duo_q [OF _ si(2) [OF assms [symmetric]]]) simp
qed

definition cross_marked :: "pid \<Rightarrow> pid \<Rightarrow> lock_state" where
  "cross_marked p q = set_record_lock_waiting q (wait_of (cross_req q 2)) (set_record_lock_waiting p (wait_of (cross_req p 3)) (cross_held p q))"

definition cross_queued :: "pid \<Rightarrow> pid \<Rightarrow> lock_state" where
  "cross_queued p q = enqueue_record_lock_waiter (1, 2) q (enqueue_record_lock_waiter (1, 3) p (cross_marked p q))"

lemma cross_queued_facts: "crossed p q (cross_queued p q)" "lock_blocked (cross_queued p q) = lock_blocked (cross_marked p q)"
  by (rule crossed_cong [OF crossed_held]) (simp_all add: cross_queued_def cross_marked_def lock_simps)

lemma duo_asleep:
  assumes "p \<noteq> q"
  shows "duo_reach p q Lk_asleep Lk_asleep (cross_queued p q)"
proof -
  let ?s = "cross_queued p q"
  note st = cross_steps [OF cross_queued_facts(1) assms] and si = cross_simple_steps
  have "duo_reach p q Lk_enqueue Lk_mark (set_record_lock_waiting p (wait_of (cross_req p 3)) (cross_held p q))"
    by (rule duo_p [OF duo_checked [OF assms] assms si(1)]) simp
  then have "duo_reach p q Lk_enqueue Lk_enqueue (cross_marked p q)" unfolding cross_marked_def by (rule duo_q [OF _ si(1)]) simp
  then have "duo_reach p q Lk_recheck Lk_enqueue (enqueue_record_lock_waiter (1, 3) p (cross_marked p q))"
    by (rule duo_p [OF _ assms si(2)]) simp
  then have "duo_reach p q Lk_recheck Lk_recheck ?s" unfolding cross_queued_def by (rule duo_q [OF _ si(2)]) simp
  then have "duo_reach p q Lk_block Lk_recheck ?s" by (rule duo_p [OF _ assms st(3)]) simp
  then have "duo_reach p q Lk_block Lk_block ?s" by (rule duo_q [OF _ st(4)]) simp
  then have "duo_reach p q Lk_asleep Lk_block ?s" by (rule duo_p [OF _ assms si(3)]) simp
  then show ?thesis by (rule duo_q [OF _ si(3)]) simp
qed

lemma cross_waits:
  assumes "p \<noteq> q"
  shows "(p, q) \<in> waits_for (cross_queued p q)" "(q, p) \<in> waits_for (cross_queued p q)"
proof -
  have b: "btm_get (lock_blocked (cross_queued p q)) p = Some (wait_of (cross_req p 3))"
      "btm_get (lock_blocked (cross_queued p q)) q = Some (wait_of (cross_req q 2))"
    using assms by (simp_all add: cross_queued_facts cross_marked_def lock_simps)
  show "(p, q) \<in> waits_for (cross_queued p q)" "(q, p) \<in> waits_for (cross_queued p q)"
    using b cross_queued_facts(1) [of p q] cross_owners [OF assms] cross_owners [OF assms [symmetric]]
    by (simp_all add: waits_for_def blockers_def crossed_def wait_of_def cross_req_def demo_req_def)
qed

text \<open>C21: The deadlock check can be passed by both sides of a deadlock. The check and the registration of
  the process as waiting are separate critical sections, so any two processes that each hold a file the
  other asks for can both check before either is registered: they end asleep, each waiting for the other,
  and no wake-up for them has been called or is under way.\<close>

theorem lock_waits_can_be_circular:
  assumes "p \<noteq> q"
  shows "\<exists>S. lock_reachable False (\<lambda>t. t) S \<and> (p, q) \<in> waits_for (ls_state S) \<and> (q, p) \<in> waits_for (ls_state S) \<and>
    (\<exists>r. ls_calls S p = Some (Setlk True r Lk_asleep)) \<and> (\<exists>r. ls_calls S q = Some (Setlk True r Lk_asleep)) \<and>
    \<not> waking S p \<and> \<not> waking S q"
proof -
  let ?S = "duo p q (Some (Setlk True (cross_req p 3) Lk_asleep)) (Some (Setlk True (cross_req q 2) Lk_asleep)) (cross_queued p q)"
  have "\<not> waking ?S t" for t by (simp add: waking_def duo_def sys_init_def)
  moreover have "ls_state ?S = cross_queued p q" "ls_calls ?S p = Some (Setlk True (cross_req p 3) Lk_asleep)"
      "ls_calls ?S q = Some (Setlk True (cross_req q 2) Lk_asleep)" using assms by (simp_all add: duo_def)
  ultimately show ?thesis using duo_asleep [OF assms] cross_waits [OF assms] by (intro exI [of _ ?S]) simp
qed

theorem lock_waits_can_be_circular_witness:
  "\<exists>S. lock_reachable False (\<lambda>t. t) S \<and> (5, 6) \<in> waits_for (ls_state S) \<and> (6, 5) \<in> waits_for (ls_state S)"
proof -
  have "(5::pid) \<noteq> 6" by simp
  from lock_waits_can_be_circular [OF this] show ?thesis by blast
qed

lemma wakes_finished:
  assumes "t \<in> ls_woken S \<or> (\<exists>u. t \<in> set (snd (ls_wakes S u))) \<or>
      t \<in> set (queue_of (ls_state S) (rq_key r)) \<and> (\<exists>u. rq_key r \<in> set (fst (ls_wakes S u)))"
    and "ls_calls S t = Some c" "\<not> req_conflicts r (ls_state S)"
  shows "\<exists>S1. (lock_step excl proc)\<^sup>*\<^sup>* S S1 \<and> t \<in> ls_woken S1 \<and> ls_calls S1 t = Some c \<and> \<not> req_conflicts r (ls_state S1)"
proof (cases "t \<in> ls_woken S")
  case True
  then show ?thesis using assms(2,3) by blast
next
  case False
  then obtain u where u: "t \<in> set (snd (ls_wakes S u)) \<or>
      t \<in> set (queue_of (ls_state S) (rq_key r)) \<and> rq_key r \<in> set (fst (ls_wakes S u))" using assms(1) by blast
  obtain s' W' where run: "(lock_step excl proc)\<^sup>*\<^sup>* S (with_task S u (ls_calls S u) ([], []) s' W')"
      and s': "record_locks s' = record_locks (ls_state S)" "ls_woken S \<union> set (snd (ls_wakes S u)) \<subseteq> W'"
        "\<forall>k\<in>set (fst (ls_wakes S u)). set (queue_of (ls_state S) k) \<subseteq> W'"
    using finish_wakes [of excl proc S u "ls_calls S u" "fst (ls_wakes S u)" "snd (ls_wakes S u)" "ls_state S" "ls_woken S"]
      with_task_same [of S u] by auto
  have "t \<in> W'" using u s'(2,3) by blast
  moreover have "\<not> req_conflicts r s'" using assms(3) req_conflicts_cong [OF tables_cong(1) [OF s'(1)]] by blast
  ultimately show ?thesis using run assms(2) by (intro exI [of _ "with_task S u (ls_calls S u) ([], []) s' W'"]) simp
qed

text \<open>C9: No wake-up is lost. If a task sleeps in a blocking lock request and the locks that stood in its
  way are gone, then \<open>wakeup_tasks\<close> has been called for it since it entered the queue, or another task has
  taken it from the queue and is about to wake it, or it is in the queue and another task is about to take
  the queue; and there are steps that finish these wake-ups and make the request return with the lock. This
  holds for every interleaving of the critical sections of any number of threads.\<close>

theorem lock_sleeper_gets_lock:
  assumes "lock_reachable False proc S" and "ls_calls S t = Some (Setlk True r Lk_asleep)" and "\<not> req_conflicts r (ls_state S)"
  shows "(t \<in> ls_woken S \<or> (\<exists>u. t \<in> set (snd (ls_wakes S u))) \<or>
      t \<in> set (queue_of (ls_state S) (rq_key r)) \<and> (\<exists>u. rq_key r \<in> set (fst (ls_wakes S u)))) \<and>
    (\<exists>S'. (lock_step False proc)\<^sup>*\<^sup>* S S' \<and> ls_calls S' t = Some (Setlk True r (Lk_returned 0)))"
proof
  have "sleeper_ok S t (Setlk True r Lk_asleep)"
    using reachable_sleepers_ok [OF assms(1)] assms(2) unfolding sleepers_ok_def by blast
  then show w: "t \<in> ls_woken S \<or> (\<exists>u. t \<in> set (snd (ls_wakes S u))) \<or>
      t \<in> set (queue_of (ls_state S) (rq_key r)) \<and> (\<exists>u. rq_key r \<in> set (fst (ls_wakes S u)))"
    using assms(3) unfolding sleeper_ok.simps waking_def draining_def by blast
  let ?c = "Some (Setlk True r Lk_asleep)"
  obtain S1 where S1: "(lock_step False proc)\<^sup>*\<^sup>* S S1" "t \<in> ls_woken S1" "ls_calls S1 t = ?c" "\<not> req_conflicts r (ls_state S1)"
    using wakes_finished [where excl = False and proc = proc, OF w assms(2,3)] by blast
  obtain s2 W2 where S2: "(lock_step False proc)\<^sup>*\<^sup>* S1 (with_task S1 t ?c ([], []) s2 W2)"
      "record_locks s2 = record_locks (ls_state S1)" "t \<in> W2"
    using finish_wakes [of False proc S1 t ?c "fst (ls_wakes S1 t)" "snd (ls_wakes S1 t)" "ls_state S1" "ls_woken S1"]
      with_task_same [of S1 t] S1(2,3) by auto
  have free: "\<not> req_conflicts r s2"
    using S1(4) req_conflicts_cong [OF tables_cong(1) [OF S2(2)]] by blast
  have u: "undisturbed False S1 t" by (simp add: undisturbed_def)
  have 3: "lock_step False proc (with_task S1 t ?c ([], []) s2 W2) (with_task S1 t (Some (Setlk True r Lk_try)) ([], []) s2 (W2 - {t}))"
    by (rule advance_with [OF u, where sg = False]) (use S2(3) in \<open>simp_all add: setlk_step_def\<close>)
  obtain s4 W4 where 4: "(lock_step False proc)\<^sup>*\<^sup>* (with_task S1 t (Some (Setlk True r Lk_try)) ([], []) s2 (W2 - {t}))
      (with_task S1 t (Some (Setlk True r (Lk_returned 0))) ([], []) s4 W4)"
    using try_returns [OF u free] by blast
  have "(lock_step False proc)\<^sup>*\<^sup>* S (with_task S1 t (Some (Setlk True r (Lk_returned 0))) ([], []) s4 W4)"
    using S1(1) S2(1) 3 4 by (meson rtranclp_trans converse_rtranclp_into_rtranclp)
  then show "\<exists>S'. (lock_step False proc)\<^sup>*\<^sup>* S S' \<and> ls_calls S' t = Some (Setlk True r (Lk_returned 0))"
    by (intro exI) (rule conjI, assumption, simp)
qed

text \<open>The waiter goes to sleep; the holder then closes a descriptor of the file and has still to wake it.\<close>

definition demo_released :: lock_sys where
  "demo_released = (demo_at Lk_asleep demo_queued)\<lparr>ls_state := demo_queued\<lparr>record_locks := []\<rparr>,
     ls_wakes := (\<lambda>t. ([], []))(5 := ([(1, 2)], []))\<rparr>"

lemma demo_released_reachable: "lock_reachable False (\<lambda>t. t) demo_released"
proof -
  have "lock_reachable False (\<lambda>t. t) (demo_at Lk_recheck demo_queued)"
    by (rule demo_advance [OF demo_registered_reachable]) (simp_all add: setlk_step_def demo_queued_def demo_req_def)
  then have "lock_reachable False (\<lambda>t. t) (demo_at Lk_block demo_queued)"
    by (rule demo_advance) (simp_all add: setlk_step_def demo_queued_conflict)
  then have 1: "lock_reachable False (\<lambda>t. t) (demo_at Lk_asleep demo_queued)"
    by (rule demo_advance) (simp_all add: setlk_step_def)
  have "remove_process_record_locks_for_key 5 (1, 2) demo_queued = ([(1, 2)], demo_queued\<lparr>record_locks := []\<rparr>)"
    by (simp add: remove_process_record_locks_for_key_def demo_queued_def demo_registered_def lock_simps)
      (simp add: demo_locked_def btm_get_def put_locks_def btm_remove_def lock_init_def enqueue_record_lock_waiter_def
        set_record_lock_waiting_def)
  then have "lock_step False (\<lambda>t. t) (demo_at Lk_asleep demo_queued) ((demo_at Lk_asleep demo_queued)\<lparr>ls_state := demo_queued\<lparr>record_locks := []\<rparr>,
      ls_wakes := (ls_wakes (demo_at Lk_asleep demo_queued))(5 := ([(1, 2)], []))\<rparr>)"
    by (intro lock_step.close) (simp_all add: may_act_def undisturbed_def sys_init_def)
  moreover have "ls_wakes (demo_at Lk_asleep demo_queued) = (\<lambda>t. ([], []))" by (simp add: sys_init_def fun_eq_iff)
  ultimately show ?thesis using 1 unfolding lock_reachable_def demo_released_def by (simp add: rtranclp.rtrancl_into_rtrancl)
qed

theorem lock_sleeper_gets_lock_witness:
  "ls_calls demo_released 6 = Some (Setlk True (demo_req 6 F_WRLCK) Lk_asleep) \<and> 6 \<notin> ls_woken demo_released \<and>
   (\<exists>S'. (lock_step False (\<lambda>t. t))\<^sup>*\<^sup>* demo_released S' \<and> ls_calls S' 6 = Some (Setlk True (demo_req 6 F_WRLCK) (Lk_returned 0)))"
proof -
  have a: "ls_calls demo_released 6 = Some (Setlk True (demo_req 6 F_WRLCK) Lk_asleep)" "6 \<notin> ls_woken demo_released"
    by (simp_all add: demo_released_def)
  have b: "\<not> req_conflicts (demo_req 6 F_WRLCK) (ls_state demo_released)"
    by (simp add: req_conflicts_def conflict_exists_def locks_of_def demo_released_def)
  show ?thesis using lock_sleeper_gets_lock [OF demo_released_reachable a(1) b] a by blast
qed

text \<open>C37: The deadlock check is exact. The depth-first search with its explicit stack and visited set
  answers yes if and only if the waiting process can be reached from one of the conflicting owners
  along waits-for edges.\<close>

theorem deadlock_detection_exact:
  "detect_record_lock_deadlock s waiter_pid conflict_owners \<longleftrightarrow> waiter_pid \<in> (waits_for s)\<^sup>* `` set conflict_owners"
  by (rule detect_deadlock_iff)

text \<open>C17: A lock request changes exactly the bytes of its range. After splitting, inserting, sorting and
  merging, the list of locks again consists of well-formed read and write locks, the requesting owner
  has the requested type on every byte of the range (nothing after an unlock), and every other byte and
  every other owner is as before.\<close>

theorem apply_record_lock_exact:
  assumes "locks_ok ls" and "range_ok a e" and "t = F_RDLCK \<or> t = F_WRLCK \<or> t = F_UNLCK" and "byte_ok off"
  shows "locks_ok (snd (apply_record_lock_for_owner ls owner owner_pid t a e)) \<and>
    holds (snd (apply_record_lock_for_owner ls owner owner_pid t a e)) o' off t' =
      (if o' = owner \<and> covers a e off then t' = t \<and> t \<noteq> F_UNLCK else holds ls o' off t')"
  using apply_exact(1) [OF assms(1-3)] apply_exact(2) [OF assms] by blast

theorem apply_record_lock_exact_witness:
  "holds (snd (apply_record_lock_for_owner (locks_of demo_locked (1, 2)) (Process 5) 5 F_UNLCK 12 (Some 12))) (Process 5) 13 F_WRLCK \<and>
   \<not> holds (snd (apply_record_lock_for_owner (locks_of demo_locked (1, 2)) (Process 5) 5 F_UNLCK 12 (Some 12))) (Process 5) 12 F_WRLCK"
proof -
  have ok: "locks_ok (locks_of demo_locked (1, 2))" "range_ok 12 (Some 12)" "byte_ok 13" "byte_ok 12"
    by (simp_all add: locks_ok_def locks_of_def demo_locked_def btm_get_def lock_ok_def range_ok_def byte_ok_def I64_MAX_def)
  have h: "holds (locks_of demo_locked (1, 2)) (Process 5) 13 F_WRLCK"
    by (simp add: holds_def locks_of_def demo_locked_def btm_get_def covers_def)
  show ?thesis
    using apply_record_lock_exact [OF ok(1,2) _ ok(3), of F_UNLCK "Process 5" 5 "Process 5" F_WRLCK]
      apply_record_lock_exact [OF ok(1,2) _ ok(4), of F_UNLCK "Process 5" 5 "Process 5" F_WRLCK] h
    by (simp add: covers_def)
qed

lemma first_conflict_None:
  "first_conflicting_lock ls t a e owner = None \<longleftrightarrow> \<not> conflict_exists ls owner t a e"
proof -
  have "conflict_exists ls owner t a e \<longleftrightarrow> filter (lock_conflicts t a e owner) ls \<noteq> []"
    by (auto simp: conflict_exists_def list_ex_iff filter_empty_conv)
  then show ?thesis by (simp add: first_conflicting_lock_def split: list.splits)
qed

lemma first_conflict_Some:
  assumes "first_conflicting_lock ls t a e owner = Some l"
  shows "l \<in> set ls \<and> lock_conflicts t a e owner l"
proof -
  obtain m ms where f: "filter (lock_conflicts t a e owner) ls = m # ms"
    using assms by (cases "filter (lock_conflicts t a e owner) ls") (auto simp: first_conflicting_lock_def)
  then have "l \<in> set (m # ms)"
    using assms arg_min_list_in [of "m # ms"] by (auto simp: first_conflicting_lock_def simp del: arg_min_list.simps)
  then show ?thesis unfolding f [symmetric] by simp
qed

text \<open>C38: \<open>F_GETLK\<close> tells what \<open>F_SETLK\<close> would do. For the same checked arguments and tables, the query
  answers \<open>F_UNLCK\<close> if and only if the set command returns success; otherwise the set command returns
  \<open>EAGAIN\<close> and the query describes a lock that is in the table and conflicts with the request.\<close>

theorem getlk_predicts_setlk:
  assumes "lock_reachable excl proc S" and "fcntl_lock_args is_ofd p file fl = Inr (v, r)"
  shows "\<exists>out ret woken s'. syscall_fcntl_getlk is_ofd p file fl True (ls_state S) = (0, Some out) \<and>
    syscall_fcntl_setlk is_ofd p file fl (ls_state S) = (ret, woken, s') \<and>
    (if l_type out = F_UNLCK then ret = 0
     else ret = err EAGAIN \<and> (\<exists>l\<in>set (locks_of (ls_state S) (rq_key r)).
       lock_conflicts (rq_type r) (rq_start r) (rq_end r) (rq_owner r) l \<and> l_type out = lock_type l \<and> l_start out = lock_start l))"
proof -
  let ?ls = "locks_of (ls_state S) (rq_key r)"
  have ty: "rq_type r = l_type v" using assms(2) by (auto simp: fcntl_lock_args_def rbind_eq_Inr_iff make_req_def)
  have look: "Option.bind (btm_get (record_locks (ls_state S)) (rq_key r)) (\<lambda>locks. first_conflicting_lock locks (l_type v) (rq_start r) (rq_end r) (rq_owner r))
      = first_conflicting_lock ?ls (rq_type r) (rq_start r) (rq_end r) (rq_owner r)"
    by (cases "btm_get (record_locks (ls_state S)) (rq_key r)") (simp_all add: locks_of_def ty first_conflicting_lock_def)
  have rc: "req_conflicts r (clear_unless_ofd r (ls_state S)) \<longleftrightarrow> first_conflicting_lock ?ls (rq_type r) (rq_start r) (rq_end r) (rq_owner r) \<noteq> None"
    by (simp add: req_conflicts_def lock_simps first_conflict_None)
  show ?thesis
  proof (cases "first_conflicting_lock ?ls (rq_type r) (rq_start r) (rq_end r) (rq_owner r)")
    case None
    then have "\<exists>x. setlk_section r (clear_unless_ofd r (ls_state S)) = Some x"
      using rc by (simp add: setlk_section_def Let_def split_beta)
    then show ?thesis using assms(2) None look
      by (auto simp: syscall_fcntl_getlk_def syscall_fcntl_setlk_def fcntl_getlk_def fcntl_setlk_def Let_def split: prod.splits)
  next
    case (Some l)
    note c = first_conflict_Some [OF Some]
    have "lock_type l \<noteq> F_UNLCK" using c by (auto simp: lock_conflicts_def split: if_splits)
    moreover have "setlk_section r (clear_unless_ofd r (ls_state S)) = None" using rc Some by (simp add: setlk_section_def)
    ultimately show ?thesis using assms(2) Some look c
      by (auto simp: syscall_fcntl_getlk_def syscall_fcntl_setlk_def fcntl_getlk_def fcntl_setlk_def Let_def)
  qed
qed

theorem getlk_predicts_setlk_witness:
  "\<exists>out. syscall_fcntl_getlk False 6 (Some demo_file) (Some (demo_flock F_WRLCK)) True demo_locked = (0, Some out) \<and> l_type out = F_WRLCK \<and>
     fst (syscall_fcntl_setlk False 6 (Some demo_file) (Some (demo_flock F_WRLCK)) demo_locked) = err EAGAIN"
proof -
  have ls: "locks_of demo_locked (rq_key (demo_req 6 F_WRLCK)) = [\<lparr>lock_owner = Process 5, lock_owner_pid = 5, lock_type = F_WRLCK, lock_start = 10, lock_end = Some 14\<rparr>]"
    by (simp add: locks_of_def demo_locked_def demo_req_def btm_get_def)
  have a: "syscall_fcntl_setlk False 6 (Some demo_file) (Some (demo_flock F_WRLCK)) demo_locked = (err EAGAIN, [], demo_locked)"
    using demo_conflict by (simp add: syscall_fcntl_setlk_def demo_args fcntl_setlk_def setlk_section_def clear_unless_ofd_def
      clear_record_lock_waiting_def demo_req_def demo_locked_def lock_init_def btm_remove_def Let_def)
  have "err EAGAIN \<noteq> 0" by (simp add: err_def)
  then show ?thesis
    using getlk_predicts_setlk [OF demo_reachable [of False 6] demo_args [of F_WRLCK 6]] a ls
    by (auto simp: demo_flock_def lock_types split: if_splits)
qed

end
