(* ===== verification/Rt_Sched.thy ===== *)
theory Rt_Sched
  imports Kernel_Prelude
begin

text \<open>
  Scheduling policies and the bandwidth of the real-time class: \<open>src/src/task/sched.rs\<close> and the
  throttling part of \<open>src/src/task/manager/rt.rs\<close>.

  Policies, priorities and the three tunables (microseconds and milliseconds in \<open>i64\<close>) are integers;
  nanoseconds are \<open>usize\<close> words with the saturating operations of the source. \<open>rt_bw\<close> is the share one
  hart has of \<open>RT_PERIOD_START_NS\<close>, \<open>RT_RUNTIME_REMAINING_NS\<close> and \<open>RT_THROTTLED\<close>; a call works on it
  without interference, so its compare-and-exchange succeeds at the first attempt.
\<close>

section \<open>Policies and priorities\<close>

datatype sched_class = Sched_fair | Sched_fifo | Sched_rr

definition SCHED_OTHER :: int where "SCHED_OTHER = 0"
definition SCHED_FIFO :: int where "SCHED_FIFO = 1"
definition SCHED_RR :: int where "SCHED_RR = 2"
definition SCHED_BATCH :: int where "SCHED_BATCH = 3"
definition SCHED_IDLE :: int where "SCHED_IDLE = 5"
definition SCHED_DEADLINE :: int where "SCHED_DEADLINE = 6"
definition NICE_MIN :: int where "NICE_MIN = - 20"
definition NICE_MAX :: int where "NICE_MAX = 19"
definition RT_PRIO_MIN :: int where "RT_PRIO_MIN = 1"
definition RT_PRIO_MAX :: int where "RT_PRIO_MAX = 99"
definition RT_PRIO_LEVELS :: nat where "RT_PRIO_LEVELS = nat (RT_PRIO_MAX - RT_PRIO_MIN + 1)"
definition RR_TIMESLICE_MS :: int where "RR_TIMESLICE_MS = 100"
definition RT_PERIOD_US_DEFAULT :: int where "RT_PERIOD_US_DEFAULT = 1000000"
definition RT_RUNTIME_US_DEFAULT :: int where "RT_RUNTIME_US_DEFAULT = 950000"
definition RT_SYSCTL_MAX_US :: int where "RT_SYSCTL_MAX_US = 2 ^ 31 - 1"

lemmas sched_policies = SCHED_OTHER_def SCHED_FIFO_def SCHED_RR_def SCHED_BATCH_def SCHED_IDLE_def SCHED_DEADLINE_def
lemmas rt_priorities = RT_PRIO_MIN_def RT_PRIO_MAX_def RT_PRIO_LEVELS_def

definition clamp_nice :: "int \<Rightarrow> int" where
  "clamp_nice nice = max NICE_MIN (min NICE_MAX nice)"

definition check_policy :: "int \<Rightarrow> bool" where
  "check_policy policy \<longleftrightarrow> policy \<in> {SCHED_OTHER, SCHED_FIFO, SCHED_RR, SCHED_BATCH, SCHED_IDLE, SCHED_DEADLINE}"

definition class_of_policy :: "int \<Rightarrow> sched_class option" where
  "class_of_policy policy =
     (if policy = SCHED_FIFO then Some Sched_fifo
      else if policy = SCHED_RR then Some Sched_rr
      else if policy \<in> {SCHED_OTHER, SCHED_BATCH, SCHED_IDLE} then Some Sched_fair
      else None)"

definition policy_priority_min :: "int \<Rightarrow> int option" where
  "policy_priority_min policy =
     (if policy \<in> {SCHED_FIFO, SCHED_RR} then Some RT_PRIO_MIN
      else if policy \<in> {SCHED_OTHER, SCHED_BATCH, SCHED_IDLE, SCHED_DEADLINE} then Some 0
      else None)"

definition policy_priority_max :: "int \<Rightarrow> int option" where
  "policy_priority_max policy =
     (if policy \<in> {SCHED_FIFO, SCHED_RR} then Some RT_PRIO_MAX
      else if policy \<in> {SCHED_OTHER, SCHED_BATCH, SCHED_IDLE, SCHED_DEADLINE} then Some 0
      else None)"

definition valid_priority_for_policy :: "int \<Rightarrow> int \<Rightarrow> bool" where
  "valid_priority_for_policy policy priority =
     (case (policy_priority_min policy, policy_priority_max policy) of
        (Some lo, Some hi) \<Rightarrow> priority \<ge> lo \<and> priority \<le> hi
      | _ \<Rightarrow> False)"

definition normalized_rt_priority :: "int \<Rightarrow> int" where
  "normalized_rt_priority priority = max RT_PRIO_MIN (min RT_PRIO_MAX priority)"

definition rt_queue_index :: "int \<Rightarrow> nat" where
  "rt_queue_index priority = nat (RT_PRIO_MAX - normalized_rt_priority priority)"

lemma rt_queue_index_less: "rt_queue_index priority < RT_PRIO_LEVELS"
  by (simp add: rt_queue_index_def normalized_rt_priority_def rt_priorities)

text \<open>A smaller index is a higher priority.\<close>

lemma rt_queue_index_antimono:
  assumes "valid_priority_for_policy SCHED_FIFO p" and "valid_priority_for_policy SCHED_FIFO q"
  shows "rt_queue_index p < rt_queue_index q \<longleftrightarrow> q < p"
  using assms by (auto simp: valid_priority_for_policy_def policy_priority_min_def policy_priority_max_def
    rt_queue_index_def normalized_rt_priority_def rt_priorities)

section \<open>Tunables\<close>

record sched_sysctl =
  sys_rr_timeslice_ms :: int
  sys_rt_period_us :: int
  sys_rt_runtime_us :: int

definition sched_sysctl_init :: sched_sysctl where
  "sched_sysctl_init = \<lparr>sys_rr_timeslice_ms = RR_TIMESLICE_MS, sys_rt_period_us = RT_PERIOD_US_DEFAULT,
     sys_rt_runtime_us = RT_RUNTIME_US_DEFAULT\<rparr>"

definition rr_timeslice_ticks :: "sched_sysctl \<Rightarrow> nat" where
  "rr_timeslice_ticks c = max 1 ((nat (max (sys_rr_timeslice_ms c) 1) + 9) div 10)"

definition set_rr_timeslice_ms_from_procfs :: "int \<Rightarrow> sched_sysctl \<Rightarrow> int option \<times> sched_sysctl" where
  "set_rr_timeslice_ms_from_procfs v c =
     (if v = - 1 then (Some RR_TIMESLICE_MS, c\<lparr>sys_rr_timeslice_ms := RR_TIMESLICE_MS\<rparr>)
      else if 1 \<le> v \<and> v \<le> RT_SYSCTL_MAX_US then (Some v, c\<lparr>sys_rr_timeslice_ms := v\<rparr>)
      else (None, c))"

definition set_rt_period_us_from_procfs :: "int \<Rightarrow> sched_sysctl \<Rightarrow> int option \<times> sched_sysctl" where
  "set_rt_period_us_from_procfs v c =
     (if \<not> (1 \<le> v \<and> v \<le> RT_SYSCTL_MAX_US) then (None, c)
      else if sys_rt_runtime_us c \<noteq> - 1 \<and> sys_rt_runtime_us c > v then (None, c)
      else (Some v, c\<lparr>sys_rt_period_us := v\<rparr>))"

definition set_rt_runtime_us_from_procfs :: "int \<Rightarrow> sched_sysctl \<Rightarrow> int option \<times> sched_sysctl" where
  "set_rt_runtime_us_from_procfs v c =
     (if \<not> (- 1 \<le> v \<and> v \<le> RT_SYSCTL_MAX_US) then (None, c)
      else if v \<noteq> - 1 \<and> v > sys_rt_period_us c then (None, c)
      else (Some v, c\<lparr>sys_rt_runtime_us := v\<rparr>))"

inductive sysctl_reach :: "sched_sysctl \<Rightarrow> bool" where
  "sysctl_reach sched_sysctl_init"
| "sysctl_reach c \<Longrightarrow> sysctl_reach (snd (set_rr_timeslice_ms_from_procfs v c))"
| "sysctl_reach c \<Longrightarrow> sysctl_reach (snd (set_rt_period_us_from_procfs v c))"
| "sysctl_reach c \<Longrightarrow> sysctl_reach (snd (set_rt_runtime_us_from_procfs v c))"

definition sysctl_ok :: "sched_sysctl \<Rightarrow> bool" where
  "sysctl_ok c \<longleftrightarrow> 1 \<le> sys_rr_timeslice_ms c \<and> 1 \<le> sys_rt_period_us c \<and> sys_rt_period_us c \<le> RT_SYSCTL_MAX_US \<and>
     - 1 \<le> sys_rt_runtime_us c \<and> sys_rt_runtime_us c \<le> sys_rt_period_us c"

lemma sysctl_reach_ok: "sysctl_reach c \<Longrightarrow> sysctl_ok c"
  by (induction rule: sysctl_reach.induct)
    (auto simp: sysctl_ok_def sched_sysctl_init_def RR_TIMESLICE_MS_def RT_PERIOD_US_DEFAULT_def RT_RUNTIME_US_DEFAULT_def
      RT_SYSCTL_MAX_US_def set_rr_timeslice_ms_from_procfs_def set_rt_period_us_from_procfs_def set_rt_runtime_us_from_procfs_def)

section \<open>Bandwidth\<close>

record rt_bw =
  rt_period_start :: usize
  rt_remaining :: usize
  rt_throttled :: bool

definition rt_bw_init :: rt_bw where
  "rt_bw_init = \<lparr>rt_period_start = 0, rt_remaining = 0, rt_throttled = False\<rparr>"

definition USEC_TO_NSEC :: usize where "USEC_TO_NSEC = 1000"

definition rt_bandwidth_ns :: "sched_sysctl \<Rightarrow> (usize \<times> usize) option" where
  "rt_bandwidth_ns c =
     (if sys_rt_runtime_us c < 0 then None
      else
        let period_us = of_int (max (sys_rt_period_us c) 1);
            period_ns = max (saturating_mul period_us USEC_TO_NSEC) 1;
            runtime_ns = min (saturating_mul (of_int (max (sys_rt_runtime_us c) 0)) USEC_TO_NSEC) period_ns
        in Some (period_ns, runtime_ns))"

definition refresh_rt_bandwidth :: "sched_sysctl \<Rightarrow> usize \<Rightarrow> rt_bw \<Rightarrow> bool \<times> rt_bw" where
  "refresh_rt_bandwidth c now_ns b =
     (case rt_bandwidth_ns c of
        None \<Rightarrow> (False, \<lparr>rt_period_start = now_ns, rt_remaining = - 1, rt_throttled = False\<rparr>)
      | Some (period_ns, runtime_ns) \<Rightarrow>
          if rt_period_start b = 0 then
            (runtime_ns = 0, \<lparr>rt_period_start = now_ns, rt_remaining = runtime_ns, rt_throttled = (runtime_ns = 0)\<rparr>)
          else
            let elapsed = saturating_sub now_ns (rt_period_start b) in
            if elapsed \<ge> period_ns then
              let periods = elapsed div period_ns;
                  new_start = saturating_add (rt_period_start b) (saturating_mul periods period_ns)
              in (runtime_ns = 0, \<lparr>rt_period_start = new_start, rt_remaining = runtime_ns, rt_throttled = (runtime_ns = 0)\<rparr>)
            else if rt_remaining b > runtime_ns then
              (runtime_ns = 0, b\<lparr>rt_remaining := runtime_ns, rt_throttled := (runtime_ns = 0)\<rparr>)
            else
              let throttled = (runtime_ns = 0 \<or> rt_remaining b = 0 \<or> rt_throttled b)
              in (throttled, b\<lparr>rt_throttled := throttled\<rparr>))"

definition account_rt_runtime :: "sched_sysctl \<Rightarrow> usize \<Rightarrow> u64 \<Rightarrow> rt_bw \<Rightarrow> rt_bw" where
  "account_rt_runtime c now_ns delta_ns b =
     (if delta_ns = 0 then b
      else
        let (throttled, b1) = refresh_rt_bandwidth c now_ns b in
        if throttled then b1
        else if rt_bandwidth_ns c = None then b1
        else
          let next_ns = saturating_sub (rt_remaining b1) delta_ns
          in b1\<lparr>rt_remaining := next_ns, rt_throttled := (if next_ns = 0 then True else rt_throttled b1)\<rparr>)"

section \<open>The budget over time\<close>

text \<open>The history of a hart with fixed tunables: refreshes and charges at non-decreasing times. The last
  argument is the time charged to real-time tasks in the current period while the class was not
  throttled.\<close>

inductive rt_run :: "sched_sysctl \<Rightarrow> usize \<Rightarrow> rt_bw \<Rightarrow> nat \<Rightarrow> bool" for c where
  start: "0 < now \<Longrightarrow> refresh_rt_bandwidth c now rt_bw_init = (t, b) \<Longrightarrow> rt_run c now b 0"
| refresh: "rt_run c now b n \<Longrightarrow> now \<le> now' \<Longrightarrow> refresh_rt_bandwidth c now' b = (t, b') \<Longrightarrow>
    rt_run c now' b' (if rt_period_start b' = rt_period_start b then n else 0)"
| charge: "rt_run c now b n \<Longrightarrow> now \<le> now' \<Longrightarrow> refresh_rt_bandwidth c now' b = (t, b1) \<Longrightarrow> 0 < delta \<Longrightarrow>
    rt_run c now' (account_rt_runtime c now' delta b)
      ((if rt_period_start b1 = rt_period_start b then n else 0) + (if t then 0 else unat delta))"

definition budget_ok :: "nat \<Rightarrow> nat \<Rightarrow> usize \<Rightarrow> rt_bw \<Rightarrow> nat \<Rightarrow> bool" where
  "budget_ok period runtime now b n \<longleftrightarrow>
     0 < unat (rt_period_start b) \<and> unat (rt_period_start b) \<le> unat now \<and> unat now < unat (rt_period_start b) + period \<and>
     unat (rt_remaining b) = runtime - n \<and> (rt_throttled b \<longleftrightarrow> runtime \<le> n)"

lemma rt_bandwidth_bounds:
  assumes "rt_bandwidth_ns c = Some (period, runtime)"
  shows "0 < unat period" and "runtime \<le> period"
proof -
  have p: "period = max (saturating_mul (of_int (max (sys_rt_period_us c) 1)) USEC_TO_NSEC) 1"
    and r: "runtime = min (saturating_mul (of_int (max (sys_rt_runtime_us c) 0)) USEC_TO_NSEC) period"
    using assms by (auto simp: rt_bandwidth_ns_def Let_def split: if_splits)
  have "1 \<le> period" unfolding p by simp
  then show "0 < unat period" by (simp add: word_le_nat_alt)
  show "runtime \<le> period" unfolding r by simp
qed

lemma rollover_start:
  fixes now start period :: usize
  assumes "0 < unat period" "start \<le> now"
  shows "unat (saturating_add start (saturating_mul (saturating_sub now start div period) period)) =
    unat start + (unat now - unat start) div unat period * unat period"
proof -
  let ?k = "(unat now - unat start) div unat period * unat period"
  have le: "?k \<le> unat now - unat start" by (rule div_times_less_eq_dividend)
  have n: "unat now \<le> 2 ^ LENGTH(64) - 1" using unat_less_pow [of now] by simp
  have s: "unat start \<le> unat now" using assms(2) by (simp add: word_le_nat_alt)
  have "unat (saturating_mul (saturating_sub now start div period) period) = ?k"
    unfolding unat_saturating_mul unat_div_distrib unat_saturating_sub by (rule min_absorb1) (use le n in linarith)
  then have "unat (saturating_add start (saturating_mul (saturating_sub now start div period) period)) =
      min (unat start + ?k) (2 ^ LENGTH(64) - 1)" by (simp add: unat_saturating_add)
  also have "\<dots> = unat start + ?k" by (rule min_absorb1) (use le n s in linarith)
  finally show ?thesis .
qed

text \<open>One refresh either keeps the period and its budget, or opens the period that contains the time.\<close>

lemma refresh_budget:
  assumes bw: "rt_bandwidth_ns c = Some (period, runtime)" and ok: "budget_ok (unat period) (unat runtime) now b n"
    and le: "now \<le> now'" and r: "refresh_rt_bandwidth c now' b = (t, b')"
  shows "budget_ok (unat period) (unat runtime) now' b' (if rt_period_start b' = rt_period_start b then n else 0)"
    and "t = rt_throttled b'"
proof -
  note pos = rt_bandwidth_bounds(1) [OF bw]
  have b: "0 < unat (rt_period_start b)" "unat (rt_period_start b) \<le> unat now" "unat now < unat (rt_period_start b) + unat period"
      "unat (rt_remaining b) = unat runtime - n" "rt_throttled b \<longleftrightarrow> unat runtime \<le> n"
    using ok by (auto simp: budget_ok_def)
  have le': "unat now \<le> unat now'" using le by (simp add: word_le_nat_alt)
  have nz: "rt_period_start b \<noteq> 0" using b(1) by auto
  have s: "rt_period_start b \<le> now'" using b(2) le' by (simp add: word_le_nat_alt)
  let ?start = "saturating_add (rt_period_start b) (saturating_mul (saturating_sub now' (rt_period_start b) div period) period)"
  have "budget_ok (unat period) (unat runtime) now' b' (if rt_period_start b' = rt_period_start b then n else 0) \<and> t = rt_throttled b'"
  proof (cases "period \<le> saturating_sub now' (rt_period_start b)")
    case True
    then have e: "unat period \<le> unat now' - unat (rt_period_start b)" by (simp add: word_le_nat_alt rust_arith)
    have b': "b' = \<lparr>rt_period_start = ?start, rt_remaining = runtime, rt_throttled = (runtime = 0)\<rparr>" "t = (runtime = 0)"
      using r bw nz True by (auto simp: refresh_rt_bandwidth_def Let_def)
    let ?d = "unat now' - unat (rt_period_start b)"
    have st: "unat ?start = unat (rt_period_start b) + ?d div unat period * unat period"
      by (rule rollover_start [OF pos s])
    have "0 < ?d div unat period" using e pos by (simp add: div_greater_zero_iff)
    then have "rt_period_start b' \<noteq> rt_period_start b" using st pos b'(1) by (auto dest: arg_cong [of _ _ unat])
    moreover have "unat ?start \<le> unat now'" "unat now' < unat ?start + unat period" "0 < unat ?start"
      using st b(1) e div_mult_mod_eq [of ?d "unat period"] mod_less_divisor [OF pos, of ?d] by linarith+
    ultimately show ?thesis using b' by (auto simp: budget_ok_def unat_eq_0)
  next
    case False
    then have e: "unat now' < unat (rt_period_start b) + unat period"
      using b(2) le' by (simp add: word_le_nat_alt rust_arith)
    have nr: "\<not> rt_remaining b > runtime" using b(4) by (simp add: word_less_nat_alt)
    let ?t = "runtime = 0 \<or> rt_remaining b = 0 \<or> rt_throttled b"
    have b': "b' = b\<lparr>rt_throttled := ?t\<rparr>" "t = ?t"
      using r bw nz False nr by (auto simp: refresh_rt_bandwidth_def Let_def)
    have "?t \<longleftrightarrow> unat runtime \<le> n"
      using b(4,5) unat_eq_0 [of runtime] unat_eq_0 [of "rt_remaining b"] by auto
    then show ?thesis using b b' e le' by (auto simp: budget_ok_def)
  qed
  then show "budget_ok (unat period) (unat runtime) now' b' (if rt_period_start b' = rt_period_start b then n else 0)"
    and "t = rt_throttled b'" by blast+
qed

lemma rt_run_budget:
  assumes "rt_run c now b n" and bw: "rt_bandwidth_ns c = Some (period, runtime)"
  shows "budget_ok (unat period) (unat runtime) now b n"
  using assms(1)
proof (induction rule: rt_run.induct)
  case (start now t b)
  then have "b = \<lparr>rt_period_start = now, rt_remaining = runtime, rt_throttled = (runtime = 0)\<rparr>"
    using bw by (auto simp: refresh_rt_bandwidth_def rt_bw_init_def)
  then show ?case using start(1) rt_bandwidth_bounds(1) [OF bw] by (simp add: budget_ok_def unat_eq_0 word_less_nat_alt)
next
  case (refresh now b n now' t b')
  then show ?case using refresh_budget(1) [OF bw] by blast
next
  case (charge now b n now' t b1 delta)
  let ?n = "if rt_period_start b1 = rt_period_start b then n else 0"
  have ok: "budget_ok (unat period) (unat runtime) now' b1 ?n" and t: "t = rt_throttled b1"
    using refresh_budget [OF bw charge(5,2,3)] by blast+
  show ?case
  proof (cases t)
    case True
    then have "account_rt_runtime c now' delta b = b1" using charge(3,4) by (simp add: account_rt_runtime_def)
    then show ?thesis using ok True by simp
  next
    case False
    let ?next = "saturating_sub (rt_remaining b1) delta"
    have ac: "account_rt_runtime c now' delta b = b1\<lparr>rt_remaining := ?next, rt_throttled := (if ?next = 0 then True else rt_throttled b1)\<rparr>"
      using charge(3,4) False bw by (simp add: account_rt_runtime_def Let_def)
    have rem: "unat (rt_remaining b1) = unat runtime - ?n" "\<not> unat runtime \<le> ?n" using ok False t by (auto simp: budget_ok_def)
    then have nx: "unat ?next = unat runtime - (?n + unat delta)" by (simp add: rust_arith)
    then have "?next = 0 \<longleftrightarrow> unat runtime \<le> ?n + unat delta" using unat_eq_0 [of ?next] by auto
    then show ?thesis using ok nx False t rem unfolding ac budget_ok_def by auto
  qed
qed

text \<open>C13: The real-time class gets its budget and no more. On a hart whose tunables stay fixed, at every
  moment of any history of scheduler calls the current period contains the present time, the remaining
  budget is the configured run time less what has been charged to real-time tasks in this period, and
  the class is throttled exactly when that charge has reached the configured run time, which never
  exceeds the period. A charge is only ever added while the class is below its run time.\<close>

theorem rt_bandwidth_enforced:
  assumes "rt_run c now b charged" and "rt_bandwidth_ns c = Some (period, runtime)"
  shows "unat (rt_period_start b) \<le> unat now \<and> unat now < unat (rt_period_start b) + unat period \<and>
    unat (rt_remaining b) = unat runtime - charged \<and> (rt_throttled b \<longleftrightarrow> unat runtime \<le> charged) \<and> runtime \<le> period"
  using rt_run_budget [OF assms] rt_bandwidth_bounds(2) [OF assms(2)] by (simp add: budget_ok_def)

theorem rt_bandwidth_enforced_witness:
  "\<exists>b. rt_run sched_sysctl_init 7 b 960000000 \<and> rt_throttled b"
proof -
  let ?b = "\<lparr>rt_period_start = 5, rt_remaining = 950000000, rt_throttled = False\<rparr>"
  have bw: "rt_bandwidth_ns sched_sysctl_init = Some (1000000000, 950000000)"
    by (simp add: rt_bandwidth_ns_def sched_sysctl_init_def RT_PERIOD_US_DEFAULT_def RT_RUNTIME_US_DEFAULT_def
      saturating_mul_def USEC_TO_NSEC_def Let_def)
  have "refresh_rt_bandwidth sched_sysctl_init 5 rt_bw_init = (False, ?b)"
    using bw by (simp add: refresh_rt_bandwidth_def rt_bw_init_def)
  from rt_run.start [OF _ this] have r: "rt_run sched_sysctl_init 5 ?b 0" by simp
  have s: "refresh_rt_bandwidth sched_sysctl_init 7 ?b = (False, ?b)"
    using bw by (simp add: refresh_rt_bandwidth_def saturating_sub_def Let_def)
  from rt_run.charge [OF r _ s, of 960000000]
  have "rt_run sched_sysctl_init 7 (account_rt_runtime sched_sysctl_init 7 960000000 ?b) 960000000" by simp
  then show ?thesis using rt_bandwidth_enforced [OF _ bw] by (intro exI) (simp, fastforce)
qed

end
