(* ===== verification/Task_Block.thy ===== *)
theory Task_Block
  imports Kernel_Prelude
begin

text \<open>
  Task control blocks: the fields of \<open>TaskControlBlock\<close> and \<open>TaskControlBlockInner\<close>
  (\<open>src/src/task/task_block.rs\<close>) that scheduling reads and writes, and the operations on the word
  \<open>on_cpu\<close>. That word is \<open>OFF_CPU\<close> (all ones) when the task runs nowhere; otherwise it holds the hart
  in its low bits and, in the top bit, a wake-up that arrived while the task was still on the CPU.

  \<open>ready_queue_hart\<close> is \<open>None\<close> where the source stores \<open>OFF_CPU\<close>. Times (\<open>u64\<close>) and virtual times
  (\<open>u128\<close>) are naturals; the saturation of the source's additions is written out with \<open>sat64\<close> and
  \<open>sat128\<close>.
\<close>

datatype task_status = Ready | Running | Blocked

datatype pending_wakeup = Wakeup_none | Wakeup_normal | Wakeup_sync usize

record tcb =
  t_status :: task_status
  t_res :: bool
  t_cpu_id :: nat
  t_on_cpu :: usize
  t_sync_hart :: usize
  t_rq_hart :: "nat option"
  t_in_ready :: bool
  t_frozen :: bool
  t_parked :: bool
  t_thaw_wake :: bool
  t_policy :: int
  t_priority :: int
  t_affinity :: usize
  t_nice :: int
  t_rr_ticks :: nat
  t_cpu_time :: nat
  t_runtime_start :: nat
  t_checkpoint :: nat
  t_vruntime :: nat
  t_deadline :: nat
  t_vlag :: nat
  t_credit :: nat
  t_group :: nat
  t_shares :: nat

definition MAX_HARTS :: nat where "MAX_HARTS = 12"

definition OFF_CPU :: usize where "OFF_CPU = - 1"

definition WAKE_PENDING_BIT :: usize where "WAKE_PENDING_BIT = push_bit 63 1"

definition sat64 :: "nat \<Rightarrow> nat" where "sat64 n = min n (2 ^ 64 - 1)"

definition sat128 :: "nat \<Rightarrow> nat" where "sat128 n = min n (2 ^ 128 - 1)"

section \<open>The word \<open>on_cpu\<close>\<close>

definition running_hart :: "tcb \<Rightarrow> usize option" where
  "running_hart t = (if t_on_cpu t \<noteq> OFF_CPU then Some (t_on_cpu t AND NOT WAKE_PENDING_BIT) else None)"

definition is_on_cpu :: "tcb \<Rightarrow> bool" where
  "is_on_cpu t \<longleftrightarrow> running_hart t \<noteq> None"

definition defer_wakeup_if_on_cpu :: "usize option \<Rightarrow> tcb \<Rightarrow> bool \<times> tcb" where
  "defer_wakeup_if_on_cpu sync_source_hart t =
     (let t1 = (case sync_source_hart of None \<Rightarrow> t | Some h \<Rightarrow> t\<lparr>t_sync_hart := h\<rparr>);
          previous = t_on_cpu t1
      in (previous \<noteq> OFF_CPU, t1\<lparr>t_on_cpu := previous OR WAKE_PENDING_BIT\<rparr>))"

definition try_mark_on_cpu :: "nat \<Rightarrow> tcb \<Rightarrow> bool \<times> tcb" where
  "try_mark_on_cpu hart t =
     (let t1 = t\<lparr>t_cpu_id := hart\<rparr>
      in if t_on_cpu t1 = OFF_CPU then (True, t1\<lparr>t_on_cpu := of_nat hart\<rparr>) else (False, t1))"

definition finish_running :: "tcb \<Rightarrow> pending_wakeup \<times> tcb" where
  "finish_running t =
     (let previous = t_on_cpu t; sync_hart = t_sync_hart t;
          t1 = t\<lparr>t_on_cpu := OFF_CPU, t_sync_hart := OFF_CPU\<rparr>
      in (if previous = OFF_CPU \<or> previous AND WAKE_PENDING_BIT = 0 then Wakeup_none
          else if sync_hart = OFF_CPU then Wakeup_normal
          else Wakeup_sync sync_hart, t1))"

definition has_deferred_wakeup :: "tcb \<Rightarrow> bool" where
  "has_deferred_wakeup t \<longleftrightarrow> t_on_cpu t \<noteq> OFF_CPU \<and> t_on_cpu t AND WAKE_PENDING_BIT \<noteq> 0"

definition discard_deferred_wakeup :: "tcb \<Rightarrow> tcb" where
  "discard_deferred_wakeup t =
     (let current = t_on_cpu t;
          t1 = (if current \<noteq> OFF_CPU \<and> current AND WAKE_PENDING_BIT \<noteq> 0
                then t\<lparr>t_on_cpu := current AND NOT WAKE_PENDING_BIT\<rparr> else t)
      in t1\<lparr>t_sync_hart := OFF_CPU\<rparr>)"

section \<open>Run time\<close>

definition account_runtime_until :: "nat \<Rightarrow> tcb \<Rightarrow> nat \<times> tcb" where
  "account_runtime_until now_ns t =
     (let delta_ns = now_ns - t_runtime_start t
      in (delta_ns, if delta_ns > 0
          then t\<lparr>t_cpu_time := sat64 (t_cpu_time t + delta_ns), t_runtime_start := now_ns\<rparr> else t))"

definition begin_runtime_slice :: "nat \<Rightarrow> tcb \<Rightarrow> tcb" where
  "begin_runtime_slice now_ns t = t\<lparr>t_runtime_start := now_ns\<rparr>"

definition cpu_time_total_ns :: "nat \<Rightarrow> tcb \<Rightarrow> nat" where
  "cpu_time_total_ns now_ns t =
     (if is_on_cpu t then sat64 (t_cpu_time t + (now_ns - t_runtime_start t)) else t_cpu_time t)"

lemma cpu_time_account:
  assumes "is_on_cpu t"
  shows "cpu_time_total_ns now_ns (snd (account_runtime_until now_ns t)) = sat64 (cpu_time_total_ns now_ns t)"
  using assms by (auto simp: cpu_time_total_ns_def account_runtime_until_def is_on_cpu_def running_hart_def sat64_def Let_def)

section \<open>What the word says\<close>

text \<open>\<open>marked h b\<close> is the word of a task running on hart \<open>h\<close>, with a deferred wake-up if \<open>b\<close>.\<close>

definition marked :: "nat \<Rightarrow> bool \<Rightarrow> usize" where
  "marked h b = (if b then of_nat h OR WAKE_PENDING_BIT else of_nat h)"

lemma off_or [simp]: "OFF_CPU OR WAKE_PENDING_BIT = OFF_CPU"
  by (simp add: OFF_CPU_def)

lemma small_bit63:
  fixes w :: usize
  assumes "unat w < MAX_HARTS"
  shows "bit w 63 = False" "bit w 62 = False"
proof -
  have "unat w < 2 ^ 62" using assms by (simp add: MAX_HARTS_def)
  then have "take_bit 62 w = w" by (simp add: word_unat_eq_iff unsigned_take_bit_eq take_bit_nat_eq_self)
  then have "bit w n = (n < 62 \<and> bit w n)" for n by (metis bit_take_bit_iff)
  from this [of 63] this [of 62] show "bit w 63 = False" "bit w 62 = False" by auto
qed

lemma hart_bits:
  assumes "h < MAX_HARTS"
  shows "bit (of_nat h :: usize) 63 = False" "bit (of_nat h :: usize) 62 = False"
  using small_bit63 [of "of_nat h"] assms by (simp_all add: unat_of_nat MAX_HARTS_def)

lemma bit_wake [simp]: "bit WAKE_PENDING_BIT n \<longleftrightarrow> n = 63"
  unfolding WAKE_PENDING_BIT_def bit_push_bit_iff by (auto simp: bit_1_iff possible_bit_def)

lemma marked_bits:
  assumes "h < MAX_HARTS"
  shows "marked h b \<noteq> OFF_CPU" "marked h b AND WAKE_PENDING_BIT = 0 \<longleftrightarrow> \<not> b"
    "marked h b OR WAKE_PENDING_BIT = marked h True" "marked h b AND NOT WAKE_PENDING_BIT = marked h False"
proof -
  have "bit (marked h b) 62 = False" using hart_bits(2) [OF assms] by (auto simp: marked_def bit_simps)
  moreover have "bit OFF_CPU 62" by (simp add: OFF_CPU_def)
  ultimately show "marked h b \<noteq> OFF_CPU" by metis
  have b63: "bit (marked h b) 63 \<longleftrightarrow> b" using hart_bits(1) [OF assms] by (auto simp: marked_def bit_simps)
  show "marked h b AND WAKE_PENDING_BIT = 0 \<longleftrightarrow> \<not> b"
  proof
    assume "marked h b AND WAKE_PENDING_BIT = 0"
    then have "bit (marked h b AND WAKE_PENDING_BIT) 63 = bit 0 63" by simp
    then show "\<not> b" using b63 by (simp add: bit_simps)
  next
    assume "\<not> b"
    then show "marked h b AND WAKE_PENDING_BIT = 0" using b63 by (intro bit_word_eqI) (auto simp: bit_simps)
  qed
  show "marked h b OR WAKE_PENDING_BIT = marked h True" by (intro bit_word_eqI) (auto simp: marked_def bit_simps)
  show "marked h b AND NOT WAKE_PENDING_BIT = marked h False"
    using hart_bits(1) [OF assms] by (intro bit_word_eqI) (auto simp: marked_def bit_simps)
qed
end
