(* ===== verification/Fair_Queue.thy ===== *)
theory Fair_Queue
  imports Ordered_Maps Rt_Sched Task_Block
begin

text \<open>
  The fair scheduling class (\<open>src/src/task/manager/fair.rs\<close>): groups of runnable task entities ordered
  by virtual deadline, the placement of an entity when it is queued, and the choice of the next one
  by the earliest-eligible-virtual-deadline rule.

  A task is named by a natural number where the source uses the address of its control block.
  \<open>u64\<close> times and \<open>u128\<close> virtual times are naturals with the saturation of the source written out
  (\<open>sat64\<close>, \<open>sat128\<close>); subtraction of naturals is the source's \<open>saturating_sub\<close>.
\<close>

type_synonym task_id = nat

record fair_entity =
  fe_vruntime :: nat
  fe_deadline :: nat
  fe_weight :: nat
  fe_task :: task_id

record fair_group =
  fg_shares :: nat
  fg_vruntime :: nat
  fg_min_vruntime :: nat
  fg_weighted_sum :: nat
  fg_weight_sum :: nat
  fg_tasks :: "(task_id, fair_entity) btree_map"
  fg_order :: "(nat \<times> nat \<times> task_id) btree_set"

datatype enqueue_kind = Enqueue_initial | Enqueue_wakeup | Enqueue_requeue

definition group_new :: "nat \<Rightarrow> fair_group" where
  "group_new vruntime = \<lparr>fg_shares = 1024, fg_vruntime = vruntime, fg_min_vruntime = vruntime,
     fg_weighted_sum = 0, fg_weight_sum = 0, fg_tasks = [], fg_order = []\<rparr>"

definition group_is_empty :: "fair_group \<Rightarrow> bool" where
  "group_is_empty g \<longleftrightarrow> fg_tasks g = []"

definition unlink_task :: "task_id \<Rightarrow> fair_group \<Rightarrow> fair_entity option \<times> fair_group" where
  "unlink_task task_id g =
     (case btm_get (fg_tasks g) task_id of
        None \<Rightarrow> (None, g)
      | Some e \<Rightarrow> (Some e, g\<lparr>
          fg_tasks := btm_remove task_id (fg_tasks g),
          fg_order := bts_remove (fe_deadline e, fe_vruntime e, task_id) (fg_order g),
          fg_weighted_sum := fg_weighted_sum g - sat128 (fe_vruntime e * fe_weight e),
          fg_weight_sum := fg_weight_sum g - fe_weight e\<rparr>))"

definition insert_task :: "task_id \<Rightarrow> nat \<Rightarrow> nat \<Rightarrow> nat \<Rightarrow> fair_group \<Rightarrow> fair_group" where
  "insert_task task_id vruntime deadline weight g =
     (let g1 = (case btm_get (fg_tasks g) task_id of
                  None \<Rightarrow> g
                | Some old \<Rightarrow> g\<lparr>
                    fg_order := bts_remove (fe_deadline old, fe_vruntime old, task_id) (fg_order g),
                    fg_weighted_sum := fg_weighted_sum g - sat128 (fe_vruntime old * fe_weight old),
                    fg_weight_sum := fg_weight_sum g - fe_weight old\<rparr>)
      in g1\<lparr>
        fg_tasks := btm_insert task_id
          \<lparr>fe_vruntime = vruntime, fe_deadline = deadline, fe_weight = weight, fe_task = task_id\<rparr> (fg_tasks g1),
        fg_weighted_sum := sat128 (fg_weighted_sum g1 + sat128 (vruntime * weight)),
        fg_weight_sum := sat128 (fg_weight_sum g1 + weight),
        fg_order := bts_insert (deadline, vruntime, task_id) (fg_order g1)\<rparr>)"

definition avg_task_vruntime_with :: "(nat \<times> nat) option \<Rightarrow> fair_group \<Rightarrow> nat option" where
  "avg_task_vruntime_with current g =
     (let (weighted_sum, weight_sum) =
        (case current of
           None \<Rightarrow> (fg_weighted_sum g, fg_weight_sum g)
         | Some (vruntime, weight) \<Rightarrow>
             (sat128 (fg_weighted_sum g + sat128 (vruntime * weight)), sat128 (fg_weight_sum g + weight)))
      in if weight_sum = 0 then None else Some (max (weighted_sum div weight_sum) (fg_min_vruntime g)))"

definition avg_task_vruntime :: "fair_group \<Rightarrow> nat option" where
  "avg_task_vruntime g = avg_task_vruntime_with None g"

section \<open>Weights and slices\<close>

definition NICE_WEIGHTS :: "nat list" where
  "NICE_WEIGHTS =
    [88761, 71755, 56483, 46273, 36291, 29154, 23254, 18705, 14949, 11916, 9548, 7620, 6100,
     4904, 3906, 3121, 2501, 1991, 1586, 1277, 1024, 820, 655, 526, 423, 335, 272, 215, 172,
     137, 110, 87, 70, 56, 45, 36, 29, 23, 18, 15]"

definition fair_nice_weight :: "int \<Rightarrow> nat" where
  "fair_nice_weight nice = NICE_WEIGHTS ! nat (min (max nice (- 20)) 19 + 20)"

definition scale_fair_delta :: "nat \<Rightarrow> nat \<Rightarrow> nat" where
  "scale_fair_delta delta_ns weight = max ((delta_ns * 1024) div max weight 1) 1"

definition fair_entity_vslice_ns :: "int \<Rightarrow> enqueue_kind \<Rightarrow> nat" where
  "fair_entity_vslice_ns nice kind =
     (let vslice = scale_fair_delta 2000000 (fair_nice_weight nice)
      in if kind = Enqueue_initial then max (vslice div 2) 1 else vslice)"

definition tick_period_ns :: nat where
  "tick_period_ns = max (1000000000 div 100) 1"

definition fair_lag_limit_ns :: "int \<Rightarrow> nat" where
  "fair_lag_limit_ns nice = sat128 (fair_entity_vslice_ns nice Enqueue_requeue + tick_period_ns)"

definition fair_wakeup_lag_cap_ns :: "int \<Rightarrow> nat" where
  "fair_wakeup_lag_cap_ns nice = sat128 (fair_lag_limit_ns nice * 2)"

definition fair_startup_credit_cap_ns :: nat where
  "fair_startup_credit_cap_ns = 50000000"

definition inflate_fair_lag_ns :: "nat \<Rightarrow> nat \<Rightarrow> nat \<Rightarrow> nat" where
  "inflate_fair_lag_ns vlag load weight =
     (if load = 0 then vlag else sat128 (vlag * sat128 (load + weight)) div load)"

section \<open>Placement\<close>

text \<open>The task's virtual run time in \<open>place_fair_task_entity\<close> before the placement rule is applied:
  raised to the group's minimum, then charged with what the task ran since it was last queued.\<close>

definition charged_vruntime :: "fair_group \<Rightarrow> tcb \<Rightarrow> nat" where
  "charged_vruntime g t =
     (let vr = max (t_vruntime t) (fg_min_vruntime g); delta_ns = t_cpu_time t - t_checkpoint t
      in if delta_ns > 0 then sat128 (vr + scale_fair_delta delta_ns (fair_nice_weight (t_nice t))) else vr)"

text \<open>The placement rule, with the group's weight sum and the virtual time of the placement.\<close>

definition placed_vruntime :: "enqueue_kind \<Rightarrow> nat \<Rightarrow> nat \<Rightarrow> nat \<Rightarrow> nat \<Rightarrow> nat \<Rightarrow> nat \<Rightarrow> nat" where
  "placed_vruntime kind placement load weight saved_vlag startup_credit vr =
     (case kind of
        Enqueue_initial \<Rightarrow> placement
      | Enqueue_wakeup \<Rightarrow>
          let effective_vlag = max saved_vlag startup_credit in
          if effective_vlag > 0 \<and> load > 0 then placement - inflate_fair_lag_ns effective_vlag load weight
          else if vr > placement then placement else vr
      | Enqueue_requeue \<Rightarrow>
          if startup_credit > 0 then
            (if load > 0 then
               let credited = placement - inflate_fair_lag_ns startup_credit load weight
               in if vr > credited then credited else vr
             else if vr > placement then placement else vr)
          else vr)"

definition place_fair_task_entity ::
    "enqueue_kind \<Rightarrow> (nat \<times> nat) option \<Rightarrow> fair_group \<Rightarrow> tcb \<Rightarrow> nat \<times> nat \<times> fair_group \<times> tcb" where
  "place_fair_task_entity kind current_entity g t =
     (let avg_vruntime = (case avg_task_vruntime_with current_entity g of None \<Rightarrow> fg_min_vruntime g | Some a \<Rightarrow> a);
          current_ns = t_cpu_time t;
          delta_ns = current_ns - t_checkpoint t;
          vr = charged_vruntime g t;
          g1 = (if delta_ns > 0
                then g\<lparr>fg_vruntime := sat128 (fg_vruntime g + scale_fair_delta delta_ns (max (fg_shares g) 1))\<rparr> else g);
          placement_vruntime = max avg_vruntime (fg_min_vruntime g1);
          weight = fair_nice_weight (t_nice t);
          saved_vlag = min (t_vlag t) (fair_wakeup_lag_cap_ns (t_nice t));
          startup_credit = min (t_credit t) fair_startup_credit_cap_ns;
          current_weight = (case current_entity of None \<Rightarrow> 0 | Some (_, w) \<Rightarrow> w);
          load = sat128 (fg_weight_sum g1 + current_weight);
          vruntime = placed_vruntime kind placement_vruntime load weight saved_vlag startup_credit vr;
          deadline = sat128 (vruntime + fair_entity_vslice_ns (t_nice t) kind)
      in (vruntime, deadline, g1,
          t\<lparr>t_vlag := 0, t_credit := 0, t_vruntime := vruntime, t_checkpoint := current_ns, t_deadline := deadline\<rparr>))"

definition fair_task_vruntime_deadline_at :: "nat \<Rightarrow> tcb \<Rightarrow> nat \<times> nat" where
  "fair_task_vruntime_deadline_at now_ns t =
     (let current_runtime_ns = (if is_on_cpu t then sat64 (t_cpu_time t + (now_ns - t_runtime_start t)) else t_cpu_time t);
          delta_ns = current_runtime_ns - t_checkpoint t
      in (sat128 (t_vruntime t + scale_fair_delta delta_ns (fair_nice_weight (t_nice t))), t_deadline t))"

definition is_fair :: "tcb \<Rightarrow> bool" where
  "is_fair t \<longleftrightarrow> class_of_policy (t_policy t) = Some Sched_fair"

text \<open>The task running on the hart is passed as an option.\<close>

definition current_fair_entity_for_group :: "tcb option \<Rightarrow> nat \<Rightarrow> nat \<Rightarrow> (nat \<times> nat) option" where
  "current_fair_entity_for_group current group_id now_ns =
     (case current of
        None \<Rightarrow> None
      | Some c \<Rightarrow>
          if \<not> is_on_cpu c then None
          else if t_group c \<noteq> group_id \<or> \<not> is_fair c then None
          else Some (fst (fair_task_vruntime_deadline_at now_ns c), fair_nice_weight (t_nice c)))"

section \<open>Credits\<close>

text \<open>\<open>record_fair_sleep_lag\<close> for a task with the group it is queued under, if there is one, and the run
  queue's minimum.\<close>

definition sleep_lag :: "fair_group option \<Rightarrow> nat \<Rightarrow> nat \<Rightarrow> tcb \<Rightarrow> tcb" where
  "sleep_lag grp min_fair_vruntime now_ns t =
     (if \<not> is_fair t then t
      else
        let task_vruntime = fst (fair_task_vruntime_deadline_at now_ns t);
            task_weight = fair_nice_weight (t_nice t);
            avg_vruntime = (case Option.bind grp (avg_task_vruntime_with (Some (task_vruntime, task_weight))) of
                              None \<Rightarrow> min_fair_vruntime | Some a \<Rightarrow> a)
        in t\<lparr>t_vlag := min (avg_vruntime - task_vruntime) (fair_lag_limit_ns (t_nice t))\<rparr>)"

definition prime_fair_timer_wakeup_lag :: "tcb \<Rightarrow> tcb" where
  "prime_fair_timer_wakeup_lag t =
     (if \<not> is_fair t then t else t\<lparr>t_vlag := max (t_vlag t) (fair_wakeup_lag_cap_ns (t_nice t))\<rparr>)"

definition prime_fair_sync_wakeup_lag :: "tcb \<Rightarrow> tcb" where
  "prime_fair_sync_wakeup_lag t =
     (if \<not> is_fair t then t else t\<lparr>t_vlag := max (t_vlag t) (fair_lag_limit_ns (t_nice t))\<rparr>)"

definition protect_fair_fork_parent :: "nat \<Rightarrow> tcb \<Rightarrow> tcb" where
  "protect_fair_fork_parent now_ns t =
     (if \<not> is_fair t then t
      else
        let vruntime = fst (fair_task_vruntime_deadline_at now_ns t)
        in if t_deadline t = 0 then t\<lparr>t_deadline := sat128 (vruntime + fair_entity_vslice_ns (t_nice t) Enqueue_requeue)\<rparr>
           else t)"

definition prime_fair_startup_credit :: "nat \<Rightarrow> nat \<Rightarrow> tcb \<Rightarrow> tcb" where
  "prime_fair_startup_credit credit_ns now_ns t =
     (if \<not> is_fair t then t
      else
        let vruntime = fst (fair_task_vruntime_deadline_at now_ns t)
        in t\<lparr>t_deadline := max (t_deadline t) (sat128 (vruntime + credit_ns)),
             t_credit := max (t_credit t) (min credit_ns fair_startup_credit_cap_ns)\<rparr>)"

definition prime_fair_exec_start :: "nat \<Rightarrow> tcb \<Rightarrow> tcb" where
  "prime_fair_exec_start now_ns t = prime_fair_startup_credit fair_startup_credit_cap_ns now_ns t"

definition prime_fair_thread_group_start :: "nat \<Rightarrow> nat \<Rightarrow> tcb \<Rightarrow> tcb" where
  "prime_fair_thread_group_start thread_count now_ns t =
     (if thread_count > 16 then t else prime_fair_startup_credit fair_startup_credit_cap_ns now_ns t)"

section \<open>Choosing an entity\<close>

fun peek_scan :: "fair_group \<Rightarrow> (task_id \<Rightarrow> bool) \<Rightarrow> nat \<Rightarrow> (nat \<times> task_id) option \<Rightarrow> (nat \<times> nat \<times> task_id) list \<Rightarrow> task_id option" where
  "peek_scan g live eligible_vruntime fallback [] = map_option snd fallback"
| "peek_scan g live eligible_vruntime fallback ((deadline, vruntime, task_id) # rest) =
     (case btm_get (fg_tasks g) task_id of
        None \<Rightarrow> peek_scan g live eligible_vruntime fallback rest
      | Some e \<Rightarrow>
          if fe_vruntime e \<noteq> vruntime then peek_scan g live eligible_vruntime fallback rest
          else if \<not> live (fe_task e) then peek_scan g live eligible_vruntime fallback rest
          else if fe_vruntime e \<le> eligible_vruntime then Some task_id
          else peek_scan g live eligible_vruntime
            (if (case fallback of None \<Rightarrow> True | Some (fv, _) \<Rightarrow> fe_vruntime e < fv) then Some (fe_vruntime e, task_id) else fallback)
            rest)"

definition eligible_bound :: "fair_group \<Rightarrow> nat" where
  "eligible_bound g = (case avg_task_vruntime g of None \<Rightarrow> fg_min_vruntime g | Some a \<Rightarrow> a)"

definition peek_fair_group_task :: "fair_group \<Rightarrow> (task_id \<Rightarrow> bool) \<Rightarrow> task_id option" where
  "peek_fair_group_task g live = peek_scan g live (eligible_bound g) None (fg_order g)"

section \<open>Consistent groups\<close>

text \<open>\<open>task_order\<close> indexes exactly the entities of \<open>tasks\<close>, each under its own deadline and virtual time.\<close>

definition order_key :: "task_id \<times> fair_entity \<Rightarrow> nat \<times> nat \<times> task_id" where
  "order_key p = (fe_deadline (snd p), fe_vruntime (snd p), fst p)"

definition group_ok :: "fair_group \<Rightarrow> bool" where
  "group_ok g \<longleftrightarrow> btm_inv (fg_tasks g) \<and> bts_inv (fg_order g) \<and> set (fg_order g) = order_key ` set (fg_tasks g) \<and>
     (\<forall>p\<in>set (fg_tasks g). fe_task (snd p) = fst p \<and> 0 < fe_weight (snd p))"

definition weighted :: "task_id \<times> fair_entity \<Rightarrow> nat" where
  "weighted p = fe_vruntime (snd p) * fe_weight (snd p)"

text \<open>The running sums are exact as long as they fit \<open>u128\<close>.\<close>

definition sums_exact :: "fair_group \<Rightarrow> bool" where
  "sums_exact g \<longleftrightarrow> fg_weighted_sum g = sum_list (map weighted (fg_tasks g)) \<and> fg_weighted_sum g < 2 ^ 128 \<and>
     fg_weight_sum g = sum_list (map (fe_weight \<circ> snd) (fg_tasks g)) \<and> fg_weight_sum g < 2 ^ 128"

lemma group_new_ok: "group_ok (group_new v)" "sums_exact (group_new v)"
  by (simp_all add: group_ok_def sums_exact_def group_new_def)

lemma order_mem:
  assumes "group_ok g"
  shows "(d, v, i) \<in> set (fg_order g) \<longleftrightarrow> (\<exists>e. btm_get (fg_tasks g) i = Some e \<and> fe_deadline e = d \<and> fe_vruntime e = v)"
proof -
  have inv: "btm_inv (fg_tasks g)" and o: "set (fg_order g) = order_key ` set (fg_tasks g)"
    using assms by (simp_all add: group_ok_def)
  have "(d, v, i) = order_key p \<longleftrightarrow> p = (i, snd p) \<and> fe_deadline (snd p) = d \<and> fe_vruntime (snd p) = v" for p
    by (cases p) (auto simp: order_key_def)
  then show ?thesis unfolding o btm_get_iff [OF inv] image_iff by (metis snd_conv)
qed

lemma entity_task: "group_ok g \<Longrightarrow> btm_get (fg_tasks g) i = Some e \<Longrightarrow> fe_task e = i \<and> 0 < fe_weight e"
  by (auto simp: group_ok_def btm_get_iff)

lemma sum_list_btm_remove:
  fixes f :: "'k::linorder \<times> 'v \<Rightarrow> nat"
  assumes "btm_inv m" "btm_get m k = Some v"
  shows "sum_list (map f m) = f (k, v) + sum_list (map f (btm_remove k m))"
  using assms
proof (induction m)
  case (Cons p m)
  have inv: "btm_inv m" and lt: "\<forall>q\<in>set m. fst p < fst q" using Cons.prems(1) by (auto simp: btm_inv_def)
  show ?case
  proof (cases "fst p = k")
    case True
    have "btm_remove k m = m" using lt True by (auto simp: btm_remove_def filter_id_conv)
    then show ?thesis using True Cons.prems(2) by (cases p) (simp add: btm_get_def btm_remove_def)
  next
    case False
    then have "btm_get m k = Some v" using Cons.prems(2) by (simp add: btm_get_def)
    from Cons.IH [OF inv this] show ?thesis using False by (simp add: btm_remove_def)
  qed
qed simp

lemma sum_list_btm_insert:
  fixes f :: "'k::linorder \<times> 'v \<Rightarrow> nat"
  assumes "btm_inv m"
  shows "sum_list (map f (btm_insert k v m)) = f (k, v) + sum_list (map f (btm_remove k m))"
proof -
  have "btm_remove k (btm_insert k v m) = btm_remove k m" by (induction m) (auto simp: btm_remove_def)
  then show ?thesis using sum_list_btm_remove [OF btm_inv_insert [OF assms], of k v k v f] by simp
qed

lemma set_btm_remove: "set (btm_remove k m) = {p \<in> set m. fst p \<noteq> k}"
  by (auto simp: btm_remove_def)

lemma set_btm_insert_eq: "btm_inv m \<Longrightarrow> set (btm_insert k v m) = insert (k, v) {p \<in> set m. fst p \<noteq> k}"
proof -
  assume inv: "btm_inv m"
  have "(k', v') \<in> set (btm_insert k v m) \<longleftrightarrow> (k', v') \<in> insert (k, v) {p \<in> set m. fst p \<noteq> k}" for k' v'
    using btm_get_iff [OF btm_inv_insert [OF inv, of k v], of k' v'] btm_get_iff [OF inv, of k' v'] by (auto split: if_splits)
  then show ?thesis by auto
qed

lemma unlink_task_ok:
  assumes ok: "group_ok g" and u: "unlink_task i g = (r, g')"
  shows "group_ok g'" and "r = btm_get (fg_tasks g) i" and "fg_tasks g' = btm_remove i (fg_tasks g)"
    and "fg_vruntime g' = fg_vruntime g" and "sums_exact g \<Longrightarrow> sums_exact g'"
    and "fg_order g' = filter (\<lambda>x. snd (snd x) \<noteq> i) (fg_order g)"
proof -
  have "group_ok g' \<and> r = btm_get (fg_tasks g) i \<and> fg_tasks g' = btm_remove i (fg_tasks g) \<and>
    fg_vruntime g' = fg_vruntime g \<and> (sums_exact g \<longrightarrow> sums_exact g') \<and> fg_order g' = filter (\<lambda>x. snd (snd x) \<noteq> i) (fg_order g)"
  proof (cases "btm_get (fg_tasks g) i")
    case None
    have "filter (\<lambda>x. snd (snd x) \<noteq> i) (fg_order g) = fg_order g"
      using None order_mem [OF ok] by (auto simp: filter_id_conv)
    then show ?thesis using None u ok by (simp add: unlink_task_def btm_remove_absent)
  next
    case (Some e)
    have inv: "btm_inv (fg_tasks g)" "bts_inv (fg_order g)" using ok by (simp_all add: group_ok_def)
    have mem: "x \<in> set (fg_order g) \<Longrightarrow> x = (fe_deadline e, fe_vruntime e, i) \<longleftrightarrow> snd (snd x) = i" for x
      using order_mem [OF ok] Some by (cases x) auto
    have flt: "bts_remove (fe_deadline e, fe_vruntime e, i) (fg_order g) = filter (\<lambda>x. snd (snd x) \<noteq> i) (fg_order g)"
      unfolding bts_remove_def by (rule filter_cong) (auto simp: mem)
    have g': "g' = snd (unlink_task i g)" using u by simp
    have r: "r = Some e" using u Some by (auto simp: unlink_task_def)
    have t: "fg_tasks g' = btm_remove i (fg_tasks g)" "fg_order g' = filter (\<lambda>x. snd (snd x) \<noteq> i) (fg_order g)" "fg_vruntime g' = fg_vruntime g"
      unfolding g' using Some flt by (simp_all add: unlink_task_def)
    have "group_ok g'"
      using ok btm.inv_rem [OF inv(1), of i] sorted_wrt_filter [of "(<)" "fg_order g" "\<lambda>x. snd (snd x) \<noteq> i"]
      unfolding group_ok_def t set_btm_remove bts_inv_def by (auto simp: order_key_def)
    moreover have "sums_exact g'" if s: "sums_exact g"
    proof -
      have le: "weighted (i, e) < 2 ^ 128" using s sum_list_btm_remove [OF inv(1) Some, of weighted] by (simp add: sums_exact_def)
      then have "sat128 (fe_vruntime e * fe_weight e) = weighted (i, e)" by (simp add: sat128_def weighted_def)
      then show ?thesis using s sum_list_btm_remove [OF inv(1) Some, of weighted] sum_list_btm_remove [OF inv(1) Some, of "fe_weight \<circ> snd"]
        unfolding sums_exact_def g' using Some by (simp add: unlink_task_def)
    qed
    ultimately show ?thesis using t r Some by simp
  qed
  then show "group_ok g'" "r = btm_get (fg_tasks g) i" "fg_tasks g' = btm_remove i (fg_tasks g)"
    "fg_vruntime g' = fg_vruntime g" "sums_exact g \<Longrightarrow> sums_exact g'"
    "fg_order g' = filter (\<lambda>x. snd (snd x) \<noteq> i) (fg_order g)" by auto
qed

lemma insert_task_tasks: "fg_tasks (insert_task i v d w g) =
    btm_insert i \<lparr>fe_vruntime = v, fe_deadline = d, fe_weight = w, fe_task = i\<rparr> (fg_tasks g)"
  by (simp add: insert_task_def Let_def split: option.splits)

lemma insert_task_ok:
  assumes ok: "group_ok g" and w: "0 < w"
  shows "group_ok (insert_task i v d w g)"
proof -
  have inv: "btm_inv (fg_tasks g)" "bts_inv (fg_order g)" using ok by (simp_all add: group_ok_def)
  have b: "bts_inv (fg_order (insert_task i v d w g))"
    using inv(2) by (auto simp: insert_task_def Let_def split: option.splits intro!: bts_inv_insert bts_inv_remove)
  have "set (fg_order (insert_task i v d w g)) = insert (d, v, i) {x \<in> set (fg_order g). snd (snd x) \<noteq> i}"
  proof (cases "btm_get (fg_tasks g) i")
    case None
    then show ?thesis using order_mem [OF ok] by (auto simp: insert_task_def)
  next
    case (Some e)
    then show ?thesis using order_mem [OF ok] by (auto simp: insert_task_def)
  qed
  also have "\<dots> = order_key ` set (fg_tasks (insert_task i v d w g))"
    using ok unfolding insert_task_tasks set_btm_insert_eq [OF inv(1)] by (auto simp: group_ok_def order_key_def)
  finally show ?thesis
    using b inv(1) ok w unfolding group_ok_def insert_task_tasks set_btm_insert_eq [OF inv(1)] by (auto intro: btm_inv_insert)
qed

text \<open>Queueing keeps the sums exact while the new total fits.\<close>

lemma insert_task_sums:
  assumes ok: "group_ok g" and s: "sums_exact g"
    and fits: "sum_list (map weighted (fg_tasks (insert_task i v d w g))) < 2 ^ 128"
      "sum_list (map (fe_weight \<circ> snd) (fg_tasks (insert_task i v d w g))) < 2 ^ 128"
  shows "sums_exact (insert_task i v d w g)"
proof -
  have inv: "btm_inv (fg_tasks g)" using ok by (simp add: group_ok_def)
  note ins = sum_list_btm_insert [OF inv, of weighted i] sum_list_btm_insert [OF inv, of "fe_weight \<circ> snd" i]
  have vw: "sat128 (v * w) = v * w" using fits(1) by (simp add: insert_task_tasks ins sat128_def weighted_def)
  show ?thesis
  proof (cases "btm_get (fg_tasks g) i")
    case None
    then show ?thesis using s fits vw
      by (simp add: sums_exact_def insert_task_def ins btm_remove_absent sat128_def weighted_def)
  next
    case (Some e)
    note rem = sum_list_btm_remove [OF inv Some, of weighted] sum_list_btm_remove [OF inv Some, of "fe_weight \<circ> snd"]
    have "weighted (i, e) < 2 ^ 128" using s rem(1) by (simp add: sums_exact_def)
    then have "sat128 (fe_vruntime e * fe_weight e) = weighted (i, e)" by (simp add: sat128_def weighted_def)
    then show ?thesis using s fits vw Some rem
      by (simp add: sums_exact_def insert_task_def ins sat128_def weighted_def)
  qed
qed

section \<open>What the scan finds\<close>

definition indexed :: "fair_group \<Rightarrow> (nat \<times> nat \<times> task_id) list \<Rightarrow> bool" where
  "indexed g xs \<longleftrightarrow> (\<forall>d v i. (d, v, i) \<in> set xs \<longrightarrow>
     (\<exists>e. btm_get (fg_tasks g) i = Some e \<and> fe_deadline e = d \<and> fe_vruntime e = v \<and> fe_task e = i))"

lemma indexed_order: "group_ok g \<Longrightarrow> indexed g (fg_order g)"
  unfolding indexed_def by (metis order_mem entity_task)

lemma indexed_Cons: "indexed g (x # xs) \<Longrightarrow> indexed g xs"
  by (simp add: indexed_def)

lemma peek_scan_Cons:
  assumes "indexed g ((d, v, i) # rest)"
  shows "peek_scan g live el fb ((d, v, i) # rest) =
    (if \<not> live i then peek_scan g live el fb rest
     else if v \<le> el then Some i
     else peek_scan g live el (if (case fb of None \<Rightarrow> True | Some (fv, _) \<Rightarrow> v < fv) then Some (v, i) else fb) rest)"
proof -
  obtain e where "btm_get (fg_tasks g) i = Some e" "fe_vruntime e = v" "fe_task e = i"
    using assms unfolding indexed_def by (meson list.set_intros(1))
  then show ?thesis by (auto split: option.splits)
qed

text \<open>With an eligible live entry the scan returns the first one, the one of the earliest deadline.\<close>

lemma peek_scan_eligible:
  assumes "indexed g xs" "sorted_wrt (<) xs" "(d', v', i') \<in> set xs" "live i'" "v' \<le> el"
  shows "\<exists>d v i. peek_scan g live el fb xs = Some i \<and> (d, v, i) \<in> set xs \<and> live i \<and> v \<le> el \<and>
    (\<forall>d2 v2 i2. (d2, v2, i2) \<in> set xs \<longrightarrow> live i2 \<longrightarrow> v2 \<le> el \<longrightarrow> (d, v, i) \<le> (d2, v2, i2))"
  using assms
proof (induction xs arbitrary: fb)
  case (Cons x xs)
  obtain d v i where x: "x = (d, v, i)" by (cases x)
  have s: "sorted_wrt (<) xs" "\<forall>y\<in>set xs. (d, v, i) < y" using Cons.prems(2) x by auto
  note ix = indexed_Cons [OF Cons.prems(1)]
  show ?case
  proof (cases "live i \<and> v \<le> el")
    case True
    then have "peek_scan g live el fb (x # xs) = Some i" using peek_scan_Cons Cons.prems(1) x by simp
    then show ?thesis using True x s(2) by (intro exI [of _ d] exI [of _ v] exI [of _ i]) (auto simp: less_imp_le)
  next
    case False
    then have mem: "(d', v', i') \<in> set xs" using Cons.prems(3,4,5) x by auto
    have "\<exists>fb'. peek_scan g live el fb (x # xs) = peek_scan g live el fb' xs"
      using False peek_scan_Cons Cons.prems(1) x by auto
    then obtain fb' where e: "peek_scan g live el fb (x # xs) = peek_scan g live el fb' xs" by blast
    from Cons.IH [OF ix s(1) mem Cons.prems(4,5), of fb'] show ?thesis
      unfolding e using False x by (metis list.set_intros(2) prod.inject set_ConsD)
  qed
qed simp

text \<open>Without one it returns an entry of the smallest virtual time.\<close>

definition smallest_of :: "(task_id \<Rightarrow> bool) \<Rightarrow> (nat \<times> nat \<times> task_id) list \<Rightarrow> (nat \<times> task_id) option \<Rightarrow> task_id option \<Rightarrow> bool" where
  "smallest_of live xs fb r \<longleftrightarrow> (case r of
      None \<Rightarrow> fb = None \<and> (\<forall>d v i. (d, v, i) \<in> set xs \<longrightarrow> \<not> live i)
    | Some i \<Rightarrow> \<exists>v. (fb = Some (v, i) \<or> (\<exists>d. (d, v, i) \<in> set xs \<and> live i)) \<and>
        (\<forall>d2 v2 i2. (d2, v2, i2) \<in> set xs \<longrightarrow> live i2 \<longrightarrow> v \<le> v2) \<and> (\<forall>fv j. fb = Some (fv, j) \<longrightarrow> v \<le> fv))"

lemma peek_scan_fallback:
  assumes "indexed g xs" "\<And>d v i. (d, v, i) \<in> set xs \<Longrightarrow> live i \<Longrightarrow> el < v"
  shows "smallest_of live xs fb (peek_scan g live el fb xs)"
  using assms
proof (induction xs arbitrary: fb)
  case Nil
  then show ?case by (cases fb) (auto simp: smallest_of_def)
next
  case (Cons x xs)
  obtain d v i where x: "x = (d, v, i)" by (cases x)
  define fb' where "fb' = (if live i \<and> (case fb of None \<Rightarrow> True | Some (fv, _) \<Rightarrow> v < fv) then Some (v, i) else fb)"
  have "indexed g ((d, v, i) # xs)" and nel: "live i \<Longrightarrow> \<not> v \<le> el"
    using Cons.prems(1) Cons.prems(2) [of d v i] x by auto
  then have e: "peek_scan g live el fb (x # xs) = peek_scan g live el fb' xs"
    unfolding x peek_scan_Cons [OF \<open>indexed g ((d, v, i) # xs)\<close>] fb'_def by auto
  have IH: "smallest_of live xs fb' (peek_scan g live el fb' xs)"
    by (rule Cons.IH [OF indexed_Cons [OF Cons.prems(1)]]) (meson Cons.prems(2) list.set_intros(2))
  show ?case
  proof (cases "peek_scan g live el fb' xs")
    case None
    then show ?thesis using IH e x by (auto simp: smallest_of_def fb'_def split: if_splits option.splits)
  next
    case (Some j)
    from IH Some obtain w where w: "fb' = Some (w, j) \<or> (\<exists>d. (d, w, j) \<in> set xs \<and> live j)"
      "\<forall>d2 v2 i2. (d2, v2, i2) \<in> set xs \<longrightarrow> live i2 \<longrightarrow> w \<le> v2" "\<forall>fv k. fb' = Some (fv, k) \<longrightarrow> w \<le> fv" by (auto simp: smallest_of_def)
    have a: "fb = Some (w, j) \<or> (\<exists>d. (d, w, j) \<in> set (x # xs) \<and> live j)"
      using w(1) x by (auto simp: fb'_def split: if_splits option.splits)
    have b: "live i \<Longrightarrow> w \<le> v" using w(3) by (auto simp: fb'_def split: option.splits if_splits)
    have c: "\<forall>fv k. fb = Some (fv, k) \<longrightarrow> w \<le> fv" using w(3) b by (auto simp: fb'_def split: if_splits)
    show ?thesis unfolding e Some smallest_of_def using a b c w(2) x by auto
  qed
qed

definition has_eligible :: "fair_group \<Rightarrow> (task_id \<Rightarrow> bool) \<Rightarrow> bool" where
  "has_eligible g live \<longleftrightarrow> (\<exists>d v i. (d, v, i) \<in> set (fg_order g) \<and> live i \<and> v \<le> eligible_bound g)"

lemma peek_eligible:
  assumes "group_ok g" "has_eligible g live"
  obtains d v i where "peek_fair_group_task g live = Some i" "(d, v, i) \<in> set (fg_order g)" "live i" "v \<le> eligible_bound g"
    "\<And>d2 v2 i2. (d2, v2, i2) \<in> set (fg_order g) \<Longrightarrow> live i2 \<Longrightarrow> v2 \<le> eligible_bound g \<Longrightarrow> (d, v, i) \<le> (d2, v2, i2)"
proof -
  have s: "sorted_wrt (<) (fg_order g)" using assms by (simp add: group_ok_def bts_inv_def)
  obtain d' v' i' where m: "(d', v', i') \<in> set (fg_order g)" "live i'" "v' \<le> eligible_bound g"
    using assms(2) unfolding has_eligible_def by blast
  show ?thesis
    using peek_scan_eligible [of g "fg_order g" d' v' i' live "eligible_bound g" None, OF indexed_order [OF assms(1)] s m] that
    unfolding peek_fair_group_task_def by blast
qed

lemma peek_fallback:
  assumes "group_ok g" "\<not> has_eligible g live"
  shows "case peek_fair_group_task g live of
      None \<Rightarrow> (\<forall>d v i. (d, v, i) \<in> set (fg_order g) \<longrightarrow> \<not> live i)
    | Some i \<Rightarrow> \<exists>d v. (d, v, i) \<in> set (fg_order g) \<and> live i \<and>
        (\<forall>d2 v2 i2. (d2, v2, i2) \<in> set (fg_order g) \<longrightarrow> live i2 \<longrightarrow> v \<le> v2)"
proof -
  have gt: "eligible_bound g < v" if "(d, v, i) \<in> set (fg_order g)" "live i" for d v i
    using assms(2) that unfolding has_eligible_def by (meson not_le)
  have f: "smallest_of live (fg_order g) None (peek_scan g live (eligible_bound g) None (fg_order g))"
    by (rule peek_scan_fallback [OF indexed_order [OF assms(1)]]) (rule gt)
  show ?thesis
  proof (cases "peek_fair_group_task g live")
    case None
    then show ?thesis using f unfolding peek_fair_group_task_def by (simp add: smallest_of_def)
  next
    case (Some i)
    then have s: "peek_scan g live (eligible_bound g) None (fg_order g) = Some i" by (simp add: peek_fair_group_task_def)
    from f show ?thesis unfolding Some s by (auto simp: smallest_of_def)
  qed
qed

lemma peek_Some:
  assumes "group_ok g" "peek_fair_group_task g live = Some i"
  shows "live i \<and> btm_get (fg_tasks g) i \<noteq> None"
proof (cases "has_eligible g live")
  case True
  then show ?thesis using peek_eligible [OF assms(1) True] assms(2) order_mem [OF assms(1)]
    by (metis option.distinct(1) option.inject)
next
  case False
  show ?thesis using peek_fallback [OF assms(1) False] assms(2) order_mem [OF assms(1)] by auto
qed

lemma peek_None:
  assumes "group_ok g" "peek_fair_group_task g live = None" "btm_get (fg_tasks g) i \<noteq> None"
  shows "\<not> live i"
proof -
  have ne: "\<not> has_eligible g live" using peek_eligible [OF assms(1)] assms(2) by (metis option.distinct(1))
  obtain e where "btm_get (fg_tasks g) i = Some e" using assms(3) by auto
  then have "(fe_deadline e, fe_vruntime e, i) \<in> set (fg_order g)" using order_mem [OF assms(1)] by blast
  then show ?thesis using peek_fallback [OF assms(1) ne] assms(2) by auto
qed

text \<open>The average of exact sums is at least the smallest virtual time, so a non-empty group has an
  eligible entity.\<close>

lemma sum_list_scaled_le:
  fixes m :: nat
  assumes "\<forall>p\<in>set ps. m \<le> fe_vruntime (snd p)"
  shows "m * sum_list (map (fe_weight \<circ> snd) ps) \<le> sum_list (map weighted ps)"
  using assms
proof (induction ps)
  case (Cons p ps)
  have "m * fe_weight (snd p) \<le> weighted p" using Cons.prems by (simp add: weighted_def)
  then show ?case using Cons by (simp add: distrib_left)
qed simp

lemma weight_sum_pos: "group_ok g \<Longrightarrow> sums_exact g \<Longrightarrow> fg_tasks g \<noteq> [] \<Longrightarrow> 0 < fg_weight_sum g"
  by (cases "fg_tasks g") (auto simp: group_ok_def sums_exact_def)

lemma eligible_exists:
  assumes ok: "group_ok g" and s: "sums_exact g" and ne: "fg_tasks g \<noteq> []"
  shows "\<exists>p\<in>set (fg_tasks g). fe_vruntime (snd p) \<le> eligible_bound g"
proof -
  let ?V = "(fe_vruntime \<circ> snd) ` set (fg_tasks g)"
  obtain p where p: "p \<in> set (fg_tasks g)" "fe_vruntime (snd p) = Min ?V"
    using Min_in [of ?V] ne by (metis (no_types, lifting) comp_apply empty_is_image finite_imageI imageE list.set_finite set_empty)
  have le: "\<forall>q\<in>set (fg_tasks g). Min ?V \<le> fe_vruntime (snd q)" by simp
  have W: "0 < fg_weight_sum g" by (rule weight_sum_pos [OF ok s ne])
  have "Min ?V * fg_weight_sum g \<le> fg_weighted_sum g" using sum_list_scaled_le [OF le] s by (simp add: sums_exact_def)
  then have "Min ?V \<le> fg_weighted_sum g div fg_weight_sum g" using W by (simp add: less_eq_div_iff_mult_less_eq)
  also have "\<dots> \<le> eligible_bound g" using W by (simp add: eligible_bound_def avg_task_vruntime_def avg_task_vruntime_with_def)
  finally show ?thesis using p by metis
qed

lemma order_mem_tasks:
  assumes "group_ok g"
  shows "(d, v, i) \<in> set (fg_order g) \<longleftrightarrow> (\<exists>e. (i, e) \<in> set (fg_tasks g) \<and> fe_deadline e = d \<and> fe_vruntime e = v)"
  using order_mem [OF assms] assms by (simp add: btm_get_iff group_ok_def)

lemma entity_indexed:
  "group_ok g \<Longrightarrow> q \<in> set (fg_tasks g) \<Longrightarrow> (fe_deadline (snd q), fe_vruntime (snd q), fst q) \<in> set (fg_order g)"
  using order_mem_tasks by (metis prod.collapse)

lemma pick_eligible:
  assumes ok: "group_ok g" and el: "has_eligible g live"
  shows "\<exists>p\<in>set (fg_tasks g). live (fst p) \<and> peek_fair_group_task g live = Some (fst p) \<and> fe_vruntime (snd p) \<le> eligible_bound g \<and>
    (\<forall>q\<in>set (fg_tasks g). live (fst q) \<longrightarrow> fe_vruntime (snd q) \<le> eligible_bound g \<longrightarrow> fe_deadline (snd p) \<le> fe_deadline (snd q))"
proof -
  obtain d v i where p: "peek_fair_group_task g live = Some i" "(d, v, i) \<in> set (fg_order g)" "live i" "v \<le> eligible_bound g"
    "\<And>d2 v2 i2. (d2, v2, i2) \<in> set (fg_order g) \<Longrightarrow> live i2 \<Longrightarrow> v2 \<le> eligible_bound g \<Longrightarrow> (d, v, i) \<le> (d2, v2, i2)"
    using peek_eligible [OF ok el] by metis
  obtain e where e: "(i, e) \<in> set (fg_tasks g)" "fe_deadline e = d" "fe_vruntime e = v" using p(2) order_mem_tasks [OF ok] by blast
  have "fe_deadline e \<le> fe_deadline (snd q)" if q: "q \<in> set (fg_tasks g)" "live (fst q)" "fe_vruntime (snd q) \<le> eligible_bound g" for q
    using p(5) [OF entity_indexed [OF ok q(1)] q(2,3)] e(2) by auto
  then show ?thesis using e p(1,3,4) by (intro bexI [of _ "(i, e)"]) auto
qed

lemma pick_fallback:
  assumes ok: "group_ok g" and el: "\<not> has_eligible g live"
  shows "if \<exists>p\<in>set (fg_tasks g). live (fst p)
    then \<exists>p\<in>set (fg_tasks g). live (fst p) \<and> peek_fair_group_task g live = Some (fst p) \<and>
      (\<forall>q\<in>set (fg_tasks g). live (fst q) \<longrightarrow> fe_vruntime (snd p) \<le> fe_vruntime (snd q))
    else peek_fair_group_task g live = None"
proof (cases "peek_fair_group_task g live")
  case None
  have "\<not> live (fst p)" if "p \<in> set (fg_tasks g)" for p
    using peek_fallback [OF ok el] None entity_indexed [OF ok that] by auto
  then show ?thesis using None by auto
next
  case (Some i)
  from peek_fallback [OF ok el] Some obtain d v where v: "(d, v, i) \<in> set (fg_order g)" "live i"
    "\<And>d2 v2 i2. (d2, v2, i2) \<in> set (fg_order g) \<Longrightarrow> live i2 \<Longrightarrow> v \<le> v2" by auto
  obtain e where e: "(i, e) \<in> set (fg_tasks g)" "fe_vruntime e = v" using v(1) order_mem_tasks [OF ok] by blast
  have "v \<le> fe_vruntime (snd q)" if "q \<in> set (fg_tasks g)" "live (fst q)" for q
    using v(3) [OF entity_indexed [OF ok that(1)] that(2)] .
  then have "\<exists>p\<in>set (fg_tasks g). live (fst p) \<and> peek_fair_group_task g live = Some (fst p) \<and>
      (\<forall>q\<in>set (fg_tasks g). live (fst q) \<longrightarrow> fe_vruntime (snd p) \<le> fe_vruntime (snd q))"
    using e v(2) Some by (intro bexI [of _ "(i, e)"]) auto
  then show ?thesis by auto
qed

text \<open>C12: The choice of a fair group whose kept sums are exact (none has saturated) follows the
  earliest-eligible-virtual-deadline rule. The bound of
  eligibility is the weighted average of the virtual times of the queued entities, or the group's minimum
  if that is larger. If a live entity (ready and still claimed by this queue) is eligible, the choice is
  live, eligible and has the earliest deadline of those; otherwise it has the smallest virtual time of the
  live entities. In a non-empty group whose entities are all live some entity is eligible.\<close>

theorem fair_pick_is_eevdf:
  assumes ok: "group_ok g" and s: "sums_exact g" and ne: "fg_tasks g \<noteq> []"
    and bound: "bound = max (sum_list (map weighted (fg_tasks g)) div sum_list (map (fe_weight \<circ> snd) (fg_tasks g))) (fg_min_vruntime g)"
    and E: "E = {p \<in> set (fg_tasks g). live (fst p)}"
  shows "(if \<exists>p\<in>E. fe_vruntime (snd p) \<le> bound
      then \<exists>p\<in>E. peek_fair_group_task g live = Some (fst p) \<and> fe_vruntime (snd p) \<le> bound \<and>
        (\<forall>q\<in>E. fe_vruntime (snd q) \<le> bound \<longrightarrow> fe_deadline (snd p) \<le> fe_deadline (snd q))
      else if E \<noteq> {} then \<exists>p\<in>E. peek_fair_group_task g live = Some (fst p) \<and> (\<forall>q\<in>E. fe_vruntime (snd p) \<le> fe_vruntime (snd q))
      else peek_fair_group_task g live = None) \<and>
    (E = set (fg_tasks g) \<longrightarrow> (\<exists>p\<in>E. fe_vruntime (snd p) \<le> bound))"
proof -
  have ws: "fg_weighted_sum g = sum_list (map weighted (fg_tasks g))" "fg_weight_sum g = sum_list (map (fe_weight \<circ> snd) (fg_tasks g))"
    using s by (simp_all add: sums_exact_def)
  have b: "bound = eligible_bound g"
    using weight_sum_pos [OF ok s ne] unfolding bound ws [symmetric]
    by (simp add: eligible_bound_def avg_task_vruntime_def avg_task_vruntime_with_def)
  have elig: "has_eligible g live \<longleftrightarrow> (\<exists>p\<in>E. fe_vruntime (snd p) \<le> bound)"
    unfolding has_eligible_def order_mem_tasks [OF ok] E b by force
  have "\<exists>p\<in>E. fe_vruntime (snd p) \<le> bound" if "E = set (fg_tasks g)"
    using eligible_exists [OF ok s ne] that b by simp
  moreover have "\<exists>p\<in>E. peek_fair_group_task g live = Some (fst p) \<and> fe_vruntime (snd p) \<le> bound \<and>
      (\<forall>q\<in>E. fe_vruntime (snd q) \<le> bound \<longrightarrow> fe_deadline (snd p) \<le> fe_deadline (snd q))" if "has_eligible g live"
    using pick_eligible [OF ok that] unfolding E b by blast
  moreover have "if E \<noteq> {} then \<exists>p\<in>E. peek_fair_group_task g live = Some (fst p) \<and> (\<forall>q\<in>E. fe_vruntime (snd p) \<le> fe_vruntime (snd q))
      else peek_fair_group_task g live = None" if n: "\<not> has_eligible g live"
  proof (cases "E = {}")
    case True
    then have "\<not> (\<exists>p\<in>set (fg_tasks g). live (fst p))" unfolding E by blast
    then show ?thesis using pick_fallback [OF ok n] True by (simp only: if_False simp_thms)
  next
    case False
    then have "\<exists>p\<in>set (fg_tasks g). live (fst p)" unfolding E by blast
    then have "\<exists>p\<in>set (fg_tasks g). live (fst p) \<and> peek_fair_group_task g live = Some (fst p) \<and>
      (\<forall>q\<in>set (fg_tasks g). live (fst q) \<longrightarrow> fe_vruntime (snd p) \<le> fe_vruntime (snd q))"
      using pick_fallback [OF ok n] by (simp only: if_True)
    then have "\<exists>p\<in>E. peek_fair_group_task g live = Some (fst p) \<and> (\<forall>q\<in>E. fe_vruntime (snd p) \<le> fe_vruntime (snd q))"
      unfolding E by blast
    then show ?thesis using False by (simp only: if_True simp_thms)
  qed
  ultimately show ?thesis unfolding elig [symmetric] by (cases "has_eligible g live") (simp only: if_True simp_thms, simp only: if_False simp_thms, blast)
qed

definition demo_group :: fair_group where
  "demo_group = insert_task 6 30 35 1024 (insert_task 5 10 50 1024 (group_new 0))"

theorem fair_pick_is_eevdf_witness:
  "group_ok demo_group \<and> sums_exact demo_group \<and>
   (\<exists>p\<in>set (fg_tasks demo_group). peek_fair_group_task demo_group (\<lambda>_. True) = Some (fst p) \<and> fe_vruntime (snd p) \<le> 20)"
proof -
  have ok: "group_ok demo_group" unfolding demo_group_def by (intro insert_task_ok group_new_ok) simp_all
  have s: "sums_exact demo_group" unfolding demo_group_def
    by (intro insert_task_sums insert_task_ok group_new_ok) (simp_all add: insert_task_tasks group_new_def weighted_def)
  have ne: "fg_tasks demo_group \<noteq> []" by (simp add: demo_group_def insert_task_tasks group_new_def)
  have b: "20 = max (sum_list (map weighted (fg_tasks demo_group)) div sum_list (map (fe_weight \<circ> snd) (fg_tasks demo_group)))
      (fg_min_vruntime demo_group)"
    by (simp add: demo_group_def insert_task_def group_new_def weighted_def Let_def btm_get_def)
  from fair_pick_is_eevdf [OF ok s ne b refl, of "\<lambda>_. True"] ok s show ?thesis by (auto split: if_splits)
qed

end
