(* ===== verification/Task_Wakeup.thy ===== *)
theory Task_Wakeup
  imports Task_Block
begin

text \<open>
  Blocking and waking: how a task that goes to sleep on one hart and wake-ups from other harts meet.
  Modelled are \<open>wakeup_task_with_batch_inner\<close> (\<open>src/src/task/manager.rs\<close>),
  \<open>block_current_and_run_next\<close>, \<open>suspend_current_and_run_next_unchecked\<close> and the first phase of
  \<open>idle_task\<close> (\<open>src/src/task/processor.rs\<close>), the claim on a run queue made by \<open>TaskManager::add\<close> and
  given up by \<open>fetch\<close> (\<open>src/src/task/manager/run_queue.rs\<close>), and the freezer's change of a task
  (\<open>src/src/fs/cgroupfs/file.rs\<close>).

  \<open>wake_step\<close> follows one task. A wake-up consists of the attempt to defer it and, when the task is off
  the CPU, of the change of a blocked task to a ready one; with the parameter \<open>whole\<close> the two parts are
  one step, without it other steps may come between. Fetching a task and setting it running, which the
  same hart does next, are one step. Freezing is not a step of the system.
\<close>

section \<open>Operations\<close>

text \<open>The part of \<open>TaskManager::add\<close> on the task itself.\<close>

definition claim_ready_queue :: "nat \<Rightarrow> tcb \<Rightarrow> bool \<times> tcb" where
  "claim_ready_queue hart t =
     (if t_rq_hart t = None
      then (True, t\<lparr>t_rq_hart := Some hart, t_in_ready := True, t_cpu_id := hart\<rparr>)
      else (False, t))"

text \<open>The part of \<open>fetch\<close> on a candidate taken from the queue of \<open>hart\<close>: whether it may run there.\<close>

definition release_ready_queue :: "nat \<Rightarrow> tcb \<Rightarrow> bool \<times> tcb" where
  "release_ready_queue hart t =
     (let still_queued_here = (t_rq_hart t = Some hart);
          t1 = (if still_queued_here then t\<lparr>t_rq_hart := None\<rparr> else t)
      in (still_queued_here, t1\<lparr>t_in_ready := False\<rparr>))"

definition wake_if_blocked_inner :: "nat \<Rightarrow> tcb \<Rightarrow> tcb" where
  "wake_if_blocked_inner hart t =
     (if \<not> t_res t then t
      else if t_status t = Blocked then
        (if t_frozen t then t\<lparr>t_thaw_wake := True\<rparr>
         else snd (claim_ready_queue hart (t\<lparr>t_status := Ready, t_parked := False, t_thaw_wake := False\<rparr>)))
      else t)"

text \<open>The result tells whether the task goes to sleep; otherwise it only yields.\<close>

definition block_current :: "tcb \<Rightarrow> bool \<times> tcb" where
  "block_current t =
     (let should_block = (t_status t \<noteq> Ready)
      in (should_block, (if should_block then t\<lparr>t_status := Blocked\<rparr> else t)\<lparr>t_rr_ticks := 0\<rparr>))"

definition suspend_current :: "tcb \<Rightarrow> tcb" where
  "suspend_current t = t\<lparr>t_status := Ready, t_rr_ticks := 0\<rparr>"

text \<open>The results: whether the caller itself has to block, whether the task is to be woken.\<close>

definition set_thread_freezer_state :: "bool \<Rightarrow> bool \<Rightarrow> tcb \<Rightarrow> bool \<times> bool \<times> tcb" where
  "set_thread_freezer_state is_current frozen t =
     (let t1 = (if frozen then t\<lparr>t_frozen := True, t_thaw_wake := False\<rparr> else t) in
      if frozen \<and> t_status t1 \<noteq> Blocked
      then (is_current, False, t1\<lparr>t_status := Blocked, t_parked := True\<rparr>)
      else (False, t_parked t1 \<or> t_thaw_wake t1, t1\<lparr>t_frozen := False, t_parked := False, t_thaw_wake := False\<rparr>))"

text \<open>Freezing a task that is already asleep does not freeze it, and freezing a parked task a second
  time thaws it.\<close>

lemma freeze_blocked_ineffective:
  "t_status t = Blocked \<Longrightarrow> \<not> t_frozen (snd (snd (set_thread_freezer_state is_current True t)))"
  by (simp add: set_thread_freezer_state_def Let_def)

lemma freeze_twice_thaws:
  assumes "t_status t \<noteq> Blocked"
  shows "fst (snd (set_thread_freezer_state c True (snd (snd (set_thread_freezer_state c True t)))))"
    and "\<not> t_frozen (snd (snd (set_thread_freezer_state c True (snd (snd (set_thread_freezer_state c True t))))))"
  using assms by (simp_all add: set_thread_freezer_state_def Let_def)

section \<open>The life of a task\<close>

text \<open>What the hart has been left to do after switching to its idle context.\<close>

datatype switch_out = No_switch | Pending_blocked | Pending_ready

record wake_sys =
  ws_tcb :: tcb
  ws_out :: switch_out
  ws_calls :: nat
  ws_wakers :: nat
  ws_owed :: bool

text \<open>\<open>ws_calls\<close> counts the wake-up calls that have not yet looked at the task, \<open>ws_wakers\<close> those that
  found it off the CPU and have not yet changed it. \<open>ws_owed\<close> is set by a call and cleared when the task
  runs again or discards what was deferred.\<close>

inductive wake_step :: "bool \<Rightarrow> wake_sys \<Rightarrow> wake_sys \<Rightarrow> bool" for whole where
  called: "wake_step whole S (S\<lparr>ws_calls := Suc (ws_calls S), ws_owed := True\<rparr>)"
| deferred: "ws_calls S = Suc n \<Longrightarrow> defer_wakeup_if_on_cpu sync (ws_tcb S) = (True, t) \<Longrightarrow>
    wake_step whole S (S\<lparr>ws_tcb := t, ws_calls := n\<rparr>)"
| wake: "whole \<Longrightarrow> ws_calls S = Suc n \<Longrightarrow> defer_wakeup_if_on_cpu sync (ws_tcb S) = (False, t) \<Longrightarrow> h < MAX_HARTS \<Longrightarrow>
    wake_step whole S (S\<lparr>ws_tcb := wake_if_blocked_inner h (t\<lparr>t_sync_hart := OFF_CPU\<rparr>), ws_calls := n\<rparr>)"
| wake_begin: "\<not> whole \<Longrightarrow> ws_calls S = Suc n \<Longrightarrow> defer_wakeup_if_on_cpu sync (ws_tcb S) = (False, t) \<Longrightarrow>
    wake_step whole S (S\<lparr>ws_tcb := t\<lparr>t_sync_hart := OFF_CPU\<rparr>, ws_calls := n, ws_wakers := Suc (ws_wakers S)\<rparr>)"
| wake_end: "ws_wakers S = Suc n \<Longrightarrow> h < MAX_HARTS \<Longrightarrow>
    wake_step whole S (S\<lparr>ws_tcb := wake_if_blocked_inner h (ws_tcb S), ws_wakers := n\<rparr>)"
| block: "ws_out S = No_switch \<Longrightarrow> is_on_cpu (ws_tcb S) \<Longrightarrow> block_current (ws_tcb S) = (sleeps, t) \<Longrightarrow>
    wake_step whole S (S\<lparr>ws_tcb := t, ws_out := if sleeps then Pending_blocked else Pending_ready\<rparr>)"
| yield: "ws_out S = No_switch \<Longrightarrow> is_on_cpu (ws_tcb S) \<Longrightarrow>
    wake_step whole S (S\<lparr>ws_tcb := suspend_current (ws_tcb S), ws_out := Pending_ready\<rparr>)"
| discard: "ws_out S = No_switch \<Longrightarrow> is_on_cpu (ws_tcb S) \<Longrightarrow>
    wake_step whole S (S\<lparr>ws_tcb := discard_deferred_wakeup (ws_tcb S), ws_owed := False\<rparr>)"
| switched_blocked: "ws_out S = Pending_blocked \<Longrightarrow> finish_running (ws_tcb S) = (w, t) \<Longrightarrow>
    wake_step whole S (S\<lparr>ws_tcb := t, ws_out := No_switch,
      ws_calls := if w = Wakeup_none then ws_calls S else Suc (ws_calls S)\<rparr>)"
| switched_ready: "ws_out S = Pending_ready \<Longrightarrow> finish_running (ws_tcb S) = (w, t) \<Longrightarrow> h < MAX_HARTS \<Longrightarrow>
    wake_step whole S (S\<lparr>ws_tcb := snd (claim_ready_queue h t), ws_out := No_switch\<rparr>)"
| fetched: "release_ready_queue h (ws_tcb S) = (True, t) \<Longrightarrow> t_status t = Ready \<Longrightarrow> h < MAX_HARTS \<Longrightarrow>
    try_mark_on_cpu h t = (True, t') \<Longrightarrow> wake_step whole S (S\<lparr>ws_tcb := t'\<lparr>t_status := Running\<rparr>, ws_owed := False\<rparr>)"
| dropped: "release_ready_queue h (ws_tcb S) = (True, t) \<Longrightarrow> t_status t \<noteq> Ready \<Longrightarrow> wake_step whole S (S\<lparr>ws_tcb := t\<rparr>)"
| unmarked: "release_ready_queue h (ws_tcb S) = (True, t) \<Longrightarrow> t_status t = Ready \<Longrightarrow>
    try_mark_on_cpu h t = (False, t') \<Longrightarrow> wake_step whole S (S\<lparr>ws_tcb := t'\<rparr>)"

text \<open>A task as \<open>add_task\<close> leaves it.\<close>

definition fresh_task :: "wake_sys \<Rightarrow> bool" where
  "fresh_task S \<longleftrightarrow> t_res (ws_tcb S) \<and> \<not> t_frozen (ws_tcb S) \<and> t_status (ws_tcb S) = Ready \<and> t_on_cpu (ws_tcb S) = OFF_CPU \<and>
     (\<exists>h<MAX_HARTS. t_rq_hart (ws_tcb S) = Some h) \<and> ws_out S = No_switch \<and> ws_calls S = 0 \<and> ws_wakers S = 0 \<and> \<not> ws_owed S"

section \<open>No wake-up is lost\<close>

text \<open>The status a task has between its decision to leave the CPU and the switch.\<close>

fun out_status :: "switch_out \<Rightarrow> task_status" where
  "out_status No_switch = Running"
| "out_status Pending_blocked = Blocked"
| "out_status Pending_ready = Ready"

definition wake_inv :: "wake_sys \<Rightarrow> bool" where
  "wake_inv S \<longleftrightarrow>
     t_res (ws_tcb S) \<and> \<not> t_frozen (ws_tcb S) \<and> ws_wakers S = 0 \<and>
     (if t_on_cpu (ws_tcb S) = OFF_CPU
      then ws_out S = No_switch \<and>
        (case t_rq_hart (ws_tcb S) of None \<Rightarrow> t_status (ws_tcb S) = Blocked \<and> (ws_owed S \<longrightarrow> ws_calls S > 0)
         | Some h \<Rightarrow> h < MAX_HARTS \<and> t_status (ws_tcb S) = Ready)
      else t_rq_hart (ws_tcb S) = None \<and> t_status (ws_tcb S) = out_status (ws_out S) \<and>
        (\<exists>h b. h < MAX_HARTS \<and> t_on_cpu (ws_tcb S) = marked h b \<and>
          (ws_owed S \<longrightarrow> b \<or> ws_calls S > 0 \<or> ws_out S = Pending_ready)))"

lemma fresh_inv: "fresh_task S \<Longrightarrow> wake_inv S"
  by (auto simp: fresh_task_def wake_inv_def)

lemma wake_inv_off:
  assumes "wake_inv S" "t_on_cpu (ws_tcb S) = OFF_CPU"
  shows "ws_out S = No_switch" "t_rq_hart (ws_tcb S) = None \<Longrightarrow> t_status (ws_tcb S) = Blocked"
    "t_rq_hart (ws_tcb S) = None \<Longrightarrow> ws_owed S \<Longrightarrow> ws_calls S > 0"
    "t_rq_hart (ws_tcb S) = Some h \<Longrightarrow> h < MAX_HARTS \<and> t_status (ws_tcb S) = Ready"
  using assms by (simp_all add: wake_inv_def)

lemma wake_inv_on:
  assumes "wake_inv S" "t_on_cpu (ws_tcb S) \<noteq> OFF_CPU"
  obtains h b where "h < MAX_HARTS" "t_on_cpu (ws_tcb S) = marked h b" "t_rq_hart (ws_tcb S) = None"
    "t_status (ws_tcb S) = out_status (ws_out S)"
    "ws_owed S \<Longrightarrow> b \<or> ws_calls S > 0 \<or> ws_out S = Pending_ready"
  using assms that by (auto simp: wake_inv_def)

lemma wake_inv_onI:
  assumes "t_res (ws_tcb S)" "\<not> t_frozen (ws_tcb S)" "ws_wakers S = 0" "h < MAX_HARTS"
    "t_on_cpu (ws_tcb S) = marked h b" "t_rq_hart (ws_tcb S) = None" "t_status (ws_tcb S) = out_status (ws_out S)"
    "ws_owed S \<Longrightarrow> b \<or> ws_calls S > 0 \<or> ws_out S = Pending_ready"
  shows "wake_inv S"
  using assms marked_bits(1) [OF assms(4), of b] unfolding wake_inv_def by auto

lemma wake_inv_basic: "wake_inv S \<Longrightarrow> t_res (ws_tcb S) \<and> \<not> t_frozen (ws_tcb S) \<and> ws_wakers S = 0"
  by (simp add: wake_inv_def)

lemma wake_inv_queued:
  assumes "wake_inv S" "release_ready_queue h (ws_tcb S) = (True, t)"
  shows "t_rq_hart (ws_tcb S) = Some h" "t_on_cpu (ws_tcb S) = OFF_CPU" "t_status (ws_tcb S) = Ready" "ws_out S = No_switch"
    "t = (ws_tcb S)\<lparr>t_rq_hart := None, t_in_ready := False\<rparr>"
proof -
  show q: "t_rq_hart (ws_tcb S) = Some h" using assms(2) by (simp add: release_ready_queue_def Let_def)
  show "t = (ws_tcb S)\<lparr>t_rq_hart := None, t_in_ready := False\<rparr>" using assms(2) q by (simp add: release_ready_queue_def Let_def)
  show off: "t_on_cpu (ws_tcb S) = OFF_CPU" using wake_inv_on [OF assms(1)] q by fastforce
  show "t_status (ws_tcb S) = Ready" "ws_out S = No_switch"
    using wake_inv_off [OF assms(1) off] q by auto
qed

lemma on_cpu_word: "is_on_cpu t \<Longrightarrow> t_on_cpu t \<noteq> OFF_CPU"
  by (auto simp: is_on_cpu_def running_hart_def)

lemma wake_inv_step:
  assumes "wake_step True S S'" and inv: "wake_inv S"
  shows "wake_inv S'"
  using assms(1)
proof cases
  case called
  then show ?thesis using inv unfolding wake_inv_def by (simp split: option.splits if_split_asm) blast
next
  case (deferred n sync t)
  then have on: "t_on_cpu (ws_tcb S) \<noteq> OFF_CPU"
    by (auto simp: defer_wakeup_if_on_cpu_def Let_def split: option.splits)
  obtain h b where h: "h < MAX_HARTS" "t_on_cpu (ws_tcb S) = marked h b" "t_rq_hart (ws_tcb S) = None"
    "t_status (ws_tcb S) = out_status (ws_out S)"
    using wake_inv_on [OF inv on] by metis
  have t: "t_on_cpu t = marked h True" "t_rq_hart t = None" "t_status t = t_status (ws_tcb S)"
      "t_res t = t_res (ws_tcb S)" "t_frozen t = t_frozen (ws_tcb S)"
    using deferred(3) h(2,3) marked_bits(3) [OF h(1)] by (auto simp: defer_wakeup_if_on_cpu_def Let_def split: option.splits)
  show ?thesis unfolding deferred(1) using t h wake_inv_basic [OF inv]
    by (intro wake_inv_onI [where h = h and b = True]) auto
next
  case (wake n sync t h)
  then have off: "t_on_cpu (ws_tcb S) = OFF_CPU"
    by (auto simp: defer_wakeup_if_on_cpu_def Let_def split: option.splits)
  have t: "t_on_cpu t = OFF_CPU" "t_rq_hart t = t_rq_hart (ws_tcb S)" "t_status t = t_status (ws_tcb S)"
      "t_res t = t_res (ws_tcb S)" "t_frozen t = t_frozen (ws_tcb S)"
    using wake(4) off by (auto simp: defer_wakeup_if_on_cpu_def Let_def split: option.splits)
  show ?thesis using wake(1,5) t wake_inv_off [OF inv off] wake_inv_basic [OF inv]
    by (cases "t_rq_hart (ws_tcb S)") (auto simp: wake_inv_def wake_if_blocked_inner_def claim_ready_queue_def)
next
  case (wake_end n h)
  then show ?thesis using wake_inv_basic [OF inv] by simp
next
  case (block sleeps t)
  obtain h b where h: "h < MAX_HARTS" "t_on_cpu (ws_tcb S) = marked h b" "t_rq_hart (ws_tcb S) = None"
    "t_status (ws_tcb S) = out_status (ws_out S)" "ws_owed S \<Longrightarrow> b \<or> ws_calls S > 0 \<or> ws_out S = Pending_ready"
    using wake_inv_on [OF inv on_cpu_word] block(3) by metis
  show ?thesis unfolding block(1) using h block(2,4) wake_inv_basic [OF inv]
    by (intro wake_inv_onI [where h = h and b = b]) (auto simp: block_current_def Let_def)
next
  case yield
  obtain h b where h: "h < MAX_HARTS" "t_on_cpu (ws_tcb S) = marked h b" "t_rq_hart (ws_tcb S) = None"
    using wake_inv_on [OF inv on_cpu_word] yield(3) by metis
  show ?thesis unfolding yield(1) using h wake_inv_basic [OF inv]
    by (intro wake_inv_onI [where h = h and b = b]) (auto simp: suspend_current_def)
next
  case discard
  obtain h b where h: "h < MAX_HARTS" "t_on_cpu (ws_tcb S) = marked h b" "t_rq_hart (ws_tcb S) = None"
    "t_status (ws_tcb S) = out_status (ws_out S)"
    using wake_inv_on [OF inv on_cpu_word] discard(3) by metis
  have "t_on_cpu (discard_deferred_wakeup (ws_tcb S)) = marked h False"
    using h(2) marked_bits [OF h(1), of b] by (cases b) (simp_all add: discard_deferred_wakeup_def Let_def)
  then show ?thesis unfolding discard(1) using h wake_inv_basic [OF inv]
    by (intro wake_inv_onI [where h = h and b = False]) (auto simp: discard_deferred_wakeup_def Let_def)
next
  case (switched_blocked w t)
  then have on: "t_on_cpu (ws_tcb S) \<noteq> OFF_CPU" using wake_inv_off(1) [OF inv] by auto
  obtain h b where h: "h < MAX_HARTS" "t_on_cpu (ws_tcb S) = marked h b" "t_rq_hart (ws_tcb S) = None"
    "t_status (ws_tcb S) = out_status (ws_out S)" "ws_owed S \<Longrightarrow> b \<or> ws_calls S > 0 \<or> ws_out S = Pending_ready"
    using wake_inv_on [OF inv on] by metis
  have "w = Wakeup_none \<longleftrightarrow> \<not> b"
    using switched_blocked(3) h(2) marked_bits [OF h(1), of b] by (auto simp: finish_running_def Let_def split: if_splits)
  then show ?thesis using switched_blocked h wake_inv_basic [OF inv]
    by (auto simp: wake_inv_def finish_running_def Let_def)
next
  case (switched_ready w t h)
  then have on: "t_on_cpu (ws_tcb S) \<noteq> OFF_CPU" using wake_inv_off(1) [OF inv] by auto
  have "t_rq_hart (ws_tcb S) = None" "t_status (ws_tcb S) = out_status (ws_out S)" using wake_inv_on [OF inv on] by metis+
  then show ?thesis using switched_ready wake_inv_basic [OF inv]
    by (auto simp: wake_inv_def finish_running_def claim_ready_queue_def Let_def)
next
  case (fetched h t t')
  note q = wake_inv_queued [OF inv fetched(2)]
  have "t_on_cpu t' = marked h False" using fetched(5) q by (auto simp: try_mark_on_cpu_def marked_def Let_def)
  then show ?thesis unfolding fetched(1) using fetched(4,5) q wake_inv_basic [OF inv]
    by (intro wake_inv_onI [where h = h and b = False]) (auto simp: try_mark_on_cpu_def Let_def split: if_splits)
next
  case (dropped h t)
  then show ?thesis using wake_inv_queued [OF inv dropped(2)] by simp
next
  case (unmarked h t t')
  then show ?thesis using wake_inv_queued [OF inv unmarked(2)] by (simp add: try_mark_on_cpu_def Let_def)
qed simp_all

definition wake_reach :: "bool \<Rightarrow> wake_sys \<Rightarrow> wake_sys \<Rightarrow> bool" where
  "wake_reach whole S S' \<longleftrightarrow> (wake_step whole)\<^sup>*\<^sup>* S S'"

lemma wake_reach_inv: "wake_reach True S S' \<Longrightarrow> wake_inv S \<Longrightarrow> wake_inv S'"
  unfolding wake_reach_def by (induction rule: rtranclp_induct) (auto intro: wake_inv_step)

lemma wake_reach_step: "wake_reach whole S S1 \<Longrightarrow> wake_step whole S1 S2 \<Longrightarrow> wake_reach whole S S2"
  unfolding wake_reach_def by (rule rtranclp.rtrancl_into_rtrancl)

lemma wake_reach_refl: "wake_reach whole S S"
  unfolding wake_reach_def by simp

text \<open>C5: when a wake-up takes effect at one moment, none is lost: after any sequence of wake-ups, sleeps,
  yields, context switches and fetches, a task with a wake-up that it has not yet seen and that is off the
  CPU is ready and claimed by the queue of a hart, unless the wake-up call is still to be made. A queued
  task is ready and never on a CPU.\<close>

theorem no_lost_wakeup:
  assumes "fresh_task S" "wake_reach True S S'"
  shows "(t_on_cpu (ws_tcb S') = OFF_CPU \<and> ws_owed S' \<and> ws_calls S' = 0 \<longrightarrow>
       t_status (ws_tcb S') = Ready \<and> (\<exists>h<MAX_HARTS. t_rq_hart (ws_tcb S') = Some h)) \<and>
     (t_rq_hart (ws_tcb S') \<noteq> None \<longrightarrow> t_on_cpu (ws_tcb S') = OFF_CPU \<and> t_status (ws_tcb S') = Ready)"
proof -
  note inv = wake_reach_inv [OF assms(2) fresh_inv [OF assms(1)]]
  have "t_status (ws_tcb S') = Ready \<and> (\<exists>h<MAX_HARTS. t_rq_hart (ws_tcb S') = Some h)"
    if "t_on_cpu (ws_tcb S') = OFF_CPU" "ws_owed S'" "ws_calls S' = 0"
    using wake_inv_off [OF inv that(1)] that(2,3) by (cases "t_rq_hart (ws_tcb S')") auto
  moreover have "t_on_cpu (ws_tcb S') = OFF_CPU \<and> t_status (ws_tcb S') = Ready" if "t_rq_hart (ws_tcb S') \<noteq> None"
    using inv that unfolding wake_inv_def by (auto split: option.splits if_splits)
  ultimately show ?thesis by blast
qed

definition demo_tcb :: tcb where
  "demo_tcb = \<lparr>t_status = Ready, t_res = True, t_cpu_id = 0, t_on_cpu = OFF_CPU, t_sync_hart = OFF_CPU,
     t_rq_hart = Some 0, t_in_ready = True, t_frozen = False, t_parked = False, t_thaw_wake = False,
     t_policy = 0, t_priority = 0, t_affinity = 1, t_nice = 0, t_rr_ticks = 0, t_cpu_time = 0, t_runtime_start = 0,
     t_checkpoint = 0, t_vruntime = 0, t_deadline = 0, t_vlag = 0, t_credit = 0, t_group = 0, t_shares = 0\<rparr>"

definition demo_wake :: wake_sys where
  "demo_wake = \<lparr>ws_tcb = demo_tcb, ws_out = No_switch, ws_calls = 0, ws_wakers = 0, ws_owed = False\<rparr>"

section \<open>Runs of the system\<close>

text \<open>\<open>seen S s c q out n w\<close>: the parts of the state on which the steps depend. One lemma per step says
  that it is possible and what it leads to; chained they give runs.\<close>

definition seen :: "wake_sys \<Rightarrow> task_status \<Rightarrow> usize \<Rightarrow> nat option \<Rightarrow> switch_out \<Rightarrow> nat \<Rightarrow> nat \<Rightarrow> bool" where
  "seen S s c q out n w \<longleftrightarrow> t_res (ws_tcb S) \<and> \<not> t_frozen (ws_tcb S) \<and> t_status (ws_tcb S) = s \<and> t_on_cpu (ws_tcb S) = c \<and>
     t_rq_hart (ws_tcb S) = q \<and> ws_out S = out \<and> ws_calls S = n \<and> ws_wakers S = w"

lemma seen_fetch:
  assumes "seen S Ready OFF_CPU (Some h) No_switch n w" "h < MAX_HARTS"
  shows "\<exists>S'. wake_step whole S S' \<and> seen S' Running (marked h False) None No_switch n w \<and> \<not> ws_owed S'"
proof -
  obtain t t' where t: "release_ready_queue h (ws_tcb S) = (True, t)" "try_mark_on_cpu h t = (True, t')" "t_status t = Ready"
    and s: "t_res t'" "\<not> t_frozen t'" "t_on_cpu t' = of_nat h" "t_rq_hart t' = None"
    using assms(1) by (auto simp: seen_def release_ready_queue_def try_mark_on_cpu_def Let_def)
  show ?thesis using wake_step.fetched [OF t(1,3) assms(2) t(2)] s assms(1) unfolding seen_def marked_def by fastforce
qed

lemma seen_call:
  assumes "seen S s c q out n w"
  shows "\<exists>S'. wake_step whole S S' \<and> seen S' s c q out (Suc n) w \<and> ws_owed S'"
  using wake_step.called [of whole S] assms unfolding seen_def by fastforce

lemma seen_block:
  assumes "seen S Running (marked h b) None No_switch n w" "h < MAX_HARTS"
  shows "\<exists>S'. wake_step whole S S' \<and> seen S' Blocked (marked h b) None Pending_blocked n w \<and> ws_owed S' = ws_owed S"
proof -
  obtain t where t: "block_current (ws_tcb S) = (True, t)" "t_res t" "\<not> t_frozen t" "t_status t = Blocked"
      "t_on_cpu t = marked h b" "t_rq_hart t = None"
    using assms(1) by (auto simp: seen_def block_current_def Let_def)
  have "is_on_cpu (ws_tcb S)" "ws_out S = No_switch"
    using assms(1) marked_bits(1) [OF assms(2), of b] by (auto simp: seen_def is_on_cpu_def running_hart_def)
  from wake_step.block [OF this(2,1) t(1)] t assms(1) show ?thesis unfolding seen_def by fastforce
qed

lemma seen_switch:
  assumes "seen S s (marked h b) q Pending_blocked n w" "h < MAX_HARTS"
  shows "\<exists>S'. wake_step whole S S' \<and> seen S' s OFF_CPU q No_switch (if b then Suc n else n) w \<and> ws_owed S' = ws_owed S"
proof -
  obtain wk t where t: "finish_running (ws_tcb S) = (wk, t)" "t_res t" "\<not> t_frozen t" "t_status t = s"
      "t_on_cpu t = OFF_CPU" "t_rq_hart t = q" "wk = Wakeup_none \<longleftrightarrow> \<not> b"
    using assms(1) marked_bits [OF assms(2), of b] by (auto simp: seen_def finish_running_def Let_def split: if_splits)
  have "ws_out S = Pending_blocked" using assms(1) by (simp add: seen_def)
  from wake_step.switched_blocked [OF this t(1), of whole] t assms(1) show ?thesis unfolding seen_def by fastforce
qed

lemma seen_defer:
  assumes "seen S s (marked h b) q out (Suc n) w" "h < MAX_HARTS"
  shows "\<exists>S'. wake_step whole S S' \<and> seen S' s (marked h True) q out n w \<and> ws_owed S' = ws_owed S"
proof -
  obtain t where t: "defer_wakeup_if_on_cpu None (ws_tcb S) = (True, t)" "t_res t" "\<not> t_frozen t" "t_status t = s"
      "t_on_cpu t = marked h True" "t_rq_hart t = q"
    using assms(1) marked_bits [OF assms(2), of b] by (auto simp: seen_def defer_wakeup_if_on_cpu_def Let_def)
  have "ws_calls S = Suc n" using assms(1) by (simp add: seen_def)
  from wake_step.deferred [OF this t(1), of whole] t assms(1) show ?thesis unfolding seen_def by fastforce
qed

lemma seen_wake:
  assumes "seen S Blocked OFF_CPU None out (Suc n) w" "h < MAX_HARTS"
  shows "\<exists>S'. wake_step True S S' \<and> seen S' Ready OFF_CPU (Some h) out n w \<and> ws_owed S' = ws_owed S"
proof -
  have t: "defer_wakeup_if_on_cpu None (ws_tcb S) = (False, ws_tcb S)" and c: "ws_calls S = Suc n"
    using assms(1) by (auto simp: seen_def defer_wakeup_if_on_cpu_def Let_def)
  from wake_step.wake [OF _ c t assms(2), of True] assms(1) show ?thesis
    unfolding seen_def by (fastforce simp: wake_if_blocked_inner_def claim_ready_queue_def)
qed

lemma seen_wake_begin:
  assumes "seen S s OFF_CPU q out (Suc n) w"
  shows "\<exists>S'. wake_step False S S' \<and> seen S' s OFF_CPU q out n (Suc w) \<and> ws_owed S' = ws_owed S"
proof -
  have t: "defer_wakeup_if_on_cpu None (ws_tcb S) = (False, ws_tcb S)" and c: "ws_calls S = Suc n"
    using assms(1) by (auto simp: seen_def defer_wakeup_if_on_cpu_def Let_def)
  from wake_step.wake_begin [OF _ c t, of False] assms(1) show ?thesis unfolding seen_def by fastforce
qed

lemma seen_wake_end:
  assumes "seen S Blocked c None out n (Suc w)" "h < MAX_HARTS"
  shows "\<exists>S'. wake_step whole S S' \<and> seen S' Ready c (Some h) out n w \<and> ws_owed S' = ws_owed S"
proof -
  have c: "ws_wakers S = Suc w" using assms(1) by (simp add: seen_def)
  from wake_step.wake_end [OF c assms(2), of whole] assms(1) show ?thesis
    unfolding seen_def by (fastforce simp: wake_if_blocked_inner_def claim_ready_queue_def)
qed

lemma seen_unmarked:
  assumes "seen S Ready (marked k b) (Some h) out n w" "k < MAX_HARTS"
  shows "\<exists>S'. wake_step whole S S' \<and> seen S' Ready (marked k b) None out n w \<and> ws_owed S' = ws_owed S"
proof -
  obtain t t' where t: "release_ready_queue h (ws_tcb S) = (True, t)" "try_mark_on_cpu h t = (False, t')" "t_status t = Ready"
    and s: "t_res t'" "\<not> t_frozen t'" "t_status t' = Ready" "t_on_cpu t' = marked k b" "t_rq_hart t' = None"
    using assms(1) marked_bits(1) [OF assms(2), of b]
    by (auto simp: seen_def release_ready_queue_def try_mark_on_cpu_def Let_def)
  show ?thesis using wake_step.unmarked [OF t(1,3,2), of whole] s assms(1) unfolding seen_def by fastforce
qed

lemma fresh_seen:
  assumes "fresh_task S"
  obtains h where "h < MAX_HARTS" "seen S Ready OFF_CPU (Some h) No_switch 0 0"
  using assms by (auto simp: fresh_task_def seen_def)

text \<open>A wake-up deferred while the task goes to sleep puts it back on a queue.\<close>

lemma deferred_wakeup_run:
  assumes "fresh_task S"
  shows "\<exists>S'. wake_reach True S S' \<and> seen S' Ready OFF_CPU (Some 0) No_switch 0 0 \<and> ws_owed S'"
proof -
  have z: "0 < MAX_HARTS" by (simp add: MAX_HARTS_def)
  obtain h where h: "h < MAX_HARTS" "seen S Ready OFF_CPU (Some h) No_switch 0 0" using fresh_seen [OF assms] .
  obtain S1 where 1: "wake_step True S S1" "seen S1 Running (marked h False) None No_switch 0 0"
    using seen_fetch [OF h(2,1)] by blast
  obtain S2 where 2: "wake_step True S1 S2" "seen S2 Running (marked h False) None No_switch (Suc 0) 0" "ws_owed S2"
    using seen_call [OF 1(2)] by blast
  obtain S3 where 3: "wake_step True S2 S3" "seen S3 Running (marked h True) None No_switch 0 0" "ws_owed S3"
    using seen_defer [OF 2(2) h(1)] 2(3) by metis
  obtain S4 where 4: "wake_step True S3 S4" "seen S4 Blocked (marked h True) None Pending_blocked 0 0" "ws_owed S4"
    using seen_block [OF 3(2) h(1)] 3(3) by metis
  obtain S5 where 5: "wake_step True S4 S5" "seen S5 Blocked OFF_CPU None No_switch (Suc 0) 0" "ws_owed S5"
    using seen_switch [OF 4(2) h(1)] 4(3) by fastforce
  obtain S6 where 6: "wake_step True S5 S6" "seen S6 Ready OFF_CPU (Some 0) No_switch 0 0" "ws_owed S6"
    using seen_wake [OF 5(2) z] 5(3) by metis
  have "wake_reach True S S6"
    by (rule wake_reach_step [OF wake_reach_step [OF wake_reach_step [OF wake_reach_step [OF wake_reach_step
        [OF wake_reach_step [OF wake_reach_refl 1(1)] 2(1)] 3(1)] 4(1)] 5(1)] 6(1)])
  then show ?thesis using 6 by blast
qed

theorem no_lost_wakeup_witness:
  "\<exists>S'. wake_reach True demo_wake S' \<and> t_on_cpu (ws_tcb S') = OFF_CPU \<and> ws_owed S' \<and> ws_calls S' = 0 \<and>
     t_status (ws_tcb S') = Ready \<and> (\<exists>h<MAX_HARTS. t_rq_hart (ws_tcb S') = Some h)"
proof -
  have f: "fresh_task demo_wake" by (simp add: fresh_task_def demo_wake_def demo_tcb_def MAX_HARTS_def)
  obtain S' where S: "wake_reach True demo_wake S'" "seen S' Ready OFF_CPU (Some 0) No_switch 0 0" "ws_owed S'"
    using deferred_wakeup_run [OF f] by blast
  have "t_on_cpu (ws_tcb S') = OFF_CPU" "ws_calls S' = 0" using S(2) by (simp_all add: seen_def)
  then show ?thesis using no_lost_wakeup [OF f S(1)] S(1,3) by blast
qed

section \<open>A stale waker\<close>

text \<open>The two parts of a wake-up are separate critical sections. A waker that was delayed between them
  finds the task blocked again but still on its CPU, and queues it on another hart; that hart cannot
  mark it and drops it, and the switch finds nothing deferred.\<close>

definition stranded :: "wake_sys \<Rightarrow> bool" where
  "stranded S \<longleftrightarrow> t_status (ws_tcb S) = Ready \<and> t_on_cpu (ws_tcb S) = OFF_CPU \<and> t_rq_hart (ws_tcb S) = None \<and> ws_out S = No_switch"

lemma stranded_step: "wake_step whole S S' \<Longrightarrow> stranded S \<Longrightarrow> stranded S'"
  by (induction rule: wake_step.induct)
    (auto simp: stranded_def defer_wakeup_if_on_cpu_def wake_if_blocked_inner_def is_on_cpu_def running_hart_def
      release_ready_queue_def Let_def split: option.splits)

lemma stranded_forever: "wake_reach whole S S' \<Longrightarrow> stranded S \<Longrightarrow> stranded S'"
  unfolding wake_reach_def by (induction rule: rtranclp_induct) (auto intro: stranded_step)

lemma stale_wakeup_run:
  assumes "fresh_task S"
  shows "\<exists>S'. wake_reach False S S' \<and> stranded S'"
proof -
  obtain h where h: "h < MAX_HARTS" "seen S Ready OFF_CPU (Some h) No_switch 0 0" using fresh_seen [OF assms] .
  obtain k where k: "k < MAX_HARTS" "k \<noteq> h" by (rule that [of "if h = 0 then 1 else 0"]) (auto simp: MAX_HARTS_def)
  obtain S1 where 1: "wake_step False S S1" "seen S1 Running (marked h False) None No_switch 0 0"
    using seen_fetch [OF h(2,1)] by blast
  obtain S2 where 2: "wake_step False S1 S2" "seen S2 Blocked (marked h False) None Pending_blocked 0 0"
    using seen_block [OF 1(2) h(1)] by metis
  obtain S3 where 3: "wake_step False S2 S3" "seen S3 Blocked OFF_CPU None No_switch 0 0"
    using seen_switch [OF 2(2) h(1)] by auto
  obtain S4 where 4: "wake_step False S3 S4" "seen S4 Blocked OFF_CPU None No_switch (Suc 0) 0" using seen_call [OF 3(2)] by blast
  obtain S5 where 5: "wake_step False S4 S5" "seen S5 Blocked OFF_CPU None No_switch (Suc (Suc 0)) 0" using seen_call [OF 4(2)] by blast
  obtain S6 where 6: "wake_step False S5 S6" "seen S6 Blocked OFF_CPU None No_switch (Suc 0) (Suc 0)" using seen_wake_begin [OF 5(2)] by blast
  obtain S7 where 7: "wake_step False S6 S7" "seen S7 Blocked OFF_CPU None No_switch 0 (Suc (Suc 0))" using seen_wake_begin [OF 6(2)] by blast
  obtain S8 where 8: "wake_step False S7 S8" "seen S8 Ready OFF_CPU (Some h) No_switch 0 (Suc 0)" using seen_wake_end [OF 7(2) h(1)] by blast
  obtain S9 where 9: "wake_step False S8 S9" "seen S9 Running (marked h False) None No_switch 0 (Suc 0)" using seen_fetch [OF 8(2) h(1)] by blast
  obtain S10 where 10: "wake_step False S9 S10" "seen S10 Blocked (marked h False) None Pending_blocked 0 (Suc 0)"
    using seen_block [OF 9(2) h(1)] by metis
  obtain S11 where 11: "wake_step False S10 S11" "seen S11 Ready (marked h False) (Some k) Pending_blocked 0 0"
    using seen_wake_end [OF 10(2) k(1)] by blast
  obtain S12 where 12: "wake_step False S11 S12" "seen S12 Ready (marked h False) None Pending_blocked 0 0"
    using seen_unmarked [OF 11(2) h(1)] by blast
  obtain S13 where 13: "wake_step False S12 S13" "seen S13 Ready OFF_CPU None No_switch 0 0"
    using seen_switch [OF 12(2) h(1)] by auto
  have "wake_reach False S S7" using 1(1) 2(1) 3(1) 4(1) 5(1) 6(1) 7(1) wake_reach_refl wake_reach_step by metis
  moreover have "wake_reach False S7 S13" using 8(1) 9(1) 10(1) 11(1) 12(1) 13(1) wake_reach_refl wake_reach_step by metis
  ultimately have "wake_reach False S S13" unfolding wake_reach_def by (rule rtranclp_trans)
  then show ?thesis using 13(2) unfolding seen_def stranded_def by blast
qed

text \<open>C40: when the two parts of a wake-up are separate steps, as in the code, every task can end ready, off
  every queue and off the CPU, and then no further wake-up, switch or fetch runs it again.\<close>

theorem stale_wakeup_strands_task:
  assumes "fresh_task S"
  shows "\<exists>S'. wake_reach False S S' \<and> Collect (wake_reach False S') \<subseteq> Collect stranded"
  using stale_wakeup_run [OF assms] stranded_forever by blast

theorem stale_wakeup_strands_task_witness:
  "fresh_task demo_wake \<and> (\<exists>S'. wake_reach False demo_wake S' \<and> Collect (wake_reach False S') \<subseteq> Collect stranded)"
proof -
  have "fresh_task demo_wake" by (simp add: fresh_task_def demo_wake_def demo_tcb_def MAX_HARTS_def)
  then show ?thesis using stale_wakeup_strands_task by blast
qed

end
