(* ===== verification/Run_Queue.thy ===== *)
theory Run_Queue
  imports Fair_Queue Task_Wakeup
begin

text \<open>
  The run queues (\<open>src/src/task/manager/run_queue.rs\<close>, \<open>HartRunQueue\<close> in \<open>fair.rs\<close> and the ready
  counters of \<open>rt.rs\<close>). Each hart has one queue per real-time priority and a set of fair groups ordered by
  virtual time. A task is queued at most once: the queue that holds it is named in its control block.

  The operations act on the whole scheduler state \<open>sched\<close> under the lock of the hart they work on; each
  is one step. The task a hart is running and the hart's clock are arguments or fields set from
  outside (\<open>src/src/task/processor.rs\<close>, \<open>src/src/time.rs\<close>).
\<close>

record hart_rq =
  rq_rt :: "task_id list list"
  rq_groups :: "(nat, fair_group) btree_map"
  rq_order :: "(nat \<times> nat) btree_set"
  rq_min_fair :: nat

definition rq_new :: hart_rq where
  "rq_new = \<lparr>rq_rt = replicate RT_PRIO_LEVELS [], rq_groups = [], rq_order = [], rq_min_fair = 0\<rparr>"

definition fair_len :: "hart_rq \<Rightarrow> nat" where
  "fair_len rq = sum_list (map (\<lambda>p. length (fg_tasks (snd p))) (rq_groups rq))"

definition rq_len :: "hart_rq \<Rightarrow> nat" where
  "rq_len rq = sum_list (map length (rq_rt rq)) + fair_len rq"

definition unlink_fair_group :: "nat \<Rightarrow> hart_rq \<Rightarrow> hart_rq" where
  "unlink_fair_group group_id rq =
     (case btm_get (rq_groups rq) group_id of
        None \<Rightarrow> rq
      | Some g \<Rightarrow> rq\<lparr>rq_order := bts_remove (fg_vruntime g, group_id) (rq_order rq)\<rparr>)"

definition relink_fair_group_if_runnable :: "nat \<Rightarrow> hart_rq \<Rightarrow> hart_rq" where
  "relink_fair_group_if_runnable group_id rq =
     (case btm_get (rq_groups rq) group_id of
        None \<Rightarrow> rq
      | Some g \<Rightarrow> if \<not> group_is_empty g then rq\<lparr>rq_order := bts_insert (fg_vruntime g, group_id) (rq_order rq)\<rparr> else rq)"

datatype ready_queue_slot = Slot_rt nat | Slot_fair

definition task_queue_slot :: "tcb \<Rightarrow> ready_queue_slot" where
  "task_queue_slot t =
     (case class_of_policy (t_policy t) of
        Some Sched_fifo \<Rightarrow> Slot_rt (rt_queue_index (t_priority t))
      | Some Sched_rr \<Rightarrow> Slot_rt (rt_queue_index (t_priority t))
      | _ \<Rightarrow> Slot_fair)"

definition fair_group_id_and_shares :: "tcb \<Rightarrow> nat \<times> nat" where
  "fair_group_id_and_shares t = (t_group t, max (t_shares t) 1)"

record sched =
  sc_tcb :: "task_id \<Rightarrow> tcb"
  sc_rq :: "nat \<Rightarrow> hart_rq"
  sc_rt_count :: "nat \<Rightarrow> nat \<Rightarrow> nat"
  sc_fair_count :: "nat \<Rightarrow> nat"
  sc_current :: "nat \<Rightarrow> task_id option"
  sc_bw :: "nat \<Rightarrow> rt_bw"
  sc_sysctl :: sched_sysctl

definition set_tcb :: "task_id \<Rightarrow> tcb \<Rightarrow> sched \<Rightarrow> sched" where
  "set_tcb i t s = s\<lparr>sc_tcb := (sc_tcb s)(i := t)\<rparr>"

definition set_rq :: "nat \<Rightarrow> hart_rq \<Rightarrow> sched \<Rightarrow> sched" where
  "set_rq h rq s = s\<lparr>sc_rq := (sc_rq s)(h := rq)\<rparr>"

definition set_rtq :: "nat \<Rightarrow> nat \<Rightarrow> task_id list \<Rightarrow> sched \<Rightarrow> sched" where
  "set_rtq h i q s = set_rq h ((sc_rq s h)\<lparr>rq_rt := (rq_rt (sc_rq s h))[i := q]\<rparr>) s"

definition put_group :: "nat \<Rightarrow> nat \<Rightarrow> fair_group \<Rightarrow> sched \<Rightarrow> sched" where
  "put_group h group_id g s = set_rq h ((sc_rq s h)\<lparr>rq_groups := btm_insert group_id g (rq_groups (sc_rq s h))\<rparr>) s"

section \<open>Ready counters\<close>

definition inc_ready_rt_count :: "nat \<Rightarrow> nat \<Rightarrow> sched \<Rightarrow> sched" where
  "inc_ready_rt_count h i s = s\<lparr>sc_rt_count := (sc_rt_count s)(h := (sc_rt_count s h)(i := sc_rt_count s h i + 1))\<rparr>"

definition dec_ready_rt_count :: "nat \<Rightarrow> nat \<Rightarrow> sched \<Rightarrow> sched" where
  "dec_ready_rt_count h i s = s\<lparr>sc_rt_count := (sc_rt_count s)(h := (sc_rt_count s h)(i := sc_rt_count s h i - 1))\<rparr>"

definition inc_ready_fair_count :: "nat \<Rightarrow> sched \<Rightarrow> sched" where
  "inc_ready_fair_count h s = s\<lparr>sc_fair_count := (sc_fair_count s)(h := sc_fair_count s h + 1)\<rparr>"

definition dec_ready_fair_count :: "nat \<Rightarrow> sched \<Rightarrow> sched" where
  "dec_ready_fair_count h s = s\<lparr>sc_fair_count := (sc_fair_count s)(h := sc_fair_count s h - 1)\<rparr>"

definition ready_fair_count :: "nat \<Rightarrow> sched \<Rightarrow> nat" where
  "ready_fair_count h s = sc_fair_count s (h mod MAX_HARTS)"

definition rt_bandwidth_throttled :: "nat \<Rightarrow> usize \<Rightarrow> sched \<Rightarrow> bool \<times> sched" where
  "rt_bandwidth_throttled h now s =
     (let (throttled, b) = refresh_rt_bandwidth (sc_sysctl s) now (sc_bw s h)
      in (throttled, s\<lparr>sc_bw := (sc_bw s)(h := b)\<rparr>))"

definition has_ready_rt_count_higher_than :: "nat \<Rightarrow> int \<Rightarrow> usize \<Rightarrow> sched \<Rightarrow> bool \<times> sched" where
  "has_ready_rt_count_higher_than h priority now s =
     (let (throttled, s1) = rt_bandwidth_throttled (h mod MAX_HARTS) now s in
      if throttled then (False, s1)
      else (\<exists>i<rt_queue_index (min RT_PRIO_MAX (max RT_PRIO_MIN priority)). 0 < sc_rt_count s1 (h mod MAX_HARTS) i, s1))"

definition has_ready_rt_count_at_or_above :: "nat \<Rightarrow> int \<Rightarrow> usize \<Rightarrow> sched \<Rightarrow> bool \<times> sched" where
  "has_ready_rt_count_at_or_above h priority now s =
     (let (throttled, s1) = rt_bandwidth_throttled (h mod MAX_HARTS) now s in
      if throttled then (False, s1)
      else (\<exists>i\<le>rt_queue_index (min RT_PRIO_MAX (max RT_PRIO_MIN priority)). 0 < sc_rt_count s1 (h mod MAX_HARTS) i, s1))"

section \<open>Queueing a task\<close>

text \<open>\<open>busy\<close> tells that the processor lock of the hart is taken, so that \<open>current_task_on_hart\<close> sees no task.\<close>

definition enqueue_fair :: "nat \<Rightarrow> task_id \<Rightarrow> enqueue_kind \<Rightarrow> bool \<Rightarrow> nat \<Rightarrow> sched \<Rightarrow> sched" where
  "enqueue_fair h i kind busy now_ns s =
     (let (group_id, shares) = fair_group_id_and_shares (sc_tcb s i);
          rq1 = unlink_fair_group group_id (sc_rq s h);
          g = (case btm_get (rq_groups rq1) group_id of None \<Rightarrow> group_new (rq_min_fair rq1) | Some g \<Rightarrow> g)\<lparr>fg_shares := max shares 1\<rparr>;
          current_entity = current_fair_entity_for_group
            (if busy then None else map_option (sc_tcb s) (sc_current s h)) group_id now_ns;
          (vruntime, deadline, g1, t) = place_fair_task_entity kind current_entity g (sc_tcb s i);
          g2 = insert_task i vruntime deadline (fair_nice_weight (t_nice t)) g1;
          rq2 = relink_fair_group_if_runnable group_id (rq1\<lparr>rq_groups := btm_insert group_id g2 (rq_groups rq1)\<rparr>)
      in inc_ready_fair_count h (set_rq h rq2 (set_tcb i t s)))"

definition rq_add :: "task_id \<Rightarrow> nat \<Rightarrow> enqueue_kind \<Rightarrow> bool \<Rightarrow> nat \<Rightarrow> sched \<Rightarrow> bool option \<times> sched" where
  "rq_add i h kind busy now_ns s =
     (let (claimed, t) = claim_ready_queue h (sc_tcb s i) in
      if \<not> claimed then (None, s)
      else
        let s1 = set_tcb i t s; was_empty = (rq_len (sc_rq s1 h) = 0) in
        if t_rq_hart t \<noteq> Some h then (None, set_tcb i (t\<lparr>t_in_ready := False\<rparr>) s1)
        else
          (Some was_empty,
           case task_queue_slot t of
             Slot_rt idx \<Rightarrow> inc_ready_rt_count h idx (set_rtq h idx (rq_rt (sc_rq s1 h) ! idx @ [i]) s1)
           | Slot_fair \<Rightarrow> enqueue_fair h i kind busy now_ns s1))"

section \<open>Taking the next task\<close>

fun pop_ready_rt_candidate :: "nat \<Rightarrow> nat \<Rightarrow> task_id list \<Rightarrow> sched \<Rightarrow> task_id option \<times> sched" where
  "pop_ready_rt_candidate h rt_idx [] s = (None, s)"
| "pop_ready_rt_candidate h rt_idx (candidate # queue) s =
     (let (still_queued_here, t) = release_ready_queue h (sc_tcb s candidate);
          s1 = set_tcb candidate t (dec_ready_rt_count h rt_idx (set_rtq h rt_idx queue s)) in
      if \<not> still_queued_here then pop_ready_rt_candidate h rt_idx queue s1
      else if t_status t = Ready then
        let (marked, t2) = try_mark_on_cpu h t; s2 = set_tcb candidate t2 s1
        in if marked then (Some candidate, s2) else pop_ready_rt_candidate h rt_idx queue s2
      else pop_ready_rt_candidate h rt_idx queue s1)"

fun fetch_rt :: "nat \<Rightarrow> nat list \<Rightarrow> sched \<Rightarrow> task_id option \<times> sched" where
  "fetch_rt h [] s = (None, s)"
| "fetch_rt h (rt_idx # rest) s =
     (case pop_ready_rt_candidate h rt_idx (rq_rt (sc_rq s h) ! rt_idx) s of
        (Some i, s1) \<Rightarrow> (Some i, s1)
      | (None, s1) \<Rightarrow> fetch_rt h rest s1)"

definition live_on :: "sched \<Rightarrow> nat \<Rightarrow> task_id \<Rightarrow> bool" where
  "live_on s h i \<longleftrightarrow> t_rq_hart (sc_tcb s i) = Some h \<and> t_status (sc_tcb s i) = Ready"

fun prune_scan :: "fair_group \<Rightarrow> (task_id \<Rightarrow> bool) \<Rightarrow> nat \<Rightarrow> (nat \<times> task_id) option \<Rightarrow> (nat \<times> nat \<times> task_id) list \<Rightarrow> task_id option" where
  "prune_scan g live eligible_vruntime fallback [] = map_option snd fallback"
| "prune_scan g live eligible_vruntime fallback ((deadline, vruntime, task_id) # rest) =
     (case btm_get (fg_tasks g) task_id of
        None \<Rightarrow> prune_scan g live eligible_vruntime fallback rest
      | Some e \<Rightarrow>
          if fe_vruntime e \<noteq> vruntime \<or> fe_deadline e \<noteq> deadline then prune_scan g live eligible_vruntime fallback rest
          else if live (fe_task e) then
            (if fe_vruntime e \<le> eligible_vruntime then Some task_id
             else prune_scan g live eligible_vruntime
               (if (case fallback of None \<Rightarrow> True | Some (fv, _) \<Rightarrow> fe_vruntime e < fv) then Some (fe_vruntime e, task_id) else fallback)
               rest)
          else prune_scan g live eligible_vruntime fallback rest)"

text \<open>What happens to a queued task that may not run: its entity leaves the group.\<close>

definition drop_stale :: "nat \<Rightarrow> task_id \<Rightarrow> sched \<Rightarrow> sched" where
  "drop_stale h candidate s =
     (let t = sc_tcb s candidate; queued_here = (t_rq_hart t = Some h);
          t1 = (if queued_here then t\<lparr>t_rq_hart := None\<rparr> else t)
      in set_tcb candidate (t1\<lparr>t_in_ready := False\<rparr>) (dec_ready_fair_count h s))"

partial_function (option) prune_loop ::
    "nat \<Rightarrow> nat \<Rightarrow> fair_group \<Rightarrow> sched \<Rightarrow> (task_id option \<times> fair_group \<times> sched) option" where
  [code]: "prune_loop h eligible_vruntime g s =
     (case fg_order g of
        [] \<Rightarrow> Some (None, g, s)
      | (deadline, vruntime, task_id) # rest \<Rightarrow>
          (case btm_get (fg_tasks g) task_id of
             None \<Rightarrow> prune_loop h eligible_vruntime (g\<lparr>fg_order := bts_remove (deadline, vruntime, task_id) (fg_order g)\<rparr>) s
           | Some e \<Rightarrow>
               if fe_vruntime e \<noteq> vruntime \<or> fe_deadline e \<noteq> deadline then
                 prune_loop h eligible_vruntime
                   (g\<lparr>fg_order := bts_insert (fe_deadline e, fe_vruntime e, task_id)
                      (bts_remove (deadline, vruntime, task_id) (fg_order g))\<rparr>) s
               else if live_on s h (fe_task e) then
                 (if fe_vruntime e \<le> eligible_vruntime then Some (Some task_id, g, s)
                  else Some (prune_scan g (live_on s h) eligible_vruntime (Some (fe_vruntime e, task_id)) rest, g, s))
               else prune_loop h eligible_vruntime (snd (unlink_task task_id g)) (drop_stale h (fe_task e) s)))"

definition prune_fair_group_front :: "nat \<Rightarrow> fair_group \<Rightarrow> sched \<Rightarrow> (task_id option \<times> fair_group \<times> sched) option" where
  "prune_fair_group_front h g s = prune_loop h (eligible_bound g) g s"

text \<open>Removing an empty group or putting a runnable one back into the order.\<close>

definition settle_group :: "nat \<Rightarrow> hart_rq \<Rightarrow> hart_rq" where
  "settle_group group_id rq =
     (case btm_get (rq_groups rq) group_id of
        None \<Rightarrow> rq
      | Some g \<Rightarrow> if group_is_empty g then rq\<lparr>rq_groups := btm_remove group_id (rq_groups rq)\<rparr>
                  else relink_fair_group_if_runnable group_id rq)"

text \<open>One round of the loop on the group \<open>g\<close>, whose index entry has been removed: the task taken, if any.\<close>

definition take_from_group :: "nat \<Rightarrow> nat \<Rightarrow> fair_group \<Rightarrow> sched \<Rightarrow> (task_id option \<times> sched) option" where
  "take_from_group h group_id g s =
     map_option (\<lambda>(picked, g1, s1).
       case picked of
         None \<Rightarrow> (None, set_rq h (settle_group group_id (sc_rq (put_group h group_id g1 s1) h)) (put_group h group_id g1 s1))
       | Some task_id \<Rightarrow>
           (case unlink_task task_id g1 of
              (None, g2) \<Rightarrow> (None, set_rq h (settle_group group_id (sc_rq (put_group h group_id g2 s1) h)) (put_group h group_id g2 s1))
            | (Some e, g2) \<Rightarrow>
                let g3 = g2\<lparr>fg_min_vruntime := max (fg_min_vruntime g2) (fe_vruntime e)\<rparr>;
                    s2 = put_group h group_id g3 (dec_ready_fair_count h s1);
                    rq = (sc_rq s2 h)\<lparr>rq_min_fair := max (rq_min_fair (sc_rq s2 h)) (fg_vruntime g3)\<rparr>
                in (Some (fe_task e), set_rq h (settle_group group_id rq) s2)))
       (prune_fair_group_front h g s)"

partial_function (option) pop_ready_fair_candidate :: "nat \<Rightarrow> sched \<Rightarrow> (task_id option \<times> sched) option" where
  [code]: "pop_ready_fair_candidate h s =
     (case rq_order (sc_rq s h) of
        [] \<Rightarrow> Some (None, s)
      | (indexed_vruntime, group_id) # _ \<Rightarrow>
          (let rq1 = (sc_rq s h)\<lparr>rq_order := bts_remove (indexed_vruntime, group_id) (rq_order (sc_rq s h))\<rparr>;
               s1 = set_rq h rq1 s in
           case btm_get (rq_groups rq1) group_id of
             None \<Rightarrow> pop_ready_fair_candidate h s1
           | Some g \<Rightarrow>
               if fg_vruntime g \<noteq> indexed_vruntime then
                 pop_ready_fair_candidate h (set_rq h (relink_fair_group_if_runnable group_id rq1) s1)
               else
                 Option.bind (take_from_group h group_id g s1) (\<lambda>(picked, s2).
                   case picked of
                     None \<Rightarrow> pop_ready_fair_candidate h s2
                   | Some i \<Rightarrow>
                       let (still_queued_here, t) = release_ready_queue h (sc_tcb s2 i) in
                       if \<not> still_queued_here then pop_ready_fair_candidate h (set_tcb i t s2)
                       else
                         let (marked, t2) = try_mark_on_cpu h (t\<lparr>t_checkpoint := t_cpu_time t\<rparr>); s3 = set_tcb i t2 s2
                         in if marked then Some (Some i, s3) else pop_ready_fair_candidate h s3)))"

definition rq_fetch :: "nat \<Rightarrow> usize \<Rightarrow> sched \<Rightarrow> (task_id option \<times> sched) option" where
  "rq_fetch h now s =
     (let (throttled, s1) = rt_bandwidth_throttled h now s;
          (picked, s2) = (if throttled then (None, s1) else fetch_rt h [0..<RT_PRIO_LEVELS] s1)
      in case picked of Some i \<Rightarrow> Some (Some i, s2) | None \<Rightarrow> pop_ready_fair_candidate h s2)"

section \<open>Removing a task\<close>

fun dec_rt_times :: "nat \<Rightarrow> nat \<Rightarrow> nat \<Rightarrow> sched \<Rightarrow> sched" where
  "dec_rt_times h i 0 s = s"
| "dec_rt_times h i (Suc n) s = dec_rt_times h i n (dec_ready_rt_count h i s)"

fun remove_from_rt :: "nat \<Rightarrow> task_id \<Rightarrow> nat list \<Rightarrow> sched \<Rightarrow> nat \<times> sched" where
  "remove_from_rt h i [] s = (0, s)"
| "remove_from_rt h i (rt_idx # rest) s =
     (let q = rq_rt (sc_rq s h) ! rt_idx; q' = filter (\<lambda>j. j \<noteq> i) q; removed_now = length q - length q';
          (removed, s1) = remove_from_rt h i rest (dec_rt_times h rt_idx removed_now (set_rtq h rt_idx q' s))
      in (removed_now + removed, s1))"

definition remove_fair_task_from_group :: "nat \<Rightarrow> nat \<Rightarrow> task_id \<Rightarrow> sched \<Rightarrow> nat \<times> sched" where
  "remove_fair_task_from_group h group_id i s =
     (let rq1 = unlink_fair_group group_id (sc_rq s h) in
      case btm_get (rq_groups rq1) group_id of
        None \<Rightarrow> (0, set_rq h rq1 s)
      | Some g \<Rightarrow>
          let (unlinked, g1) = unlink_task i g;
              rq2 = settle_group group_id (rq1\<lparr>rq_groups := btm_insert group_id g1 (rq_groups rq1)\<rparr>);
              s1 = set_rq h rq2 s
          in (case unlinked of None \<Rightarrow> (0, s1) | Some _ \<Rightarrow> (1, dec_ready_fair_count h s1)))"

fun remove_fair_scan :: "nat \<Rightarrow> nat list \<Rightarrow> task_id \<Rightarrow> sched \<Rightarrow> nat \<times> sched" where
  "remove_fair_scan h [] i s = (0, s)"
| "remove_fair_scan h (group_id # rest) i s =
     (let (n, s1) = remove_fair_task_from_group h group_id i s
      in if n > 0 then (n, s1) else remove_fair_scan h rest i s1)"

definition rq_remove :: "task_id \<Rightarrow> sched \<Rightarrow> nat \<times> sched" where
  "rq_remove i s =
     (let queued = t_rq_hart (sc_tcb s i);
          s1 = set_tcb i ((sc_tcb s i)\<lparr>t_rq_hart := None\<rparr>) s;
          (removed, s2) =
            (case queued of
               None \<Rightarrow> (0, s1)
             | Some h \<Rightarrow>
                 if h < MAX_HARTS then
                   let (rt_removed, s2) = remove_from_rt h i [0..<RT_PRIO_LEVELS] s1;
                       (fair_removed, s3) = remove_fair_task_from_group h (fst (fair_group_id_and_shares (sc_tcb s2 i))) i s2;
                       (fair_removed', s4) =
                         (if fair_removed = 0 then remove_fair_scan h (map fst (rq_groups (sc_rq s3 h))) i s3 else (fair_removed, s3))
                   in (rt_removed + fair_removed', s4)
                 else (0, s1))
      in (removed, set_tcb i ((sc_tcb s2 i)\<lparr>t_in_ready := False\<rparr>) s2))"

section \<open>Queries\<close>

definition ready_queue_lengths :: "sched \<Rightarrow> nat list" where
  "ready_queue_lengths s = map (\<lambda>h. rq_len (sc_rq s h)) [0..<MAX_HARTS]"

definition has_ready_tasks :: "sched \<Rightarrow> bool" where
  "has_ready_tasks s \<longleftrightarrow> (\<exists>h<MAX_HARTS. rq_len (sc_rq s h) > 0)"

text \<open>How often a task occurs in the queues of one hart.\<close>

definition entry_count :: "hart_rq \<Rightarrow> task_id \<Rightarrow> nat" where
  "entry_count rq i =
     sum_list (map (\<lambda>q. length (filter (\<lambda>j. j = i) q)) (rq_rt rq)) +
     sum_list (map (\<lambda>p. length (filter (\<lambda>e. fe_task (snd e) = i) (fg_tasks (snd p)))) (rq_groups rq))"

definition debug_count_task_refs :: "task_id \<Rightarrow> sched \<Rightarrow> nat" where
  "debug_count_task_refs i s = sum_list (map (\<lambda>h. entry_count (sc_rq s h) i) [0..<MAX_HARTS])"

fun next_scan :: "sched \<Rightarrow> nat \<Rightarrow> nat \<Rightarrow> task_id \<Rightarrow> (nat \<times> nat) list \<Rightarrow> bool" where
  "next_scan s h group_id task_id [] = False"
| "next_scan s h group_id task_id ((indexed_vruntime, candidate_group_id) # rest) =
     (case btm_get (rq_groups (sc_rq s h)) candidate_group_id of
        None \<Rightarrow> next_scan s h group_id task_id rest
      | Some g \<Rightarrow>
          if fg_vruntime g \<noteq> indexed_vruntime then next_scan s h group_id task_id rest
          else
            (case peek_fair_group_task g (live_on s h) of
               None \<Rightarrow> next_scan s h group_id task_id rest
             | Some candidate_task_id \<Rightarrow> candidate_group_id = group_id \<and> candidate_task_id = task_id))"

definition fair_task_is_next_on_hart :: "task_id \<Rightarrow> nat \<Rightarrow> sched \<Rightarrow> bool" where
  "fair_task_is_next_on_hart i h s =
     next_scan s (h mod MAX_HARTS) (t_group (sc_tcb s i)) i (rq_order (sc_rq s (h mod MAX_HARTS)))"

definition fair_current_deadline_expired :: "task_id \<Rightarrow> nat \<Rightarrow> nat \<Rightarrow> sched \<Rightarrow> bool" where
  "fair_current_deadline_expired i h now_ns s =
     (if ready_fair_count h s = 0 then False
      else let (vruntime, deadline) = fair_task_vruntime_deadline_at now_ns (sc_tcb s i)
           in deadline = 0 \<or> vruntime \<ge> deadline)"

definition fair_wakeup_preempts_current_on_hart :: "task_id \<Rightarrow> task_id \<Rightarrow> nat \<Rightarrow> nat \<Rightarrow> sched \<Rightarrow> bool" where
  "fair_wakeup_preempts_current_on_hart current woken h now_ns s =
     (let (current_vruntime, current_deadline) = fair_task_vruntime_deadline_at now_ns (sc_tcb s current) in
      if current_deadline = 0 \<or> current_vruntime \<ge> current_deadline then True
      else
        let (woken_vruntime, woken_deadline) = fair_task_vruntime_deadline_at now_ns (sc_tcb s woken);
            current_group_id = t_group (sc_tcb s current);
            current_weight = fair_nice_weight (t_nice (sc_tcb s current));
            current_full_slice = fair_entity_vslice_ns (t_nice (sc_tcb s current)) Enqueue_requeue;
            woken_group_id = t_group (sc_tcb s woken);
            woken_eligible =
              (case btm_get (rq_groups (sc_rq s (h mod MAX_HARTS))) woken_group_id of
                 Some g \<Rightarrow>
                   let current_for_group = (if current_group_id = woken_group_id then Some (current_vruntime, current_weight) else None);
                       avg_vruntime = (case avg_task_vruntime_with current_for_group g of None \<Rightarrow> fg_min_vruntime g | Some a \<Rightarrow> a)
                   in woken_vruntime \<le> avg_vruntime
               | None \<Rightarrow> woken_vruntime \<le> current_vruntime)
        in if woken_eligible \<and> woken_deadline < current_deadline then True
           else woken_eligible \<and> woken_deadline - woken_vruntime < current_full_slice)"

definition record_fair_sleep_lag :: "task_id \<Rightarrow> nat \<Rightarrow> nat \<Rightarrow> sched \<Rightarrow> sched" where
  "record_fair_sleep_lag i h now_ns s =
     (let rq = sc_rq s h; t = sc_tcb s i
      in set_tcb i (sleep_lag (btm_get (rq_groups rq) (fst (fair_group_id_and_shares t))) (rq_min_fair rq) now_ns t) s)"

end
