(* ===== verification/Sched_Queues.thy ===== *)
theory Sched_Queues
  imports Run_Queue
begin

text \<open>
  The run queues stay consistent: the invariant that ties the groups, their index, the ready counters and
  the claims in the control blocks together, and its preservation by queueing, fetching and removing.
\<close>

section \<open>One queue\<close>

text \<open>\<open>rq_ok_but X rq\<close>: the queue is consistent, except that the groups in \<open>X\<close> are taken out of the order
  while an operation works on them.\<close>

definition rq_ok_but :: "nat set \<Rightarrow> hart_rq \<Rightarrow> bool" where
  "rq_ok_but X rq \<longleftrightarrow> length (rq_rt rq) = RT_PRIO_LEVELS \<and> btm_inv (rq_groups rq) \<and> bts_inv (rq_order rq) \<and>
     (\<forall>v k. (v, k) \<in> set (rq_order rq) \<longleftrightarrow> k \<notin> X \<and> (\<exists>g. btm_get (rq_groups rq) k = Some g \<and> fg_vruntime g = v)) \<and>
     (\<forall>k g. btm_get (rq_groups rq) k = Some g \<longrightarrow> group_ok g \<and> (k \<notin> X \<longrightarrow> fg_tasks g \<noteq> []))"

lemma rq_ok_butD:
  assumes "rq_ok_but X rq"
  shows "length (rq_rt rq) = RT_PRIO_LEVELS" "btm_inv (rq_groups rq)" "bts_inv (rq_order rq)"
    "(v, k) \<in> set (rq_order rq) \<longleftrightarrow> k \<notin> X \<and> (\<exists>g. btm_get (rq_groups rq) k = Some g \<and> fg_vruntime g = v)"
    "btm_get (rq_groups rq) k = Some g \<Longrightarrow> group_ok g"
    "btm_get (rq_groups rq) k = Some g \<Longrightarrow> k \<notin> X \<Longrightarrow> fg_tasks g \<noteq> []"
  using assms unfolding rq_ok_but_def by blast+

lemma rq_ok_butI:
  assumes "length (rq_rt rq) = RT_PRIO_LEVELS" "btm_inv (rq_groups rq)" "bts_inv (rq_order rq)"
    "\<And>v k. (v, k) \<in> set (rq_order rq) \<longleftrightarrow> k \<notin> X \<and> (\<exists>g. btm_get (rq_groups rq) k = Some g \<and> fg_vruntime g = v)"
    "\<And>k g. btm_get (rq_groups rq) k = Some g \<Longrightarrow> group_ok g"
    "\<And>k g. btm_get (rq_groups rq) k = Some g \<Longrightarrow> k \<notin> X \<Longrightarrow> fg_tasks g \<noteq> []"
  shows "rq_ok_but X rq"
  using assms unfolding rq_ok_but_def by blast

lemma rq_new_ok: "rq_ok_but {} rq_new"
  by (rule rq_ok_butI) (simp_all add: rq_new_def)

lemma rq_ok_rt: "rq_ok_but X rq \<Longrightarrow> length rt = RT_PRIO_LEVELS \<Longrightarrow> rq_ok_but X (rq\<lparr>rq_rt := rt\<rparr>)"
  by (simp add: rq_ok_but_def)

lemma rq_ok_min: "rq_ok_but X rq \<Longrightarrow> rq_ok_but X (rq\<lparr>rq_min_fair := m\<rparr>)"
  by (simp add: rq_ok_but_def)

lemma rq_ok_take:
  assumes "rq_ok_but {} rq" "(v, k) \<in> set (rq_order rq)"
  shows "rq_ok_but {k} (rq\<lparr>rq_order := bts_remove (v, k) (rq_order rq)\<rparr>)"
proof -
  obtain g where g: "btm_get (rq_groups rq) k = Some g" "fg_vruntime g = v" using assms by (auto simp: rq_ok_butD(4))
  show ?thesis
    by (rule rq_ok_butI) (use rq_ok_butD [OF assms(1)] g in \<open>auto intro: bts_inv_remove\<close>)
qed

lemma rq_ok_unlink: "rq_ok_but {} rq \<Longrightarrow> rq_ok_but {k} (unlink_fair_group k rq)"
proof (cases "btm_get (rq_groups rq) k")
  case None
  assume ok: "rq_ok_but {} rq"
  show ?thesis by (rule rq_ok_butI) (use rq_ok_butD [OF ok] None in \<open>auto simp: unlink_fair_group_def\<close>)
next
  case (Some g)
  assume ok: "rq_ok_but {} rq"
  have "(fg_vruntime g, k) \<in> set (rq_order rq)" using Some by (simp add: rq_ok_butD(4) [OF ok])
  from rq_ok_take [OF ok this] show ?thesis using Some by (simp add: unlink_fair_group_def)
qed

lemma unlink_fair_group_simps [simp]:
  "rq_groups (unlink_fair_group k rq) = rq_groups rq" "rq_rt (unlink_fair_group k rq) = rq_rt rq"
  "rq_min_fair (unlink_fair_group k rq) = rq_min_fair rq"
  by (simp_all add: unlink_fair_group_def split: option.splits)

lemma rq_ok_put:
  assumes "rq_ok_but {k} rq" "group_ok g"
  shows "rq_ok_but {k} (rq\<lparr>rq_groups := btm_insert k g (rq_groups rq)\<rparr>)"
  by (rule rq_ok_butI) (use rq_ok_butD [OF assms(1)] assms(2) in \<open>auto intro: btm_inv_insert split: if_splits\<close>)

lemma rq_ok_relink:
  assumes "rq_ok_but {k} rq" "btm_get (rq_groups rq) k = Some g" "fg_tasks g \<noteq> []"
  shows "rq_ok_but {} (relink_fair_group_if_runnable k rq)"
proof -
  have ne: "fg_tasks g' \<noteq> []" if "btm_get (rq_groups rq) k' = Some g'" for k' g'
    using rq_ok_butD(6) [OF assms(1) that] assms(2,3) that by (cases "k' = k") auto
  show ?thesis
    by (rule rq_ok_butI) (use rq_ok_butD(1-5) [OF assms(1)] ne assms(2,3) in
      \<open>auto simp: relink_fair_group_if_runnable_def group_is_empty_def intro: bts_inv_insert\<close>)
qed

lemma relink_simps [simp]:
  "rq_groups (relink_fair_group_if_runnable k rq) = rq_groups rq" "rq_rt (relink_fair_group_if_runnable k rq) = rq_rt rq"
  by (simp_all add: relink_fair_group_if_runnable_def split: option.splits)

lemma rq_ok_settle:
  assumes "rq_ok_but {k} rq"
  shows "rq_ok_but {} (settle_group k rq)"
proof (cases "btm_get (rq_groups rq) k")
  case None
  then have ne: "fg_tasks g' \<noteq> []" if "btm_get (rq_groups rq) k' = Some g'" for k' g'
    using rq_ok_butD(6) [OF assms that] that by (cases "k' = k") auto
  show ?thesis by (rule rq_ok_butI) (use rq_ok_butD(1-5) [OF assms] ne None in \<open>auto simp: settle_group_def\<close>)
next
  case (Some g)
  show ?thesis
  proof (cases "fg_tasks g = []")
    case True
    show ?thesis
      by (rule rq_ok_butI) (use rq_ok_butD [OF assms] Some True in
        \<open>auto simp: settle_group_def group_is_empty_def intro: btm.inv_rem split: if_splits\<close>)
  next
    case False
    then show ?thesis using rq_ok_relink [OF assms Some] Some by (simp add: settle_group_def group_is_empty_def)
  qed
qed

section \<open>Counting entries\<close>

definition group_count :: "fair_group \<Rightarrow> task_id \<Rightarrow> nat" where
  "group_count g i = length (filter (\<lambda>e. fe_task (snd e) = i) (fg_tasks g))"

definition queue_count :: "task_id list \<Rightarrow> task_id \<Rightarrow> nat" where
  "queue_count q i = length (filter (\<lambda>j. j = i) q)"

lemma group_count:
  assumes "group_ok g"
  shows "group_count g i = of_bool (btm_get (fg_tasks g) i \<noteq> None)"
proof -
  have inv: "btm_inv (fg_tasks g)" using assms by (simp add: group_ok_def)
  have "filter (\<lambda>e. fe_task (snd e) = i) (fg_tasks g) = filter (\<lambda>e. fst e = i) (fg_tasks g)"
    using assms by (intro filter_cong) (auto simp: group_ok_def)
  moreover have "length (filter (\<lambda>e. fst e = i) m) = of_bool (btm_get m i \<noteq> None)" if "btm_inv m" for m :: "(task_id, fair_entity) btree_map"
    using that
  proof (induction m)
    case (Cons p m)
    have "btm_inv m" and lt: "\<forall>q\<in>set m. fst p < fst q" using Cons.prems by (auto simp: btm_inv_def)
    moreover have "fst p = i \<Longrightarrow> filter (\<lambda>e. fst e = i) m = []" using lt by (auto simp: filter_empty_conv)
    ultimately show ?case using Cons.IH by (auto simp: btm_get_def)
  qed simp
  ultimately show ?thesis using inv by (simp add: group_count_def)
qed

definition group_sum :: "(fair_group \<Rightarrow> nat) \<Rightarrow> hart_rq \<Rightarrow> nat" where
  "group_sum f rq = sum_list (map (\<lambda>p. f (snd p)) (rq_groups rq))"

lemma entry_count_alt: "entry_count rq i = sum_list (map (\<lambda>q. queue_count q i) (rq_rt rq)) + group_sum (\<lambda>g. group_count g i) rq"
  by (simp add: entry_count_def queue_count_def group_count_def group_sum_def)

lemma fair_len_alt: "fair_len rq = group_sum (\<lambda>g. length (fg_tasks g)) rq"
  by (simp add: fair_len_def group_sum_def)

lemma group_sum_simps [simp]:
  "group_sum f (rq\<lparr>rq_rt := a\<rparr>) = group_sum f rq" "group_sum f (rq\<lparr>rq_order := b\<rparr>) = group_sum f rq"
  "group_sum f (rq\<lparr>rq_min_fair := c\<rparr>) = group_sum f rq" "group_sum f (unlink_fair_group k rq) = group_sum f rq"
  "group_sum f (relink_fair_group_if_runnable k rq) = group_sum f rq"
  by (simp_all add: group_sum_def)

lemma group_sum_put:
  assumes "btm_inv (rq_groups rq)"
  shows "group_sum f (rq\<lparr>rq_groups := btm_insert k g (rq_groups rq)\<rparr>) +
    (case btm_get (rq_groups rq) k of None \<Rightarrow> 0 | Some g0 \<Rightarrow> f g0) = group_sum f rq + f g"
  using sum_list_btm_insert [OF assms, of "\<lambda>p. f (snd p)" k g] sum_list_btm_remove [OF assms, of k _ "\<lambda>p. f (snd p)"]
  by (auto simp: group_sum_def btm_remove_absent split: option.splits)

lemma group_sum_settle:
  assumes "btm_inv (rq_groups rq)" "\<And>g. fg_tasks g = [] \<Longrightarrow> f g = 0"
  shows "group_sum f (settle_group k rq) = group_sum f rq"
  using sum_list_btm_remove [OF assms(1), of k _ "\<lambda>p. f (snd p)"] assms(2)
  by (auto simp: settle_group_def group_is_empty_def group_sum_def split: option.splits)

lemma settle_rt [simp]: "rq_rt (settle_group k rq) = rq_rt rq"
  by (simp add: settle_group_def split: option.splits)

lemma entry_count_put:
  assumes "btm_inv (rq_groups rq)"
  shows "entry_count (rq\<lparr>rq_groups := btm_insert k g (rq_groups rq)\<rparr>) i +
    (case btm_get (rq_groups rq) k of None \<Rightarrow> 0 | Some g0 \<Rightarrow> group_count g0 i) = entry_count rq i + group_count g i"
  using group_sum_put [OF assms, of "\<lambda>g. group_count g i" k g] by (simp add: entry_count_alt)

lemma entry_count_settle: "btm_inv (rq_groups rq) \<Longrightarrow> entry_count (settle_group k rq) i = entry_count rq i"
  by (simp add: entry_count_alt group_sum_settle group_count_def)

lemma fair_len_settle: "btm_inv (rq_groups rq) \<Longrightarrow> fair_len (settle_group k rq) = fair_len rq"
  by (simp add: fair_len_alt group_sum_settle)

lemma entry_count_simps [simp]:
  "entry_count (rq\<lparr>rq_order := b\<rparr>) i = entry_count rq i" "entry_count (rq\<lparr>rq_min_fair := c\<rparr>) i = entry_count rq i"
  "entry_count (unlink_fair_group k rq) i = entry_count rq i" "entry_count (relink_fair_group_if_runnable k rq) i = entry_count rq i"
  by (simp_all add: entry_count_alt)

lemma fair_len_simps [simp]:
  "fair_len (rq\<lparr>rq_rt := a\<rparr>) = fair_len rq" "fair_len (rq\<lparr>rq_order := b\<rparr>) = fair_len rq" "fair_len (rq\<lparr>rq_min_fair := c\<rparr>) = fair_len rq"
  "fair_len (unlink_fair_group k rq) = fair_len rq" "fair_len (relink_fair_group_if_runnable k rq) = fair_len rq"
  by (simp_all add: fair_len_alt)

lemma entry_count_rt:
  assumes "n < length (rq_rt rq)"
  shows "entry_count (rq\<lparr>rq_rt := (rq_rt rq)[n := q]\<rparr>) i + queue_count (rq_rt rq ! n) i = entry_count rq i + queue_count q i"
proof -
  let ?f = "\<lambda>q. queue_count q i"
  have le: "?f (rq_rt rq ! n) \<le> sum_list (map ?f (rq_rt rq))" using assms by (intro member_le_sum_list) auto
  have "sum_list (map ?f ((rq_rt rq)[n := q])) = sum_list (map ?f (rq_rt rq)) + ?f q - ?f (rq_rt rq ! n)"
    using assms by (simp add: map_update sum_list_update)
  then show ?thesis using le by (simp add: entry_count_alt)
qed

lemma entry_count_pos:
  "n < length (rq_rt rq) \<Longrightarrow> i \<in> set (rq_rt rq ! n) \<Longrightarrow> 0 < entry_count rq i"
proof -
  assume n: "n < length (rq_rt rq)" and i: "i \<in> set (rq_rt rq ! n)"
  have "queue_count (rq_rt rq ! n) i \<le> sum_list (map (\<lambda>q. queue_count q i) (rq_rt rq))"
    using n by (intro member_le_sum_list) auto
  moreover have "0 < queue_count (rq_rt rq ! n) i" using i by (auto simp: queue_count_def filter_empty_conv)
  ultimately show ?thesis by (simp add: entry_count_alt)
qed

lemma group_le_sum:
  assumes "btm_get (rq_groups rq) k = Some g"
  shows "f g \<le> group_sum f rq"
  using btm_get_in_set [OF assms] unfolding group_sum_def
  by (intro member_le_sum_list) (auto simp: image_iff intro!: bexI [of _ "(k, g)"])

lemma entry_count_group:
  assumes "btm_get (rq_groups rq) k = Some g" "group_ok g" "btm_get (fg_tasks g) i \<noteq> None"
  shows "0 < entry_count rq i"
  using group_le_sum [OF assms(1), of "\<lambda>g. group_count g i"] group_count [OF assms(2), of i] assms(3) by (simp add: entry_count_alt)

section \<open>The scheduler state\<close>

lemma sched_sel [simp]:
  "sc_tcb (set_tcb i t s) = (sc_tcb s)(i := t)" "sc_rq (set_tcb i t s) = sc_rq s"
  "sc_rt_count (set_tcb i t s) = sc_rt_count s" "sc_fair_count (set_tcb i t s) = sc_fair_count s"
  "sc_tcb (set_rq h rq s) = sc_tcb s" "sc_rq (set_rq h rq s) = (sc_rq s)(h := rq)"
  "sc_rt_count (set_rq h rq s) = sc_rt_count s" "sc_fair_count (set_rq h rq s) = sc_fair_count s"
  "sc_current (set_tcb i t s) = sc_current s" "sc_current (set_rq h rq s) = sc_current s"
  by (simp_all add: set_tcb_def set_rq_def)

lemma sched_sel_count [simp]:
  "sc_tcb (inc_ready_rt_count h n s) = sc_tcb s" "sc_rq (inc_ready_rt_count h n s) = sc_rq s" "sc_fair_count (inc_ready_rt_count h n s) = sc_fair_count s"
  "sc_tcb (dec_ready_rt_count h n s) = sc_tcb s" "sc_rq (dec_ready_rt_count h n s) = sc_rq s" "sc_fair_count (dec_ready_rt_count h n s) = sc_fair_count s"
  "sc_tcb (inc_ready_fair_count h s) = sc_tcb s" "sc_rq (inc_ready_fair_count h s) = sc_rq s" "sc_rt_count (inc_ready_fair_count h s) = sc_rt_count s"
  "sc_tcb (dec_ready_fair_count h s) = sc_tcb s" "sc_rq (dec_ready_fair_count h s) = sc_rq s" "sc_rt_count (dec_ready_fair_count h s) = sc_rt_count s"
  "sc_rt_count (inc_ready_rt_count h n s) = (sc_rt_count s)(h := (sc_rt_count s h)(n := sc_rt_count s h n + 1))"
  "sc_rt_count (dec_ready_rt_count h n s) = (sc_rt_count s)(h := (sc_rt_count s h)(n := sc_rt_count s h n - 1))"
  "sc_fair_count (inc_ready_fair_count h s) = (sc_fair_count s)(h := sc_fair_count s h + 1)"
  "sc_fair_count (dec_ready_fair_count h s) = (sc_fair_count s)(h := sc_fair_count s h - 1)"
  by (simp_all add: inc_ready_rt_count_def dec_ready_rt_count_def inc_ready_fair_count_def dec_ready_fair_count_def)

lemma sched_sel_put [simp]:
  "sc_tcb (set_rtq h n q s) = sc_tcb s" "sc_rt_count (set_rtq h n q s) = sc_rt_count s" "sc_fair_count (set_rtq h n q s) = sc_fair_count s"
  "sc_rq (set_rtq h n q s) = (sc_rq s)(h := (sc_rq s h)\<lparr>rq_rt := (rq_rt (sc_rq s h))[n := q]\<rparr>)"
  "sc_tcb (put_group h k g s) = sc_tcb s" "sc_rt_count (put_group h k g s) = sc_rt_count s" "sc_fair_count (put_group h k g s) = sc_fair_count s"
  "sc_rq (put_group h k g s) = (sc_rq s)(h := (sc_rq s h)\<lparr>rq_groups := btm_insert k g (rq_groups (sc_rq s h))\<rparr>)"
  by (simp_all add: set_rtq_def put_group_def)

text \<open>The counters are the lengths, and a task has one entry in the queue that its control block names and
  none elsewhere.\<close>

definition hart_ok_but :: "nat set \<Rightarrow> sched \<Rightarrow> nat \<Rightarrow> bool" where
  "hart_ok_but X s h \<longleftrightarrow> rq_ok_but X (sc_rq s h) \<and> sc_fair_count s h = fair_len (sc_rq s h) \<and>
     (\<forall>n<RT_PRIO_LEVELS. sc_rt_count s h n = length (rq_rt (sc_rq s h) ! n)) \<and>
     (\<forall>i. entry_count (sc_rq s h) i = of_bool (t_rq_hart (sc_tcb s i) = Some h))"

definition tcb_ok :: "tcb \<Rightarrow> bool" where
  "tcb_ok t \<longleftrightarrow> (t_in_ready t \<longleftrightarrow> t_rq_hart t \<noteq> None) \<and> (\<forall>h. t_rq_hart t = Some h \<longrightarrow> h < MAX_HARTS)"

definition sched_ok_but :: "nat set \<Rightarrow> nat \<Rightarrow> sched \<Rightarrow> bool" where
  "sched_ok_but X h0 s \<longleftrightarrow> (\<forall>h<MAX_HARTS. hart_ok_but (if h = h0 then X else {}) s h) \<and> (\<forall>i. tcb_ok (sc_tcb s i))"

definition sched_ok :: "sched \<Rightarrow> bool" where
  "sched_ok s \<longleftrightarrow> (\<forall>h<MAX_HARTS. hart_ok_but {} s h) \<and> (\<forall>i. tcb_ok (sc_tcb s i))"

lemma sched_ok_but_empty: "sched_ok_but {} h s \<longleftrightarrow> sched_ok s"
  by (simp add: sched_ok_but_def sched_ok_def)

lemma sched_ok_hart: "sched_ok_but X h s \<Longrightarrow> h < MAX_HARTS \<Longrightarrow> hart_ok_but X s h"
  by (auto simp: sched_ok_but_def split: if_splits)

lemma hart_okD:
  assumes "hart_ok_but X s h"
  shows "rq_ok_but X (sc_rq s h)" "sc_fair_count s h = fair_len (sc_rq s h)"
    "n < RT_PRIO_LEVELS \<Longrightarrow> sc_rt_count s h n = length (rq_rt (sc_rq s h) ! n)"
    "entry_count (sc_rq s h) i = of_bool (t_rq_hart (sc_tcb s i) = Some h)"
  using assms by (auto simp: hart_ok_but_def)

text \<open>An operation on hart \<open>h\<close> changes the claims of tasks of that hart only, and no other queue.\<close>

definition only_hart :: "nat \<Rightarrow> sched \<Rightarrow> sched \<Rightarrow> bool" where
  "only_hart h s s' \<longleftrightarrow>
     (\<forall>h'. h' \<noteq> h \<longrightarrow> sc_rq s' h' = sc_rq s h' \<and> sc_rt_count s' h' = sc_rt_count s h' \<and> sc_fair_count s' h' = sc_fair_count s h') \<and>
     (\<forall>i. t_rq_hart (sc_tcb s' i) = t_rq_hart (sc_tcb s i) \<or>
       {t_rq_hart (sc_tcb s' i), t_rq_hart (sc_tcb s i)} \<subseteq> {None, Some h})"

lemma sched_ok_update:
  assumes ok: "sched_ok_but X h s" and fr: "only_hart h s s'"
    and new: "hart_ok_but Y s' h" and t: "\<And>i. tcb_ok (sc_tcb s' i)"
  shows "sched_ok_but Y h s'"
proof -
  have "hart_ok_but {} s' h'" if h': "h' \<noteq> h" "h' < MAX_HARTS" for h'
  proof -
    have old: "hart_ok_but {} s h'" using ok h' by (auto simp: sched_ok_but_def split: if_splits)
    have "t_rq_hart (sc_tcb s' i) = Some h' \<longleftrightarrow> t_rq_hart (sc_tcb s i) = Some h'" for i
      using fr h'(1) unfolding only_hart_def by (metis empty_iff insert_iff insert_subset option.distinct(1) option.inject)
    then show ?thesis using old fr h'(1) by (simp add: hart_ok_but_def only_hart_def)
  qed
  then show ?thesis using new t by (auto simp: sched_ok_but_def)
qed

text \<open>Changes of a control block that leave its claim alone.\<close>

lemma sched_ok_set_tcb:
  assumes "sched_ok_but X h s" "t_rq_hart t = t_rq_hart (sc_tcb s i)" "t_in_ready t = t_in_ready (sc_tcb s i)"
  shows "sched_ok_but X h (set_tcb i t s)"
proof -
  have "t_rq_hart (sc_tcb (set_tcb i t s) j) = t_rq_hart (sc_tcb s j)" "tcb_ok (sc_tcb (set_tcb i t s) j) \<longleftrightarrow> tcb_ok (sc_tcb s j)" for j
    using assms(2,3) by (auto simp: tcb_ok_def)
  then show ?thesis using assms(1) by (simp add: sched_ok_but_def hart_ok_but_def del: sched_sel(1))
qed

lemma queued_rt:
  assumes "sched_ok s" "h < MAX_HARTS" "n < RT_PRIO_LEVELS" "i \<in> set (rq_rt (sc_rq s h) ! n)"
  shows "t_rq_hart (sc_tcb s i) = Some h"
proof -
  have ok: "hart_ok_but {} s h" using assms by (simp add: sched_ok_def)
  have "0 < entry_count (sc_rq s h) i"
    by (rule entry_count_pos [of n]) (use assms(3,4) rq_ok_butD(1) [OF hart_okD(1) [OF ok]] in auto)
  then show ?thesis using hart_okD(4) [OF ok, of i] by (auto split: if_splits)
qed

lemma queued_fair:
  assumes "hart_ok_but X s h" "btm_get (rq_groups (sc_rq s h)) k = Some g" "btm_get (fg_tasks g) i \<noteq> None"
  shows "t_rq_hart (sc_tcb s i) = Some h"
proof -
  have "0 < entry_count (sc_rq s h) i"
    by (rule entry_count_group [OF assms(2) rq_ok_butD(5) [OF hart_okD(1) [OF assms(1)] assms(2)] assms(3)])
  then show ?thesis using hart_okD(4) [OF assms(1), of i] by (auto split: if_splits)
qed

section \<open>Real-time queues\<close>

lemma release_ready_queue_eq:
  "t_rq_hart t = Some h \<Longrightarrow> release_ready_queue h t = (True, t\<lparr>t_rq_hart := None, t_in_ready := False\<rparr>)"
  by (simp add: release_ready_queue_def)

lemma rt_pop_ok:
  assumes ok: "sched_ok s" and h: "h < MAX_HARTS" and n: "n < RT_PRIO_LEVELS" and q: "rq_rt (sc_rq s h) ! n = c # q"
    and s1: "s1 = set_tcb c ((sc_tcb s c)\<lparr>t_rq_hart := None, t_in_ready := False\<rparr>) (dec_ready_rt_count h n (set_rtq h n q s))"
  shows "sched_ok s1" "rq_rt (sc_rq s1 h) ! n = q" "c \<notin> set q" "t_rq_hart (sc_tcb s c) = Some h"
proof -
  have hok: "hart_ok_but {} s h" using ok h by (simp add: sched_ok_def)
  note d = hart_okD [OF hok]
  have len: "length (rq_rt (sc_rq s h)) = RT_PRIO_LEVELS" by (rule rq_ok_butD(1) [OF d(1)])
  show c: "t_rq_hart (sc_tcb s c) = Some h" by (rule queued_rt [OF ok h n]) (simp add: q)
  have cnt: "entry_count (sc_rq s1 h) i + of_bool (i = c) = entry_count (sc_rq s h) i" for i
    using entry_count_rt [of n "sc_rq s h" q i] n len q by (auto simp: s1 queue_count_def)
  show "rq_rt (sc_rq s1 h) ! n = q" using n len by (simp add: s1)
  show nq: "c \<notin> set q"
  proof
    assume "c \<in> set q"
    then have "0 < entry_count (sc_rq s1 h) c" using n len by (intro entry_count_pos [of n]) (simp_all add: s1)
    then show False using cnt [of c] d(4) [of c] c by simp
  qed
  have "entry_count (sc_rq s1 h) i = of_bool (t_rq_hart (sc_tcb s1 i) = Some h)" for i
    using cnt [of i] d(4) [of i] c by (auto simp: s1 split: if_splits)
  moreover have "rq_ok_but {} (sc_rq s1 h)" using rq_ok_rt [OF d(1)] len by (simp add: s1)
  moreover have "sc_rt_count s1 h m = length (rq_rt (sc_rq s1 h) ! m)" if "m < RT_PRIO_LEVELS" for m
    using d(3) [OF that] q len that by (auto simp: s1 nth_list_update)
  moreover have "sc_fair_count s1 h = fair_len (sc_rq s1 h)" using d(2) by (simp add: s1)
  ultimately have "hart_ok_but {} s1 h" by (simp add: hart_ok_but_def)
  moreover have "only_hart h s s1" using c by (auto simp: only_hart_def s1)
  moreover have "tcb_ok (sc_tcb s1 i)" for i using ok by (auto simp: s1 sched_ok_def tcb_ok_def)
  ultimately show "sched_ok s1" using sched_ok_update [of "{}" h s s1 "{}"] ok by (simp add: sched_ok_but_empty)
qed

text \<open>A task may run when it is ready and off every CPU. \<open>drops h s s' r\<close>: between \<open>s\<close> and \<open>s'\<close> hart \<open>h\<close>
  took tasks off its queue, and apart from \<open>r\<close> only tasks that may not run.\<close>

definition runnable :: "tcb \<Rightarrow> bool" where
  "runnable t \<longleftrightarrow> t_status t = Ready \<and> t_on_cpu t = OFF_CPU"

definition drops :: "nat \<Rightarrow> sched \<Rightarrow> sched \<Rightarrow> task_id option \<Rightarrow> bool" where
  "drops h s s' r \<longleftrightarrow> (\<forall>i. sc_tcb s' i = sc_tcb s i \<or>
     t_rq_hart (sc_tcb s i) = Some h \<and> t_rq_hart (sc_tcb s' i) = None \<and> (r = Some i \<or> \<not> runnable (sc_tcb s i)))"

definition picked :: "nat \<Rightarrow> sched \<Rightarrow> sched \<Rightarrow> task_id \<Rightarrow> bool" where
  "picked h s s' i \<longleftrightarrow> t_rq_hart (sc_tcb s i) = Some h \<and> runnable (sc_tcb s i) \<and>
     t_rq_hart (sc_tcb s' i) = None \<and> t_on_cpu (sc_tcb s' i) = of_nat h"

lemma drops_refl: "drops h s s r"
  by (simp add: drops_def)

lemma drops_trans: "drops h s s1 None \<Longrightarrow> drops h s1 s2 r \<Longrightarrow> drops h s s2 r"
  unfolding drops_def by (metis option.distinct(1))

lemma drops_queued: "drops h s s' None \<Longrightarrow> t_rq_hart (sc_tcb s' i) = Some h \<Longrightarrow> sc_tcb s' i = sc_tcb s i"
  unfolding drops_def by (metis option.distinct(1))

lemma drops_kept: "drops h s s' None \<Longrightarrow> t_rq_hart (sc_tcb s i) = Some h \<Longrightarrow> runnable (sc_tcb s i) \<Longrightarrow> sc_tcb s' i = sc_tcb s i"
  unfolding drops_def by (metis option.distinct(1))

lemma picked_after: "drops h s s1 None \<Longrightarrow> picked h s1 s2 i \<Longrightarrow> picked h s s2 i"
  unfolding picked_def using drops_queued by metis

text \<open>The queues of hart \<open>h\<close> apart from one real-time queue are as before.\<close>

definition other_queues :: "nat \<Rightarrow> nat \<Rightarrow> sched \<Rightarrow> sched \<Rightarrow> bool" where
  "other_queues h n s s' \<longleftrightarrow> rq_groups (sc_rq s' h) = rq_groups (sc_rq s h) \<and> rq_order (sc_rq s' h) = rq_order (sc_rq s h) \<and>
     (\<forall>m. m \<noteq> n \<longrightarrow> rq_rt (sc_rq s' h) ! m = rq_rt (sc_rq s h) ! m)"

lemma other_queues_trans: "other_queues h n s s1 \<Longrightarrow> other_queues h n s1 s2 \<Longrightarrow> other_queues h n s s2"
  by (simp add: other_queues_def)

lemma pop_ready_rt_candidate_ok:
  assumes "sched_ok s" "h < MAX_HARTS" "n < RT_PRIO_LEVELS" "rq_rt (sc_rq s h) ! n = q" "pop_ready_rt_candidate h n q s = (r, s')"
  shows "sched_ok s' \<and> drops h s s' r \<and> other_queues h n s s' \<and>
    (case r of None \<Rightarrow> rq_rt (sc_rq s' h) ! n = [] \<and> (\<forall>x\<in>set q. \<not> runnable (sc_tcb s x)) | Some c \<Rightarrow> picked h s s' c \<and> c \<in> set q)"
  using assms
proof (induction q arbitrary: s)
  case Nil
  then show ?case by (simp add: drops_refl other_queues_def)
next
  case (Cons c q)
  define t where "t = (sc_tcb s c)\<lparr>t_rq_hart := None, t_in_ready := False\<rparr>"
  define s1 where "s1 = set_tcb c t (dec_ready_rt_count h n (set_rtq h n q s))"
  note p = rt_pop_ok [OF Cons.prems(1-4) s1_def [unfolded t_def]]
  have rel: "release_ready_queue h (sc_tcb s c) = (True, t)" unfolding t_def by (rule release_ready_queue_eq [OF p(4)])
  have o1: "other_queues h n s s1" by (simp add: other_queues_def s1_def)
  have fld: "t_status t = t_status (sc_tcb s c)" "t_on_cpu t = t_on_cpu (sc_tcb s c)" "t_rq_hart t = None" by (simp_all add: t_def)
  show ?case
  proof (cases "runnable (sc_tcb s c)")
    case True
    define t2 where "t2 = t\<lparr>t_cpu_id := h, t_on_cpu := of_nat h\<rparr>"
    have "try_mark_on_cpu h t = (True, t2)" using True fld by (simp add: try_mark_on_cpu_def runnable_def t2_def)
    then have r: "r = Some c" "s' = set_tcb c t2 s1"
      using Cons.prems(5) rel True fld by (simp_all add: s1_def runnable_def)
    have "sched_ok s'" using sched_ok_set_tcb [of "{}" h s1 t2 c] p(1) by (simp add: r sched_ok_but_empty t2_def s1_def)
    moreover have "other_queues h n s s'" using o1 by (simp add: other_queues_def r)
    moreover have "drops h s s' (Some c)" using p(4) by (auto simp: drops_def r s1_def t2_def fld)
    moreover have "picked h s s' c" using p(4) True by (simp add: picked_def r t2_def fld)
    ultimately show ?thesis using r by simp
  next
    case False
    define s2 where "s2 = (if t_status t = Ready then set_tcb c (t\<lparr>t_cpu_id := h\<rparr>) s1 else s1)"
    have "pop_ready_rt_candidate h n (c # q) s = pop_ready_rt_candidate h n q s2"
      using rel False fld by (auto simp: s1_def s2_def runnable_def try_mark_on_cpu_def)
    then have run: "pop_ready_rt_candidate h n q s2 = (r, s')" using Cons.prems(5) by simp
    have ok2: "sched_ok s2" using sched_ok_set_tcb [of "{}" h s1 "t\<lparr>t_cpu_id := h\<rparr>" c] p(1)
      by (simp add: s2_def sched_ok_but_empty s1_def)
    have q2: "rq_rt (sc_rq s2 h) ! n = q" using p(2) by (simp add: s2_def)
    have d2: "drops h s s2 None" using p(4) False by (auto simp: drops_def s2_def s1_def fld)
    have o2: "other_queues h n s s2" using o1 by (simp add: other_queues_def s2_def)
    have "\<forall>x\<in>set q. sc_tcb s2 x = sc_tcb s x" using p(3) by (auto simp: s2_def s1_def)
    with Cons.IH [OF ok2 Cons.prems(2,3) q2 run] drops_trans [OF d2] picked_after [OF d2] other_queues_trans [OF o2] False
    show ?thesis by (auto split: option.splits)
  qed
qed

text \<open>The scan over the priorities, highest first.\<close>

lemma fetch_rt_ok:
  assumes "sched_ok s" "h < MAX_HARTS" "distinct ns" "set ns \<subseteq> {..<RT_PRIO_LEVELS}" "fetch_rt h ns s = (r, s')"
  shows "sched_ok s' \<and> drops h s s' r \<and> rq_groups (sc_rq s' h) = rq_groups (sc_rq s h) \<and> rq_order (sc_rq s' h) = rq_order (sc_rq s h) \<and>
    (\<forall>m. m \<notin> set ns \<longrightarrow> rq_rt (sc_rq s' h) ! m = rq_rt (sc_rq s h) ! m) \<and>
    (case r of
       None \<Rightarrow> \<forall>n\<in>set ns. rq_rt (sc_rq s' h) ! n = [] \<and> (\<forall>x\<in>set (rq_rt (sc_rq s h) ! n). \<not> runnable (sc_tcb s x))
     | Some c \<Rightarrow> picked h s s' c \<and> (\<exists>ns1 n ns2. ns = ns1 @ n # ns2 \<and> c \<in> set (rq_rt (sc_rq s h) ! n) \<and>
         (\<forall>m\<in>set ns1. \<forall>x\<in>set (rq_rt (sc_rq s h) ! m). \<not> runnable (sc_tcb s x))))"
  using assms
proof (induction ns arbitrary: s)
  case Nil
  then show ?case by (simp add: drops_refl)
next
  case (Cons n ns)
  have n: "n < RT_PRIO_LEVELS" and ns: "distinct ns" "set ns \<subseteq> {..<RT_PRIO_LEVELS}" "n \<notin> set ns" using Cons.prems(3,4) by auto
  obtain r1 s1 where p: "pop_ready_rt_candidate h n (rq_rt (sc_rq s h) ! n) s = (r1, s1)" by fastforce
  note ok = pop_ready_rt_candidate_ok [OF Cons.prems(1,2) n refl p]
  show ?case
  proof (cases r1)
    case (Some c)
    then have "r = Some c" "s' = s1" using Cons.prems(5) p by auto
    then show ?thesis using ok Some by (auto simp: other_queues_def intro!: exI [of _ "[]"])
  next
    case None
    then have run: "fetch_rt h ns s1 = (r, s')" using Cons.prems(5) p by simp
    have ok1: "sched_ok s1" and d1: "drops h s s1 None" and nr: "\<forall>x\<in>set (rq_rt (sc_rq s h) ! n). \<not> runnable (sc_tcb s x)"
      and eq: "rq_groups (sc_rq s1 h) = rq_groups (sc_rq s h)" "rq_order (sc_rq s1 h) = rq_order (sc_rq s h)"
        "\<And>m. m \<noteq> n \<Longrightarrow> rq_rt (sc_rq s1 h) ! m = rq_rt (sc_rq s h) ! m" "rq_rt (sc_rq s1 h) ! n = []"
      using ok None ns(3) by (auto simp: other_queues_def)
    have nrb: "\<not> runnable (sc_tcb s x)" if m: "m \<in> set ns" and x: "x \<in> set (rq_rt (sc_rq s h) ! m)" "\<not> runnable (sc_tcb s1 x)" for m x
      using drops_kept [OF d1, of x] queued_rt [OF Cons.prems(1,2), of m x] m x ns(2) by auto
    note IH = Cons.IH [OF ok1 Cons.prems(2) ns(1,2) run]
    show ?thesis
    proof (cases r)
      case None
      then have "\<forall>x\<in>set (rq_rt (sc_rq s h) ! m). \<not> runnable (sc_tcb s x)" if "m \<in> set ns" for m
      proof -
        have "m \<noteq> n" using that ns(3) by auto
        then show ?thesis using IH None nrb [OF that] eq(3) [of m] that by auto
      qed
      then show ?thesis using None IH drops_trans [OF d1] eq nr ns(3) by auto
    next
      case (Some c)
      from IH Some obtain ns1 m ns2 where m: "ns = ns1 @ m # ns2" "c \<in> set (rq_rt (sc_rq s1 h) ! m)"
        "\<forall>m\<in>set ns1. \<forall>x\<in>set (rq_rt (sc_rq s1 h) ! m). \<not> runnable (sc_tcb s1 x)" and pk: "picked h s1 s' c" by auto
      have "n # ns = (n # ns1) @ m # ns2" "c \<in> set (rq_rt (sc_rq s h) ! m)" using m(1,2) eq(3) [of m] ns(3) by auto
      moreover have "\<not> runnable (sc_tcb s x)" if "k \<in> set ns1" "x \<in> set (rq_rt (sc_rq s h) ! k)" for k x
      proof -
        have "k \<noteq> n" using that(1) m(1) ns(3) by auto
        then show ?thesis using nrb [of k x] m(1,3) eq(3) [of k] that by auto
      qed
      then have "\<forall>k\<in>set (n # ns1). \<forall>x\<in>set (rq_rt (sc_rq s h) ! k). \<not> runnable (sc_tcb s x)" using nr by auto
      ultimately have "\<exists>ns1 k ns2. n # ns = ns1 @ k # ns2 \<and> c \<in> set (rq_rt (sc_rq s h) ! k) \<and>
          (\<forall>m\<in>set ns1. \<forall>x\<in>set (rq_rt (sc_rq s h) ! m). \<not> runnable (sc_tcb s x))" by blast
      then show ?thesis using IH Some drops_trans [OF d1] picked_after [OF d1 pk] eq ns(3) by auto
    qed
  qed
qed

section \<open>Fair groups\<close>

lemma btm_insert_twice: "btm_insert k v (btm_insert k w m) = btm_insert k v m"
  by (induction m) auto

text \<open>An entity leaves the group that is being worked on and its task gives up the claim.\<close>

lemma put_group_step:
  assumes ok: "sched_ok_but {k} h (put_group h k g s)" and h: "h < MAX_HARTS" and e: "btm_get (fg_tasks g) i = Some e"
    and s1: "sc_rq s1 = sc_rq s" "sc_rt_count s1 = sc_rt_count s" "sc_fair_count s1 = (sc_fair_count s)(h := sc_fair_count s h - 1)"
      "sc_tcb s1 = (sc_tcb s)(i := t)" "t_rq_hart t = None" "\<not> t_in_ready t"
    and g1: "group_ok g1" "fg_tasks g1 = btm_remove i (fg_tasks g)"
  shows "sched_ok_but {k} h (put_group h k g1 s1)" "t_rq_hart (sc_tcb s i) = Some h"
proof -
  let ?S = "put_group h k g s" let ?T = "put_group h k g1 s1"
  note hok = sched_ok_hart [OF ok h]
  note d = hart_okD [OF hok]
  have get: "btm_get (rq_groups (sc_rq ?S h)) k = Some g" by simp
  have gok: "group_ok g" by (rule rq_ok_butD(5) [OF d(1) get])
  have inv: "btm_inv (fg_tasks g)" using gok by (simp add: group_ok_def)
  have rq: "sc_rq ?T h = (sc_rq ?S h)\<lparr>rq_groups := btm_insert k g1 (rq_groups (sc_rq ?S h))\<rparr>"
    by (simp add: s1 btm_insert_twice)
  have binv: "btm_inv (rq_groups (sc_rq ?S h))" by (rule rq_ok_butD(2) [OF d(1)])
  show c: "t_rq_hart (sc_tcb s i) = Some h" using queued_fair [OF hok get, of i] e by simp
  have cnt: "entry_count (sc_rq ?T h) j + of_bool (j = i) = entry_count (sc_rq ?S h) j" for j
    using entry_count_put [OF binv, of k g1 j] get group_count [OF gok, of j] group_count [OF g1(1), of j] e
    unfolding rq by (auto simp: g1(2) split: if_splits)
  have "entry_count (sc_rq ?T h) j = of_bool (t_rq_hart (sc_tcb ?T j) = Some h)" for j
    using cnt [of j] d(4) [of j] c s1 by (cases "j = i") auto
  moreover have "rq_ok_but {k} (sc_rq ?T h)" unfolding rq by (rule rq_ok_put [OF d(1) g1(1)])
  moreover have "sc_fair_count ?T h = fair_len (sc_rq ?T h)"
    using group_sum_put [OF binv, of "\<lambda>g. length (fg_tasks g)" k g1] get d(2) btm.len_rem [OF inv, of i] btm.len_pos [OF inv e] e
    unfolding rq fair_len_alt by (simp add: s1 g1(2))
  moreover have "\<forall>n<RT_PRIO_LEVELS. sc_rt_count ?T h n = length (rq_rt (sc_rq ?T h) ! n)" using d(3) by (simp add: s1)
  ultimately have "hart_ok_but {k} ?T h" by (simp add: hart_ok_but_def)
  moreover have "only_hart h ?S ?T" using c s1 by (auto simp: only_hart_def)
  moreover have "tcb_ok (sc_tcb ?T j)" for j using ok s1 by (auto simp: sched_ok_but_def tcb_ok_def)
  ultimately show "sched_ok_but {k} h ?T" using sched_ok_update [OF ok] by blast
qed

lemma peek_scan_cong:
  assumes "indexed g xs" "indexed g' xs" "\<And>d v i. (d, v, i) \<in> set xs \<Longrightarrow> live i = live' i"
  shows "peek_scan g live el fb xs = peek_scan g' live' el fb xs"
  using assms
proof (induction xs arbitrary: fb)
  case (Cons x xs)
  obtain d v i where x: "x = (d, v, i)" by (cases x)
  have "live i = live' i" using Cons.prems(3) [of d v i] x by simp
  moreover have "peek_scan g live el fb' xs = peek_scan g' live' el fb' xs" for fb'
    using Cons.IH indexed_Cons [OF Cons.prems(1)] indexed_Cons [OF Cons.prems(2)] Cons.prems(3) by (metis list.set_intros(2))
  ultimately show ?case
    using peek_scan_Cons [OF Cons.prems(1) [unfolded x]] peek_scan_Cons [OF Cons.prems(2) [unfolded x]] x by simp
qed simp

lemma prune_scan_peek: "indexed g xs \<Longrightarrow> prune_scan g live el fb xs = peek_scan g live el fb xs"
proof (induction xs arbitrary: fb)
  case (Cons x xs)
  obtain d v i where x: "x = (d, v, i)" by (cases x)
  obtain e where "btm_get (fg_tasks g) i = Some e" "fe_deadline e = d" "fe_vruntime e = v" "fe_task e = i"
    using Cons.prems x unfolding indexed_def by (meson list.set_intros(1))
  then show ?case using Cons.IH indexed_Cons [OF Cons.prems] x by auto
qed simp

lemma indexedD:
  assumes "indexed g xs" "(d, v, i) \<in> set xs"
  obtains e where "btm_get (fg_tasks g) i = Some e" "fe_deadline e = d" "fe_vruntime e = v" "fe_task e = i"
  using assms unfolding indexed_def by blast

lemma peek_scan_found: "indexed g xs \<Longrightarrow> peek_scan g live el (Some p) xs \<noteq> None"
proof (induction xs arbitrary: p)
  case (Cons x xs)
  obtain d v i where x: "x = (d, v, i)" by (cases x)
  show ?case using peek_scan_Cons [OF Cons.prems [unfolded x], of live el "Some p"] Cons.IH [OF indexed_Cons [OF Cons.prems]] x
    by (auto simp del: peek_scan.simps)
qed simp

text \<open>One round of the loop on a stale entity.\<close>

lemma prune_stale:
  assumes ok: "sched_ok_but {k} h (put_group h k g s)" and h: "h < MAX_HARTS" and gok: "group_ok g"
    and o: "fg_order g = (d, v, i) # rest" and e: "btm_get (fg_tasks g) i = Some e" "fe_task e = i"
    and stale: "\<not> live_on s h i" and g1: "g1 = snd (unlink_task i g)" and s1: "s1 = drop_stale h i s"
  shows "sched_ok_but {k} h (put_group h k g1 s1)" "drops h s s1 None" "sc_rq s1 = sc_rq s" "fg_vruntime g1 = fg_vruntime g"
    "length (fg_tasks g1) < length (fg_tasks g)"
    "live_on s h j \<Longrightarrow> sc_tcb s1 j = sc_tcb s j \<and> btm_get (fg_tasks g1) j = btm_get (fg_tasks g) j \<and> live_on s1 h j"
    "peek_scan g (live_on s h) el None (fg_order g) = peek_scan g1 (live_on s1 h) el None (fg_order g1)"
proof -
  note hok = sched_ok_hart [OF ok h]
  have u: "unlink_task i g = (Some e, g1)" using e by (simp add: g1 unlink_task_def)
  note uk = unlink_task_ok [OF gok u]
  have c: "t_rq_hart (sc_tcb s i) = Some h" using queued_fair [OF hok, of k g i] e by simp
  define t where "t = (sc_tcb s i)\<lparr>t_rq_hart := None, t_in_ready := False\<rparr>"
  have sc: "sc_rq s1 = sc_rq s" "sc_rt_count s1 = sc_rt_count s" "sc_fair_count s1 = (sc_fair_count s)(h := sc_fair_count s h - 1)"
    "sc_tcb s1 = (sc_tcb s)(i := t)" "t_rq_hart t = None" "\<not> t_in_ready t"
    using c by (simp_all add: s1 drop_stale_def t_def)
  show "sched_ok_but {k} h (put_group h k g1 s1)" by (rule put_group_step(1) [OF ok h e(1) sc uk(1,3)])
  show "drops h s s1 None" using c stale sc by (auto simp: drops_def live_on_def runnable_def)
  show "sc_rq s1 = sc_rq s" by (rule sc(1))
  show "fg_vruntime g1 = fg_vruntime g" by (rule uk(4))
  have binv: "btm_inv (fg_tasks g)" using gok by (simp add: group_ok_def)
  show "length (fg_tasks g1) < length (fg_tasks g)"
    using btm.len_rem [OF binv, of i] btm.len_pos [OF binv e(1)] e(1) by (simp add: uk(3))
  have lv: "live_on s1 h j \<longleftrightarrow> live_on s h j" if "j \<noteq> i" for j using that sc(4) by (simp add: live_on_def)
  show "live_on s h j \<Longrightarrow> sc_tcb s1 j = sc_tcb s j \<and> btm_get (fg_tasks g1) j = btm_get (fg_tasks g) j \<and> live_on s1 h j"
    using stale lv [of j] sc(4) uk(3) by (cases "j = i") auto
  note ix = indexed_order [OF gok]
  have ixr: "indexed g rest" using ix o indexed_Cons by metis
  have rest: "snd (snd y) \<noteq> i" if y: "y \<in> set rest" for y
  proof
    assume i: "snd (snd y) = i"
    have "y = (d, v, i)"
      using order_mem [OF gok, of "fst y" "fst (snd y)" i] order_mem [OF gok, of d v i] y o i e(1)
      by (metis (no_types, lifting) list.set_intros option.inject prod.collapse)
    moreover have "distinct (fg_order g)" using gok by (simp add: group_ok_def bts_inv_distinct)
    ultimately show False using y o by simp
  qed
  have ord: "fg_order g1 = rest" using uk(6) o rest by (simp add: filter_id_conv)
  have "peek_scan g (live_on s h) el None (fg_order g) = peek_scan g (live_on s h) el None rest"
    using peek_scan_Cons [OF ix [unfolded o], of "live_on s h" el None] stale o by (simp del: peek_scan.simps)
  also have "\<dots> = peek_scan g1 (live_on s1 h) el None (fg_order g1)"
    unfolding ord
  proof (rule peek_scan_cong [OF ixr])
    show "indexed g1 rest" using indexed_order [OF uk(1)] ord by simp
    show "live_on s h j = live_on s1 h j" if "(d', v', j) \<in> set rest" for d' v' j
      using lv [of j] rest [OF that] by simp
  qed
  finally show "peek_scan g (live_on s h) el None (fg_order g) = peek_scan g1 (live_on s1 h) el None (fg_order g1)" .
qed

text \<open>Dropping the stale entities in front ends, and chooses what \<open>peek_fair_group_task\<close> foretells.\<close>

lemma prune_loop_ok:
  assumes "sched_ok_but {k} h (put_group h k g s)" and h: "h < MAX_HARTS"
  shows "\<exists>g' s'. prune_loop h el g s = Some (peek_scan g (live_on s h) el None (fg_order g), g', s') \<and>
    sched_ok_but {k} h (put_group h k g' s') \<and> drops h s s' None \<and> sc_rq s' = sc_rq s \<and> fg_vruntime g' = fg_vruntime g \<and>
    (\<forall>i. live_on s h i \<longrightarrow> sc_tcb s' i = sc_tcb s i \<and> btm_get (fg_tasks g') i = btm_get (fg_tasks g) i) \<and>
    length (fg_tasks g') \<le> length (fg_tasks g) \<and>
    (peek_scan g (live_on s h) el None (fg_order g) = None \<longrightarrow> fg_tasks g' = [])"
  using assms(1)
proof (induction "length (fg_tasks g)" arbitrary: g s rule: less_induct)
  case less
  have gok: "group_ok g" by (rule rq_ok_butD(5) [OF hart_okD(1) [OF sched_ok_hart [OF less.prems h]], of k]) simp
  note ix = indexed_order [OF gok]
  show ?case
  proof (cases "fg_order g")
    case Nil
    then have "fg_tasks g = []" using gok by (auto simp: group_ok_def)
    then show ?thesis using Nil less.prems by (subst prune_loop.simps) (auto simp: drops_refl)
  next
    case (Cons x rest)
    obtain d v i where x: "x = (d, v, i)" by (cases x)
    obtain e where e: "btm_get (fg_tasks g) i = Some e" "fe_deadline e = d" "fe_vruntime e = v" "fe_task e = i"
      using indexedD [OF ix, of d v i] Cons x by auto
    have ixr: "indexed g rest" using ix Cons indexed_Cons by metis
    note pk = peek_scan_Cons [OF ix [unfolded Cons x], of "live_on s h" el None]
    show ?thesis
    proof (cases "live_on s h i")
      case True
      have "prune_loop h el g s = Some (peek_scan g (live_on s h) el None (fg_order g), g, s)"
        using Cons x e True pk prune_scan_peek [OF ixr] by (subst prune_loop.simps) (simp del: peek_scan.simps)
      moreover have "peek_scan g (live_on s h) el None (fg_order g) \<noteq> None"
        using Cons x True pk peek_scan_found [OF ixr] by (simp del: peek_scan.simps)
      ultimately show ?thesis using less.prems by (auto simp: drops_refl)
    next
      case False
      note p = prune_stale [OF less.prems h gok Cons [unfolded x] e(1,4) False refl refl]
      have run: "prune_loop h el g s = prune_loop h el (snd (unlink_task i g)) (drop_stale h i s)"
        using Cons x e False by (subst prune_loop.simps) simp
      define g1 where "g1 = snd (unlink_task i g)"
      define s1 where "s1 = drop_stale h i s"
      note q = p [folded g1_def s1_def]
      obtain g' s' where IH: "prune_loop h el g1 s1 = Some (peek_scan g1 (live_on s1 h) el None (fg_order g1), g', s')"
        "sched_ok_but {k} h (put_group h k g' s')" "drops h s1 s' None" "sc_rq s' = sc_rq s1" "fg_vruntime g' = fg_vruntime g1"
        "\<forall>j. live_on s1 h j \<longrightarrow> sc_tcb s' j = sc_tcb s1 j \<and> btm_get (fg_tasks g') j = btm_get (fg_tasks g1) j"
        "length (fg_tasks g') \<le> length (fg_tasks g1)"
        "peek_scan g1 (live_on s1 h) el None (fg_order g1) = None \<longrightarrow> fg_tasks g' = []"
        using less.hyps [OF q(5,1)] by (elim exE conjE) (rule that)
      have "\<forall>j. live_on s h j \<longrightarrow> sc_tcb s' j = sc_tcb s j \<and> btm_get (fg_tasks g') j = btm_get (fg_tasks g) j"
        using IH(6) q(6) by metis
      then show ?thesis
        using IH(1,2,4,5,7,8) drops_trans [OF q(2) IH(3)] q(3,4,5)
        unfolding run g1_def [symmetric] s1_def [symmetric] q(7) by (intro exI [of _ g'] exI [of _ s']) auto
    qed
  qed
qed

lemma btm_insert_same: "btm_inv m \<Longrightarrow> btm_get m k = Some v \<Longrightarrow> btm_insert k v m = m"
proof (induction m)
  case (Cons p m)
  have inv: "btm_inv m" and lt: "\<forall>q\<in>set m. fst p < fst q" using Cons.prems by (auto simp: btm_inv_def)
  show ?case
  proof (cases "fst p = k")
    case True
    then show ?thesis using Cons.prems(2) by (cases p) (simp add: btm_get_def)
  next
    case False
    then have g: "btm_get m k = Some v" using Cons.prems(2) by (simp add: btm_get_def)
    then have "fst p < k" using lt btm_get_in_set [OF g] by force
    then show ?thesis using Cons.IH [OF inv g] by simp
  qed
qed simp

lemma put_group_same:
  assumes "btm_inv (rq_groups (sc_rq s h))" "btm_get (rq_groups (sc_rq s h)) k = Some g"
  shows "put_group h k g s = s"
  using btm_insert_same [OF assms] by (simp add: put_group_def set_rq_def)

lemma sched_ok_settle:
  assumes ok: "sched_ok_but {k} h s" and h: "h < MAX_HARTS"
  shows "sched_ok (set_rq h (settle_group k ((sc_rq s h)\<lparr>rq_min_fair := m\<rparr>)) s)"
proof -
  let ?rq = "settle_group k ((sc_rq s h)\<lparr>rq_min_fair := m\<rparr>)"
  note d = hart_okD [OF sched_ok_hart [OF ok h]]
  have r: "rq_ok_but {k} ((sc_rq s h)\<lparr>rq_min_fair := m\<rparr>)" by (rule rq_ok_min [OF d(1)])
  have "hart_ok_but {} (set_rq h ?rq s) h"
    using rq_ok_settle [OF r] d entry_count_settle [OF rq_ok_butD(2) [OF r]] fair_len_settle [OF rq_ok_butD(2) [OF r]]
    by (simp add: hart_ok_but_def)
  moreover have "only_hart h s (set_rq h ?rq s)" by (simp add: only_hart_def)
  moreover have "tcb_ok (sc_tcb (set_rq h ?rq s) i)" for i using ok by (simp add: sched_ok_but_def)
  ultimately show ?thesis using sched_ok_update [OF ok] sched_ok_but_empty by blast
qed

lemma live_on_drops:
  assumes "drops h s s' None" "\<And>i. live_on s h i \<Longrightarrow> sc_tcb s' i = sc_tcb s i"
  shows "live_on s' h = live_on s h"
proof
  fix i
  show "live_on s' h i = live_on s h i"
    using assms(2) [of i] drops_queued [OF assms(1), of i] unfolding live_on_def by metis
qed

lemma fair_len_put:
  assumes "btm_inv (rq_groups rq)" "btm_get (rq_groups rq) k = Some g"
  shows "fair_len (rq\<lparr>rq_groups := btm_insert k g' (rq_groups rq)\<rparr>) + length (fg_tasks g) = fair_len rq + length (fg_tasks g')"
  using group_sum_put [OF assms(1), of "\<lambda>g. length (fg_tasks g)" k g'] assms(2) by (simp add: fair_len_alt)

text \<open>A group whose entities are all stale disappears.\<close>

lemma take_none:
  assumes ok: "sched_ok_but {k} h s" and h: "h < MAX_HARTS" and g: "btm_get (rq_groups (sc_rq s h)) k = Some g"
    and pk: "peek_fair_group_task g (live_on s h) = None" and ne: "fg_tasks g \<noteq> []"
  shows "\<exists>s'. take_from_group h k g s = Some (None, s') \<and> sched_ok s' \<and> drops h s s' None \<and> live_on s' h = live_on s h \<and>
    fair_len (sc_rq s' h) < fair_len (sc_rq s h) \<and> rq_order (sc_rq s' h) = rq_order (sc_rq s h) \<and>
    rq_groups (sc_rq s' h) = btm_remove k (rq_groups (sc_rq s h)) \<and> rq_rt (sc_rq s' h) = rq_rt (sc_rq s h)"
proof -
  note d = hart_okD [OF sched_ok_hart [OF ok h]]
  have inv: "btm_inv (rq_groups (sc_rq s h))" by (rule rq_ok_butD(2) [OF d(1)])
  have ok': "sched_ok_but {k} h (put_group h k g s)" using ok by (simp add: put_group_same [OF inv g])
  obtain g1 s1 where p: "prune_loop h (eligible_bound g) g s = Some (None, g1, s1)" "sched_ok_but {k} h (put_group h k g1 s1)"
    "drops h s s1 None" "sc_rq s1 = sc_rq s" "fg_tasks g1 = []" "\<And>i. live_on s h i \<Longrightarrow> sc_tcb s1 i = sc_tcb s i"
    using prune_loop_ok [OF ok' h, of "eligible_bound g"] pk by (auto simp: peek_fair_group_task_def)
  let ?P = "put_group h k g1 s1" let ?s = "set_rq h (settle_group k (sc_rq ?P h)) ?P"
  have st: "settle_group k (sc_rq ?P h) = (sc_rq s h)\<lparr>rq_groups := btm_remove k (rq_groups (sc_rq s h))\<rparr>"
  proof -
    have "btm_remove k (btm_insert k g1 m) = btm_remove k m" for m :: "(nat, fair_group) btree_map"
      by (induction m) (auto simp: btm_remove_def)
    then show ?thesis using p(4,5) by (simp add: settle_group_def group_is_empty_def)
  qed
  have t: "take_from_group h k g s = Some (None, ?s)" using p(1) by (simp add: take_from_group_def prune_fair_group_front_def)
  have "sched_ok ?s" using sched_ok_settle [OF p(2) h, of "rq_min_fair (sc_rq ?P h)"] by simp
  moreover have dr: "drops h s ?s None" using p(3) by (simp add: drops_def)
  moreover have "live_on ?s h = live_on s h" by (rule live_on_drops [OF dr]) (simp add: p(6))
  moreover have "fair_len (settle_group k (sc_rq ?P h)) < fair_len (sc_rq s h)"
    using fair_len_settle [OF rq_ok_butD(2) [OF hart_okD(1) [OF sched_ok_hart [OF p(2) h]]], of k] fair_len_put [OF inv g, of g1] p(4,5) ne
    by (cases "fg_tasks g") simp_all
  ultimately show ?thesis using t st by (intro exI [of _ ?s]) simp
qed

text \<open>Otherwise one live task is taken; its claim is given up next.\<close>

lemma take_some:
  assumes ok: "sched_ok_but {k} h s" and h: "h < MAX_HARTS" and g: "btm_get (rq_groups (sc_rq s h)) k = Some g"
    and pk: "peek_fair_group_task g (live_on s h) = Some i"
  shows "\<exists>s'. take_from_group h k g s = Some (Some i, s') \<and> live_on s h i \<and> sc_tcb s' i = sc_tcb s i \<and> drops h s s' None \<and>
    fair_len (sc_rq s' h) < fair_len (sc_rq s h) \<and> rq_rt (sc_rq s' h) = rq_rt (sc_rq s h) \<and>
    (\<forall>t. t_rq_hart t = None \<longrightarrow> \<not> t_in_ready t \<longrightarrow> sched_ok (set_tcb i t s'))"
proof -
  note d = hart_okD [OF sched_ok_hart [OF ok h]]
  have inv: "btm_inv (rq_groups (sc_rq s h))" by (rule rq_ok_butD(2) [OF d(1)])
  have gok: "group_ok g" by (rule rq_ok_butD(5) [OF d(1) g])
  have live: "live_on s h i" and mem: "btm_get (fg_tasks g) i \<noteq> None" using peek_Some [OF gok pk] by auto
  have ok': "sched_ok_but {k} h (put_group h k g s)" using ok by (simp add: put_group_same [OF inv g])
  obtain g1 s1 where p: "prune_loop h (eligible_bound g) g s = Some (Some i, g1, s1)" "sched_ok_but {k} h (put_group h k g1 s1)"
    "drops h s s1 None" "sc_rq s1 = sc_rq s" "sc_tcb s1 i = sc_tcb s i" "btm_get (fg_tasks g1) i = btm_get (fg_tasks g) i"
    "length (fg_tasks g1) \<le> length (fg_tasks g)"
    using prune_loop_ok [OF ok' h, of "eligible_bound g"] pk live by (auto simp: peek_fair_group_task_def)
  have gok1: "group_ok g1" by (rule rq_ok_butD(5) [OF hart_okD(1) [OF sched_ok_hart [OF p(2) h]], of k]) simp
  obtain e where e: "btm_get (fg_tasks g1) i = Some e" "fe_task e = i" using mem p(6) entity_task [OF gok1] by fastforce
  obtain g2 where u: "unlink_task i g1 = (Some e, g2)" using e by (simp add: unlink_task_def)
  note uk = unlink_task_ok [OF gok1 u]
  define g3 where "g3 = g2\<lparr>fg_min_vruntime := max (fg_min_vruntime g2) (fe_vruntime e)\<rparr>"
  have gok3: "group_ok g3" "fg_tasks g3 = btm_remove i (fg_tasks g1)" using uk by (simp_all add: g3_def group_ok_def)
  define P where "P = put_group h k g3 (dec_ready_fair_count h s1)"
  define rq where "rq = (sc_rq P h)\<lparr>rq_min_fair := max (rq_min_fair (sc_rq P h)) (fg_vruntime g3)\<rparr>"
  define s' where "s' = set_rq h (settle_group k rq) P"
  have t: "take_from_group h k g s = Some (Some i, s')"
    using p(1) u e(2) by (simp add: take_from_group_def prune_fair_group_front_def g3_def P_def rq_def s'_def Let_def)
  have ok3: "sched_ok_but {k} h (put_group h k g3 (set_tcb i t (dec_ready_fair_count h s1)))" if "t_rq_hart t = None" "\<not> t_in_ready t" for t
    by (rule put_group_step(1) [OF p(2) h e(1) _ _ _ _ that gok3]) simp_all
  have "sched_ok (set_tcb i t s')" if "t_rq_hart t = None" "\<not> t_in_ready t" for t
  proof -
    let ?Q = "put_group h k g3 (set_tcb i t (dec_ready_fair_count h s1))"
    have "set_tcb i t s' = set_rq h (settle_group k ((sc_rq ?Q h)\<lparr>rq_min_fair := max (rq_min_fair (sc_rq P h)) (fg_vruntime g3)\<rparr>)) ?Q"
      by (simp add: s'_def rq_def P_def put_group_def set_rq_def set_tcb_def dec_ready_fair_count_def)
    then show ?thesis using sched_ok_settle [OF ok3 [OF that] h] by simp
  qed
  moreover have "fair_len (sc_rq s' h) < fair_len (sc_rq s h)"
  proof -
    have i3: "btm_inv (rq_groups rq)" using btm_inv_insert [OF inv] p(4) by (simp add: rq_def P_def)
    have b1: "btm_inv (fg_tasks g1)" using gok1 by (simp add: group_ok_def)
    have "length (fg_tasks g3) < length (fg_tasks g)"
      using btm.len_rem [OF b1, of i] btm.len_pos [OF b1 e(1)] e(1) p(7) gok3(2) by (cases "fg_tasks g1") simp_all
    then show ?thesis using fair_len_settle [OF i3, of k] fair_len_put [OF inv g, of g3] p(4) by (simp add: s'_def rq_def P_def)
  qed
  moreover have "drops h s s' None" "sc_tcb s' i = sc_tcb s i" "rq_rt (sc_rq s' h) = rq_rt (sc_rq s h)"
    using p(3,4,5) by (simp_all add: s'_def P_def rq_def drops_def)
  ultimately show ?thesis using t live by blast
qed

section \<open>Fetching\<close>

text \<open>The group and task that \<open>fair_task_is_next_on_hart\<close> looks for.\<close>

fun next_choice :: "sched \<Rightarrow> nat \<Rightarrow> (nat \<times> nat) list \<Rightarrow> (nat \<times> task_id) option" where
  "next_choice s h [] = None"
| "next_choice s h ((v, k) # rest) =
     (case btm_get (rq_groups (sc_rq s h)) k of
        None \<Rightarrow> next_choice s h rest
      | Some g \<Rightarrow>
          if fg_vruntime g \<noteq> v then next_choice s h rest
          else (case peek_fair_group_task g (live_on s h) of None \<Rightarrow> next_choice s h rest | Some i \<Rightarrow> Some (k, i)))"

lemma next_scan_choice: "next_scan s h k i xs \<longleftrightarrow> next_choice s h xs = Some (k, i)"
  by (induction s h k i xs rule: next_scan.induct) (auto split: option.splits)

lemma next_choice_cong:
  assumes "live_on s' h = live_on s h"
    "\<And>v k. (v, k) \<in> set xs \<Longrightarrow> btm_get (rq_groups (sc_rq s' h)) k = btm_get (rq_groups (sc_rq s h)) k"
  shows "next_choice s' h xs = next_choice s h xs"
  using assms(2)
proof (induction xs)
  case (Cons x xs)
  obtain v k where x: "x = (v, k)" by (cases x)
  have "btm_get (rq_groups (sc_rq s' h)) k = btm_get (rq_groups (sc_rq s h)) k" using Cons.prems [of v k] x by simp
  moreover have "next_choice s' h xs = next_choice s h xs" using Cons.IH Cons.prems by (meson list.set_intros(2))
  ultimately show ?case using assms(1) x by (simp split: option.split)
qed simp

text \<open>The loop body on the first group of the order.\<close>

definition pop_fair_rest :: "nat \<Rightarrow> task_id option \<times> sched \<Rightarrow> (task_id option \<times> sched) option" where
  "pop_fair_rest h = (\<lambda>(picked, s2).
     case picked of
       None \<Rightarrow> pop_ready_fair_candidate h s2
     | Some i \<Rightarrow>
         let (still_queued_here, t) = release_ready_queue h (sc_tcb s2 i) in
         if \<not> still_queued_here then pop_ready_fair_candidate h (set_tcb i t s2)
         else
           let (marked, t2) = try_mark_on_cpu h (t\<lparr>t_checkpoint := t_cpu_time t\<rparr>); s3 = set_tcb i t2 s2
           in if marked then Some (Some i, s3) else pop_ready_fair_candidate h s3)"

lemma pop_fair_first:
  assumes ok: "sched_ok s" and h: "h < MAX_HARTS" and ord: "rq_order (sc_rq s h) = (v, k) # rest"
  obtains g s1 where "btm_get (rq_groups (sc_rq s h)) k = Some g" "fg_vruntime g = v" "fg_tasks g \<noteq> []"
    "sched_ok_but {k} h s1" "sc_tcb s1 = sc_tcb s" "sc_rq s1 h = (sc_rq s h)\<lparr>rq_order := rest\<rparr>"
    "pop_ready_fair_candidate h s = Option.bind (take_from_group h k g s1) (pop_fair_rest h)"
proof -
  have hok: "hart_ok_but {} s h" using ok h by (simp add: sched_ok_def)
  note d = hart_okD [OF hok]
  have mem: "(v, k) \<in> set (rq_order (sc_rq s h))" using ord by simp
  obtain g where g: "btm_get (rq_groups (sc_rq s h)) k = Some g" "fg_vruntime g = v" using rq_ok_butD(4) [OF d(1), of v k] mem by auto
  have ne: "fg_tasks g \<noteq> []" using rq_ok_butD(6) [OF d(1) g(1)] by simp
  have "distinct (rq_order (sc_rq s h))" by (rule bts_inv_distinct [OF rq_ok_butD(3) [OF d(1)]])
  then have o1: "bts_remove (v, k) (rq_order (sc_rq s h)) = rest" using ord by (auto simp: bts_remove_def filter_id_conv)
  define s1 where "s1 = set_rq h ((sc_rq s h)\<lparr>rq_order := bts_remove (v, k) (rq_order (sc_rq s h))\<rparr>) s"
  have "sched_ok_but {k} h s1"
  proof (rule sched_ok_update [of "{}" h s])
    show "sched_ok_but {} h s" using ok by (simp add: sched_ok_but_empty)
    show "only_hart h s s1" by (simp add: only_hart_def s1_def)
    show "hart_ok_but {k} s1 h" using rq_ok_take [OF d(1) mem] d(2-4) by (simp add: hart_ok_but_def s1_def)
    show "tcb_ok (sc_tcb s1 i)" for i using ok by (simp add: sched_ok_def s1_def)
  qed
  moreover have "pop_ready_fair_candidate h s = Option.bind (take_from_group h k g s1) (pop_fair_rest h)"
    unfolding pop_fair_rest_def using ord g by (subst pop_ready_fair_candidate.simps) (simp add: s1_def Let_def)
  ultimately show ?thesis using that g ne o1 by (simp add: s1_def)
qed

lemma pop_fair_rest_some:
  assumes "live_on s2 h i"
  shows "\<exists>t. t_rq_hart t = None \<and> \<not> t_in_ready t \<and>
    (if t_on_cpu (sc_tcb s2 i) = OFF_CPU then t_on_cpu t = of_nat h \<and> pop_fair_rest h (Some i, s2) = Some (Some i, set_tcb i t s2)
     else pop_fair_rest h (Some i, s2) = pop_ready_fair_candidate h (set_tcb i t s2))"
proof -
  let ?t = "(sc_tcb s2 i)\<lparr>t_rq_hart := None, t_in_ready := False, t_checkpoint := t_cpu_time (sc_tcb s2 i), t_cpu_id := h\<rparr>"
  have rel: "release_ready_queue h (sc_tcb s2 i) = (True, (sc_tcb s2 i)\<lparr>t_rq_hart := None, t_in_ready := False\<rparr>)"
    using assms by (intro release_ready_queue_eq) (simp add: live_on_def)
  show ?thesis
  proof (cases "t_on_cpu (sc_tcb s2 i) = OFF_CPU")
    case True
    then show ?thesis using rel by (intro exI [of _ "?t\<lparr>t_on_cpu := of_nat h\<rparr>"]) (simp add: pop_fair_rest_def try_mark_on_cpu_def)
  next
    case False
    then show ?thesis using rel by (intro exI [of _ ?t]) (simp add: pop_fair_rest_def try_mark_on_cpu_def)
  qed
qed

text \<open>The loop over the groups ends, keeps the queues consistent and takes a task that may run, or finds that
  the fair queue has none. When every live task is off the CPU, it takes the one foretold.\<close>

definition fair_result :: "nat \<Rightarrow> sched \<Rightarrow> task_id option \<Rightarrow> sched \<Rightarrow> bool" where
  "fair_result h s r s' \<longleftrightarrow> sched_ok s' \<and> drops h s s' r \<and> rq_rt (sc_rq s' h) = rq_rt (sc_rq s h) \<and>
    (case r of None \<Rightarrow> rq_groups (sc_rq s' h) = [] | Some i \<Rightarrow> picked h s s' i) \<and>
    ((\<forall>i. live_on s h i \<longrightarrow> t_on_cpu (sc_tcb s i) = OFF_CPU) \<longrightarrow> r = map_option snd (next_choice s h (rq_order (sc_rq s h))))"

lemma fair_result_after:
  assumes d: "drops h s s2 None" and rt: "rq_rt (sc_rq s2 h) = rq_rt (sc_rq s h)" and r: "fair_result h s2 r s'"
    and ch: "(\<forall>i. live_on s h i \<longrightarrow> t_on_cpu (sc_tcb s i) = OFF_CPU) \<Longrightarrow>
      (\<forall>i. live_on s2 h i \<longrightarrow> t_on_cpu (sc_tcb s2 i) = OFF_CPU) \<and>
      next_choice s2 h (rq_order (sc_rq s2 h)) = next_choice s h (rq_order (sc_rq s h))"
  shows "fair_result h s r s'"
  using r drops_trans [OF d] picked_after [OF d] rt ch unfolding fair_result_def by (auto split: option.splits)

lemma btm_empty:
  assumes "\<And>k. btm_get m k = None"
  shows "m = []"
proof -
  have "dom (btm_get m) = {}" using assms by auto
  then show ?thesis by (simp add: dom_btm_get)
qed

lemma pop_ready_fair_candidate_ok:
  assumes "sched_ok s" and h: "h < MAX_HARTS"
  shows "\<exists>r s'. pop_ready_fair_candidate h s = Some (r, s') \<and> fair_result h s r s'"
  using assms(1)
proof (induction "fair_len (sc_rq s h)" arbitrary: s rule: less_induct)
  case less
  have rok: "rq_ok_but {} (sc_rq s h)" using less.prems h by (simp add: sched_ok_def hart_ok_but_def)
  show ?case
  proof (cases "rq_order (sc_rq s h)")
    case Nil
    then have "rq_groups (sc_rq s h) = []"
      using rq_ok_butD(4) [OF rok] by (intro btm_empty) (metis empty_iff list.set(1) option.exhaust)
    then show ?thesis using Nil less.prems by (subst pop_ready_fair_candidate.simps) (simp add: fair_result_def drops_refl)
  next
    case (Cons x rest)
    obtain v k where x: "x = (v, k)" by (cases x)
    obtain g s1 where f: "btm_get (rq_groups (sc_rq s h)) k = Some g" "fg_vruntime g = v" "fg_tasks g \<noteq> []"
      "sched_ok_but {k} h s1" "sc_tcb s1 = sc_tcb s" "sc_rq s1 h = (sc_rq s h)\<lparr>rq_order := rest\<rparr>"
      "pop_ready_fair_candidate h s = Option.bind (take_from_group h k g s1) (pop_fair_rest h)"
      using pop_fair_first [OF less.prems h] Cons x by metis
    have g1: "btm_get (rq_groups (sc_rq s1 h)) k = Some g" using f(1,6) by simp
    have eq1: "live_on s1 h = live_on s h" "fair_len (sc_rq s1 h) = fair_len (sc_rq s h)" "drops h s s1 None"
      using f(5,6) by (auto simp: live_on_def drops_def fun_eq_iff)
    show ?thesis
    proof (cases "peek_fair_group_task g (live_on s h)")
      case None
      obtain s2 where t: "take_from_group h k g s1 = Some (None, s2)" "sched_ok s2" "drops h s1 s2 None" "live_on s2 h = live_on s1 h"
        "fair_len (sc_rq s2 h) < fair_len (sc_rq s1 h)" "rq_order (sc_rq s2 h) = rest"
        "rq_groups (sc_rq s2 h) = btm_remove k (rq_groups (sc_rq s h))" "rq_rt (sc_rq s2 h) = rq_rt (sc_rq s h)"
        using take_none [OF f(4) h g1] None eq1(1) f(3,6) by auto
      obtain r s' where IH: "pop_ready_fair_candidate h s2 = Some (r, s')" "fair_result h s2 r s'"
        using less.hyps [of s2] t(2,5) eq1(2) by auto
      have d2: "drops h s s2 None" by (rule drops_trans [OF eq1(3) t(3)])
      have "(v', k) \<notin> set rest" for v'
        using rq_ok_butD(4) [OF rok, of v' k] f(1,2) Cons x bts_inv_distinct [OF rq_ok_butD(3) [OF rok]] by auto
      then have "next_choice s2 h rest = next_choice s h rest" using t(4,7) eq1(1) by (intro next_choice_cong) auto
      then have ch: "next_choice s2 h (rq_order (sc_rq s2 h)) = next_choice s h (rq_order (sc_rq s h))" using Cons x f(1,2) None t(6) by simp
      have "\<forall>i. live_on s2 h i \<longrightarrow> t_on_cpu (sc_tcb s2 i) = OFF_CPU" if "\<forall>i. live_on s h i \<longrightarrow> t_on_cpu (sc_tcb s i) = OFF_CPU"
        using that t(4) eq1(1) drops_queued [OF d2] unfolding live_on_def by metis
      then have "fair_result h s r s'" using fair_result_after [OF d2 t(8) IH(2)] ch by simp
      then show ?thesis using f(7) t(1) IH(1) by (auto simp: pop_fair_rest_def)
    next
      case (Some i)
      obtain s2 where t: "take_from_group h k g s1 = Some (Some i, s2)" "live_on s h i" "sc_tcb s2 i = sc_tcb s i" "drops h s1 s2 None"
        "fair_len (sc_rq s2 h) < fair_len (sc_rq s1 h)" "rq_rt (sc_rq s2 h) = rq_rt (sc_rq s h)"
        "\<forall>t. t_rq_hart t = None \<longrightarrow> \<not> t_in_ready t \<longrightarrow> sched_ok (set_tcb i t s2)"
        using take_some [OF f(4) h g1] Some eq1(1) f(5,6) by auto
      have d2: "drops h s s2 None" by (rule drops_trans [OF eq1(3) t(4)])
      have "live_on s2 h i" using t(2,3) by (simp add: live_on_def)
      from pop_fair_rest_some [OF this] obtain w where w: "t_rq_hart w = None" "\<not> t_in_ready w"
        "if t_on_cpu (sc_tcb s2 i) = OFF_CPU then t_on_cpu w = of_nat h \<and> pop_fair_rest h (Some i, s2) = Some (Some i, set_tcb i w s2)
         else pop_fair_rest h (Some i, s2) = pop_ready_fair_candidate h (set_tcb i w s2)" by blast
      have ok3: "sched_ok (set_tcb i w s2)" using t(7) w(1,2) by blast
      show ?thesis
      proof (cases "t_on_cpu (sc_tcb s i) = OFF_CPU")
        case True
        have "picked h s (set_tcb i w s2) i" using t(2) True w t(3) by (simp add: picked_def live_on_def runnable_def)
        moreover have "drops h s (set_tcb i w s2) (Some i)" using d2 t(2) w(1) by (auto simp: drops_def live_on_def)
        moreover have "next_choice s h (rq_order (sc_rq s h)) = Some (k, i)" using Cons x f(1,2) Some by simp
        ultimately have "fair_result h s (Some i) (set_tcb i w s2)" using ok3 t(6) by (simp add: fair_result_def)
        then show ?thesis using f(7) t(1,3) w(3) True by auto
      next
        case False
        have d3: "drops h s (set_tcb i w s2) None" using d2 t(2) w(1) False by (auto simp: drops_def live_on_def runnable_def)
        obtain r s' where IH: "pop_ready_fair_candidate h (set_tcb i w s2) = Some (r, s')" "fair_result h (set_tcb i w s2) r s'"
          using less.hyps [of "set_tcb i w s2"] ok3 t(5) eq1(2) by auto
        have "fair_result h s r s'" using fair_result_after [OF d3 _ IH(2)] t(2,6) False by auto
        then show ?thesis using f(7) t(1,3) w(3) False IH(1) by auto
      qed
    qed
  qed
qed

end
