(* ===== verification/Sched_System.thy ===== *)
theory Sched_System
  imports Sched_Queues
begin

text \<open>
  The scheduler as a whole: fetching, queueing and removing tasks keep the run queues consistent, a fetch
  ends with a task that may run whenever there is one, and the choice of a hart respects the affinity of a
  task (\<open>src/src/task/manager.rs\<close>, \<open>src/src/task/manager/run_queue.rs\<close>).
\<close>

section \<open>Fetching\<close>

lemma sched_ok_bw [simp]: "sched_ok (s\<lparr>sc_bw := b\<rparr>) \<longleftrightarrow> sched_ok s"
  by (simp add: sched_ok_def hart_ok_but_def)

lemma drops_bw [simp]: "drops h (s\<lparr>sc_bw := b\<rparr>) s' r \<longleftrightarrow> drops h s s' r" "picked h (s\<lparr>sc_bw := b\<rparr>) s' i \<longleftrightarrow> picked h s s' i"
  by (simp_all add: drops_def picked_def)

lemma next_choice_bw: "next_choice (s\<lparr>sc_bw := b\<rparr>) h xs = next_choice s h xs"
  by (rule next_choice_cong) (auto simp: live_on_def fun_eq_iff)

lemma upt_split: "[0..<k] = ns1 @ n # ns2 \<Longrightarrow> m < n \<Longrightarrow> m \<in> set ns1"
proof -
  assume e: "[0..<k] = ns1 @ n # ns2" and m: "m < n"
  have len: "length ns1 < k" using e by (metis length_upt diff_zero length_append length_Cons less_add_Suc1 add_Suc_right)
  have "n = [0..<k] ! length ns1" by (simp add: e)
  then have "n = length ns1" using len by simp
  then have "ns1 ! m = [0..<k] ! m" using e m by (simp add: nth_append)
  then have "ns1 ! m = m" using m len \<open>n = length ns1\<close> by simp
  then show ?thesis using m \<open>n = length ns1\<close> by (metis nth_mem)
qed

lemma no_group_entry:
  assumes "sched_ok s" "h < MAX_HARTS" "rq_groups (sc_rq s h) = []" "t_rq_hart (sc_tcb s i) = Some h"
  shows "\<exists>n<RT_PRIO_LEVELS. i \<in> set (rq_rt (sc_rq s h) ! n)"
proof -
  note d = hart_okD [of "{}" s h]
  have ok: "hart_ok_but {} s h" using assms by (simp add: sched_ok_def)
  have "sum_list (map (\<lambda>q. queue_count q i) (rq_rt (sc_rq s h))) = 1"
    using d(4) [OF ok, of i] assms(3,4) by (simp add: entry_count_alt group_sum_def)
  then have "\<not> (\<forall>q\<in>set (rq_rt (sc_rq s h)). queue_count q i = 0)" by (metis (no_types, lifting) imageE list.set_map sum_list_eq_0_iff zero_neq_one)
  then obtain q where q: "q \<in> set (rq_rt (sc_rq s h))" "queue_count q i \<noteq> 0" by blast
  then have "i \<in> set q" by (auto simp: queue_count_def filter_empty_conv)
  then show ?thesis using q(1) rq_ok_butD(1) [OF d(1) [OF ok]] by (auto simp: in_set_conv_nth)
qed

lemma fetch_spec:
  assumes ok: "sched_ok s" and h: "h < MAX_HARTS" and th: "throttled = fst (rt_bandwidth_throttled h now s)"
  shows "\<exists>r s'. rq_fetch h now s = Some (r, s') \<and> sched_ok s' \<and> drops h s s' r \<and>
    (case r of
       None \<Rightarrow> \<forall>i. t_rq_hart (sc_tcb s i) = Some h \<longrightarrow> runnable (sc_tcb s i) \<longrightarrow>
         throttled \<and> (\<exists>n<RT_PRIO_LEVELS. i \<in> set (rq_rt (sc_rq s h) ! n))
     | Some c \<Rightarrow> picked h s s' c \<and> (throttled \<or>
         (\<forall>n<RT_PRIO_LEVELS. \<forall>i\<in>set (rq_rt (sc_rq s h) ! n). runnable (sc_tcb s i) \<longrightarrow> (\<exists>m\<le>n. c \<in> set (rq_rt (sc_rq s h) ! m)))))"
proof -
  obtain b where s1: "rt_bandwidth_throttled h now s = (throttled, s\<lparr>sc_bw := b\<rparr>)"
    using th by (auto simp: rt_bandwidth_throttled_def Let_def split: prod.splits)
  let ?s1 = "s\<lparr>sc_bw := b\<rparr>"
  have ok1: "sched_ok ?s1" using ok by simp
  show ?thesis
  proof (cases throttled)
    case True
    obtain r s' where p: "pop_ready_fair_candidate h ?s1 = Some (r, s')" "fair_result h ?s1 r s'"
      using pop_ready_fair_candidate_ok [OF ok1 h] by blast
    then have run: "rq_fetch h now s = Some (r, s')" using s1 True by (simp add: rq_fetch_def)
    have "\<exists>n<RT_PRIO_LEVELS. i \<in> set (rq_rt (sc_rq s h) ! n)"
      if r: "r = None" and i: "t_rq_hart (sc_tcb s i) = Some h" "runnable (sc_tcb s i)" for i
    proof -
      have "sc_tcb s' i = sc_tcb s i" using p(2) r drops_kept [OF _ i] by (simp add: fair_result_def)
      then show ?thesis using no_group_entry [of s' h i] p(2) r h i by (simp add: fair_result_def)
    qed
    then show ?thesis using run p(2) True by (auto simp: fair_result_def split: option.splits)
  next
    case False
    obtain r2 s2 where f: "fetch_rt h [0..<RT_PRIO_LEVELS] ?s1 = (r2, s2)" by fastforce
    have sub: "set [0..<RT_PRIO_LEVELS] \<subseteq> {..<RT_PRIO_LEVELS}" by auto
    have r: "sched_ok s2 \<and> drops h s s2 r2 \<and>
      (case r2 of
         None \<Rightarrow> \<forall>n<RT_PRIO_LEVELS. rq_rt (sc_rq s2 h) ! n = [] \<and> (\<forall>x\<in>set (rq_rt (sc_rq s h) ! n). \<not> runnable (sc_tcb s x))
       | Some c \<Rightarrow> picked h s s2 c \<and> (\<exists>ns1 n ns2. [0..<RT_PRIO_LEVELS] = ns1 @ n # ns2 \<and> c \<in> set (rq_rt (sc_rq s h) ! n) \<and>
           (\<forall>m\<in>set ns1. \<forall>x\<in>set (rq_rt (sc_rq s h) ! m). \<not> runnable (sc_tcb s x))))"
      using fetch_rt_ok [OF ok1 h distinct_upt sub f] by (auto split: option.splits)
    show ?thesis
    proof (cases r2)
      case (Some c)
      then have run: "rq_fetch h now s = Some (Some c, s2)" using s1 f False by (simp add: rq_fetch_def)
      obtain ns1 n ns2 where n: "[0..<RT_PRIO_LEVELS] = ns1 @ n # ns2" "c \<in> set (rq_rt (sc_rq s h) ! n)"
        "\<forall>m\<in>set ns1. \<forall>x\<in>set (rq_rt (sc_rq s h) ! m). \<not> runnable (sc_tcb s x)" using r Some by auto
      have "n \<le> m" if "i \<in> set (rq_rt (sc_rq s h) ! m)" "runnable (sc_tcb s i)" for m i
        using upt_split [OF n(1), of m] n(3) that by (meson not_le)
      then show ?thesis using run r Some n(2) by auto
    next
      case None
      obtain r3 s' where p: "pop_ready_fair_candidate h s2 = Some (r3, s')" "fair_result h s2 r3 s'"
        using pop_ready_fair_candidate_ok [OF _ h] r by blast
      then have run: "rq_fetch h now s = Some (r3, s')" using s1 f False None by (simp add: rq_fetch_def)
      have d2: "drops h s s2 None" using r None by simp
      have "\<not> runnable (sc_tcb s i)" if r3: "r3 = None" and i: "t_rq_hart (sc_tcb s i) = Some h" for i
      proof
        assume run: "runnable (sc_tcb s i)"
        have "sc_tcb s2 i = sc_tcb s i" by (rule drops_kept [OF d2 i run])
        moreover have "sc_tcb s' i = sc_tcb s2 i" using p(2) r3 drops_kept [of h s2 s' i] i run calculation by (simp add: fair_result_def)
        ultimately show False using no_group_entry [of s' h i] p(2) r3 h i r None by (auto simp: fair_result_def)
      qed
      then show ?thesis
        using run p(2) r None drops_trans [OF d2] picked_after [OF d2] by (auto simp: fair_result_def split: option.splits)
    qed
  qed
qed

section \<open>Queueing\<close>

lemma fair_nice_weight_pos: "0 < fair_nice_weight nice"
proof -
  have "\<forall>w\<in>set NICE_WEIGHTS. 0 < w" by (simp add: NICE_WEIGHTS_def)
  moreover have "nat (min (max nice (- 20)) 19 + 20) < length NICE_WEIGHTS" by (simp add: NICE_WEIGHTS_def)
  ultimately show ?thesis unfolding fair_nice_weight_def by (meson nth_mem)
qed

lemma place_fair_task_entity_keeps:
  assumes "place_fair_task_entity kind cur g t = (v, d, g', t')"
  shows "fg_tasks g' = fg_tasks g" "group_ok g' \<longleftrightarrow> group_ok g"
    "t_rq_hart t' = t_rq_hart t" "t_in_ready t' = t_in_ready t" "t_nice t' = t_nice t"
proof -
  have "g' = (if 0 < t_cpu_time t - t_checkpoint t
      then g\<lparr>fg_vruntime := sat128 (fg_vruntime g + scale_fair_delta (t_cpu_time t - t_checkpoint t) (max (fg_shares g) 1))\<rparr> else g)"
    using arg_cong [OF assms, of "\<lambda>x. fst (snd (snd x))"] unfolding place_fair_task_entity_def Let_def by (simp only: fst_conv snd_conv)
  then show "fg_tasks g' = fg_tasks g" "group_ok g' \<longleftrightarrow> group_ok g" by (simp_all add: group_ok_def)
  have "\<exists>a b c. t' = t\<lparr>t_vlag := 0, t_credit := 0, t_vruntime := a, t_checkpoint := b, t_deadline := c\<rparr>"
    using arg_cong [OF assms, of "\<lambda>x. snd (snd (snd x))"] unfolding place_fair_task_entity_def Let_def by (simp only: snd_conv) blast
  then show "t_rq_hart t' = t_rq_hart t" "t_in_ready t' = t_in_ready t" "t_nice t' = t_nice t" by auto
qed

text \<open>A task that no queue has claimed is claimed by hart \<open>h\<close> and gets one entry there.\<close>

lemma sched_ok_enqueued:
  assumes ok: "sched_ok s" and h: "h < MAX_HARTS" and free: "t_rq_hart (sc_tcb s i) = None"
    and tcb: "\<And>j. j \<noteq> i \<Longrightarrow> sc_tcb s' j = sc_tcb s j" "t_rq_hart (sc_tcb s' i) = Some h" "t_in_ready (sc_tcb s' i)"
    and rest: "\<And>h'. h' \<noteq> h \<Longrightarrow> sc_rq s' h' = sc_rq s h' \<and> sc_rt_count s' h' = sc_rt_count s h' \<and> sc_fair_count s' h' = sc_fair_count s h'"
    and rq: "rq_ok_but {} (sc_rq s' h)" "sc_fair_count s' h = fair_len (sc_rq s' h)"
      "\<And>n. n < RT_PRIO_LEVELS \<Longrightarrow> sc_rt_count s' h n = length (rq_rt (sc_rq s' h) ! n)"
    and cnt: "\<And>j. entry_count (sc_rq s' h) j = entry_count (sc_rq s h) j + of_bool (j = i)"
  shows "sched_ok s'"
proof -
  have hok: "hart_ok_but {} s h" using ok h by (simp add: sched_ok_def)
  have "entry_count (sc_rq s' h) j = of_bool (t_rq_hart (sc_tcb s' j) = Some h)" for j
    using cnt [of j] hart_okD(4) [OF hok, of j] tcb free by (cases "j = i") auto
  then have "hart_ok_but {} s' h" using rq by (simp add: hart_ok_but_def)
  moreover have "t_rq_hart (sc_tcb s' j) = t_rq_hart (sc_tcb s j) \<or> {t_rq_hart (sc_tcb s' j), t_rq_hart (sc_tcb s j)} \<subseteq> {None, Some h}" for j
    using tcb free by (cases "j = i") simp_all
  then have "only_hart h s s'" unfolding only_hart_def using rest by blast
  moreover have "tcb_ok (sc_tcb s' j)" for j
    using ok tcb h by (cases "j = i") (auto simp: sched_ok_def tcb_ok_def)
  ultimately show ?thesis using sched_ok_update [of "{}" h s s' "{}"] ok by (simp add: sched_ok_but_empty)
qed

lemma enqueue_rt_ok:
  assumes ok: "sched_ok s" and h: "h < MAX_HARTS" and free: "t_rq_hart (sc_tcb s i) = None"
    and t: "t_rq_hart t = Some h" "t_in_ready t" and n: "n < RT_PRIO_LEVELS"
  shows "sched_ok (inc_ready_rt_count h n (set_rtq h n (rq_rt (sc_rq s h) ! n @ [i]) (set_tcb i t s)))"
proof -
  have hok: "hart_ok_but {} s h" using ok h by (simp add: sched_ok_def)
  note d = hart_okD [OF hok]
  have len: "length (rq_rt (sc_rq s h)) = RT_PRIO_LEVELS" by (rule rq_ok_butD(1) [OF d(1)])
  show ?thesis
  proof (rule sched_ok_enqueued [OF ok h free])
    show "entry_count (sc_rq (inc_ready_rt_count h n (set_rtq h n (rq_rt (sc_rq s h) ! n @ [i]) (set_tcb i t s))) h) j =
        entry_count (sc_rq s h) j + of_bool (j = i)" for j
      using entry_count_rt [of n "sc_rq s h" "rq_rt (sc_rq s h) ! n @ [i]" j] n len by (auto simp: queue_count_def)
  qed (use d t n len in \<open>auto simp: rq_ok_rt nth_list_update\<close>)
qed

lemma enqueue_fair_ok:
  assumes ok: "sched_ok s" and h: "h < MAX_HARTS" and free: "t_rq_hart (sc_tcb s i) = None"
    and t: "t_rq_hart t = Some h" "t_in_ready t"
  shows "sched_ok (enqueue_fair h i kind busy now_ns (set_tcb i t s))"
proof -
  let ?s = "set_tcb i t s"
  have hok: "hart_ok_but {} s h" using ok h by (simp add: sched_ok_def)
  note d = hart_okD [OF hok]
  define k where "k = t_group t"
  define rq1 where "rq1 = unlink_fair_group k (sc_rq s h)"
  define g where "g = (case btm_get (rq_groups rq1) k of None \<Rightarrow> group_new (rq_min_fair rq1) | Some g \<Rightarrow> g)\<lparr>fg_shares := max (max (t_shares t) 1) 1\<rparr>"
  obtain v dl g1 t' where p: "place_fair_task_entity kind (current_fair_entity_for_group (if busy then None else map_option (sc_tcb ?s) (sc_current ?s h)) k now_ns) g t = (v, dl, g1, t')"
    by (metis prod_cases4)
  note pk = place_fair_task_entity_keeps [OF p]
  define g2 where "g2 = insert_task i v dl (fair_nice_weight (t_nice t')) g1"
  define rq2 where "rq2 = rq1\<lparr>rq_groups := btm_insert k g2 (rq_groups rq1)\<rparr>"
  have e: "enqueue_fair h i kind busy now_ns ?s = inc_ready_fair_count h (set_rq h (relink_fair_group_if_runnable k rq2) (set_tcb i t' ?s))"
    using p [unfolded g_def rq1_def k_def] unfolding g2_def rq2_def rq1_def k_def
    by (simp add: enqueue_fair_def fair_group_id_and_shares_def Let_def)
  have r1: "rq_ok_but {k} rq1" unfolding rq1_def by (rule rq_ok_unlink [OF d(1)])
  have gok: "group_ok g"
    using rq_ok_butD(5) [OF r1, of k] group_new_ok by (auto simp: g_def group_ok_def split: option.splits)
  have g2ok: "group_ok g2" unfolding g2_def using gok pk(2) by (intro insert_task_ok fair_nice_weight_pos) simp
  have new: "btm_get (fg_tasks g1) i = None"
  proof (cases "btm_get (rq_groups (sc_rq s h)) k")
    case None
    then show ?thesis using pk(1) by (simp add: g_def rq1_def group_new_def)
  next
    case (Some g0)
    have "btm_get (fg_tasks g0) i = None" using queued_fair [OF hok Some, of i] free by (metis option.distinct(1))
    then show ?thesis using Some pk(1) by (simp add: g_def rq1_def)
  qed
  have bi: "btm_inv (fg_tasks g1)" using gok pk(2) by (simp add: group_ok_def)
  have t2: "fg_tasks g2 = btm_insert i \<lparr>fe_vruntime = v, fe_deadline = dl, fe_weight = fair_nice_weight (t_nice t'), fe_task = i\<rparr> (fg_tasks g1)"
    by (simp add: g2_def insert_task_tasks)
  have ne: "fg_tasks g2 \<noteq> []" unfolding t2 by (cases "fg_tasks g1") auto
  have r2: "rq_ok_but {k} rq2" unfolding rq2_def by (rule rq_ok_put [OF r1 g2ok])
  have r3: "rq_ok_but {} (relink_fair_group_if_runnable k rq2)" by (rule rq_ok_relink [OF r2 _ ne]) (simp add: rq2_def)
  have inv1: "btm_inv (rq_groups rq1)" by (rule rq_ok_butD(2) [OF r1])
  have old: "(case btm_get (rq_groups rq1) k of None \<Rightarrow> 0 | Some g0 \<Rightarrow> f g0) = f g" if "\<And>g0 c. f (g0\<lparr>fg_shares := c\<rparr>) = f g0" "\<And>m. f (group_new m) = 0"
    for f :: "fair_group \<Rightarrow> nat" using that by (simp add: g_def split: option.splits)
  have "fair_len rq2 = fair_len (sc_rq s h) + 1"
    using group_sum_put [OF inv1, of "\<lambda>g. length (fg_tasks g)" k g2] old [of "\<lambda>g. length (fg_tasks g)"] pk(1) btm.len_ins [OF bi, of i] new
    by (simp add: rq2_def fair_len_alt t2 group_new_def) (simp add: rq1_def)
  moreover have "entry_count rq2 j = entry_count (sc_rq s h) j + of_bool (j = i)" for j
    using entry_count_put [OF inv1, of k g2 j] old [of "\<lambda>g. group_count g j"] pk(1) group_count [OF gok, of j] group_count [OF g2ok, of j] new
    by (auto simp: rq2_def t2 group_new_def rq1_def group_count_def split: if_splits)
  ultimately show ?thesis unfolding e
    by (intro sched_ok_enqueued [OF ok h free]) (use d r3 t pk in \<open>auto simp: rq2_def rq1_def\<close>)
qed

lemma rq_add_ok:
  assumes ok: "sched_ok s" and h: "h < MAX_HARTS" and a: "rq_add i h kind busy now_ns s = (r, s')"
  shows "sched_ok s'" "r = None \<longleftrightarrow> t_rq_hart (sc_tcb s i) \<noteq> None" "t_rq_hart (sc_tcb s' i) = (case t_rq_hart (sc_tcb s i) of None \<Rightarrow> Some h | Some h' \<Rightarrow> Some h')"
proof -
  have "sched_ok s' \<and> (r = None \<longleftrightarrow> t_rq_hart (sc_tcb s i) \<noteq> None)"
  proof (cases "t_rq_hart (sc_tcb s i)")
    case (Some h')
    then show ?thesis using a ok by (simp add: rq_add_def claim_ready_queue_def)
  next
    case None
    define t where "t = (sc_tcb s i)\<lparr>t_rq_hart := Some h, t_in_ready := True, t_cpu_id := h\<rparr>"
    have t: "t_rq_hart t = Some h" "t_in_ready t" by (simp_all add: t_def)
    show ?thesis
    proof (cases "task_queue_slot t")
      case (Slot_rt n)
      have n: "n < RT_PRIO_LEVELS" using Slot_rt rt_queue_index_less by (auto simp: task_queue_slot_def split: option.splits sched_class.splits)
      have "s' = inc_ready_rt_count h n (set_rtq h n (rq_rt (sc_rq s h) ! n @ [i]) (set_tcb i t s))" "r \<noteq> None"
        using a None t Slot_rt by (auto simp: rq_add_def claim_ready_queue_def t_def [symmetric] Let_def)
      then show ?thesis using enqueue_rt_ok [OF ok h None t n] None by simp
    next
      case Slot_fair
      have "s' = enqueue_fair h i kind busy now_ns (set_tcb i t s)" "r \<noteq> None"
        using a None t Slot_fair by (auto simp: rq_add_def claim_ready_queue_def t_def [symmetric] Let_def)
      then show ?thesis using enqueue_fair_ok [OF ok h None t] None by simp
    qed
  qed
  then show "sched_ok s'" "r = None \<longleftrightarrow> t_rq_hart (sc_tcb s i) \<noteq> None" by auto
  show "t_rq_hart (sc_tcb s' i) = (case t_rq_hart (sc_tcb s i) of None \<Rightarrow> Some h | Some h' \<Rightarrow> Some h')"
    using a by (auto simp: rq_add_def claim_ready_queue_def enqueue_fair_def Let_def split: prod.splits if_splits ready_queue_slot.splits option.splits
      dest!: place_fair_task_entity_keeps(3))
qed

section \<open>Removing\<close>

text \<open>\<open>shrinks h i m s s'\<close>: hart \<open>h\<close> lost \<open>m\<close> entries of task \<open>i\<close> and nothing else changed.\<close>

definition queues_ok :: "nat \<Rightarrow> sched \<Rightarrow> bool" where
  "queues_ok h s \<longleftrightarrow> rq_ok_but {} (sc_rq s h) \<and> sc_fair_count s h = fair_len (sc_rq s h) \<and>
     (\<forall>n<RT_PRIO_LEVELS. sc_rt_count s h n = length (rq_rt (sc_rq s h) ! n))"

definition shrinks :: "nat \<Rightarrow> task_id \<Rightarrow> nat \<Rightarrow> sched \<Rightarrow> sched \<Rightarrow> bool" where
  "shrinks h i m s s' \<longleftrightarrow> sc_tcb s' = sc_tcb s \<and> queues_ok h s' \<and>
     (\<forall>h'. h' \<noteq> h \<longrightarrow> sc_rq s' h' = sc_rq s h' \<and> sc_rt_count s' h' = sc_rt_count s h' \<and> sc_fair_count s' h' = sc_fair_count s h') \<and>
     (\<forall>j. entry_count (sc_rq s' h) j + (if j = i then m else 0) = entry_count (sc_rq s h) j)"

lemma shrinks_refl: "queues_ok h s \<Longrightarrow> shrinks h i 0 s s"
  by (simp add: shrinks_def)

lemma shrinks_trans:
  assumes "shrinks h i m s s1" "shrinks h i n s1 s2"
  shows "shrinks h i (m + n) s s2"
proof -
  have c: "entry_count (sc_rq s1 h) j + (if j = i then m else 0) = entry_count (sc_rq s h) j"
    "entry_count (sc_rq s2 h) j + (if j = i then n else 0) = entry_count (sc_rq s1 h) j" for j
    using assms by (simp_all only: shrinks_def)
  have "entry_count (sc_rq s2 h) j + (if j = i then m + n else 0) = entry_count (sc_rq s h) j" for j
    using c [of j] by (cases "j = i") simp_all
  then show ?thesis using assms by (simp add: shrinks_def)
qed

lemma shrinks_queues: "shrinks h i m s s' \<Longrightarrow> queues_ok h s'"
  by (simp add: shrinks_def)

lemma dec_rt_times_eq: "dec_rt_times h n m s = s\<lparr>sc_rt_count := (sc_rt_count s)(h := (sc_rt_count s h)(n := sc_rt_count s h n - m))\<rparr>"
  by (induction m arbitrary: s) (simp_all add: dec_ready_rt_count_def)

lemma remove_from_rt_ok:
  assumes "queues_ok h s" "set ns \<subseteq> {..<RT_PRIO_LEVELS}" "remove_from_rt h i ns s = (m, s')"
  shows "shrinks h i m s s' \<and> rq_groups (sc_rq s' h) = rq_groups (sc_rq s h) \<and>
    (\<forall>n\<in>set ns. i \<notin> set (rq_rt (sc_rq s' h) ! n)) \<and> (\<forall>n. i \<notin> set (rq_rt (sc_rq s h) ! n) \<longrightarrow> i \<notin> set (rq_rt (sc_rq s' h) ! n))"
  using assms
proof (induction ns arbitrary: s m)
  case Nil
  then show ?case by (simp add: shrinks_refl)
next
  case (Cons n ns)
  have n: "n < RT_PRIO_LEVELS" and ns: "set ns \<subseteq> {..<RT_PRIO_LEVELS}" using Cons.prems(2) by auto
  define q where "q = rq_rt (sc_rq s h) ! n"
  define q' where "q' = filter (\<lambda>j. j \<noteq> i) q"
  define s1 where "s1 = dec_rt_times h n (length q - length q') (set_rtq h n q' s)"
  obtain m2 where r: "remove_from_rt h i ns s1 = (m2, s')" and m: "m = length q - length q' + m2"
    using Cons.prems(3) by (auto simp: q_def q'_def s1_def Let_def split: prod.splits)
  have len: "length (rq_rt (sc_rq s h)) = RT_PRIO_LEVELS" using Cons.prems(1) by (auto simp: queues_ok_def dest: rq_ok_butD(1))
  have le: "length q' \<le> length q" by (simp add: q'_def)
  have rm: "length q - length q' = queue_count q i" "queue_count q' j = (if j = i then 0 else queue_count q j)" for j
  proof -
    have "length (filter (\<lambda>j. j = i) q) + length q' = length q" using sum_length_filter_compl [of "\<lambda>j. j = i" q] by (simp add: q'_def)
    then show "length q - length q' = queue_count q i" by (simp add: queue_count_def)
    show "queue_count q' j = (if j = i then 0 else queue_count q j)" by (auto simp: queue_count_def q'_def filter_empty_conv intro!: arg_cong [of _ _ length] filter_cong)
  qed
  have s1: "sc_tcb s1 = sc_tcb s" "sc_fair_count s1 = sc_fair_count s" "sc_rq s1 = (sc_rq s)(h := (sc_rq s h)\<lparr>rq_rt := (rq_rt (sc_rq s h))[n := q']\<rparr>)"
    "sc_rt_count s1 = (sc_rt_count s)(h := (sc_rt_count s h)(n := sc_rt_count s h n - (length q - length q')))"
    by (simp_all add: s1_def dec_rt_times_eq)
  have c: "entry_count (sc_rq s1 h) j + (if j = i then length q - length q' else 0) = entry_count (sc_rq s h) j" for j
    using entry_count_rt [of n "sc_rq s h" q' j] n len rm by (cases "j = i") (simp_all add: s1 q_def [symmetric])
  have "queues_ok h s1"
    using Cons.prems(1) n le len by (auto simp: queues_ok_def s1 q_def nth_list_update intro: rq_ok_rt)
  then have sh1: "shrinks h i (length q - length q') s s1"
    using c unfolding shrinks_def by (simp add: s1)
  have gone: "i \<notin> set (rq_rt (sc_rq s1 h) ! n)" "\<And>k. i \<notin> set (rq_rt (sc_rq s h) ! k) \<Longrightarrow> i \<notin> set (rq_rt (sc_rq s1 h) ! k)"
    using n len by (auto simp: s1 q'_def q_def nth_list_update)
  from Cons.IH [OF shrinks_queues [OF sh1] ns r] show ?case
    using shrinks_trans [OF sh1] m gone by (auto simp: s1(3))
qed

lemma remove_fair_task_from_group_ok:
  assumes ok: "queues_ok h s" and r: "remove_fair_task_from_group h k i s = (m, s')"
  shows "shrinks h i m s s'" "rq_rt (sc_rq s' h) = rq_rt (sc_rq s h)"
    "m = of_bool (\<exists>g. btm_get (rq_groups (sc_rq s h)) k = Some g \<and> btm_get (fg_tasks g) i \<noteq> None)"
    "m = 0 \<Longrightarrow> rq_groups (sc_rq s' h) = rq_groups (sc_rq s h)"
proof -
  have rq: "rq_ok_but {} (sc_rq s h)" using ok by (simp add: queues_ok_def)
  define rq1 where "rq1 = unlink_fair_group k (sc_rq s h)"
  have r1: "rq_ok_but {k} rq1" unfolding rq1_def by (rule rq_ok_unlink [OF rq])
  have all: "shrinks h i m s s' \<and> rq_rt (sc_rq s' h) = rq_rt (sc_rq s h) \<and>
    m = of_bool (\<exists>g. btm_get (rq_groups (sc_rq s h)) k = Some g \<and> btm_get (fg_tasks g) i \<noteq> None) \<and>
    (m = 0 \<longrightarrow> rq_groups (sc_rq s' h) = rq_groups (sc_rq s h))"
  proof (cases "btm_get (rq_groups (sc_rq s h)) k")
    case None
    then have "m = 0" "s' = s" using r by (auto simp: remove_fair_task_from_group_def unlink_fair_group_def Let_def set_rq_def)
    then show ?thesis using None shrinks_refl [OF ok] by simp
  next
    case (Some g)
    have gok: "group_ok g" by (rule rq_ok_butD(5) [OF rq Some])
    obtain u g1 where u: "unlink_task i g = (u, g1)" by fastforce
    note uk = unlink_task_ok [OF gok u]
    define rq2 where "rq2 = rq1\<lparr>rq_groups := btm_insert k g1 (rq_groups rq1)\<rparr>"
    have r2: "rq_ok_but {k} rq2" unfolding rq2_def by (rule rq_ok_put [OF r1 uk(1)])
    have inv: "btm_inv (rq_groups rq1)" "btm_inv (rq_groups rq2)" using rq_ok_butD(2) [OF r1] rq_ok_butD(2) [OF r2] by auto
    have g1: "btm_get (rq_groups rq1) k = Some g" using Some by (simp add: rq1_def)
    have bi: "btm_inv (fg_tasks g)" using gok by (simp add: group_ok_def)
    have same: "entry_count rq1 j = entry_count (sc_rq s h) j" "fair_len rq1 = fair_len (sc_rq s h)" for j by (simp_all add: rq1_def)
    have m: "m = of_bool (btm_get (fg_tasks g) i \<noteq> None)" "sc_rq s' = (sc_rq s)(h := settle_group k rq2)" "sc_tcb s' = sc_tcb s"
      "sc_rt_count s' = sc_rt_count s" "sc_fair_count s' = (if m = 0 then sc_fair_count s else (sc_fair_count s)(h := sc_fair_count s h - 1))"
      using r g1 u uk(2) by (auto simp: remove_fair_task_from_group_def rq1_def [symmetric] rq2_def [symmetric] Let_def split: option.splits)
    have cnt: "entry_count (settle_group k rq2) j + (if j = i then m else 0) = entry_count (sc_rq s h) j" for j
      unfolding entry_count_settle [OF inv(2)]
      using entry_count_put [OF inv(1), of k g1 j] g1 group_count [OF gok, of j] group_count [OF uk(1), of j] m(1) same(1) [of j]
      by (auto simp: rq2_def [symmetric] uk(3))
    have fl: "fair_len (settle_group k rq2) + m = fair_len (sc_rq s h)"
      unfolding fair_len_settle [OF inv(2)]
      using fair_len_put [OF inv(1) g1, of g1] btm.len_rem [OF bi, of i] btm.len_pos [OF bi, of i] m(1) same(2)
      by (cases "btm_get (fg_tasks g) i"; cases "fg_tasks g") (auto simp: rq2_def [symmetric] uk(3))
    have gr: "rq_groups (settle_group k rq2) = rq_groups (sc_rq s h)" if "m = 0"
    proof -
      have "btm_get (fg_tasks g) i = None" using that m(1) by (auto split: if_splits)
      then have "g1 = g" using u by (simp add: unlink_task_def)
      moreover have "fg_tasks g \<noteq> []" using rq_ok_butD(6) [OF rq Some] by simp
      moreover have "rq2 = rq1" using \<open>g1 = g\<close> btm_insert_same [OF inv(1) g1] unfolding rq2_def by simp
      ultimately show ?thesis using g1 by (simp add: settle_group_def group_is_empty_def) (simp add: rq1_def)
    qed
    have rt: "rq_rt (settle_group k rq2) = rq_rt (sc_rq s h)" by (simp add: rq2_def rq1_def)
    have "m = 0 \<or> m = 1" using m(1) by auto
    then have "queues_ok h s'" using rq_ok_settle [OF r2] ok fl rt m(2,4,5) by (auto simp: queues_ok_def)
    then have "shrinks h i m s s'" unfolding shrinks_def using cnt m(2-5) by (simp split: if_splits)
    then show ?thesis using m(1,2) gr rt Some by simp
  qed
  then show "shrinks h i m s s'" "rq_rt (sc_rq s' h) = rq_rt (sc_rq s h)"
    "m = of_bool (\<exists>g. btm_get (rq_groups (sc_rq s h)) k = Some g \<and> btm_get (fg_tasks g) i \<noteq> None)"
    "m = 0 \<Longrightarrow> rq_groups (sc_rq s' h) = rq_groups (sc_rq s h)" by blast+
qed

definition in_group :: "hart_rq \<Rightarrow> task_id \<Rightarrow> nat \<Rightarrow> bool" where
  "in_group rq i k \<longleftrightarrow> (\<exists>g. btm_get (rq_groups rq) k = Some g \<and> btm_get (fg_tasks g) i \<noteq> None)"

lemma remove_fair_scan_ok:
  assumes "queues_ok h s" "remove_fair_scan h ks i s = (m, s')"
  shows "shrinks h i m s s' \<and> rq_rt (sc_rq s' h) = rq_rt (sc_rq s h) \<and> m = of_bool (\<exists>k\<in>set ks. in_group (sc_rq s h) i k)"
  using assms
proof (induction ks arbitrary: s)
  case Nil
  then show ?case by (simp add: shrinks_refl)
next
  case (Cons k ks)
  obtain n s1 where r: "remove_fair_task_from_group h k i s = (n, s1)" by fastforce
  note g = remove_fair_task_from_group_ok [OF Cons.prems(1) r, folded in_group_def]
  show ?case
  proof (cases "n = 0")
    case True
    then have run: "remove_fair_scan h ks i s1 = (m, s')" using Cons.prems(2) r by simp
    have "in_group (sc_rq s1 h) i = in_group (sc_rq s h) i" using g(4) True by (auto simp: in_group_def)
    moreover have "\<not> in_group (sc_rq s h) i k" using g(3) True by simp
    moreover have IH: "shrinks h i m s1 s'" "rq_rt (sc_rq s' h) = rq_rt (sc_rq s1 h)" "m = of_bool (\<exists>k\<in>set ks. in_group (sc_rq s1 h) i k)"
      using Cons.IH [OF shrinks_queues [OF g(1)] run] by blast+
    ultimately have "m = of_bool (\<exists>x\<in>set (k # ks). in_group (sc_rq s h) i x)" by simp
    moreover have "shrinks h i m s s'" using shrinks_trans [OF g(1) IH(1)] True by simp
    ultimately show ?thesis using IH(2) g(2) by metis
  next
    case False
    then have "m = n" "s' = s1" using Cons.prems(2) r by simp_all
    moreover have "in_group (sc_rq s h) i k" using g(3) False by (metis of_bool_eq(1))
    ultimately show ?thesis using g(1,2,3) by simp
  qed
qed

lemma entry_somewhere:
  assumes "rq_ok_but X rq" "0 < entry_count rq i"
  shows "(\<exists>n<RT_PRIO_LEVELS. i \<in> set (rq_rt rq ! n)) \<or> (\<exists>k\<in>set (map fst (rq_groups rq)). in_group rq i k)"
proof (rule ccontr)
  assume n: "\<not> ?thesis"
  have "queue_count q i = 0" if "q \<in> set (rq_rt rq)" for q
  proof -
    have "i \<notin> set q" using n that rq_ok_butD(1) [OF assms(1)] by (metis in_set_conv_nth)
    then show ?thesis by (simp add: queue_count_def filter_empty_conv) blast
  qed
  then have 1: "sum_list (map (\<lambda>q. queue_count q i) (rq_rt rq)) = 0" by (simp add: sum_list_eq_0_iff)
  have "group_count (snd p) i = 0" if p: "p \<in> set (rq_groups rq)" for p
  proof -
    have get: "btm_get (rq_groups rq) (fst p) = Some (snd p)" using p btm_get_iff [OF rq_ok_butD(2) [OF assms(1)]] by (metis prod.collapse)
    then have "btm_get (fg_tasks (snd p)) i = None" using n p by (auto simp: in_group_def)
    then show ?thesis using group_count [OF rq_ok_butD(5) [OF assms(1) get]] by simp
  qed
  then have "group_sum (\<lambda>g. group_count g i) rq = 0" unfolding group_sum_def by (simp add: sum_list_eq_0_iff)
  then have "entry_count rq i = 0" unfolding entry_count_alt 1 by simp
  then show False using assms(2) by simp
qed

text \<open>Removing a task takes its one entry out of the queue that has it.\<close>

lemma remove_entries:
  assumes hok: "hart_ok_but {} s h" and q: "t_rq_hart (sc_tcb s i) = Some h"
    and s1: "s1 = set_tcb i t s" and rt: "remove_from_rt h i [0..<RT_PRIO_LEVELS] s1 = (a, s2)"
    and own: "remove_fair_task_from_group h k i s2 = (b, s3)"
    and scan: "(c, s4) = (if b = 0 then remove_fair_scan h (map fst (rq_groups (sc_rq s3 h))) i s3 else (b, s3))"
  shows "a + c = 1" "shrinks h i 1 s1 s4"
proof -
  have ok1: "queues_ok h s1" using hok by (simp add: hart_ok_but_def queues_ok_def s1)
  have one: "entry_count (sc_rq s1 h) i = 1" using hart_okD(4) [OF hok, of i] q by (simp add: s1)
  have A: "shrinks h i a s1 s2" "\<forall>n<RT_PRIO_LEVELS. i \<notin> set (rq_rt (sc_rq s2 h) ! n)"
    using remove_from_rt_ok [OF ok1 _ rt] by (auto simp: lessThan_atLeast0)
  note B = remove_fair_task_from_group_ok [OF shrinks_queues [OF A(1)] own, folded in_group_def]
  have C: "shrinks h i c s2 s4" "rq_rt (sc_rq s4 h) = rq_rt (sc_rq s2 h)"
    and found: "c = of_bool (in_group (sc_rq s2 h) i k \<or> (\<exists>k\<in>set (map fst (rq_groups (sc_rq s2 h))). in_group (sc_rq s2 h) i k))"
  proof -
    have "shrinks h i c s2 s4 \<and> rq_rt (sc_rq s4 h) = rq_rt (sc_rq s2 h) \<and>
      c = of_bool (in_group (sc_rq s2 h) i k \<or> (\<exists>k\<in>set (map fst (rq_groups (sc_rq s2 h))). in_group (sc_rq s2 h) i k))"
    proof (cases "b = 0")
      case True
      have run: "remove_fair_scan h (map fst (rq_groups (sc_rq s3 h))) i s3 = (c, s4)" using scan True by simp
      have sc: "shrinks h i c s3 s4" "rq_rt (sc_rq s4 h) = rq_rt (sc_rq s3 h)"
        "c = of_bool (\<exists>k\<in>set (map fst (rq_groups (sc_rq s3 h))). in_group (sc_rq s3 h) i k)"
        using remove_fair_scan_ok [OF shrinks_queues [OF B(1)] run] by blast+
      have same: "in_group (sc_rq s3 h) i = in_group (sc_rq s2 h) i" using B(4) True by (auto simp: in_group_def)
      have "\<not> in_group (sc_rq s2 h) i k" using B(3) True by simp
      moreover have "rq_groups (sc_rq s3 h) = rq_groups (sc_rq s2 h)" by (rule B(4) [OF True])
      ultimately have "c = of_bool (in_group (sc_rq s2 h) i k \<or> (\<exists>k\<in>set (map fst (rq_groups (sc_rq s2 h))). in_group (sc_rq s2 h) i k))" using sc(3) same by simp
      moreover have "shrinks h i c s2 s4" using shrinks_trans [OF B(1) sc(1)] True by simp
      ultimately show ?thesis using sc(2) B(2) by metis
    next
      case False
      then have "in_group (sc_rq s2 h) i k" "c = b" "s4 = s3" using scan B(3) by (auto split: if_splits)
      then show ?thesis using B(1,2,3) by simp
    qed
    then show "shrinks h i c s2 s4" "rq_rt (sc_rq s4 h) = rq_rt (sc_rq s2 h)"
      "c = of_bool (in_group (sc_rq s2 h) i k \<or> (\<exists>k\<in>set (map fst (rq_groups (sc_rq s2 h))). in_group (sc_rq s2 h) i k))" by blast+
  qed
  have tot: "shrinks h i (a + c) s1 s4" by (rule shrinks_trans [OF A(1) C(1)])
  have le: "a + c \<le> 1" using tot one unfolding shrinks_def by (metis le_add2)
  have "entry_count (sc_rq s2 h) i + a = 1" using A(1) one unfolding shrinks_def by metis
  moreover have "0 < entry_count (sc_rq s2 h) i \<Longrightarrow> c = 1"
    using entry_somewhere [of "{}" "sc_rq s2 h" i] A found shrinks_queues [OF A(1)] by (auto simp: queues_ok_def)
  ultimately show "a + c = 1" using le by (cases a) auto
  then show "shrinks h i 1 s1 s4" using tot by simp
qed

lemma rq_remove_ok:
  assumes ok: "sched_ok s" and r: "rq_remove i s = (m, s')"
  shows "sched_ok s'" "m = of_bool (t_rq_hart (sc_tcb s i) \<noteq> None)" "t_rq_hart (sc_tcb s' i) = None"
    "\<And>j. j \<noteq> i \<Longrightarrow> sc_tcb s' j = sc_tcb s j"
proof -
  let ?t = "(sc_tcb s i)\<lparr>t_rq_hart := None\<rparr>"
  have "sched_ok s' \<and> m = of_bool (t_rq_hart (sc_tcb s i) \<noteq> None) \<and> sc_tcb s' = (sc_tcb s)(i := ?t\<lparr>t_in_ready := False\<rparr>)"
  proof (cases "t_rq_hart (sc_tcb s i)")
    case None
    have "\<not> t_in_ready (sc_tcb s i)" using ok None unfolding sched_ok_def tcb_ok_def by metis
    then have "?t\<lparr>t_in_ready := False\<rparr> = sc_tcb s i" using None by (cases "sc_tcb s i") auto
    then have "m = 0" "s' = s" using r None by (auto simp: rq_remove_def set_tcb_def)
    then show ?thesis using ok None \<open>?t\<lparr>t_in_ready := False\<rparr> = sc_tcb s i\<close> by (simp add: fun_upd_idem)
  next
    case (Some h)
    have h: "h < MAX_HARTS" using ok Some by (auto simp: sched_ok_def tcb_ok_def)
    have hok: "hart_ok_but {} s h" using ok h by (simp add: sched_ok_def)
    define s1 where "s1 = set_tcb i ?t s"
    obtain a s2 where a: "remove_from_rt h i [0..<RT_PRIO_LEVELS] s1 = (a, s2)" by fastforce
    obtain b s3 where b: "remove_fair_task_from_group h (fst (fair_group_id_and_shares (sc_tcb s2 i))) i s2 = (b, s3)" by fastforce
    obtain c s4 where c: "(c, s4) = (if b = 0 then remove_fair_scan h (map fst (rq_groups (sc_rq s3 h))) i s3 else (b, s3))" by (metis prod.collapse)
    have m: "m = a + c" "s' = set_tcb i ((sc_tcb s4 i)\<lparr>t_in_ready := False\<rparr>) s4"
      using r Some h a b c unfolding rq_remove_def by (auto simp: s1_def [symmetric] Let_def split: prod.splits if_splits)
    note e = remove_entries [OF hok Some s1_def a b c]
    have t4: "sc_tcb s4 = (sc_tcb s)(i := ?t)" using e(2) by (simp add: shrinks_def s1_def)
    have eq: "sc_rq s' = sc_rq s4" "sc_rt_count s' = sc_rt_count s4" "sc_fair_count s' = sc_fair_count s4"
      "sc_tcb s' = (sc_tcb s)(i := ?t\<lparr>t_in_ready := False\<rparr>)" using t4 by (simp_all add: m)
    have cnt: "entry_count (sc_rq s4 h) j + (if j = i then 1 else 0) = entry_count (sc_rq s h) j" for j
      using e(2) unfolding shrinks_def by (simp add: s1_def)
    have "entry_count (sc_rq s' h) j = of_bool (t_rq_hart (sc_tcb s' j) = Some h)" for j
      using cnt [of j] hart_okD(4) [OF hok, of j] Some by (cases "j = i") (simp_all add: eq)
    then have "hart_ok_but {} s' h" using shrinks_queues [OF e(2)] by (simp add: hart_ok_but_def queues_ok_def eq)
    moreover have "only_hart h s s'" using e(2) Some by (auto simp: only_hart_def shrinks_def s1_def eq)
    moreover have "tcb_ok (sc_tcb s' j)" for j using ok by (auto simp: eq sched_ok_def tcb_ok_def)
    ultimately have "sched_ok s'" using sched_ok_update [of "{}" h s s' "{}"] ok by (simp add: sched_ok_but_empty)
    then show ?thesis using m(1) e(1) Some eq(4) by simp
  qed
  then show "sched_ok s'" "m = of_bool (t_rq_hart (sc_tcb s i) \<noteq> None)" "t_rq_hart (sc_tcb s' i) = None"
    "\<And>j. j \<noteq> i \<Longrightarrow> sc_tcb s' j = sc_tcb s j" by auto
qed

end
