(* ===== verification/Hart_Select.thy ===== *)
theory Hart_Select
  imports Run_Queue
begin

text \<open>
  The choice of the hart that a task is queued on (\<open>src/src/task/manager.rs\<close>, the first part of
  \<open>src/src/task/manager/run_queue.rs\<close>) and the queueing of a task there.

  \<open>machine\<close> is the state shared by the harts: the scheduler of \<open>Run_Queue\<close>, the mask of harts that have
  come up, the rotating start of the search for a new task's hart, the flags \<open>NEED_RESCHED\<close>, the depth
  of the sections in which a hart must not switch, the tasks that a hart holds after it left their
  kernel stack, and the interrupts sent to other harts. \<open>env\<close> is what a call finds around it: the
  hart it runs on, the harts in the device tree, the time, which is read as one value during a call, the
  processors whose lock is held by others, and whether the locks of the running task are free.
\<close>

record machine =
  m_sched :: sched
  m_online :: usize
  m_next_hart :: usize
  m_need_resched :: "nat \<Rightarrow> bool"
  m_disabled :: "nat \<Rightarrow> nat"
  m_pending_ready :: "nat \<Rightarrow> task_id option"
  m_pending_blocked :: "nat \<Rightarrow> task_id option"
  m_pending_drop :: "nat \<Rightarrow> task_id list"
  m_ipis :: "nat list"

record env =
  env_hart :: nat
  env_active :: usize
  env_now :: nat
  env_busy :: "nat \<Rightarrow> bool"
  env_inner_free :: bool

abbreviation m_tcb :: "machine \<Rightarrow> task_id \<Rightarrow> tcb" where
  "m_tcb m i \<equiv> sc_tcb (m_sched m) i"

definition upd_tcb :: "task_id \<Rightarrow> tcb \<Rightarrow> machine \<Rightarrow> machine" where
  "upd_tcb i t m = m\<lparr>m_sched := set_tcb i t (m_sched m)\<rparr>"

definition local_hart :: "env \<Rightarrow> nat" where
  "local_hart E = env_hart E mod MAX_HARTS"

definition send_ipi :: "nat \<Rightarrow> machine \<Rightarrow> machine" where
  "send_ipi h m = m\<lparr>m_ipis := m_ipis m @ [h]\<rparr>"

definition hart_bit :: "nat \<Rightarrow> usize" where
  "hart_bit h = (if h < 64 then push_bit h 1 else 0)"

section \<open>Harts that are up\<close>

definition trailing_zeros :: "usize \<Rightarrow> nat" where
  "trailing_zeros w = length (takeWhile (\<lambda>n. \<not> bit w n) [0..<64])"

definition mark_hart_online :: "env \<Rightarrow> nat \<Rightarrow> machine \<Rightarrow> machine" where
  "mark_hart_online E h m =
     (if h < MAX_HARTS \<and> env_active E AND push_bit h 1 \<noteq> 0
      then m\<lparr>m_online := m_online m OR push_bit h 1\<rparr> else m)"

definition online_hart_mask :: "env \<Rightarrow> machine \<Rightarrow> usize" where
  "online_hart_mask E m =
     (let active = env_active E; hmask = m_online m AND active in
      if hmask \<noteq> 0 then hmask
      else if active = 0 then 1
      else push_bit (trailing_zeros active) 1)"

definition pick_online_hart :: "env \<Rightarrow> nat \<Rightarrow> machine \<Rightarrow> nat" where
  "pick_online_hart E start m =
     (let hmask = online_hart_mask E m in
      case find (\<lambda>cand. hmask AND push_bit cand 1 \<noteq> 0) (map (\<lambda>i. (start + i) mod MAX_HARTS) [0..<MAX_HARTS]) of
        Some cand \<Rightarrow> cand
      | None \<Rightarrow> 0)"

definition select_hart_for_new_task :: "env \<Rightarrow> machine \<Rightarrow> nat \<times> machine" where
  "select_hart_for_new_task E m =
     (let start = unat (m_next_hart m) mod MAX_HARTS; m1 = m\<lparr>m_next_hart := m_next_hart m + 1\<rparr>
      in (pick_online_hart E start m1, m1))"

section \<open>Choosing from a mask\<close>

fun least_loaded :: "sched \<Rightarrow> usize \<Rightarrow> nat option \<Rightarrow> nat \<Rightarrow> nat list \<Rightarrow> nat option" where
  "least_loaded s hmask best_hart best_len [] = best_hart"
| "least_loaded s hmask best_hart best_len (h # rest) =
     (if hmask AND push_bit h 1 = 0 then least_loaded s hmask best_hart best_len rest
      else
        let len = rq_len (sc_rq s h) in
        if len < best_len then least_loaded s hmask (Some h) len rest
        else least_loaded s hmask best_hart best_len rest)"

definition pick_least_loaded_hart_from_mask :: "env \<Rightarrow> usize \<Rightarrow> machine \<Rightarrow> nat" where
  "pick_least_loaded_hart_from_mask E hmask m =
     (case least_loaded (m_sched m) hmask None (2 ^ 64 - 1) [0..<MAX_HARTS] of
        Some h \<Rightarrow> h
      | None \<Rightarrow> pick_online_hart E 0 m)"

definition pick_online_hart_from_mask :: "env \<Rightarrow> usize \<Rightarrow> machine \<Rightarrow> nat" where
  "pick_online_hart_from_mask E hmask m =
     (case find (\<lambda>h. hmask AND push_bit h 1 \<noteq> 0) [0..<MAX_HARTS] of
        Some h \<Rightarrow> h
      | None \<Rightarrow> pick_online_hart E 0 m)"

definition allowed_hart_mask_for_task :: "tcb \<Rightarrow> usize \<Rightarrow> usize" where
  "allowed_hart_mask_for_task t online_mask =
     (let affinity_mask = (if t_affinity t = 0 then online_mask else t_affinity t AND online_mask)
      in if affinity_mask = 0 then online_mask else affinity_mask)"

text \<open>The functions that choose return the hart and the control block with its new \<open>cpu_id\<close>.\<close>

definition resolve_enqueue_hart :: "env \<Rightarrow> machine \<Rightarrow> nat \<Rightarrow> usize \<Rightarrow> enqueue_kind \<Rightarrow> tcb \<Rightarrow> nat \<times> tcb" where
  "resolve_enqueue_hart E m current_hart hmask kind t =
     (let affinity_mask = (if t_affinity t = 0 then hmask else t_affinity t AND hmask);
          allowed_mask = (if affinity_mask = 0 then hmask else affinity_mask) in
      if task_queue_slot t = Slot_fair then
        (if kind = Enqueue_initial \<and> allowed_mask AND push_bit current_hart 1 \<noteq> 0
         then (current_hart, t\<lparr>t_cpu_id := current_hart\<rparr>)
         else let picked = pick_least_loaded_hart_from_mask E allowed_mask m in (picked, t\<lparr>t_cpu_id := picked\<rparr>))
      else
        let desired = t_cpu_id t mod MAX_HARTS in
        if allowed_mask AND push_bit desired 1 \<noteq> 0 then (desired, t)
        else if allowed_mask AND push_bit current_hart 1 \<noteq> 0 then (current_hart, t\<lparr>t_cpu_id := current_hart\<rparr>)
        else let picked = pick_online_hart_from_mask E allowed_mask m in (picked, t\<lparr>t_cpu_id := picked\<rparr>))"

definition resolve_wakeup_hart :: "env \<Rightarrow> machine \<Rightarrow> nat \<Rightarrow> usize \<Rightarrow> tcb \<Rightarrow> nat \<times> tcb" where
  "resolve_wakeup_hart E m current_hart hmask t =
     (let allowed_mask = allowed_hart_mask_for_task t hmask; previous = t_cpu_id t mod MAX_HARTS in
      if task_queue_slot t = Slot_fair then
        (let picked = pick_least_loaded_hart_from_mask E allowed_mask m in (picked, t\<lparr>t_cpu_id := picked\<rparr>))
      else if allowed_mask AND hart_bit previous \<noteq> 0 then (previous, t)
      else if allowed_mask AND hart_bit current_hart \<noteq> 0 then (current_hart, t\<lparr>t_cpu_id := current_hart\<rparr>)
      else let picked = pick_online_hart_from_mask E allowed_mask m in (picked, t\<lparr>t_cpu_id := picked\<rparr>))"

definition resolve_sync_wakeup_hart :: "env \<Rightarrow> machine \<Rightarrow> nat \<Rightarrow> usize \<Rightarrow> tcb \<Rightarrow> nat \<times> tcb" where
  "resolve_sync_wakeup_hart E m source_hart hmask t =
     (let allowed_mask = allowed_hart_mask_for_task t hmask in
      if task_queue_slot t = Slot_fair then
        (if allowed_mask AND hart_bit source_hart \<noteq> 0 then (source_hart, t\<lparr>t_cpu_id := source_hart\<rparr>)
         else
           let previous = t_cpu_id t mod MAX_HARTS in
           if allowed_mask AND hart_bit previous \<noteq> 0 then (previous, t)
           else let picked = pick_online_hart_from_mask E allowed_mask m in (picked, t\<lparr>t_cpu_id := picked\<rparr>))
      else resolve_wakeup_hart E m source_hart hmask t)"

section \<open>Queueing\<close>

definition enqueue_task_with_wakeup_flags ::
    "env \<Rightarrow> task_id \<Rightarrow> enqueue_kind \<Rightarrow> nat option \<Rightarrow> machine \<Rightarrow> (nat \<times> bool) option \<times> machine" where
  "enqueue_task_with_wakeup_flags E i kind sync_source_hart m =
     (let hmask = online_hart_mask E m; cur = local_hart E; t = m_tcb m i;
          sync = (case sync_source_hart of Some h \<Rightarrow> if h < MAX_HARTS then Some h else None | None \<Rightarrow> None);
          (h, t1) =
            (if kind = Enqueue_wakeup
             then (case sync of
                     Some src \<Rightarrow> resolve_sync_wakeup_hart E m src hmask t
                   | None \<Rightarrow> resolve_wakeup_hart E m cur hmask t)
             else resolve_enqueue_hart E m cur hmask kind t);
          (queued, s) = rq_add i h kind (env_busy E h) (env_now E) (set_tcb i t1 (m_sched m))
      in (map_option (\<lambda>was_empty. (h, was_empty)) queued, m\<lparr>m_sched := s\<rparr>))"

definition enqueue_task :: "env \<Rightarrow> task_id \<Rightarrow> enqueue_kind \<Rightarrow> machine \<Rightarrow> (nat \<times> bool) option \<times> machine" where
  "enqueue_task E i kind m = enqueue_task_with_wakeup_flags E i kind None m"

section \<open>The hart chosen\<close>

lemma and_bit: "(w :: usize) AND push_bit h 1 = 0 \<longleftrightarrow> \<not> bit w h" "(w :: usize) AND 2 ^ h = 0 \<longleftrightarrow> \<not> bit w h"
  by (simp_all add: bit_iff_and_push_bit_not_eq_0)

lemma and_hart_bit: "h < MAX_HARTS \<Longrightarrow> (w :: usize) AND hart_bit h \<noteq> 0 \<longleftrightarrow> bit w h"
  by (simp add: hart_bit_def and_bit MAX_HARTS_def)

text \<open>\<open>usable E m\<close>: some hart with a queue is up.\<close>

definition usable :: "env \<Rightarrow> machine \<Rightarrow> bool" where
  "usable E m \<longleftrightarrow> (\<exists>h<MAX_HARTS. bit (online_hart_mask E m) h)"

definition queues_bounded :: "machine \<Rightarrow> bool" where
  "queues_bounded m \<longleftrightarrow> (\<forall>h<MAX_HARTS. rq_len (sc_rq (m_sched m) h) < 2 ^ 64 - 1)"

text \<open>\<open>choosable hmask E m h\<close>: hart \<open>h\<close> is in the mask or, when the mask holds no hart with a queue, is up.\<close>

definition choosable :: "usize \<Rightarrow> env \<Rightarrow> machine \<Rightarrow> nat \<Rightarrow> bool" where
  "choosable hmask E m h \<longleftrightarrow> h < MAX_HARTS \<and>
     (if \<exists>h'<MAX_HARTS. bit hmask h' then bit hmask h else usable E m \<longrightarrow> bit (online_hart_mask E m) h)"

lemma choosableI: "h < MAX_HARTS \<Longrightarrow> bit hmask h \<Longrightarrow> choosable hmask E m h"
  by (auto simp: choosable_def)

lemma pick_online_hart_ok: "pick_online_hart E start m < MAX_HARTS"
  "usable E m \<Longrightarrow> bit (online_hart_mask E m) (pick_online_hart E start m)"
proof -
  let ?p = "\<lambda>cand. online_hart_mask E m AND push_bit cand 1 \<noteq> 0" and ?xs = "map (\<lambda>i. (start + i) mod MAX_HARTS) [0..<MAX_HARTS]"
  have set: "h \<in> set ?xs" if "h < MAX_HARTS" for h
  proof -
    let ?i = "(h + (MAX_HARTS - start mod MAX_HARTS)) mod MAX_HARTS"
    have "(start + ?i) mod MAX_HARTS = (start mod MAX_HARTS + (h + (MAX_HARTS - start mod MAX_HARTS))) mod MAX_HARTS"
      by (simp add: mod_simps)
    also have "start mod MAX_HARTS + (h + (MAX_HARTS - start mod MAX_HARTS)) = h + MAX_HARTS"
      using mod_less_divisor [of MAX_HARTS start] by (simp add: MAX_HARTS_def)
    finally have "(start + ?i) mod MAX_HARTS = h" using that by simp
    moreover have "?i < MAX_HARTS" by (simp add: MAX_HARTS_def)
    ultimately have "h \<in> (\<lambda>i. (start + i) mod MAX_HARTS) ` {0..<MAX_HARTS}" by (intro image_eqI [of _ _ ?i]) simp_all
    then show ?thesis by simp
  qed
  show "pick_online_hart E start m < MAX_HARTS"
    by (auto simp: pick_online_hart_def Let_def find_Some_iff MAX_HARTS_def split: option.split)
  assume "usable E m"
  then obtain h where "h < MAX_HARTS" "?p h" by (auto simp: usable_def and_bit)
  then have "find ?p ?xs \<noteq> None" using set by (auto simp: find_None_iff)
  then obtain c where c: "find ?p ?xs = Some c" by blast
  then have "?p c" by (auto simp: find_Some_iff)
  then show "bit (online_hart_mask E m) (pick_online_hart E start m)" using c by (simp add: pick_online_hart_def Let_def and_bit)
qed

lemma pick_online_hart_from_mask_ok: "choosable hmask E m (pick_online_hart_from_mask E hmask m)"
proof (cases "find (\<lambda>h. hmask AND push_bit h 1 \<noteq> 0) [0..<MAX_HARTS]")
  case None
  then have "\<not> (\<exists>h<MAX_HARTS. bit hmask h)" by (auto simp: find_None_iff and_bit)
  then show ?thesis using None pick_online_hart_ok by (simp add: choosable_def pick_online_hart_from_mask_def)
next
  case (Some h)
  then obtain i where "i < MAX_HARTS" "h = i" "bit hmask h" by (auto simp: find_Some_iff and_bit)
  then show ?thesis using Some by (auto simp: choosable_def pick_online_hart_from_mask_def)
qed

lemma least_loaded_ok:
  assumes "case best of None \<Rightarrow> True | Some b \<Rightarrow> rq_len (sc_rq s b) = blen"
    "best \<noteq> None \<or> (\<exists>h\<in>set hs. bit hmask h \<and> rq_len (sc_rq s h) < blen)"
  shows "\<exists>r. least_loaded s hmask best blen hs = Some r \<and> (r \<in> set hs \<and> bit hmask r \<or> best = Some r) \<and>
    rq_len (sc_rq s r) \<le> blen \<and> (\<forall>h\<in>set hs. bit hmask h \<longrightarrow> rq_len (sc_rq s r) \<le> rq_len (sc_rq s h))"
  using assms
proof (induction hs arbitrary: best blen)
  case (Cons h hs)
  show ?case
  proof (cases "bit hmask h \<and> rq_len (sc_rq s h) < blen")
    case True
    then obtain r where "least_loaded s hmask (Some h) (rq_len (sc_rq s h)) hs = Some r" "r \<in> set hs \<and> bit hmask r \<or> h = r"
      "rq_len (sc_rq s r) \<le> rq_len (sc_rq s h)" "\<forall>h'\<in>set hs. bit hmask h' \<longrightarrow> rq_len (sc_rq s r) \<le> rq_len (sc_rq s h')"
      using Cons.IH [where best = "Some h" and blen = "rq_len (sc_rq s h)"] by auto
    then show ?thesis using True by (auto simp: and_bit Let_def)
  next
    case False
    then have step: "least_loaded s hmask best blen (h # hs) = least_loaded s hmask best blen hs" by (auto simp: and_bit Let_def)
    have "best \<noteq> None \<or> (\<exists>h\<in>set hs. bit hmask h \<and> rq_len (sc_rq s h) < blen)" using Cons.prems(2) False by auto
    from Cons.IH [OF Cons.prems(1) this] show ?thesis using False unfolding step by (auto intro: order_trans)
  qed
qed auto

lemma least_loaded_none: "(\<forall>h\<in>set hs. \<not> bit hmask h) \<Longrightarrow> least_loaded s hmask best blen hs = best"
  by (induction hs) (auto simp: and_bit)

lemma pick_least_loaded_ok:
  assumes "queues_bounded m"
  shows "choosable hmask E m (pick_least_loaded_hart_from_mask E hmask m)"
    "h < MAX_HARTS \<Longrightarrow> bit hmask h \<Longrightarrow>
      rq_len (sc_rq (m_sched m) (pick_least_loaded_hart_from_mask E hmask m)) \<le> rq_len (sc_rq (m_sched m) h)"
proof -
  have some: "\<exists>r. pick_least_loaded_hart_from_mask E hmask m = r \<and> r < MAX_HARTS \<and> bit hmask r \<and>
      (\<forall>h<MAX_HARTS. bit hmask h \<longrightarrow> rq_len (sc_rq (m_sched m) r) \<le> rq_len (sc_rq (m_sched m) h))"
    if "h < MAX_HARTS" "bit hmask h" for h
    using least_loaded_ok [where best = None and s = "m_sched m" and blen = "2 ^ 64 - 1" and hs = "[0..<MAX_HARTS]" and hmask = hmask] that assms
    by (force simp: pick_least_loaded_hart_from_mask_def queues_bounded_def)
  show "choosable hmask E m (pick_least_loaded_hart_from_mask E hmask m)"
  proof (cases "\<exists>h<MAX_HARTS. bit hmask h")
    case True
    then show ?thesis using some choosableI by metis
  next
    case False
    then have "pick_least_loaded_hart_from_mask E hmask m = pick_online_hart E 0 m"
      by (simp add: pick_least_loaded_hart_from_mask_def least_loaded_none)
    then show ?thesis using False pick_online_hart_ok by (simp add: choosable_def)
  qed
  assume "h < MAX_HARTS" "bit hmask h"
  then show "rq_len (sc_rq (m_sched m) (pick_least_loaded_hart_from_mask E hmask m)) \<le> rq_len (sc_rq (m_sched m) h)"
    using some by metis
qed

text \<open>The three choices: the hart is in the task's mask and nothing of the task changes but its \<open>cpu_id\<close>.\<close>

definition chosen :: "env \<Rightarrow> machine \<Rightarrow> tcb \<Rightarrow> nat \<times> tcb \<Rightarrow> bool" where
  "chosen E m t p \<longleftrightarrow> choosable (allowed_hart_mask_for_task t (online_hart_mask E m)) E m (fst p) \<and>
     (\<exists>c. snd p = t\<lparr>t_cpu_id := c\<rparr>)"

lemma chosen_same: "choosable (allowed_hart_mask_for_task t (online_hart_mask E m)) E m h \<Longrightarrow> chosen E m t (h, t)"
  unfolding chosen_def by (metis fst_conv snd_conv tcb.surjective tcb.update_convs(3))

lemma chosen_set: "choosable (allowed_hart_mask_for_task t (online_hart_mask E m)) E m h \<Longrightarrow> chosen E m t (h, t\<lparr>t_cpu_id := c\<rparr>)"
  by (auto simp: chosen_def)

lemmas chosen_intros = chosen_same chosen_set choosableI pick_online_hart_from_mask_ok pick_least_loaded_ok(1)

lemma mod_harts [simp]: "n mod MAX_HARTS < MAX_HARTS" "local_hart E < MAX_HARTS"
  by (simp_all add: MAX_HARTS_def local_hart_def)

lemma resolve_enqueue_hart_ok:
  assumes "queues_bounded m" "cur < MAX_HARTS"
  shows "chosen E m t (resolve_enqueue_hart E m cur (online_hart_mask E m) kind t)"
  using assms unfolding resolve_enqueue_hart_def allowed_hart_mask_for_task_def [symmetric] Let_def
  by (auto simp: and_bit allowed_hart_mask_for_task_def [symmetric, unfolded Let_def] intro!: chosen_intros)

lemma resolve_wakeup_hart_ok:
  assumes "queues_bounded m" "cur < MAX_HARTS"
  shows "chosen E m t (resolve_wakeup_hart E m cur (online_hart_mask E m) t)"
  using assms unfolding resolve_wakeup_hart_def Let_def by (auto simp: and_hart_bit intro!: chosen_intros)

lemma resolve_sync_wakeup_hart_ok:
  assumes "queues_bounded m" "src < MAX_HARTS"
  shows "chosen E m t (resolve_sync_wakeup_hart E m src (online_hart_mask E m) t)"
  using assms resolve_wakeup_hart_ok [OF assms] unfolding resolve_sync_wakeup_hart_def Let_def
  by (auto simp: and_hart_bit intro!: chosen_intros)

end
