(* ===== verification/Wakeup_Batch.thy ===== *)
theory Wakeup_Batch
  imports Hart_Select
begin

text \<open>
  Waking tasks: whether a task that became ready takes the CPU from the one that runs there
  (\<open>src/src/task/processor.rs\<close>), the batch that collects the harts to interrupt, the queueing of new,
  preempted and woken tasks, and the move of a queued task after a change of its attributes
  (\<open>src/src/task/manager.rs\<close>).

  A preemption check may refresh the bandwidth of the real-time class, so that it returns the changed
  machine with its answer.
\<close>

section \<open>Preemption by a task that became ready\<close>

definition task_sched_class_and_priority :: "tcb \<Rightarrow> sched_class \<times> int" where
  "task_sched_class_and_priority t =
     (case class_of_policy (t_policy t) of None \<Rightarrow> Sched_fair | Some c \<Rightarrow> c, t_priority t)"

definition wakeup_should_preempt_task :: "env \<Rightarrow> task_id \<Rightarrow> task_id \<Rightarrow> nat \<Rightarrow> machine \<Rightarrow> bool" where
  "wakeup_should_preempt_task E current woken target_hart m =
     (if current = woken then False
      else
        let (current_class, current_priority) = task_sched_class_and_priority (m_tcb m current);
            (woken_class, woken_priority) = task_sched_class_and_priority (m_tcb m woken)
        in if woken_class \<noteq> Sched_fair
           then (if current_class = Sched_fair then True else woken_priority > current_priority)
           else if current_class = Sched_fair
           then fair_wakeup_preempts_current_on_hart current woken target_hart (env_now E) (m_sched m)
                \<or> fair_task_is_next_on_hart woken target_hart (m_sched m)
           else False)"

definition current_task_on_hart :: "env \<Rightarrow> nat \<Rightarrow> machine \<Rightarrow> task_id option" where
  "current_task_on_hart E h m = (if MAX_HARTS \<le> h \<or> env_busy E h then None else sc_current (m_sched m) h)"

definition wakeup_should_preempt_current :: "env \<Rightarrow> task_id \<Rightarrow> machine \<Rightarrow> bool" where
  "wakeup_should_preempt_current E woken m =
     (case (if env_busy E (env_hart E) then None else sc_current (m_sched m) (env_hart E)) of
        None \<Rightarrow> True
      | Some current \<Rightarrow> wakeup_should_preempt_task E current woken (local_hart E) m)"

definition wakeup_should_preempt_hart :: "env \<Rightarrow> task_id \<Rightarrow> nat \<Rightarrow> machine \<Rightarrow> bool" where
  "wakeup_should_preempt_hart E woken target_hart m =
     (case current_task_on_hart E target_hart m of
        None \<Rightarrow> True
      | Some current \<Rightarrow> wakeup_should_preempt_task E current woken target_hart m)"

definition throttled_on :: "env \<Rightarrow> nat \<Rightarrow> machine \<Rightarrow> bool \<times> machine" where
  "throttled_on E h m =
     (let (throttled, s) = rt_bandwidth_throttled h (of_nat (env_now E)) (m_sched m) in (throttled, m\<lparr>m_sched := s\<rparr>))"

definition wakeup_should_preempt_target_hart :: "env \<Rightarrow> task_id \<Rightarrow> nat \<Rightarrow> machine \<Rightarrow> bool \<times> machine" where
  "wakeup_should_preempt_target_hart E woken target_hart m =
     (if MAX_HARTS \<le> target_hart then (False, m)
      else
        let (throttled, m1) =
              (if fst (task_sched_class_and_priority (m_tcb m woken)) \<noteq> Sched_fair then throttled_on E target_hart m else (False, m))
        in if throttled then (False, m1)
           else (if target_hart = local_hart E then wakeup_should_preempt_current E woken m1
                 else wakeup_should_preempt_hart E woken target_hart m1, m1))"

definition set_need_resched :: "nat \<Rightarrow> machine \<Rightarrow> machine" where
  "set_need_resched h m = m\<lparr>m_need_resched := (m_need_resched m)(h := True)\<rparr>"

definition request_reschedule_for_wakeup :: "env \<Rightarrow> task_id \<Rightarrow> nat \<Rightarrow> machine \<Rightarrow> machine" where
  "request_reschedule_for_wakeup E woken target_hart m =
     (if MAX_HARTS \<le> target_hart \<or> online_hart_mask E m AND push_bit target_hart 1 = 0 then m
      else
        let (preempt, m1) = wakeup_should_preempt_target_hart E woken target_hart m in
        if \<not> preempt then m1
        else
          let m2 = set_need_resched target_hart m1
          in if target_hart \<noteq> local_hart E then send_ipi target_hart m2 else m2)"

definition request_reschedule_harts :: "env \<Rightarrow> usize \<Rightarrow> machine \<Rightarrow> machine" where
  "request_reschedule_harts E target_mask m =
     (let harts = filter (\<lambda>h. (target_mask AND online_hart_mask E m) AND push_bit h 1 \<noteq> 0) [0..<MAX_HARTS]
      in fold send_ipi (filter (\<lambda>h. h \<noteq> local_hart E) harts) (fold set_need_resched harts m))"

definition request_reschedule_current_hart :: "env \<Rightarrow> machine \<Rightarrow> machine" where
  "request_reschedule_current_hart E m = set_need_resched (local_hart E) m"

section \<open>Batches\<close>

record wakeup_batch =
  kick_mask :: usize
  resched_mask :: usize

definition batch_new :: wakeup_batch where
  "batch_new = \<lparr>kick_mask = 0, resched_mask = 0\<rparr>"

definition note_idle_kick :: "env \<Rightarrow> nat \<Rightarrow> bool \<Rightarrow> wakeup_batch \<Rightarrow> wakeup_batch" where
  "note_idle_kick E target_hart was_empty b =
     (if target_hart \<noteq> local_hart E \<and> was_empty then b\<lparr>kick_mask := kick_mask b OR hart_bit target_hart\<rparr> else b)"

definition note_enqueued :: "env \<Rightarrow> task_id \<Rightarrow> nat \<Rightarrow> bool \<Rightarrow> machine \<times> wakeup_batch \<Rightarrow> machine \<times> wakeup_batch" where
  "note_enqueued E i target_hart was_empty = (\<lambda>(m, b).
     let b1 = note_idle_kick E target_hart was_empty b;
         (preempt, m1) = wakeup_should_preempt_target_hart E i target_hart m
     in (m1, if preempt then b1\<lparr>resched_mask := resched_mask b1 OR hart_bit target_hart\<rparr> else b1))"

definition note_signal_enqueued :: "env \<Rightarrow> task_id \<Rightarrow> nat \<Rightarrow> bool \<Rightarrow> machine \<times> wakeup_batch \<Rightarrow> machine \<times> wakeup_batch" where
  "note_signal_enqueued E i target_hart was_empty = (\<lambda>(m, b).
     let b1 = note_idle_kick E target_hart was_empty b;
         (preempt, m1) =
           (if task_queue_slot (m_tcb m i) \<noteq> Slot_fair then wakeup_should_preempt_target_hart E i target_hart m else (False, m))
     in (m1, if preempt then b1\<lparr>resched_mask := resched_mask b1 OR hart_bit target_hart\<rparr> else b1))"

definition flush :: "env \<Rightarrow> machine \<times> wakeup_batch \<Rightarrow> machine" where
  "flush E = (\<lambda>(m, b).
     let kick_only_mask = kick_mask b AND NOT (resched_mask b);
         m1 = request_reschedule_harts E (resched_mask b) m
     in fold send_ipi (filter (\<lambda>h. h \<noteq> local_hart E \<and> kick_only_mask AND hart_bit h \<noteq> 0) [0..<MAX_HARTS]) m1)"

section \<open>Waking\<close>

definition wake_if_blocked :: "env \<Rightarrow> task_id \<Rightarrow> bool \<Rightarrow> nat option \<Rightarrow> machine \<times> wakeup_batch \<Rightarrow> machine \<times> wakeup_batch" where
  "wake_if_blocked E i allow_fair_preempt sync_source_hart = (\<lambda>(m, b).
     let t = m_tcb m i in
     if \<not> t_res t then (m, b)
     else if t_status t = Blocked then
       (if t_frozen t then (upd_tcb i (t\<lparr>t_thaw_wake := True\<rparr>) m, b)
        else
          let m1 = upd_tcb i (t\<lparr>t_status := Ready, t_parked := False, t_thaw_wake := False\<rparr>) m;
              (queued, m2) = enqueue_task_with_wakeup_flags E i Enqueue_wakeup sync_source_hart m1
          in (case queued of
                None \<Rightarrow> (m2, b)
              | Some (h, was_empty) \<Rightarrow>
                  if allow_fair_preempt then note_enqueued E i h was_empty (m2, b)
                  else note_signal_enqueued E i h was_empty (m2, b)))
     else (m, b))"

definition take_pending_sync_hart :: "tcb \<Rightarrow> nat option \<times> tcb" where
  "take_pending_sync_hart t =
     (if unat (t_sync_hart t) < MAX_HARTS then Some (unat (t_sync_hart t)) else None, t\<lparr>t_sync_hart := OFF_CPU\<rparr>)"

definition wakeup_task_with_batch_inner ::
    "env \<Rightarrow> task_id \<Rightarrow> bool \<Rightarrow> nat option \<Rightarrow> machine \<times> wakeup_batch \<Rightarrow> machine \<times> wakeup_batch" where
  "wakeup_task_with_batch_inner E i allow_fair_preempt sync_source_hart = (\<lambda>(m, b).
     let sync = (case sync_source_hart of Some h \<Rightarrow> if h < MAX_HARTS then Some h else None | None \<Rightarrow> None);
         (deferred, t) = defer_wakeup_if_on_cpu (map_option of_nat sync) (m_tcb m i)
     in if deferred then (upd_tcb i t m, b)
        else
          let (pending_sync_source, t1) = take_pending_sync_hart t;
              effective_sync_source = (case sync of None \<Rightarrow> pending_sync_source | Some h \<Rightarrow> Some h)
          in wake_if_blocked E i allow_fair_preempt effective_sync_source (upd_tcb i t1 m, b))"

definition wakeup_task :: "env \<Rightarrow> task_id \<Rightarrow> machine \<Rightarrow> machine" where
  "wakeup_task E i m = flush E (wakeup_task_with_batch_inner E i True None (m, batch_new))"

definition wakeup_sync_task_on_hart :: "env \<Rightarrow> task_id \<Rightarrow> nat \<Rightarrow> machine \<Rightarrow> machine" where
  "wakeup_sync_task_on_hart E i source_hart m =
     flush E (wakeup_task_with_batch_inner E i True (Some source_hart) (m, batch_new))"

definition wakeup_sync_task :: "env \<Rightarrow> task_id \<Rightarrow> machine \<Rightarrow> machine" where
  "wakeup_sync_task E i m = flush E (wakeup_task_with_batch_inner E i True (Some (local_hart E)) (m, batch_new))"

definition wakeup_tasks :: "env \<Rightarrow> task_id list \<Rightarrow> machine \<Rightarrow> machine" where
  "wakeup_tasks E tasks m = flush E (fold (\<lambda>i. wakeup_task_with_batch_inner E i True None) tasks (m, batch_new))"

definition wakeup_sync_tasks :: "env \<Rightarrow> task_id list \<Rightarrow> machine \<Rightarrow> machine" where
  "wakeup_sync_tasks E tasks m =
     flush E (fold (\<lambda>i. wakeup_task_with_batch_inner E i True (Some (local_hart E))) tasks (m, batch_new))"

definition wakeup_signal_tasks :: "env \<Rightarrow> task_id list \<Rightarrow> machine \<Rightarrow> machine" where
  "wakeup_signal_tasks E tasks m = flush E (fold (\<lambda>i. wakeup_task_with_batch_inner E i False None) tasks (m, batch_new))"

section \<open>New, preempted and moved tasks\<close>

definition add_task :: "env \<Rightarrow> task_id \<Rightarrow> machine \<Rightarrow> nat option \<times> machine" where
  "add_task E i m =
     (let m1 = (if task_queue_slot (m_tcb m i) = Slot_fair
                then (case sc_current (m_sched m) (env_hart E) of
                        Some parent \<Rightarrow> upd_tcb parent (protect_fair_fork_parent (env_now E) (m_tcb m parent)) m
                      | None \<Rightarrow> m)
                else m);
          (queued, m2) = enqueue_task E i Enqueue_initial m1
      in case queued of
           None \<Rightarrow> (None, m2)
         | Some (h, was_empty) \<Rightarrow>
             let (preempt, m3) =
                   (if task_queue_slot (m_tcb m2 i) \<noteq> Slot_fair then wakeup_should_preempt_target_hart E i h m2 else (False, m2))
             in (Some h,
                 if preempt then request_reschedule_for_wakeup E i h m3
                 else if local_hart E \<noteq> h \<and> was_empty then send_ipi h m3 else m3))"

definition requeue_task :: "env \<Rightarrow> task_id \<Rightarrow> machine \<Rightarrow> nat option \<times> machine" where
  "requeue_task E i m =
     (let (queued, m1) = enqueue_task E i Enqueue_requeue m
      in case queued of
           None \<Rightarrow> (None, m1)
         | Some (h, was_empty) \<Rightarrow> (Some h, if local_hart E \<noteq> h \<and> was_empty then send_ipi h m1 else m1))"

text \<open>The part of a move under the lock: the hart the task was put on, if it was queued.\<close>

definition move_queued_task :: "env \<Rightarrow> task_id \<Rightarrow> machine \<Rightarrow> nat option \<times> machine" where
  "move_queued_task E i m =
     (if \<not> t_in_ready (m_tcb m i) then (None, m)
      else
        let (removed, s1) = rq_remove i (m_sched m); m1 = m\<lparr>m_sched := s1\<rparr> in
        if removed = 0 then (None, m1)
        else
          let (h, t) = resolve_enqueue_hart E m1 (local_hart E) (online_hart_mask E m1) Enqueue_requeue (m_tcb m1 i);
              (queued, s2) = rq_add i h Enqueue_requeue (env_busy E h) (env_now E) (set_tcb i t s1)
          in (case queued of None \<Rightarrow> None | Some _ \<Rightarrow> Some h, m1\<lparr>m_sched := s2\<rparr>))"

definition refresh_task_runqueue :: "env \<Rightarrow> task_id \<Rightarrow> machine \<Rightarrow> machine" where
  "refresh_task_runqueue E i m =
     (case move_queued_task E i m of
        (None, m1) \<Rightarrow> m1
      | (Some h, m1) \<Rightarrow> request_reschedule_for_wakeup E i h m1)"

fun move_queued_tasks :: "env \<Rightarrow> task_id list \<Rightarrow> machine \<Rightarrow> (task_id \<times> nat) list \<times> machine" where
  "move_queued_tasks E [] m = ([], m)"
| "move_queued_tasks E (i # rest) m =
     (let (moved, m1) = move_queued_task E i m; (requeued_tasks, m2) = move_queued_tasks E rest m1
      in (case moved of None \<Rightarrow> requeued_tasks | Some h \<Rightarrow> (i, h) # requeued_tasks, m2))"

definition refresh_process_runqueues :: "env \<Rightarrow> task_id list \<Rightarrow> machine \<Rightarrow> machine" where
  "refresh_process_runqueues E tasks m =
     (let (requeued_tasks, m1) = move_queued_tasks E tasks m
      in fold (\<lambda>(i, h). request_reschedule_for_wakeup E i h) requeued_tasks m1)"

definition remove_task :: "task_id \<Rightarrow> machine \<Rightarrow> machine" where
  "remove_task i m = m\<lparr>m_sched := snd (rq_remove i (m_sched m))\<rparr>"

definition fetch_task :: "env \<Rightarrow> machine \<Rightarrow> (task_id option \<times> machine) option" where
  "fetch_task E m =
     map_option (\<lambda>(r, s). (r, m\<lparr>m_sched := s\<rparr>)) (rq_fetch (env_hart E) (of_nat (env_now E)) (m_sched m))"

end
