(* ===== verification/Hart_Loop.thy ===== *)
theory Hart_Loop
  imports Wakeup_Batch
begin

text \<open>
  What a hart does with tasks (\<open>src/src/task/processor.rs\<close>): the preemption checks on a tick and on the
  way back to user mode, leaving the CPU by yielding, blocking or exiting, and the parts of the loop
  \<open>idle_task\<close> that handle the task just left and start the next one.

  A task that leaves the CPU is only noted in the processor (\<open>m_pending_ready\<close>, \<open>m_pending_blocked\<close>,
  \<open>m_pending_drop\<close>); \<open>idle_task\<close> deals with it after the switch. Contexts, kernel stacks and
  floating-point state are not part of the model, nor is the work of an exit outside the scheduler. An
  operation that fails an assertion of the source yields \<open>None\<close>.
\<close>

section \<open>Charging run time\<close>

definition charge_task_runtime_for_scheduler :: "env \<Rightarrow> task_id \<Rightarrow> machine \<Rightarrow> machine" where
  "charge_task_runtime_for_scheduler E i m =
     (let policy = t_policy (m_tcb m i);
          (delta_ns, t) = account_runtime_until (env_now E) (m_tcb m i);
          m1 = upd_tcb i t m; s = m_sched m1; h = env_hart E mod MAX_HARTS
      in if class_of_policy policy = Some Sched_fifo \<or> class_of_policy policy = Some Sched_rr
         then m1\<lparr>m_sched := s\<lparr>sc_bw := (sc_bw s)(h := account_rt_runtime (sc_sysctl s) (of_nat (env_now E)) (of_nat delta_ns) (sc_bw s h))\<rparr>\<rparr>
         else m1)"

definition account_current_task_tick :: "env \<Rightarrow> machine \<Rightarrow> machine" where
  "account_current_task_tick E m =
     (case sc_current (m_sched m) (env_hart E) of
        None \<Rightarrow> m
      | Some i \<Rightarrow> charge_task_runtime_for_scheduler E i m)"

section \<open>Preemption checks\<close>

definition has_ready_rt_higher_than :: "env \<Rightarrow> int \<Rightarrow> machine \<Rightarrow> bool \<times> machine" where
  "has_ready_rt_higher_than E priority m =
     (let (r, s) = has_ready_rt_count_higher_than (env_hart E) priority (of_nat (env_now E)) (m_sched m) in (r, m\<lparr>m_sched := s\<rparr>))"

definition has_ready_rt_at_or_above :: "env \<Rightarrow> int \<Rightarrow> machine \<Rightarrow> bool \<times> machine" where
  "has_ready_rt_at_or_above E priority m =
     (let (r, s) = has_ready_rt_count_at_or_above (env_hart E) priority (of_nat (env_now E)) (m_sched m) in (r, m\<lparr>m_sched := s\<rparr>))"

definition should_preempt_current_on_tick :: "env \<Rightarrow> machine \<Rightarrow> bool \<times> machine" where
  "should_preempt_current_on_tick E m =
     (case sc_current (m_sched m) (env_hart E) of
        None \<Rightarrow> (False, m)
      | Some i \<Rightarrow>
          let policy = t_policy (m_tcb m i); rt_prio = t_priority (m_tcb m i) in
          (case class_of_policy policy of
             Some Sched_fifo \<Rightarrow>
               let (throttled, m1) = throttled_on E (env_hart E) m
               in if throttled then (True, m1) else has_ready_rt_higher_than E rt_prio m1
           | Some Sched_rr \<Rightarrow>
               let (throttled, m1) = throttled_on E (env_hart E) m in
               if throttled then (True, m1)
               else
                 let (higher, m2) = has_ready_rt_higher_than E rt_prio m1 in
                 if higher then (True, m2)
                 else
                   let ticks = min (t_rr_ticks (m_tcb m2 i) + 1) (2 ^ 64 - 1);
                       m3 = upd_tcb i ((m_tcb m2 i)\<lparr>t_rr_ticks := ticks\<rparr>) m2 in
                   if ticks < rr_timeslice_ticks (sc_sysctl (m_sched m3)) then (False, m3)
                   else has_ready_rt_at_or_above E rt_prio (upd_tcb i ((m_tcb m3 i)\<lparr>t_rr_ticks := 0\<rparr>) m3)
           | _ \<Rightarrow>
               let (rt, m1) = has_ready_rt_at_or_above E RT_PRIO_MIN m in
               if rt then (True, m1)
               else if fair_current_deadline_expired i (env_hart E) (env_now E) (m_sched m1)
               then (True, upd_tcb i ((m_tcb m1 i)\<lparr>t_rr_ticks := 0\<rparr>) m1)
               else (False, m1)))"

definition should_preempt_current_on_syscall_return :: "env \<Rightarrow> machine \<Rightarrow> bool \<times> machine" where
  "should_preempt_current_on_syscall_return E m =
     (let (throttled, m1) =
            (case sc_current (m_sched m) (env_hart E) of
               Some i \<Rightarrow>
                 if class_of_policy (t_policy (m_tcb m i)) = Some Sched_fifo \<or> class_of_policy (t_policy (m_tcb m i)) = Some Sched_rr
                 then throttled_on E (env_hart E) m else (False, m)
             | None \<Rightarrow> (False, m))
      in if throttled then (True, m1)
         else
           let (rt, m2) = has_ready_rt_at_or_above E RT_PRIO_MIN m1
           in if rt then should_preempt_current_on_tick E m2 else (False, m2))"

definition should_resched_for_busy_poll :: "env \<Rightarrow> machine \<Rightarrow> bool \<times> machine" where
  "should_resched_for_busy_poll E m =
     (let need = m_need_resched m (local_hart E);
          m1 = m\<lparr>m_need_resched := (m_need_resched m)(local_hart E := False)\<rparr>
      in if need then (True, m1) else has_ready_rt_at_or_above E RT_PRIO_MIN m1)"

section \<open>Leaving the CPU\<close>

definition take_current_task :: "env \<Rightarrow> machine \<Rightarrow> task_id option \<times> machine" where
  "take_current_task E m =
     (sc_current (m_sched m) (env_hart E),
      m\<lparr>m_sched := (m_sched m)\<lparr>sc_current := (sc_current (m_sched m))(env_hart E := None)\<rparr>\<rparr>)"

definition disable_current_scheduling :: "env \<Rightarrow> machine \<Rightarrow> machine" where
  "disable_current_scheduling E m = m\<lparr>m_disabled := (m_disabled m)(env_hart E := m_disabled m (env_hart E) + 1)\<rparr>"

definition drop_scheduling_guard :: "nat \<Rightarrow> machine \<Rightarrow> machine" where
  "drop_scheduling_guard h m = m\<lparr>m_disabled := (m_disabled m)(h := m_disabled m h - 1)\<rparr>"

definition current_scheduling_enabled :: "env \<Rightarrow> machine \<Rightarrow> bool" where
  "current_scheduling_enabled E m \<longleftrightarrow> env_hart E < MAX_HARTS \<and> m_disabled m (env_hart E) = 0"

text \<open>Yielding, when no fatal signal is pending.\<close>

definition suspend_current_and_run_next_unchecked :: "env \<Rightarrow> machine \<Rightarrow> machine" where
  "suspend_current_and_run_next_unchecked E m =
     (case take_current_task E m of
        (None, m1) \<Rightarrow> m1
      | (Some i, m1) \<Rightarrow>
          let m2 = charge_task_runtime_for_scheduler E i m1;
              m3 = upd_tcb i (suspend_current (m_tcb m2 i)) m2
          in m3\<lparr>m_pending_ready := (m_pending_ready m3)(env_hart E := Some i)\<rparr>)"

definition try_suspend_current_and_run_next :: "env \<Rightarrow> machine \<Rightarrow> bool \<times> machine" where
  "try_suspend_current_and_run_next E m =
     (if \<not> current_scheduling_enabled E m then (False, m)
      else if env_busy E (env_hart E) \<or> sc_current (m_sched m) (env_hart E) = None then (False, m)
      else if \<not> env_inner_free E then (False, m)
      else (True, suspend_current_and_run_next_unchecked E m))"

definition suspend_current_and_run_next :: "env \<Rightarrow> machine \<Rightarrow> machine" where
  "suspend_current_and_run_next E m = snd (try_suspend_current_and_run_next E m)"

definition reschedule_before_user_return_if_needed :: "env \<Rightarrow> machine \<Rightarrow> machine" where
  "reschedule_before_user_return_if_needed E m =
     (let need = m_need_resched m (local_hart E);
          m1 = m\<lparr>m_need_resched := (m_need_resched m)(local_hart E := False)\<rparr>
      in if \<not> need then m1
         else if sc_current (m_sched m1) (env_hart E) \<noteq> None then suspend_current_and_run_next E m1 else m1)"

definition block_current_and_run_next :: "env \<Rightarrow> machine \<Rightarrow> machine option" where
  "block_current_and_run_next E m =
     (if \<not> current_scheduling_enabled E m then None
      else case take_current_task E m of
        (None, m1) \<Rightarrow> Some m1
      | (Some i, m1) \<Rightarrow>
          let m2 = charge_task_runtime_for_scheduler E i m1;
              (should_block, t) = block_current (m_tcb m2 i);
              m3 = upd_tcb i t m2
          in Some (if should_block
                   then let m4 = m3\<lparr>m_sched := record_fair_sleep_lag i (local_hart E) (env_now E) (m_sched m3)\<rparr>
                        in m4\<lparr>m_pending_blocked := (m_pending_blocked m4)(env_hart E := Some i)\<rparr>
                   else m3\<lparr>m_pending_ready := (m_pending_ready m3)(env_hart E := Some i)\<rparr>))"

text \<open>The steps of an exit that concern the scheduler.\<close>

definition queue_exiting_task_drop :: "env \<Rightarrow> task_id \<Rightarrow> machine \<Rightarrow> machine" where
  "queue_exiting_task_drop E i m =
     m\<lparr>m_pending_drop := (m_pending_drop m)(env_hart E := m_pending_drop m (env_hart E) @ [i])\<rparr>"

definition exit_current_task :: "env \<Rightarrow> machine \<Rightarrow> machine option" where
  "exit_current_task E m =
     (if \<not> current_scheduling_enabled E m then None
      else case take_current_task E m of
        (None, _) \<Rightarrow> None
      | (Some i, m1) \<Rightarrow> Some (queue_exiting_task_drop E i (charge_task_runtime_for_scheduler E i m1)))"

section \<open>The idle loop\<close>

definition idle_pending_blocked :: "env \<Rightarrow> machine \<Rightarrow> machine" where
  "idle_pending_blocked E m =
     (case m_pending_blocked m (env_hart E) of
        None \<Rightarrow> m
      | Some i \<Rightarrow>
          let m1 = m\<lparr>m_pending_blocked := (m_pending_blocked m)(env_hart E := None)\<rparr>;
              (pending_wakeup, t) = finish_running (m_tcb m1 i);
              m2 = upd_tcb i t m1
          in (case pending_wakeup of
                Wakeup_none \<Rightarrow> m2
              | Wakeup_normal \<Rightarrow> wakeup_task E i m2
              | Wakeup_sync sync_hart \<Rightarrow>
                  if unat sync_hart < MAX_HARTS then wakeup_sync_task_on_hart E i (unat sync_hart) m2 else wakeup_task E i m2))"

definition idle_pending_ready :: "env \<Rightarrow> machine \<Rightarrow> machine" where
  "idle_pending_ready E m =
     (case m_pending_ready m (env_hart E) of
        None \<Rightarrow> m
      | Some i \<Rightarrow>
          let m1 = m\<lparr>m_pending_ready := (m_pending_ready m)(env_hart E := None)\<rparr>
          in snd (requeue_task E i (upd_tcb i (snd (finish_running (m_tcb m1 i))) m1)))"

definition idle_drop :: "env \<Rightarrow> machine \<Rightarrow> machine" where
  "idle_drop E m =
     (case m_pending_drop m (env_hart E) of
        [] \<Rightarrow> m
      | i # rest \<Rightarrow>
          let m1 = m\<lparr>m_pending_drop := (m_pending_drop m)(env_hart E := rest)\<rparr>
          in upd_tcb i (snd (finish_running (m_tcb m1 i))) m1)"

definition idle_run_next :: "env \<Rightarrow> machine \<Rightarrow> machine option" where
  "idle_run_next E m =
     map_option (\<lambda>(fetched, m1).
       case fetched of
         None \<Rightarrow> m1
       | Some i \<Rightarrow>
           let m2 = upd_tcb i ((begin_runtime_slice (env_now E) (m_tcb m1 i))\<lparr>t_status := Running\<rparr>) m1; s = m_sched m2
           in m2\<lparr>m_sched := s\<lparr>sc_current := (sc_current s)(env_hart E := Some i)\<rparr>\<rparr>)
     (fetch_task E m)"

end
