(* ===== verification/Sched_Machine.thy ===== *)
theory Sched_Machine
  imports Sched_System Hart_Loop
begin

text \<open>
  The machine as a whole: every operation of \<open>Wakeup_Batch\<close> and \<open>Hart_Loop\<close> keeps the run queues
  consistent, and a task is never on two harts at once.
\<close>

section \<open>Where tasks run\<close>

text \<open>\<open>cpu_frame h s r s'\<close>: of the words \<open>on_cpu\<close> only that of the task \<open>r\<close> changed, from off to hart \<open>h\<close>,
  and every hart still runs the same task.\<close>

definition cpu_frame :: "nat \<Rightarrow> sched \<Rightarrow> task_id option \<Rightarrow> sched \<Rightarrow> bool" where
  "cpu_frame h s r s' \<longleftrightarrow> sc_current s' = sc_current s \<and>
     (\<forall>j. t_on_cpu (sc_tcb s' j) = (if r = Some j then of_nat h else t_on_cpu (sc_tcb s j))) \<and>
     (\<forall>j. r = Some j \<longrightarrow> t_on_cpu (sc_tcb s j) = OFF_CPU)"

lemma cpu_frame_trans: "cpu_frame h s None s1 \<Longrightarrow> cpu_frame h s1 r s2 \<Longrightarrow> cpu_frame h s r s2"
  by (simp add: cpu_frame_def)

lemma cpu_frame_refl [simp]: "cpu_frame h s None s"
  by (simp add: cpu_frame_def)

lemma counters_current [simp]:
  "sc_current (inc_ready_rt_count h i s) = sc_current s" "sc_current (dec_ready_rt_count h i s) = sc_current s"
  "sc_current (inc_ready_fair_count h s) = sc_current s" "sc_current (dec_ready_fair_count h s) = sc_current s"
  "sc_current (set_rtq h i q s) = sc_current s" "sc_current (put_group h k g s) = sc_current s"
  by (simp_all add: inc_ready_rt_count_def dec_ready_rt_count_def inc_ready_fair_count_def dec_ready_fair_count_def set_rtq_def put_group_def)

lemma release_on_cpu [simp]: "t_on_cpu (snd (release_ready_queue h t)) = t_on_cpu t"
  by (simp add: release_ready_queue_def Let_def)

lemma claim_on_cpu [simp]: "t_on_cpu (snd (claim_ready_queue h t)) = t_on_cpu t"
  by (simp add: claim_ready_queue_def)

lemma try_mark_cases:
  assumes "try_mark_on_cpu h t = (b, t')"
  shows "b \<Longrightarrow> t_on_cpu t = OFF_CPU \<and> t_on_cpu t' = of_nat h" "\<not> b \<Longrightarrow> t_on_cpu t' = t_on_cpu t"
  using assms by (auto simp: try_mark_on_cpu_def Let_def split: if_splits)

lemma pop_rt_cpu: "pop_ready_rt_candidate h n q s = (r, s') \<Longrightarrow> cpu_frame h s r s'"
proof (induction h n q s rule: pop_ready_rt_candidate.induct)
  case (2 h n c q s)
  obtain b t where rel: "release_ready_queue h (sc_tcb s c) = (b, t)" by fastforce
  obtain mk t2 where tm: "try_mark_on_cpu h t = (mk, t2)" by fastforce
  have t: "t_on_cpu t = t_on_cpu (sc_tcb s c)" using release_on_cpu [of h "sc_tcb s c"] rel by simp
  let ?s1 = "set_tcb c t (dec_ready_rt_count h n (set_rtq h n q s))"
  have f1: "cpu_frame h s None ?s1" using t by (simp add: cpu_frame_def)
  consider (stale) "\<not> b \<or> t_status t \<noteq> Ready" | (fail) "b" "t_status t = Ready" "\<not> mk" | (ok) "b" "t_status t = Ready" "mk" by blast
  then show ?case
  proof cases
    case stale
    then have "pop_ready_rt_candidate h n q ?s1 = (r, s')" using "2.prems" rel by (auto simp: Let_def split: if_splits)
    then show ?thesis using "2.IH" rel stale cpu_frame_trans [OF f1] by (metis (no_types, lifting))
  next
    case fail
    then have "pop_ready_rt_candidate h n q (set_tcb c t2 ?s1) = (r, s')" using "2.prems" rel tm by (auto simp: Let_def split: if_splits)
    moreover have "cpu_frame h s None (set_tcb c t2 ?s1)" using t try_mark_cases(2) [OF tm fail(3)] by (simp add: cpu_frame_def)
    ultimately show ?thesis using "2.IH"(2) rel tm fail cpu_frame_trans by (metis (no_types, lifting))
  next
    case ok
    then have "r = Some c" "s' = set_tcb c t2 ?s1" using "2.prems" rel tm by (auto simp: Let_def split: if_splits)
    then show ?thesis using f1 try_mark_cases(1) [OF tm ok(3)] t by (auto simp: cpu_frame_def)
  qed
qed simp

lemma fetch_rt_cpu: "fetch_rt h ns s = (r, s') \<Longrightarrow> cpu_frame h s r s'"
proof (induction ns arbitrary: s)
  case (Cons n ns)
  obtain r1 s1 where p: "pop_ready_rt_candidate h n (rq_rt (sc_rq s h) ! n) s = (r1, s1)" by fastforce
  then show ?case using Cons pop_rt_cpu [OF p] cpu_frame_trans by (cases r1) auto
qed simp

lemma drop_stale_cpu [simp]: "cpu_frame h s None (drop_stale h' i s)"
  by (simp add: cpu_frame_def drop_stale_def Let_def)

lemma prune_loop_cpu:
  assumes "prune_loop h b g s = Some y"
  shows "cpu_frame h s None (snd (snd y))"
  using assms
proof (rule prune_loop.raw_induct [rotated, where P = "\<lambda>h b g s y. cpu_frame h s None (snd (snd y))"], goal_cases)
  case (1 f h b g s y)
  have "f h b g' (drop_stale h i s) = Some y \<Longrightarrow> cpu_frame h s None (snd (snd y))" for g' i
    using 1(1) cpu_frame_trans [OF drop_stale_cpu] by blast
  then show ?case using 1(2) by (auto split: list.splits option.splits if_splits prod.splits dest: 1(1))
qed

lemma take_from_group_cpu:
  assumes "take_from_group h k g s = Some (r, s')"
  shows "cpu_frame h s None s'"
proof -
  obtain p g1 s1 where p: "prune_loop h (eligible_bound g) g s = Some (p, g1, s1)"
    using assms by (auto simp: take_from_group_def prune_fair_group_front_def)
  obtain e g2 where u: "unlink_task (the p) g1 = (e, g2)" by fastforce
  have "sc_tcb s' = sc_tcb s1 \<and> sc_current s' = sc_current s1"
    using assms p u by (cases p; cases e) (auto simp: take_from_group_def prune_fair_group_front_def Let_def)
  then show ?thesis using prune_loop_cpu [OF p] by (simp add: cpu_frame_def)
qed

lemma released_cpu:
  assumes "release_ready_queue h (sc_tcb s i) = (b, t)" "try_mark_on_cpu h (t\<lparr>t_checkpoint := t_cpu_time t\<rparr>) = (mk, t2)"
  shows "cpu_frame h s None (set_tcb i t s)" "cpu_frame h s (if mk then Some i else None) (set_tcb i t2 s)"
proof -
  have t: "t_on_cpu t = t_on_cpu (sc_tcb s i)" using release_on_cpu [of h "sc_tcb s i"] assms(1) by simp
  then show "cpu_frame h s None (set_tcb i t s)" by (simp add: cpu_frame_def)
  show "cpu_frame h s (if mk then Some i else None) (set_tcb i t2 s)"
    using t try_mark_cases [OF assms(2)] by (auto simp: cpu_frame_def)
qed

lemma pop_fair_cpu:
  assumes "pop_ready_fair_candidate h s = Some y"
  shows "cpu_frame h s (fst y) (snd y)"
  using assms
proof (rule pop_ready_fair_candidate.raw_induct [rotated, where P = "\<lambda>h s y. cpu_frame h s (fst y) (snd y)"], goal_cases)
  case (1 f h s y)
  have IH: "cpu_frame h s None s1 \<Longrightarrow> f h s1 = Some y \<Longrightarrow> cpu_frame h s (fst y) (snd y)" for s1
    using 1(1) cpu_frame_trans by blast
  have rq: "cpu_frame h s None (set_rq h rq s)" "cpu_frame h s None (set_rq h rq (set_rq h rq' s))" for rq rq'
    by (simp_all add: cpu_frame_def)
  show ?case
  proof (cases "rq_order (sc_rq s h)")
    case Nil
    then show ?thesis using 1(2) by auto
  next
    case (Cons x rest)
    obtain v k where x: "x = (v, k)" by (cases x)
    note order = Cons [unfolded x]
    let ?s1 = "set_rq h ((sc_rq s h)\<lparr>rq_order := bts_remove (v, k) ((v, k) # rest)\<rparr>) s"
    show ?thesis
    proof (cases "btm_get (rq_groups (sc_rq s h)) k")
      case None
      then show ?thesis using 1(2) IH [OF rq(1)] by (simp add: order Let_def)
    next
      case (Some g)
      show ?thesis
      proof (cases "fg_vruntime g = v")
        case False
        then show ?thesis using 1(2) IH [OF rq(2)] Some by (simp add: order Let_def)
      next
        case True
        obtain r s2 where t: "take_from_group h k g ?s1 = Some (r, s2)"
          using 1(2) Some True by (auto simp: order Let_def bind_eq_Some_conv)
        have f2: "cpu_frame h s None s2" by (rule cpu_frame_trans [OF rq(1) take_from_group_cpu [OF t]])
        show ?thesis
        proof (cases r)
          case None
          then show ?thesis using 1(2) IH [OF f2] Some True t by (simp add: order Let_def)
        next
          case i: (Some i)
          obtain b u where rel: "release_ready_queue h (sc_tcb s2 i) = (b, u)" by fastforce
          obtain mk u2 where tm: "try_mark_on_cpu h (u\<lparr>t_checkpoint := t_cpu_time u\<rparr>) = (mk, u2)" by fastforce
          note f3 = released_cpu [OF rel tm]
          have "(if \<not> b then f h (set_tcb i u s2) else if mk then Some (Some i, set_tcb i u2 s2) else f h (set_tcb i u2 s2)) = Some y"
            using 1(2) Some True t i rel tm by (cases b) (simp_all add: order Let_def)
          then show ?thesis
            using IH [OF cpu_frame_trans [OF f2 f3(1)]] cpu_frame_trans [OF f2 f3(2)] IH by (auto split: if_splits)
        qed
      qed
    qed
  qed
qed

lemma rq_fetch_cpu:
  assumes "rq_fetch h now s = Some (r, s')"
  shows "cpu_frame h s r s'"
proof -
  obtain b s1 where t: "rt_bandwidth_throttled h now s = (b, s1)" by fastforce
  then have f1: "cpu_frame h s None s1" by (auto simp: rt_bandwidth_throttled_def cpu_frame_def split: prod.splits)
  obtain r2 s2 where p: "(if b then (None, s1) else fetch_rt h [0..<RT_PRIO_LEVELS] s1) = (r2, s2)" by fastforce
  then have f2: "cpu_frame h s1 r2 s2" using fetch_rt_cpu by (auto split: if_splits)
  then show ?thesis using assms t p pop_fair_cpu [of h s2 "(r, s')"] cpu_frame_trans f1 by (cases r2) (auto simp: rq_fetch_def)
qed

lemma place_fair_task_entity_cpu:
  assumes "place_fair_task_entity kind cur g t = (v, d, g', t')"
  shows "t_on_cpu t' = t_on_cpu t"
proof -
  have "\<exists>a b c. t' = t\<lparr>t_vlag := 0, t_credit := 0, t_vruntime := a, t_checkpoint := b, t_deadline := c\<rparr>"
    using arg_cong [OF assms, of "\<lambda>x. snd (snd (snd x))"] unfolding place_fair_task_entity_def Let_def by (simp only: snd_conv) blast
  then show ?thesis by auto
qed

lemma rq_add_cpu:
  assumes "rq_add i h kind busy now s = (r, s')"
  shows "cpu_frame h' s None s'"
proof (cases "t_rq_hart (sc_tcb s i)")
  case (Some h0)
  then show ?thesis using assms by (simp add: rq_add_def claim_ready_queue_def)
next
  case None
  define t where "t = (sc_tcb s i)\<lparr>t_rq_hart := Some h, t_in_ready := True, t_cpu_id := h\<rparr>"
  have on: "t_on_cpu t = t_on_cpu (sc_tcb s i)" by (simp add: t_def)
  have fair: "cpu_frame h' s None (enqueue_fair h i kind busy now (set_tcb i t s))"
    using on by (auto simp: enqueue_fair_def Let_def cpu_frame_def split: prod.splits dest!: place_fair_task_entity_cpu)
  have "s' = (case task_queue_slot t of
      Slot_rt n \<Rightarrow> inc_ready_rt_count h n (set_rtq h n (rq_rt (sc_rq s h) ! n @ [i]) (set_tcb i t s))
    | Slot_fair \<Rightarrow> enqueue_fair h i kind busy now (set_tcb i t s))"
    using assms None by (cases "task_queue_slot t") (auto simp: rq_add_def claim_ready_queue_def t_def [symmetric] Let_def, simp_all add: t_def)
  then show ?thesis using fair on by (cases "task_queue_slot t") (simp_all add: cpu_frame_def)
qed

lemma dec_rt_times_sel [simp]: "sc_tcb (dec_rt_times h n k s) = sc_tcb s" "sc_current (dec_rt_times h n k s) = sc_current s"
  by (induction k arbitrary: s) simp_all

lemma remove_from_rt_sel: "remove_from_rt h i ns s = (k, s') \<Longrightarrow> sc_tcb s' = sc_tcb s \<and> sc_current s' = sc_current s"
proof (induction ns arbitrary: s k s')
  case (Cons n ns)
  let ?q = "rq_rt (sc_rq s h) ! n"
  obtain k1 s1 where r: "remove_from_rt h i ns (dec_rt_times h n (length ?q - length (filter (\<lambda>j. j \<noteq> i) ?q)) (set_rtq h n (filter (\<lambda>j. j \<noteq> i) ?q) s)) = (k1, s1)"
    by fastforce
  then show ?case using Cons.prems Cons.IH by (auto simp: Let_def)
qed simp

lemma remove_fair_sel: "remove_fair_task_from_group h k i s = (n, s') \<Longrightarrow> sc_tcb s' = sc_tcb s \<and> sc_current s' = sc_current s"
  by (auto simp: remove_fair_task_from_group_def Let_def split: option.splits prod.splits)

lemma remove_fair_scan_sel: "remove_fair_scan h ks i s = (n, s') \<Longrightarrow> sc_tcb s' = sc_tcb s \<and> sc_current s' = sc_current s"
proof (induction ks arbitrary: s)
  case (Cons k ks)
  obtain n1 s1 where r: "remove_fair_task_from_group h k i s = (n1, s1)" by fastforce
  then show ?case using Cons remove_fair_sel [OF r] by (auto split: if_splits)
qed simp

lemma rq_remove_cpu:
  assumes "rq_remove i s = (n, s')"
  shows "cpu_frame h' s None s'"
proof -
  let ?s1 = "set_tcb i ((sc_tcb s i)\<lparr>t_rq_hart := None\<rparr>) s"
  have "\<exists>s2. sc_tcb s2 = sc_tcb ?s1 \<and> sc_current s2 = sc_current s \<and> s' = set_tcb i ((sc_tcb s2 i)\<lparr>t_in_ready := False\<rparr>) s2"
  proof (cases "t_rq_hart (sc_tcb s i)")
    case None
    then show ?thesis using assms by (intro exI [of _ ?s1]) (simp add: rq_remove_def)
  next
    case (Some h)
    show ?thesis
    proof (cases "h < MAX_HARTS")
      case False
      then show ?thesis using assms Some by (intro exI [of _ ?s1]) (simp add: rq_remove_def)
    next
      case True
      obtain a s2 where a: "remove_from_rt h i [0..<RT_PRIO_LEVELS] ?s1 = (a, s2)" by fastforce
      obtain b s3 where b: "remove_fair_task_from_group h (fst (fair_group_id_and_shares (sc_tcb s2 i))) i s2 = (b, s3)" by fastforce
      obtain c s4 where c: "(if b = 0 then remove_fair_scan h (map fst (rq_groups (sc_rq s3 h))) i s3 else (b, s3)) = (c, s4)" by fastforce
      have "s' = set_tcb i ((sc_tcb s4 i)\<lparr>t_in_ready := False\<rparr>) s4"
        using assms Some True a b c by (simp add: rq_remove_def Let_def)
      moreover have "sc_tcb s4 = sc_tcb s3 \<and> sc_current s4 = sc_current s3" using c remove_fair_scan_sel by (auto split: if_splits)
      ultimately show ?thesis using remove_from_rt_sel [OF a] remove_fair_sel [OF b] by (intro exI [of _ s4]) simp
    qed
  qed
  then show ?thesis by (auto simp: cpu_frame_def)
qed

section \<open>Operations that move no task on or off a CPU\<close>

definition on_hart :: "tcb \<Rightarrow> nat \<Rightarrow> bool" where
  "on_hart t h \<longleftrightarrow> (\<exists>b. t_on_cpu t = marked h b)"

text \<open>\<open>quiet m m'\<close>: the step keeps the run queues consistent, and what each hart runs and holds is as before.\<close>

definition quiet :: "machine \<Rightarrow> machine \<Rightarrow> bool" where
  "quiet m m' \<longleftrightarrow> (sched_ok (m_sched m) \<longrightarrow> sched_ok (m_sched m')) \<and>
     sc_current (m_sched m') = sc_current (m_sched m) \<and> m_pending_ready m' = m_pending_ready m \<and>
     m_pending_blocked m' = m_pending_blocked m \<and> m_pending_drop m' = m_pending_drop m \<and>
     (\<forall>j. \<forall>h<MAX_HARTS. on_hart (m_tcb m' j) h \<longleftrightarrow> on_hart (m_tcb m j) h)"

lemma quiet_refl [simp]: "quiet m m"
  by (simp add: quiet_def)

lemma quiet_trans [trans]: "quiet m m1 \<Longrightarrow> quiet m1 m2 \<Longrightarrow> quiet m m2"
  by (simp add: quiet_def)

lemma sched_ok_tcb:
  assumes "sched_ok s" "t_rq_hart t = t_rq_hart (sc_tcb s i)" "t_in_ready t = t_in_ready (sc_tcb s i)"
  shows "sched_ok (set_tcb i t s)"
  using assms by (auto simp: sched_ok_def hart_ok_but_def tcb_ok_def)

lemma quiet_tcb:
  assumes "t_rq_hart t = t_rq_hart (m_tcb m i)" "t_in_ready t = t_in_ready (m_tcb m i)"
    "\<And>h. h < MAX_HARTS \<Longrightarrow> on_hart t h \<longleftrightarrow> on_hart (m_tcb m i) h"
  shows "quiet m (upd_tcb i t m)"
  using assms sched_ok_tcb by (auto simp: quiet_def upd_tcb_def)

lemma quiet_cpu:
  assumes "sched_ok (m_sched m) \<Longrightarrow> sched_ok s" "cpu_frame h (m_sched m) None s"
  shows "quiet m (m\<lparr>m_sched := s\<rparr>)"
  using assms by (auto simp: quiet_def cpu_frame_def on_hart_def)

lemma on_hart_bits:
  assumes h: "h < MAX_HARTS"
  shows "on_hart t h \<longleftrightarrow> (\<forall>n<63. bit (t_on_cpu t) n = bit (of_nat h :: usize) n)"
proof
  assume "on_hart t h"
  then show "\<forall>n<63. bit (t_on_cpu t) n = bit (of_nat h :: usize) n" by (auto simp: on_hart_def marked_def bit_or_iff split: if_splits)
next
  assume low: "\<forall>n<63. bit (t_on_cpu t) n = bit (of_nat h :: usize) n"
  have "bit (t_on_cpu t) n \<longleftrightarrow> bit (marked h (bit (t_on_cpu t) 63)) n" if "n < LENGTH(64)" for n
  proof (cases "n = 63")
    case True
    then show ?thesis using hart_bits(1) [OF h] by (auto simp: marked_def bit_simps)
  next
    case False
    then show ?thesis using low that by (auto simp: marked_def bit_or_iff)
  qed
  then have "t_on_cpu t = marked h (bit (t_on_cpu t) 63)" by (rule bit_word_eqI) blast
  then show "on_hart t h" unfolding on_hart_def by blast
qed

lemma defer_keeps:
  assumes "defer_wakeup_if_on_cpu sync t = (b, t')"
  shows "t_rq_hart t' = t_rq_hart t" "t_in_ready t' = t_in_ready t" "h < MAX_HARTS \<Longrightarrow> on_hart t' h \<longleftrightarrow> on_hart t h"
proof -
  have t': "t_on_cpu t' = t_on_cpu t OR WAKE_PENDING_BIT" "t_rq_hart t' = t_rq_hart t" "t_in_ready t' = t_in_ready t"
    using assms by (auto simp: defer_wakeup_if_on_cpu_def Let_def split: option.splits)
  then show "t_rq_hart t' = t_rq_hart t" "t_in_ready t' = t_in_ready t" by simp_all
  show "h < MAX_HARTS \<Longrightarrow> on_hart t' h \<longleftrightarrow> on_hart t h" by (simp add: on_hart_bits t'(1) bit_simps)
qed

lemma discard_keeps:
  shows "t_rq_hart (discard_deferred_wakeup t) = t_rq_hart t" "t_in_ready (discard_deferred_wakeup t) = t_in_ready t"
    "h < MAX_HARTS \<Longrightarrow> on_hart (discard_deferred_wakeup t) h \<longleftrightarrow> on_hart t h"
  by (simp_all add: discard_deferred_wakeup_def Let_def on_hart_bits bit_simps)

section \<open>Queueing and waking\<close>

lemma resolve_less:
  assumes "cur < MAX_HARTS"
  shows "fst (resolve_enqueue_hart E m cur hmask kind t) < MAX_HARTS \<and> (\<exists>c. snd (resolve_enqueue_hart E m cur hmask kind t) = t\<lparr>t_cpu_id := c\<rparr>)"
    "fst (resolve_wakeup_hart E m cur hmask t) < MAX_HARTS \<and> (\<exists>c. snd (resolve_wakeup_hart E m cur hmask t) = t\<lparr>t_cpu_id := c\<rparr>)"
    "fst (resolve_sync_wakeup_hart E m cur hmask t) < MAX_HARTS \<and> (\<exists>c. snd (resolve_sync_wakeup_hart E m cur hmask t) = t\<lparr>t_cpu_id := c\<rparr>)"
proof -
  have id: "\<exists>c. t = t\<lparr>t_cpu_id := c\<rparr>" by (metis tcb.surjective tcb.update_convs(3))
  have "pick_online_hart_from_mask E w m < MAX_HARTS" for w
    using pick_online_hart_from_mask_ok [of w E m] by (simp add: choosable_def)
  moreover have "pick_least_loaded_hart_from_mask E w m < MAX_HARTS" for w
  proof -
    have "least_loaded s w b n hs = Some h \<Longrightarrow> h \<in> set hs \<or> b = Some h" for s b n h and hs :: "nat list"
      by (induction s w b n hs rule: least_loaded.induct) (auto simp: Let_def split: if_splits)
    from this [of "m_sched m" None "2 ^ 64 - 1" "[0..<MAX_HARTS]"] show ?thesis
      using pick_online_hart_ok(1) by (auto simp: pick_least_loaded_hart_from_mask_def split: option.split)
  qed
  ultimately show 1: "fst (resolve_enqueue_hart E m cur hmask kind t) < MAX_HARTS \<and> (\<exists>c. snd (resolve_enqueue_hart E m cur hmask kind t) = t\<lparr>t_cpu_id := c\<rparr>)"
    and 2: "fst (resolve_wakeup_hart E m cur hmask t) < MAX_HARTS \<and> (\<exists>c. snd (resolve_wakeup_hart E m cur hmask t) = t\<lparr>t_cpu_id := c\<rparr>)"
    and "fst (resolve_sync_wakeup_hart E m cur hmask t) < MAX_HARTS \<and> (\<exists>c. snd (resolve_sync_wakeup_hart E m cur hmask t) = t\<lparr>t_cpu_id := c\<rparr>)"
    using assms id by (auto simp: resolve_enqueue_hart_def resolve_wakeup_hart_def resolve_sync_wakeup_hart_def Let_def)
qed

lemma quiet_add:
  assumes h: "h < MAX_HARTS" and t: "t = (m_tcb m i)\<lparr>t_cpu_id := c\<rparr>" and a: "rq_add i h kind busy now (set_tcb i t (m_sched m)) = (r, s)"
  shows "quiet m (m\<lparr>m_sched := s\<rparr>)"
proof (rule quiet_cpu)
  show "sched_ok (m_sched m) \<Longrightarrow> sched_ok s" using rq_add_ok(1) [OF _ h a] sched_ok_tcb t by simp
  have "cpu_frame h (m_sched m) None (set_tcb i t (m_sched m))" using t by (simp add: cpu_frame_def)
  then show "cpu_frame h (m_sched m) None s" using rq_add_cpu [OF a] by (rule cpu_frame_trans)
qed

lemma quiet_enqueue: "enqueue_task_with_wakeup_flags E i kind sync m = (r, m') \<Longrightarrow> quiet m m'"
proof -
  assume run: "enqueue_task_with_wakeup_flags E i kind sync m = (r, m')"
  let ?cur = "local_hart E" and ?w = "online_hart_mask E m" and ?t = "m_tcb m i"
  define sync' where "sync' = (case sync of Some h \<Rightarrow> if h < MAX_HARTS then Some h else None | None \<Rightarrow> None)"
  define p where "p = (if kind = Enqueue_wakeup
     then (case sync' of Some src \<Rightarrow> resolve_sync_wakeup_hart E m src ?w ?t | None \<Rightarrow> resolve_wakeup_hart E m ?cur ?w ?t)
     else resolve_enqueue_hart E m ?cur ?w kind ?t)"
  have s: "sync' = Some src \<Longrightarrow> src < MAX_HARTS" for src by (auto simp: sync'_def split: option.splits if_splits)
  have p: "fst p < MAX_HARTS \<and> (\<exists>c. snd p = ?t\<lparr>t_cpu_id := c\<rparr>)"
    unfolding p_def using resolve_less s by (simp split: option.split)
  obtain q s where a: "rq_add i (fst p) kind (env_busy E (fst p)) (env_now E) (set_tcb i (snd p) (m_sched m)) = (q, s)" by fastforce
  have "m' = m\<lparr>m_sched := s\<rparr>"
    using run a unfolding enqueue_task_with_wakeup_flags_def p_def sync'_def Let_def by (auto split: prod.splits)
  then show ?thesis using quiet_add [OF _ _ a] p by auto
qed

lemma quiet_enqueue_task: "enqueue_task E i kind m = (r, m') \<Longrightarrow> quiet m m'"
  unfolding enqueue_task_def by (rule quiet_enqueue)

lemma throttled_quiet: "throttled_on E h m = (b, m') \<Longrightarrow> quiet m m'"
  by (auto simp: throttled_on_def rt_bandwidth_throttled_def quiet_def on_hart_def split: prod.splits)

lemma preempt_quiet: "wakeup_should_preempt_target_hart E i h m = (b, m') \<Longrightarrow> quiet m m'"
  using throttled_quiet by (auto simp: wakeup_should_preempt_target_hart_def Let_def split: if_splits prod.splits)

lemma signal_quiet [simp]: "quiet m (send_ipi h m)" "quiet m (set_need_resched h m)"
  by (simp_all add: send_ipi_def set_need_resched_def quiet_def)

lemma quiet_fold: "(\<And>x m. quiet m (f x m)) \<Longrightarrow> quiet m (fold f xs m)"
  by (induction xs arbitrary: m) (auto intro: quiet_trans)

lemma request_quiet: "quiet m (request_reschedule_for_wakeup E i h m)"
proof -
  obtain b m1 where p: "wakeup_should_preempt_target_hart E i h m = (b, m1)" by fastforce
  show ?thesis using preempt_quiet [OF p] p quiet_trans signal_quiet
    by (auto simp: request_reschedule_for_wakeup_def Let_def) (meson quiet_trans signal_quiet)+
qed

lemma flush_quiet: "quiet m (flush E (m, b))"
  by (auto simp: flush_def request_reschedule_harts_def Let_def intro!: quiet_trans [OF quiet_trans [OF quiet_fold quiet_fold] quiet_fold])

lemma note_quiet: "quiet m (fst (note_enqueued E i h e (m, b)))" "quiet m (fst (note_signal_enqueued E i h e (m, b)))"
proof -
  obtain p m1 where p: "wakeup_should_preempt_target_hart E i h m = (p, m1)" by fastforce
  show "quiet m (fst (note_enqueued E i h e (m, b)))" "quiet m (fst (note_signal_enqueued E i h e (m, b)))"
    using preempt_quiet [OF p] by (simp_all add: note_enqueued_def note_signal_enqueued_def p Let_def)
qed

lemma wake_if_blocked_quiet: "quiet m (fst (wake_if_blocked E i a sync (m, b)))"
proof -
  let ?t = "m_tcb m i"
  let ?m1 = "upd_tcb i (?t\<lparr>t_status := Ready, t_parked := False, t_thaw_wake := False\<rparr>) m"
  obtain q m2 where e: "enqueue_task_with_wakeup_flags E i Enqueue_wakeup sync ?m1 = (q, m2)" by fastforce
  have 1: "quiet m ?m1" "quiet m (upd_tcb i (?t\<lparr>t_thaw_wake := True\<rparr>) m)" by (rule quiet_tcb; simp add: on_hart_def)+
  have 2: "quiet m m2" using 1(1) quiet_enqueue [OF e] by (rule quiet_trans)
  show ?thesis
    using 1 2 e quiet_trans [OF 2 note_quiet(1)] quiet_trans [OF 2 note_quiet(2)] by (auto simp: wake_if_blocked_def Let_def split: option.split)
qed

lemma wakeup_inner_quiet: "quiet m (fst (wakeup_task_with_batch_inner E i a sync (m, b)))"
proof -
  define sync' where "sync' = (case sync of Some h \<Rightarrow> if h < MAX_HARTS then Some h else None | None \<Rightarrow> None)"
  obtain d t where d: "defer_wakeup_if_on_cpu (map_option of_nat sync') (m_tcb m i) = (d, t)" by fastforce
  have 1: "quiet m (upd_tcb i t m)" using defer_keeps [OF d] by (intro quiet_tcb)
  have "quiet m (upd_tcb i (snd (take_pending_sync_hart t)) m)"
    using defer_keeps [OF d] by (intro quiet_tcb) (simp_all add: take_pending_sync_hart_def on_hart_def)
  then show ?thesis
    using 1 d quiet_trans [OF _ wake_if_blocked_quiet]
    by (auto simp: wakeup_task_with_batch_inner_def sync'_def [symmetric] Let_def split: prod.split)
qed

lemma wakeup_fold_quiet: "quiet m (fst (fold (\<lambda>i. wakeup_task_with_batch_inner E i a sync) tasks (m, b)))"
proof (induction tasks arbitrary: m b)
  case (Cons i tasks)
  obtain m1 b1 where "wakeup_task_with_batch_inner E i a sync (m, b) = (m1, b1)" by fastforce
  then show ?case using wakeup_inner_quiet [of m E i a sync b] quiet_trans [OF _ Cons.IH] by simp
qed simp

lemma flushed_quiet: "quiet m (fst p) \<Longrightarrow> quiet m (flush E p)"
  using quiet_trans [OF _ flush_quiet] by (cases p) simp

lemma wakeup_quiet:
  "quiet m (wakeup_task E i m)" "quiet m (wakeup_sync_task_on_hart E i h m)" "quiet m (wakeup_sync_task E i m)"
  "quiet m (wakeup_tasks E tasks m)" "quiet m (wakeup_sync_tasks E tasks m)" "quiet m (wakeup_signal_tasks E tasks m)"
  unfolding wakeup_task_def wakeup_sync_task_on_hart_def wakeup_sync_task_def wakeup_tasks_def wakeup_sync_tasks_def wakeup_signal_tasks_def
  by (rule flushed_quiet, rule wakeup_inner_quiet wakeup_fold_quiet)+

lemma protect_keeps:
  "t_rq_hart (protect_fair_fork_parent now t) = t_rq_hart t" "t_in_ready (protect_fair_fork_parent now t) = t_in_ready t"
  "t_on_cpu (protect_fair_fork_parent now t) = t_on_cpu t"
  by (simp_all add: protect_fair_fork_parent_def Let_def)

lemma add_task_quiet: "add_task E i m = (r, m') \<Longrightarrow> quiet m m'"
proof -
  assume run: "add_task E i m = (r, m')"
  define m1 where "m1 = (if task_queue_slot (m_tcb m i) = Slot_fair
    then (case sc_current (m_sched m) (env_hart E) of
            Some parent \<Rightarrow> upd_tcb parent (protect_fair_fork_parent (env_now E) (m_tcb m parent)) m | None \<Rightarrow> m) else m)"
  have 1: "quiet m m1" by (auto simp: m1_def protect_keeps on_hart_def intro!: quiet_tcb split: option.split)
  obtain q m2 where e: "enqueue_task E i Enqueue_initial m1 = (q, m2)" by fastforce
  have 2: "quiet m m2" using 1 quiet_enqueue_task [OF e] by (rule quiet_trans)
  show ?thesis
  proof (cases q)
    case None
    then show ?thesis using run e 2 by (simp add: add_task_def m1_def [symmetric])
  next
    case (Some x)
    obtain h b where x: "x = (h, b)" by (cases x)
    obtain p m3 where p: "(if task_queue_slot (m_tcb m2 i) \<noteq> Slot_fair then wakeup_should_preempt_target_hart E i h m2 else (False, m2)) = (p, m3)"
      by fastforce
    have 3: "quiet m m3" using p preempt_quiet quiet_trans [OF 2] 2 by (auto split: if_splits)
    have "m' = (if p then request_reschedule_for_wakeup E i h m3 else if local_hart E \<noteq> h \<and> b then send_ipi h m3 else m3)"
      using run e Some x p by (auto simp: add_task_def m1_def [symmetric] Let_def)
    then show ?thesis using 3 quiet_trans [OF 3 request_quiet] quiet_trans [OF 3 signal_quiet(1)] by auto
  qed
qed

lemma requeue_quiet: "requeue_task E i m = (r, m') \<Longrightarrow> quiet m m'"
proof -
  assume run: "requeue_task E i m = (r, m')"
  obtain q m1 where e: "enqueue_task E i Enqueue_requeue m = (q, m1)" by fastforce
  show ?thesis using run e quiet_enqueue_task [OF e] quiet_trans [OF quiet_enqueue_task [OF e] signal_quiet(1)]
    by (auto simp: requeue_task_def split: option.splits if_splits)
qed

lemma quiet_remove: "rq_remove i (m_sched m) = (n, s) \<Longrightarrow> quiet m (m\<lparr>m_sched := s\<rparr>)"
  using rq_remove_ok(1) rq_remove_cpu by (intro quiet_cpu) blast+

lemma move_quiet: "move_queued_task E i m = (r, m') \<Longrightarrow> quiet m m'"
proof -
  assume run: "move_queued_task E i m = (r, m')"
  obtain n s1 where rm: "rq_remove i (m_sched m) = (n, s1)" by fastforce
  let ?m1 = "m\<lparr>m_sched := s1\<rparr>"
  obtain h t where c: "resolve_enqueue_hart E ?m1 (local_hart E) (online_hart_mask E ?m1) Enqueue_requeue (m_tcb ?m1 i) = (h, t)" by fastforce
  have h: "h < MAX_HARTS \<and> (\<exists>c. t = (m_tcb ?m1 i)\<lparr>t_cpu_id := c\<rparr>)"
    using resolve_less(1) [of "local_hart E" E ?m1 "online_hart_mask E ?m1" Enqueue_requeue "m_tcb ?m1 i"] c by simp
  obtain q s2 where a: "rq_add i h Enqueue_requeue (env_busy E h) (env_now E) (set_tcb i t s1) = (q, s2)" by fastforce
  have "quiet ?m1 (?m1\<lparr>m_sched := s2\<rparr>)" using quiet_add [where m = ?m1 and h = h and t = t and i = i] a h by auto
  then show ?thesis
    using run quiet_remove [OF rm] quiet_trans rm c a by (auto simp: move_queued_task_def Let_def split: if_splits)
qed

lemma refresh_quiet: "quiet m (refresh_task_runqueue E i m)" "quiet m (refresh_process_runqueues E tasks m)"
proof -
  obtain r m1 where r: "move_queued_task E i m = (r, m1)" by fastforce
  show "quiet m (refresh_task_runqueue E i m)"
    using r move_quiet [OF r] quiet_trans [OF move_quiet [OF r] request_quiet] by (auto simp: refresh_task_runqueue_def split: option.split)
  have moves: "move_queued_tasks E tasks m = (rs, m') \<Longrightarrow> quiet m m'" for rs m'
  proof (induction tasks arbitrary: m rs)
    case (Cons i tasks)
    obtain r m1 where r: "move_queued_task E i m = (r, m1)" by fastforce
    obtain rs1 m2 where "move_queued_tasks E tasks m1 = (rs1, m2)" by fastforce
    then show ?case using Cons.prems Cons.IH [of m1 rs1] r quiet_trans [OF move_quiet [OF r]] by auto
  qed simp
  obtain rs m2 where rs: "move_queued_tasks E tasks m = (rs, m2)" by fastforce
  have "quiet m2 (fold (\<lambda>(i, h). request_reschedule_for_wakeup E i h) rs m2)"
    by (rule quiet_fold) (simp add: request_quiet split: prod.split)
  then show "quiet m (refresh_process_runqueues E tasks m)"
    using quiet_trans [OF moves [OF rs]] rs by (simp add: refresh_process_runqueues_def)
qed

lemma remove_task_quiet: "quiet m (remove_task i m)"
  using quiet_remove [of i m] by (metis remove_task_def prod.collapse)

section \<open>Checks and accounting\<close>

lemma charge_quiet: "quiet m (charge_task_runtime_for_scheduler E i m)"
proof -
  obtain d t where a: "account_runtime_until (env_now E) (m_tcb m i) = (d, t)" by fastforce
  have t: "t_rq_hart t = t_rq_hart (m_tcb m i)" "t_in_ready t = t_in_ready (m_tcb m i)" "t_on_cpu t = t_on_cpu (m_tcb m i)"
    using a by (auto simp: account_runtime_until_def Let_def split: if_splits)
  have 1: "quiet m (upd_tcb i t m)" using t by (intro quiet_tcb) (simp_all add: on_hart_def)
  have "quiet (upd_tcb i t m) (charge_task_runtime_for_scheduler E i m)"
    by (auto simp: charge_task_runtime_for_scheduler_def a Let_def quiet_def)
  with 1 show ?thesis by (rule quiet_trans)
qed

lemma tick_quiet: "quiet m (account_current_task_tick E m)"
  by (simp add: account_current_task_tick_def charge_quiet split: option.split)

lemma ready_rt_quiet:
  "has_ready_rt_higher_than E p m = (b, m') \<Longrightarrow> quiet m m'" "has_ready_rt_at_or_above E p m = (b, m') \<Longrightarrow> quiet m m'"
  by (auto simp: has_ready_rt_higher_than_def has_ready_rt_at_or_above_def has_ready_rt_count_higher_than_def has_ready_rt_count_at_or_above_def
      rt_bandwidth_throttled_def quiet_def on_hart_def Let_def split: prod.splits if_splits)

lemma rr_ticks_quiet [simp]: "quiet m (upd_tcb i ((m_tcb m i)\<lparr>t_rr_ticks := n\<rparr>) m)"
  by (rule quiet_tcb) (simp_all add: on_hart_def)

lemma preempt_rr_quiet:
  assumes "(let (higher, m2) = has_ready_rt_higher_than E p m in
     if higher then (True, m2)
     else let ticks = min (t_rr_ticks (m_tcb m2 i) + 1) (2 ^ 64 - 1); m3 = upd_tcb i ((m_tcb m2 i)\<lparr>t_rr_ticks := ticks\<rparr>) m2
          in if ticks < rr_timeslice_ticks (sc_sysctl (m_sched m3)) then (False, m3)
             else has_ready_rt_at_or_above E p (upd_tcb i ((m_tcb m3 i)\<lparr>t_rr_ticks := 0\<rparr>) m3)) = (b, m')"
  shows "quiet m m'"
proof -
  obtain hi m2 where h: "has_ready_rt_higher_than E p m = (hi, m2)" by fastforce
  let ?m3 = "\<lambda>n. upd_tcb i ((m_tcb m2 i)\<lparr>t_rr_ticks := n\<rparr>) m2"
  have 2: "quiet m m2" by (rule ready_rt_quiet(1) [OF h])
  have 3: "quiet m (?m3 n)" for n by (rule quiet_trans [OF 2 rr_ticks_quiet])
  have 4: "has_ready_rt_at_or_above E p (upd_tcb i ((m_tcb (?m3 n) i)\<lparr>t_rr_ticks := 0\<rparr>) (?m3 n)) = (b, m') \<Longrightarrow> quiet m m'" for n
    using quiet_trans [OF quiet_trans [OF 3 rr_ticks_quiet] ready_rt_quiet(2)] by blast
  show ?thesis
  proof (cases hi)
    case True
    then show ?thesis using assms h 2 by simp
  next
    case False
    then show ?thesis using assms 3 4 unfolding h Let_def by (auto simp del: One_nat_def split: if_splits)
  qed
qed

lemma preempt_tick_quiet: "should_preempt_current_on_tick E m = (b, m') \<Longrightarrow> quiet m m'"
proof -
  assume run: "should_preempt_current_on_tick E m = (b, m')"
  show ?thesis
  proof (cases "sc_current (m_sched m) (env_hart E)")
    case None
    then show ?thesis using run by (simp add: should_preempt_current_on_tick_def)
  next
    case (Some i)
    let ?p = "t_priority (m_tcb m i)"
    obtain th m1 where t: "throttled_on E (env_hart E) m = (th, m1)" by fastforce
    obtain rt m2 where f: "has_ready_rt_at_or_above E RT_PRIO_MIN m = (rt, m2)" by fastforce
    note q1 = throttled_quiet [OF t] and q2 = ready_rt_quiet(2) [OF f]
    consider (fifo) "class_of_policy (t_policy (m_tcb m i)) = Some Sched_fifo" | (rr) "class_of_policy (t_policy (m_tcb m i)) = Some Sched_rr"
      | (fair) "class_of_policy (t_policy (m_tcb m i)) = Some Sched_fair \<or> class_of_policy (t_policy (m_tcb m i)) = None"
      by (cases "class_of_policy (t_policy (m_tcb m i))"; cases "the (class_of_policy (t_policy (m_tcb m i)))") auto
    then show ?thesis
    proof cases
      case fifo
      then have "(if th then (True, m1) else has_ready_rt_higher_than E ?p m1) = (b, m')"
        using run Some t by (simp add: should_preempt_current_on_tick_def)
      then show ?thesis using q1 quiet_trans [OF q1 ready_rt_quiet(1)] by (cases th) auto
    next
      case rr
      show ?thesis
      proof (cases th)
        case True
        then show ?thesis using run Some t rr q1 by (simp add: should_preempt_current_on_tick_def)
      next
        case False
        then have "quiet m1 m'"
          using run Some t rr by (intro preempt_rr_quiet [of E ?p m1 i b m']) (simp add: should_preempt_current_on_tick_def Let_def)
        with q1 show ?thesis by (rule quiet_trans)
      qed
    next
      case fair
      then have "(if rt then (True, m2) else if fair_current_deadline_expired i (env_hart E) (env_now E) (m_sched m2)
          then (True, upd_tcb i ((m_tcb m2 i)\<lparr>t_rr_ticks := 0\<rparr>) m2) else (False, m2)) = (b, m')"
        using run Some f by (auto simp: should_preempt_current_on_tick_def)
      then show ?thesis using q2 quiet_trans [OF q2 rr_ticks_quiet] by (auto split: if_splits)
    qed
  qed
qed

lemma preempt_return_quiet: "should_preempt_current_on_syscall_return E m = (b, m') \<Longrightarrow> quiet m m'"
proof -
  assume run: "should_preempt_current_on_syscall_return E m = (b, m')"
  obtain th m1 where t: "(case sc_current (m_sched m) (env_hart E) of
     Some i \<Rightarrow> if class_of_policy (t_policy (m_tcb m i)) = Some Sched_fifo \<or> class_of_policy (t_policy (m_tcb m i)) = Some Sched_rr
               then throttled_on E (env_hart E) m else (False, m)
   | None \<Rightarrow> (False, m)) = (th, m1)" by fastforce
  have 1: "quiet m m1" using t throttled_quiet by (auto split: option.splits if_splits)
  obtain rt m2 where f: "has_ready_rt_at_or_above E RT_PRIO_MIN m1 = (rt, m2)" by fastforce
  have 2: "quiet m m2" by (rule quiet_trans [OF 1 ready_rt_quiet(2) [OF f]])
  show ?thesis using run 1 2 quiet_trans [OF 2 preempt_tick_quiet]
    unfolding should_preempt_current_on_syscall_return_def t by (auto simp: f split: if_splits)
qed

lemma busy_poll_quiet: "should_resched_for_busy_poll E m = (b, m') \<Longrightarrow> quiet m m'"
proof -
  assume run: "should_resched_for_busy_poll E m = (b, m')"
  let ?m1 = "m\<lparr>m_need_resched := (m_need_resched m)(local_hart E := False)\<rparr>"
  have "quiet m ?m1" by (simp add: quiet_def)
  then show ?thesis using run quiet_trans [OF _ ready_rt_quiet(2)] by (auto simp: should_resched_for_busy_poll_def Let_def split: if_splits)
qed

section \<open>One hart per task\<close>

definition opt_list :: "'a option \<Rightarrow> 'a list" where
  "opt_list x = (case x of None \<Rightarrow> [] | Some y \<Rightarrow> [y])"

lemma opt_list_simps [simp]: "opt_list None = []" "opt_list (Some y) = [y]"
  by (simp_all add: opt_list_def)

text \<open>The tasks whose kernel stack hart \<open>h\<close> uses or has just left.\<close>

definition held :: "machine \<Rightarrow> nat \<Rightarrow> task_id list" where
  "held m h = opt_list (sc_current (m_sched m) h) @ opt_list (m_pending_ready m h) @ opt_list (m_pending_blocked m h) @ m_pending_drop m h"

definition hart_held_ok :: "machine \<Rightarrow> nat \<Rightarrow> bool" where
  "hart_held_ok m h \<longleftrightarrow> distinct (held m h) \<and>
     (sc_current (m_sched m) h = None \<or> m_pending_ready m h = None \<and> m_pending_blocked m h = None) \<and>
     (\<forall>i. i \<in> set (held m h) \<longleftrightarrow> on_hart (m_tcb m i) h)"

definition mach_ok :: "machine \<Rightarrow> bool" where
  "mach_ok m \<longleftrightarrow> sched_ok (m_sched m) \<and> (\<forall>h<MAX_HARTS. hart_held_ok m h)"

lemma on_hart_unique:
  assumes "on_hart t h" "on_hart t h'" "h < MAX_HARTS" "h' < MAX_HARTS"
  shows "h = h'"
proof -
  have "bit (of_nat h :: usize) n = bit (of_nat h' :: usize) n" if "n < LENGTH(64)" for n
    using assms that hart_bits(1) [OF assms(3)] hart_bits(1) [OF assms(4)] by (cases "n = 63") (auto simp: on_hart_bits)
  then have "(of_nat h :: usize) = of_nat h'" by (rule bit_word_eqI)
  then have "unat (of_nat h :: usize) = unat (of_nat h' :: usize)" by simp
  then show ?thesis using assms(3,4) by (simp add: unat_of_nat MAX_HARTS_def)
qed

lemma not_on_hart: "t_on_cpu t = OFF_CPU \<Longrightarrow> h < MAX_HARTS \<Longrightarrow> \<not> on_hart t h"
  unfolding on_hart_def by (metis marked_bits(1))

lemma on_hart_fetched: "t_on_cpu t = of_nat h \<Longrightarrow> on_hart t h"
  unfolding on_hart_def marked_def by (rule exI [of _ False]) simp

lemma quiet_ok:
  assumes "quiet m m'" "mach_ok m"
  shows "mach_ok m'"
  using assms by (auto simp: quiet_def mach_ok_def hart_held_ok_def held_def)

lemma mach_ok_update:
  assumes ok: "mach_ok m" and h: "h < MAX_HARTS" and s: "sched_ok (m_sched m')" and new: "hart_held_ok m' h"
    and rest: "\<And>h'. h' \<noteq> h \<Longrightarrow> sc_current (m_sched m') h' = sc_current (m_sched m) h' \<and> m_pending_ready m' h' = m_pending_ready m h' \<and>
      m_pending_blocked m' h' = m_pending_blocked m h' \<and> m_pending_drop m' h' = m_pending_drop m h'"
    and tcb: "\<And>h' i. h' < MAX_HARTS \<Longrightarrow> h' \<noteq> h \<Longrightarrow> on_hart (m_tcb m' i) h' \<longleftrightarrow> on_hart (m_tcb m i) h'"
  shows "mach_ok m'"
proof -
  have "hart_held_ok m' h'" if "h' < MAX_HARTS" for h'
  proof (cases "h' = h")
    case False
    have "hart_held_ok m h'" using ok that by (simp add: mach_ok_def)
    then show ?thesis using rest [OF False] tcb [OF that False] by (simp add: hart_held_ok_def held_def)
  qed (use new in simp)
  then show ?thesis using s by (simp add: mach_ok_def)
qed

text \<open>Leaving the CPU: the running task of the hart becomes one of the tasks it has left.\<close>

lemma leave_ok:
  assumes ok: "mach_ok m" and h: "env_hart E < MAX_HARTS" and cur: "take_current_task E m = (Some i, m1)" and q: "quiet m1 m3"
    and m': "m_sched m' = m_sched m3"
      "m_pending_ready m' = (m_pending_ready m3)(env_hart E := Some i) \<and> m_pending_blocked m' = m_pending_blocked m3 \<and> m_pending_drop m' = m_pending_drop m3 \<or>
       m_pending_ready m' = m_pending_ready m3 \<and> m_pending_blocked m' = (m_pending_blocked m3)(env_hart E := Some i) \<and> m_pending_drop m' = m_pending_drop m3 \<or>
       m_pending_ready m' = m_pending_ready m3 \<and> m_pending_blocked m' = m_pending_blocked m3 \<and>
       m_pending_drop m' = (m_pending_drop m3)(env_hart E := m_pending_drop m3 (env_hart E) @ [i])"
  shows "mach_ok m'"
proof -
  let ?h = "env_hart E"
  have i: "sc_current (m_sched m) ?h = Some i"
    and m1: "m1 = m\<lparr>m_sched := (m_sched m)\<lparr>sc_current := (sc_current (m_sched m))(?h := None)\<rparr>\<rparr>"
    using cur by (auto simp: take_current_task_def)
  have hk: "hart_held_ok m ?h" using ok h by (simp add: mach_ok_def)
  then have none: "m_pending_ready m ?h = None" "m_pending_blocked m ?h = None" using i by (auto simp: hart_held_ok_def)
  have ok1: "sched_ok (m_sched m1)" using ok by (simp add: m1 mach_ok_def sched_ok_def hart_ok_but_def)
  have on: "on_hart (m_tcb m' j) h' \<longleftrightarrow> on_hart (m_tcb m j) h'" if "h' < MAX_HARTS" for j h'
    using q that by (simp add: quiet_def m'(1) m1)
  have sel: "sc_current (m_sched m') = (sc_current (m_sched m))(?h := None)" "m_pending_ready m3 = m_pending_ready m"
    "m_pending_blocked m3 = m_pending_blocked m" "m_pending_drop m3 = m_pending_drop m" using q by (simp_all add: quiet_def m'(1) m1)
  have hm: "held m ?h = i # m_pending_drop m ?h" by (simp add: held_def i none)
  have "held m' ?h = i # m_pending_drop m ?h \<or> held m' ?h = m_pending_drop m ?h @ [i]"
    using m'(2) unfolding sel by (elim disjE conjE) (simp_all add: held_def sel none)
  moreover have "distinct (held m ?h)" using hk by (simp add: hart_held_ok_def)
  ultimately have set: "set (held m' ?h) = set (held m ?h)" and dis: "distinct (held m' ?h)" unfolding hm by auto
  show ?thesis
  proof (rule mach_ok_update [OF ok h])
    show "sched_ok (m_sched m')" using q ok1 by (simp add: quiet_def m'(1))
    show "hart_held_ok m' ?h" using hk set dis on [OF h] by (simp add: hart_held_ok_def sel(1))
    show "on_hart (m_tcb m' j) h' \<longleftrightarrow> on_hart (m_tcb m j) h'" if "h' < MAX_HARTS" for h' j by (rule on [OF that])
    show "sc_current (m_sched m') h' = sc_current (m_sched m) h' \<and> m_pending_ready m' h' = m_pending_ready m h' \<and>
        m_pending_blocked m' h' = m_pending_blocked m h' \<and> m_pending_drop m' h' = m_pending_drop m h'" if "h' \<noteq> ?h" for h'
      using m'(2) that unfolding sel by (elim disjE conjE) simp_all
  qed
qed

text \<open>The switch is complete: the task is off the CPU.\<close>

lemma finished_ok:
  assumes ok: "mach_ok m" and h: "h < MAX_HARTS" and s: "m_sched m1 = m_sched m" and i: "i \<in> set (held m h)"
    and rm: "set (held m1 h) = set (held m h) - {i}" "distinct (held m1 h)"
      "sc_current (m_sched m) h = None \<or> m_pending_ready m1 h = None \<and> m_pending_blocked m1 h = None"
    and rest: "\<And>h'. h' \<noteq> h \<Longrightarrow> m_pending_ready m1 h' = m_pending_ready m h' \<and>
      m_pending_blocked m1 h' = m_pending_blocked m h' \<and> m_pending_drop m1 h' = m_pending_drop m h'"
  shows "mach_ok (upd_tcb i (snd (finish_running (m_tcb m i))) m1)"
proof -
  let ?t = "snd (finish_running (m_tcb m i))" and ?m = "upd_tcb i (snd (finish_running (m_tcb m i))) m1"
  have t: "t_on_cpu ?t = OFF_CPU" "t_rq_hart ?t = t_rq_hart (m_tcb m i)" "t_in_ready ?t = t_in_ready (m_tcb m i)"
    by (simp_all add: finish_running_def Let_def)
  have hk: "hart_held_ok m h" using ok h by (simp add: mach_ok_def)
  have only: "on_hart (m_tcb m i) h' \<longleftrightarrow> h' = h" if "h' < MAX_HARTS" for h'
    using hk i on_hart_unique [OF _ _ that h] by (auto simp: hart_held_ok_def)
  have held: "held ?m = held m1" by (simp add: held_def upd_tcb_def fun_eq_iff)
  have tcb: "m_tcb ?m j = (if j = i then ?t else m_tcb m j)" for j by (simp add: upd_tcb_def s)
  show ?thesis
  proof (rule mach_ok_update [OF ok h])
    show "sched_ok (m_sched ?m)" using ok t by (simp add: upd_tcb_def s mach_ok_def sched_ok_tcb)
    have "j \<in> set (held ?m h) \<longleftrightarrow> on_hart (m_tcb ?m j) h" for j
      using hk not_on_hart [OF t(1) h] unfolding held rm(1) tcb hart_held_ok_def by simp
    moreover have "sc_current (m_sched ?m) h = None \<or> m_pending_ready ?m h = None \<and> m_pending_blocked ?m h = None"
      using rm(3) unfolding upd_tcb_def by (simp add: s)
    ultimately show "hart_held_ok ?m h" using rm(2) unfolding hart_held_ok_def held by blast
    show "on_hart (m_tcb ?m j) h' \<longleftrightarrow> on_hart (m_tcb m j) h'" if "h' < MAX_HARTS" "h' \<noteq> h" for h' j
      using only [OF that(1)] not_on_hart [OF t(1) that(1)] that(2) by (simp add: tcb)
  qed (use rest in \<open>simp add: upd_tcb_def s\<close>)
qed

lemma take_none_ok:
  assumes "mach_ok m" "take_current_task E m = (None, m1)"
  shows "mach_ok m1"
proof -
  have "m1 = m" using assms(2) by (auto simp: take_current_task_def fun_upd_idem)
  then show ?thesis using assms(1) by simp
qed

lemma suspend_ok:
  assumes ok: "mach_ok m" and h: "env_hart E < MAX_HARTS"
  shows "mach_ok (suspend_current_and_run_next_unchecked E m)"
proof -
  obtain c m1 where t: "take_current_task E m = (c, m1)" by fastforce
  show ?thesis
  proof (cases c)
    case None
    then show ?thesis using take_none_ok [OF ok] t by (simp add: suspend_current_and_run_next_unchecked_def)
  next
    case (Some i)
    let ?m2 = "charge_task_runtime_for_scheduler E i m1"
    let ?m3 = "upd_tcb i (suspend_current (m_tcb ?m2 i)) ?m2"
    have "quiet ?m2 ?m3" by (rule quiet_tcb) (simp_all add: suspend_current_def on_hart_def)
    then have "quiet m1 ?m3" by (rule quiet_trans [OF charge_quiet])
    then show ?thesis using leave_ok [OF ok h] t Some by (simp add: suspend_current_and_run_next_unchecked_def Let_def)
  qed
qed

lemma try_suspend_ok: "mach_ok m \<Longrightarrow> env_hart E < MAX_HARTS \<Longrightarrow> mach_ok (suspend_current_and_run_next E m)"
  using suspend_ok by (simp add: suspend_current_and_run_next_def try_suspend_current_and_run_next_def)

lemma user_return_ok:
  assumes "mach_ok m" "env_hart E < MAX_HARTS"
  shows "mach_ok (reschedule_before_user_return_if_needed E m)"
proof -
  have "quiet m (m\<lparr>m_need_resched := (m_need_resched m)(local_hart E := False)\<rparr>)" by (simp add: quiet_def)
  from quiet_ok [OF this assms(1)] show ?thesis
    using try_suspend_ok assms(2) by (simp add: reschedule_before_user_return_if_needed_def Let_def)
qed

lemma sleep_lag_keeps:
  "t_rq_hart (sleep_lag g mv now t) = t_rq_hart t" "t_in_ready (sleep_lag g mv now t) = t_in_ready t" "t_on_cpu (sleep_lag g mv now t) = t_on_cpu t"
  by (simp_all add: sleep_lag_def Let_def split: prod.split option.split)

lemma block_ok:
  assumes ok: "mach_ok m" and h: "env_hart E < MAX_HARTS" and run: "block_current_and_run_next E m = Some m'"
  shows "mach_ok m'"
proof -
  obtain c m1 where t: "take_current_task E m = (c, m1)" by fastforce
  show ?thesis
  proof (cases c)
    case None
    then show ?thesis using take_none_ok [OF ok] t run by (simp add: block_current_and_run_next_def split: if_splits)
  next
    case (Some i)
    define m2 where "m2 = charge_task_runtime_for_scheduler E i m1"
    obtain b u where bl: "block_current (m_tcb m2 i) = (b, u)" by fastforce
    define m3 where "m3 = upd_tcb i u m2"
    define m4 where "m4 = m3\<lparr>m_sched := record_fair_sleep_lag i (local_hart E) (env_now E) (m_sched m3)\<rparr>"
    have "quiet m2 m3" unfolding m3_def using bl by (intro quiet_tcb) (auto simp: block_current_def on_hart_def Let_def split: if_splits)
    moreover have "quiet m1 m2" unfolding m2_def by (rule charge_quiet)
    ultimately have 3: "quiet m1 m3" using quiet_trans by blast
    have "m4 = upd_tcb i (sleep_lag (btm_get (rq_groups (sc_rq (m_sched m3) (local_hart E))) (fst (fair_group_id_and_shares (m_tcb m3 i))))
        (rq_min_fair (sc_rq (m_sched m3) (local_hart E))) (env_now E) (m_tcb m3 i)) m3"
      by (simp add: m4_def upd_tcb_def record_fair_sleep_lag_def Let_def)
    then have "quiet m3 m4" by (auto simp: sleep_lag_keeps on_hart_def intro!: quiet_tcb)
    with 3 have 4: "quiet m1 m4" by (rule quiet_trans)
    have "m' = (if b then m4\<lparr>m_pending_blocked := (m_pending_blocked m4)(env_hart E := Some i)\<rparr>
        else m3\<lparr>m_pending_ready := (m_pending_ready m3)(env_hart E := Some i)\<rparr>)"
      using run t Some bl unfolding block_current_and_run_next_def m4_def m3_def by (auto simp: m2_def [symmetric] Let_def split: if_splits)
    then show ?thesis using leave_ok [OF ok h t [unfolded Some] 3, of m'] leave_ok [OF ok h t [unfolded Some] 4, of m'] by (cases b) simp_all
  qed
qed

lemma exit_ok:
  assumes ok: "mach_ok m" and h: "env_hart E < MAX_HARTS" and run: "exit_current_task E m = Some m'"
  shows "mach_ok m'"
proof -
  obtain c m1 where t: "take_current_task E m = (c, m1)" by fastforce
  obtain i where i: "c = Some i" using run t by (auto simp: exit_current_task_def split: if_splits option.splits)
  have "m' = queue_exiting_task_drop E i (charge_task_runtime_for_scheduler E i m1)"
    using run t i by (auto simp: exit_current_task_def split: if_splits)
  then show ?thesis using leave_ok [OF ok h t [unfolded i] charge_quiet, of m'] by (simp add: queue_exiting_task_drop_def)
qed

lemma idle_blocked_ok:
  assumes ok: "mach_ok m" and h: "env_hart E < MAX_HARTS"
  shows "mach_ok (idle_pending_blocked E m)"
proof (cases "m_pending_blocked m (env_hart E)")
  case None
  then show ?thesis using ok by (simp add: idle_pending_blocked_def)
next
  case (Some i)
  let ?m1 = "m\<lparr>m_pending_blocked := (m_pending_blocked m)(env_hart E := None)\<rparr>"
  obtain w t where f: "finish_running (m_tcb m i) = (w, t)" by fastforce
  have hk: "hart_held_ok m (env_hart E)" using ok h by (simp add: mach_ok_def)
  then have "distinct (held m (env_hart E))" "sc_current (m_sched m) (env_hart E) = None" using Some by (auto simp: hart_held_ok_def)
  then have "mach_ok (upd_tcb i t ?m1)" using finished_ok [OF ok h, of ?m1 i] f Some by (auto simp: held_def)
  then have "mach_ok (wakeup_task E i (upd_tcb i t ?m1))" "mach_ok (wakeup_sync_task_on_hart E i h' (upd_tcb i t ?m1))" "mach_ok (upd_tcb i t ?m1)" for h'
    using quiet_ok wakeup_quiet by blast+
  then show ?thesis using Some f by (auto simp: idle_pending_blocked_def Let_def split: pending_wakeup.split)
qed

lemma idle_ready_ok:
  assumes ok: "mach_ok m" and h: "env_hart E < MAX_HARTS"
  shows "mach_ok (idle_pending_ready E m)"
proof (cases "m_pending_ready m (env_hart E)")
  case None
  then show ?thesis using ok by (simp add: idle_pending_ready_def)
next
  case (Some i)
  let ?m1 = "m\<lparr>m_pending_ready := (m_pending_ready m)(env_hart E := None)\<rparr>"
  let ?m2 = "upd_tcb i (snd (finish_running (m_tcb m i))) ?m1"
  have hk: "hart_held_ok m (env_hart E)" using ok h by (simp add: mach_ok_def)
  then have "distinct (held m (env_hart E))" "sc_current (m_sched m) (env_hart E) = None" using Some by (auto simp: hart_held_ok_def)
  then have "mach_ok ?m2" using finished_ok [OF ok h, of ?m1 i] Some by (auto simp: held_def)
  moreover have "quiet ?m2 (snd (requeue_task E i ?m2))" using requeue_quiet by (metis prod.collapse)
  ultimately show ?thesis using quiet_ok Some by (simp add: idle_pending_ready_def Let_def)
qed

lemma idle_drop_ok:
  assumes ok: "mach_ok m" and h: "env_hart E < MAX_HARTS"
  shows "mach_ok (idle_drop E m)"
proof (cases "m_pending_drop m (env_hart E)")
  case Nil
  then show ?thesis using ok by (simp add: idle_drop_def)
next
  case (Cons i rest)
  have hk: "hart_held_ok m (env_hart E)" using ok h by (simp add: mach_ok_def)
  then have "distinct (held m (env_hart E))"
    "sc_current (m_sched m) (env_hart E) = None \<or> m_pending_ready m (env_hart E) = None \<and> m_pending_blocked m (env_hart E) = None"
    by (auto simp: hart_held_ok_def)
  then show ?thesis using finished_ok [OF ok h, of "m\<lparr>m_pending_drop := (m_pending_drop m)(env_hart E := rest)\<rparr>" i] Cons
    by (auto simp: held_def idle_drop_def Let_def)
qed

text \<open>Starting the next task.\<close>

lemma run_next_ok:
  assumes ok: "mach_ok m" and h: "env_hart E < MAX_HARTS" and run: "idle_run_next E m = Some m'"
    and idle: "sc_current (m_sched m) (env_hart E) = None" "m_pending_ready m (env_hart E) = None" "m_pending_blocked m (env_hart E) = None"
  shows "mach_ok m'"
proof -
  let ?h = "env_hart E"
  obtain r s where f: "rq_fetch ?h (of_nat (env_now E)) (m_sched m) = Some (r, s)"
    using run by (auto simp: idle_run_next_def fetch_task_def)
  have cf: "cpu_frame ?h (m_sched m) r s" by (rule rq_fetch_cpu [OF f])
  have sok: "sched_ok s" using fetch_spec [OF _ h refl, of "m_sched m" "of_nat (env_now E)"] ok f by (auto simp: mach_ok_def)
  show ?thesis
  proof (cases r)
    case None
    then have "m' = m\<lparr>m_sched := s\<rparr>" using run f by (simp add: idle_run_next_def fetch_task_def)
    moreover have "quiet m (m\<lparr>m_sched := s\<rparr>)" using cf None sok by (intro quiet_cpu) auto
    ultimately show ?thesis using quiet_ok ok by blast
  next
    case (Some i)
    let ?t = "(begin_runtime_slice (env_now E) (sc_tcb s i))\<lparr>t_status := Running\<rparr>"
    have m': "m' = m\<lparr>m_sched := (set_tcb i ?t s)\<lparr>sc_current := (sc_current s)(?h := Some i)\<rparr>\<rparr>"
      using run f Some by (simp add: idle_run_next_def fetch_task_def upd_tcb_def Let_def)
    have c: "sc_current s = sc_current (m_sched m)" "t_on_cpu (m_tcb m i) = OFF_CPU" "t_on_cpu (sc_tcb s i) = of_nat ?h"
      "j \<noteq> i \<Longrightarrow> t_on_cpu (sc_tcb s j) = t_on_cpu (m_tcb m j)" for j using cf Some by (auto simp: cpu_frame_def)
    have tcb: "t_on_cpu (m_tcb m' j) = (if j = i then of_nat ?h else t_on_cpu (m_tcb m j))" for j
      using c(3,4) by (simp add: m' begin_runtime_slice_def)
    have hk: "hart_held_ok m ?h" using ok h by (simp add: mach_ok_def)
    have held: "held m' ?h = i # held m ?h" using idle by (simp add: held_def m')
    have new: "i \<notin> set (held m ?h)" using hk not_on_hart [OF c(2) h] by (simp add: hart_held_ok_def)
    have on: "on_hart (m_tcb m' j) h' \<longleftrightarrow> (if j = i then on_hart (m_tcb m' i) h' else on_hart (m_tcb m j) h')" for j h'
      using tcb [of j] by (cases "j = i") (simp_all add: on_hart_def)
    have i: "on_hart (m_tcb m' i) ?h" using tcb [of i] on_hart_fetched by simp
    show ?thesis
    proof (rule mach_ok_update [OF ok h])
      have "sched_ok (set_tcb i ?t s)" using sok by (rule sched_ok_tcb) (simp_all add: begin_runtime_slice_def)
      then show "sched_ok (m_sched m')" by (simp add: m' sched_ok_def hart_ok_but_def)
      have "j \<in> set (held m' ?h) \<longleftrightarrow> on_hart (m_tcb m' j) ?h" for j
        using on [of j ?h] i hk by (auto simp: held hart_held_ok_def)
      moreover have "distinct (held m' ?h)" using hk new by (simp add: held hart_held_ok_def)
      ultimately show "hart_held_ok m' ?h" using idle unfolding hart_held_ok_def by (simp add: m')
      show "on_hart (m_tcb m' j) h' \<longleftrightarrow> on_hart (m_tcb m j) h'" if "h' < MAX_HARTS" "h' \<noteq> ?h" for h' j
        using on [of j h'] on_hart_unique [OF i _ h that(1)] not_on_hart [OF c(2) that(1)] that(2) by (auto split: if_splits)
    qed (simp add: m' c(1))
  qed
qed

end
