(* ===== verification/Sched_Runs.thy ===== *)
theory Sched_Runs
  imports Sched_Machine
begin

text \<open>
  Runs of the machine. \<open>mach_step\<close> is one operation on some hart, each a step of its own; what code
  outside the scheduler does to a task is any change that leaves the claim of a run queue and the word
  \<open>on_cpu\<close> alone. \<open>reachable\<close> are the states after boot.
\<close>

inductive mach_step :: "machine \<Rightarrow> machine \<Rightarrow> bool" where
  hart_up: "mach_step m (mark_hart_online E h m)"
| pick_hart: "mach_step m (snd (select_hart_for_new_task E m))"
| new_task: "add_task E i m = (r, m') \<Longrightarrow> mach_step m m'"
| wake: "mach_step m (wakeup_task E i m)"
| wake_sync: "mach_step m (wakeup_sync_task E i m)"
| wake_sync_on: "mach_step m (wakeup_sync_task_on_hart E i h m)"
| wake_all: "mach_step m (wakeup_tasks E tasks m)"
| wake_sync_all: "mach_step m (wakeup_sync_tasks E tasks m)"
| wake_signal: "mach_step m (wakeup_signal_tasks E tasks m)"
| discard: "mach_step m (upd_tcb i (discard_deferred_wakeup (m_tcb m i)) m)"
| refresh: "mach_step m (refresh_task_runqueue E i m)"
| refresh_all: "mach_step m (refresh_process_runqueues E tasks m)"
| removed: "mach_step m (remove_task i m)"
| tick: "mach_step m (account_current_task_tick E m)"
| tick_check: "should_preempt_current_on_tick E m = (b, m') \<Longrightarrow> mach_step m m'"
| return_check: "should_preempt_current_on_syscall_return E m = (b, m') \<Longrightarrow> mach_step m m'"
| poll_check: "should_resched_for_busy_poll E m = (b, m') \<Longrightarrow> mach_step m m'"
| resched: "mach_step m (request_reschedule_current_hart E m)"
| no_switching: "mach_step m (disable_current_scheduling E m)"
| switching: "mach_step m (drop_scheduling_guard h m)"
| yield: "env_hart E < MAX_HARTS \<Longrightarrow> mach_step m (suspend_current_and_run_next E m)"
| user_return: "env_hart E < MAX_HARTS \<Longrightarrow> mach_step m (reschedule_before_user_return_if_needed E m)"
| block: "env_hart E < MAX_HARTS \<Longrightarrow> block_current_and_run_next E m = Some m' \<Longrightarrow> mach_step m m'"
| exits: "env_hart E < MAX_HARTS \<Longrightarrow> exit_current_task E m = Some m' \<Longrightarrow> mach_step m m'"
| left_blocked: "env_hart E < MAX_HARTS \<Longrightarrow> mach_step m (idle_pending_blocked E m)"
| left_ready: "env_hart E < MAX_HARTS \<Longrightarrow> mach_step m (idle_pending_ready E m)"
| left_exited: "env_hart E < MAX_HARTS \<Longrightarrow> mach_step m (idle_drop E m)"
| run_next: "env_hart E < MAX_HARTS \<Longrightarrow> sc_current (m_sched m) (env_hart E) = None \<Longrightarrow> m_pending_ready m (env_hart E) = None \<Longrightarrow>
    m_pending_blocked m (env_hart E) = None \<Longrightarrow> idle_run_next E m = Some m' \<Longrightarrow> mach_step m m'"
| elsewhere: "t_rq_hart t = t_rq_hart (m_tcb m i) \<Longrightarrow> t_in_ready t = t_in_ready (m_tcb m i) \<Longrightarrow> t_on_cpu t = t_on_cpu (m_tcb m i) \<Longrightarrow>
    mach_step m (upd_tcb i t m)"
| tunables: "mach_step m (m\<lparr>m_sched := (m_sched m)\<lparr>sc_sysctl := c\<rparr>\<rparr>)"

text \<open>A control block as \<open>TaskControlBlock::new\<close> leaves it, and the machine before any task is queued.\<close>

definition fresh_tcb :: "tcb \<Rightarrow> bool" where
  "fresh_tcb t \<longleftrightarrow> t_rq_hart t = None \<and> \<not> t_in_ready t \<and> t_on_cpu t = OFF_CPU"

definition boot_machine :: "(task_id \<Rightarrow> tcb) \<Rightarrow> machine" where
  "boot_machine tasks =
     \<lparr>m_sched = \<lparr>sc_tcb = tasks, sc_rq = (\<lambda>h. rq_new), sc_rt_count = (\<lambda>h n. 0), sc_fair_count = (\<lambda>h. 0), sc_current = (\<lambda>h. None),
        sc_bw = (\<lambda>h. rt_bw_init), sc_sysctl = sched_sysctl_init\<rparr>,
      m_online = 0, m_next_hart = 0, m_need_resched = (\<lambda>h. False), m_disabled = (\<lambda>h. 0), m_pending_ready = (\<lambda>h. None),
      m_pending_blocked = (\<lambda>h. None), m_pending_drop = (\<lambda>h. []), m_ipis = []\<rparr>"

inductive reachable :: "machine \<Rightarrow> bool" where
  boot: "(\<And>i. fresh_tcb (tasks i)) \<Longrightarrow> reachable (boot_machine tasks)"
| step: "reachable m \<Longrightarrow> mach_step m m' \<Longrightarrow> reachable m'"

section \<open>The invariant\<close>

lemma boot_ok:
  assumes "\<And>i. fresh_tcb (tasks i)"
  shows "mach_ok (boot_machine tasks)"
proof -
  have rq: "rq_ok_but {} rq_new" by (simp add: rq_ok_but_def rq_new_def btm_inv_def bts_inv_def)
  have t: "t_rq_hart (tasks i) = None" "\<not> t_in_ready (tasks i)" "t_on_cpu (tasks i) = OFF_CPU" for i using assms by (auto simp: fresh_tcb_def)
  have "entry_count rq_new i = 0" for i by (simp add: entry_count_def rq_new_def)
  moreover have "fair_len rq_new = 0" by (simp add: fair_len_def rq_new_def)
  moreover have "n < RT_PRIO_LEVELS \<Longrightarrow> length (rq_rt rq_new ! n) = 0" for n by (simp add: rq_new_def)
  ultimately have "sched_ok (m_sched (boot_machine tasks))"
    using rq t by (simp add: sched_ok_def hart_ok_but_def tcb_ok_def boot_machine_def)
  moreover have "hart_held_ok (boot_machine tasks) h" if "h < MAX_HARTS" for h
    using not_on_hart [OF t(3) that] by (simp add: hart_held_ok_def held_def boot_machine_def)
  ultimately show ?thesis by (simp add: mach_ok_def)
qed

lemma mark_online_quiet: "quiet m (mark_hart_online E h m)"
  by (simp add: mark_hart_online_def quiet_def)

lemma step_ok: "mach_step m m' \<Longrightarrow> mach_ok m \<Longrightarrow> mach_ok m'"
proof (induction rule: mach_step.induct)
  case (hart_up m E h)
  then show ?case using quiet_ok mark_online_quiet by blast
next
  case (pick_hart m E)
  have "quiet m (snd (select_hart_for_new_task E m))" by (simp add: select_hart_for_new_task_def quiet_def Let_def)
  then show ?case using quiet_ok pick_hart by blast
next
  case (discard m i)
  have "quiet m (upd_tcb i (discard_deferred_wakeup (m_tcb m i)) m)" using discard_keeps by (intro quiet_tcb) simp_all
  then show ?case using quiet_ok discard by blast
next
  case (resched m E)
  then show ?case using quiet_ok signal_quiet(2) unfolding request_reschedule_current_hart_def by blast
next
  case (no_switching m E)
  have "quiet m (disable_current_scheduling E m)" by (simp add: disable_current_scheduling_def quiet_def)
  then show ?case using quiet_ok no_switching by blast
next
  case (switching m h)
  have "quiet m (drop_scheduling_guard h m)" by (simp add: drop_scheduling_guard_def quiet_def)
  then show ?case using quiet_ok switching by blast
next
  case (elsewhere t m i)
  then have "quiet m (upd_tcb i t m)" by (intro quiet_tcb) (simp_all add: on_hart_def)
  then show ?case using quiet_ok elsewhere by blast
next
  case (tunables m c)
  have "quiet m (m\<lparr>m_sched := (m_sched m)\<lparr>sc_sysctl := c\<rparr>\<rparr>)" by (simp add: quiet_def sched_ok_def hart_ok_but_def)
  then show ?case using quiet_ok tunables by blast
next
  case (run_next E m m')
  then show ?case using run_next_ok by blast
qed (metis quiet_ok wakeup_quiet add_task_quiet refresh_quiet remove_task_quiet tick_quiet preempt_tick_quiet preempt_return_quiet
    busy_poll_quiet try_suspend_ok user_return_ok block_ok exit_ok idle_blocked_ok idle_ready_ok idle_drop_ok)+

lemma reachable_ok: "reachable m \<Longrightarrow> mach_ok m"
  by (induction rule: reachable.induct) (auto intro: boot_ok step_ok)

lemma reachable_sched_ok: "reachable m \<Longrightarrow> sched_ok (m_sched m)"
  using reachable_ok by (simp add: mach_ok_def)

section \<open>What queueing leaves alone\<close>

text \<open>\<open>same_task t t'\<close>: the two control blocks differ at most in the fields that queueing sets.\<close>

definition same_task :: "tcb \<Rightarrow> tcb \<Rightarrow> bool" where
  "same_task t t' \<longleftrightarrow> t_status t' = t_status t \<and> t_res t' = t_res t \<and> t_on_cpu t' = t_on_cpu t \<and> t_frozen t' = t_frozen t \<and>
     t_policy t' = t_policy t \<and> t_priority t' = t_priority t \<and> t_affinity t' = t_affinity t \<and> t_group t' = t_group t"

lemma same_task_trans: "same_task t t1 \<Longrightarrow> same_task t1 t2 \<Longrightarrow> same_task t t2"
  by (simp add: same_task_def)

lemma same_task_slot: "same_task t t' \<Longrightarrow> task_queue_slot t' = task_queue_slot t"
  unfolding task_queue_slot_def by (simp add: same_task_def cong: option.case_cong sched_class.case_cong)

lemma place_same:
  assumes "place_fair_task_entity kind cur g t = (v, d, g', t')"
  shows "same_task t t'"
proof -
  have "\<exists>a b c. t' = t\<lparr>t_vlag := 0, t_credit := 0, t_vruntime := a, t_checkpoint := b, t_deadline := c\<rparr>"
    using arg_cong [OF assms, of "\<lambda>x. snd (snd (snd x))"] unfolding place_fair_task_entity_def Let_def by (simp only: snd_conv) blast
  then show ?thesis by (auto simp: same_task_def)
qed

text \<open>\<open>added i h s s'\<close>: task \<open>i\<close> has been put on the queue of hart \<open>h\<close>.\<close>

definition added :: "task_id \<Rightarrow> nat \<Rightarrow> sched \<Rightarrow> sched \<Rightarrow> bool" where
  "added i h s s' \<longleftrightarrow> (\<exists>t. sc_tcb s' = (sc_tcb s)(i := t) \<and> same_task (sc_tcb s i) t \<and> t_rq_hart t = Some h) \<and>
     sc_current s' = sc_current s \<and> sc_bw s' = sc_bw s \<and> sc_sysctl s' = sc_sysctl s \<and>
     (task_queue_slot (sc_tcb s i) = Slot_fair \<longrightarrow> rq_rt (sc_rq s' h) = rq_rt (sc_rq s h) \<and>
       (rq_groups (sc_rq s h) = [] \<longrightarrow> map fst (rq_groups (sc_rq s' h)) = [t_group (sc_tcb s i)]))"

lemma set_sel [simp]:
  "sc_bw (set_tcb i t s) = sc_bw s" "sc_sysctl (set_tcb i t s) = sc_sysctl s" "sc_bw (set_rq h rq s) = sc_bw s" "sc_sysctl (set_rq h rq s) = sc_sysctl s"
  "sc_bw (set_rtq h n q s) = sc_bw s" "sc_sysctl (set_rtq h n q s) = sc_sysctl s"
  "sc_bw (inc_ready_rt_count h n s) = sc_bw s" "sc_sysctl (inc_ready_rt_count h n s) = sc_sysctl s"
  "sc_bw (inc_ready_fair_count h s) = sc_bw s" "sc_sysctl (inc_ready_fair_count h s) = sc_sysctl s"
  by (simp_all add: set_tcb_def set_rq_def set_rtq_def inc_ready_rt_count_def inc_ready_fair_count_def)

lemma link_sel [simp]: "rq_rt (unlink_fair_group k rq) = rq_rt rq" "rq_rt (relink_fair_group_if_runnable k rq) = rq_rt rq"
  "rq_groups (unlink_fair_group k rq) = rq_groups rq" "rq_groups (relink_fair_group_if_runnable k rq) = rq_groups rq"
  "rq_min_fair (unlink_fair_group k rq) = rq_min_fair rq"
  by (simp_all add: unlink_fair_group_def relink_fair_group_if_runnable_def split: option.split)

lemma enqueue_fair_added:
  assumes "same_task t0 t" "t_rq_hart t = Some h"
  shows "\<exists>u. sc_tcb (enqueue_fair h i kind busy now (set_tcb i t s)) = (sc_tcb s)(i := u) \<and> same_task t0 u \<and> t_rq_hart u = Some h \<and>
    sc_current (enqueue_fair h i kind busy now (set_tcb i t s)) = sc_current s \<and> sc_bw (enqueue_fair h i kind busy now (set_tcb i t s)) = sc_bw s \<and>
    sc_sysctl (enqueue_fair h i kind busy now (set_tcb i t s)) = sc_sysctl s \<and> rq_rt (sc_rq (enqueue_fair h i kind busy now (set_tcb i t s)) h) = rq_rt (sc_rq s h) \<and>
    (rq_groups (sc_rq s h) = [] \<longrightarrow> map fst (rq_groups (sc_rq (enqueue_fair h i kind busy now (set_tcb i t s)) h)) = [t_group t])"
proof -
  let ?k = "fst (fair_group_id_and_shares t)" and ?rq1 = "unlink_fair_group (fst (fair_group_id_and_shares t)) (sc_rq s h)"
  obtain v d g1 u where p: "place_fair_task_entity kind (current_fair_entity_for_group (if busy then None else map_option ((sc_tcb s)(i := t)) (sc_current s h)) ?k now)
      ((case btm_get (rq_groups ?rq1) ?k of None \<Rightarrow> group_new (rq_min_fair ?rq1) | Some g \<Rightarrow> g)\<lparr>fg_shares := max (snd (fair_group_id_and_shares t)) 1\<rparr>) t
      = (v, d, g1, u)" by (metis prod_cases4)
  have u: "same_task t0 u" "t_rq_hart u = Some h" using same_task_trans [OF assms(1) place_same [OF p]] place_fair_task_entity_keeps(3) [OF p] assms(2) by auto
  show ?thesis using p u by (cases busy; intro exI [of _ u]) (simp_all add: enqueue_fair_def fair_group_id_and_shares_def Let_def split_beta cong: option.case_cong)
qed

lemma rq_add_added:
  assumes "t_rq_hart (sc_tcb s i) = None"
  shows "\<exists>s'. rq_add i h kind busy now s = (Some (rq_len (sc_rq s h) = 0), s') \<and> added i h s s'"
proof -
  define t where "t = (sc_tcb s i)\<lparr>t_rq_hart := Some h, t_in_ready := True, t_cpu_id := h\<rparr>"
  have t: "same_task (sc_tcb s i) t" "t_rq_hart t = Some h" by (simp_all add: same_task_def t_def)
  have add: "rq_add i h kind busy now s = (Some (rq_len (sc_rq s h) = 0), case task_queue_slot t of
      Slot_rt n \<Rightarrow> inc_ready_rt_count h n (set_rtq h n (rq_rt (sc_rq s h) ! n @ [i]) (set_tcb i t s))
    | Slot_fair \<Rightarrow> enqueue_fair h i kind busy now (set_tcb i t s))"
    using assms t(2) by (simp add: rq_add_def claim_ready_queue_def t_def [symmetric] Let_def split: ready_queue_slot.split)
  show ?thesis
  proof (cases "task_queue_slot t")
    case (Slot_rt n)
    then show ?thesis using add t same_task_slot [OF t(1)] by (auto simp: added_def)
  next
    case Slot_fair
    then show ?thesis using add enqueue_fair_added [OF t, of i kind busy now s] t(1) by (auto simp: added_def same_task_def)
  qed
qed

section \<open>A run\<close>

text \<open>A fair task is queued on hart 0 right after boot.\<close>

definition demo_env :: env where
  "demo_env = \<lparr>env_hart = 0, env_active = 1, env_now = 1000, env_busy = (\<lambda>h. False), env_inner_free = True\<rparr>"

definition demo_new :: tcb where
  "demo_new = demo_tcb\<lparr>t_rq_hart := None, t_in_ready := False\<rparr>"

definition demo_queued :: machine where
  "demo_queued = snd (add_task demo_env 7 (boot_machine (\<lambda>i. demo_new)))"

lemma demo_queued_reachable: "reachable demo_queued"
proof -
  have "reachable (boot_machine (\<lambda>i. demo_new))"
    by (rule reachable.boot) (simp add: fresh_tcb_def demo_new_def demo_tcb_def)
  moreover have "mach_step (boot_machine (\<lambda>i. demo_new)) demo_queued"
    unfolding demo_queued_def by (rule mach_step.new_task) (rule prod.collapse [symmetric])
  ultimately show ?thesis by (rule reachable.step)
qed

lemma demo_added: "added 7 0 (m_sched (boot_machine (\<lambda>i. demo_new))) (m_sched demo_queued)"
proof -
  let ?m = "boot_machine (\<lambda>i. demo_new)"
  have slot: "task_queue_slot demo_new = Slot_fair"
    by (simp add: task_queue_slot_def demo_new_def demo_tcb_def class_of_policy_def SCHED_OTHER_def SCHED_FIFO_def SCHED_RR_def)
  have on: "online_hart_mask demo_env ?m = 1" by (simp add: online_hart_mask_def demo_env_def boot_machine_def trailing_zeros_def upt_conv_Cons)
  have t: "demo_new\<lparr>t_cpu_id := 0\<rparr> = demo_new" by (simp add: demo_new_def demo_tcb_def)
  have r: "resolve_enqueue_hart demo_env ?m 0 1 Enqueue_initial demo_new = (0, demo_new)"
    using slot t by (simp add: resolve_enqueue_hart_def) (simp add: demo_new_def demo_tcb_def)
  have s: "set_tcb 7 demo_new (m_sched ?m) = m_sched ?m" by (simp add: set_tcb_def boot_machine_def fun_upd_idem)
  obtain s' where a: "rq_add 7 0 Enqueue_initial False 1000 (m_sched ?m) = (Some (rq_len (sc_rq (m_sched ?m) 0) = 0), s')" "added 7 0 (m_sched ?m) s'"
    using rq_add_added [of "m_sched ?m" 7 0 Enqueue_initial False 1000] by (auto simp: boot_machine_def demo_new_def)
  have e: "enqueue_task demo_env 7 Enqueue_initial ?m = (Some (0, rq_len (sc_rq (m_sched ?m) 0) = 0), ?m\<lparr>m_sched := s'\<rparr>)"
    using on r s a(1) by (simp add: enqueue_task_def enqueue_task_with_wakeup_flags_def local_hart_def demo_env_def [THEN arg_cong [where f = env_hart]]
      demo_env_def [THEN arg_cong [where f = env_now]] demo_env_def [THEN arg_cong [where f = env_busy]]) (simp add: boot_machine_def)
  have "task_queue_slot (sc_tcb s' 7) = Slot_fair" using a(2) slot same_task_slot by (auto simp: added_def boot_machine_def)
  then have "m_sched demo_queued = s'"
    using e slot by (simp add: demo_queued_def add_task_def local_hart_def demo_env_def [THEN arg_cong [where f = env_hart]]) (simp add: boot_machine_def send_ipi_def)
  then show ?thesis using a(2) by simp
qed

lemma demo_task:
  "t_rq_hart (m_tcb demo_queued j) = (if j = 7 then Some 0 else None)" "runnable (m_tcb demo_queued 7)" "n < RT_PRIO_LEVELS \<Longrightarrow> rq_rt (sc_rq (m_sched demo_queued) 0) ! n = []"
  "map fst (rq_groups (sc_rq (m_sched demo_queued) 0)) = [t_group (m_tcb demo_queued 7)]"
proof -
  have slot: "task_queue_slot demo_new = Slot_fair"
    by (simp add: task_queue_slot_def demo_new_def demo_tcb_def class_of_policy_def SCHED_OTHER_def SCHED_FIFO_def SCHED_RR_def)
  obtain t where t: "sc_tcb (m_sched demo_queued) = (\<lambda>i. demo_new)(7 := t)" "same_task demo_new t" "t_rq_hart t = Some 0"
    and rt: "rq_rt (sc_rq (m_sched demo_queued) 0) = rq_rt rq_new" "map fst (rq_groups (sc_rq (m_sched demo_queued) 0)) = [t_group demo_new]"
    using demo_added slot by (auto simp: added_def boot_machine_def rq_new_def)
  show "t_rq_hart (m_tcb demo_queued j) = (if j = 7 then Some 0 else None)" using t by (simp add: demo_new_def)
  show "runnable (m_tcb demo_queued 7)" using t by (simp add: same_task_def runnable_def demo_new_def demo_tcb_def)
  show "rq_rt (sc_rq (m_sched demo_queued) 0) ! n = []" if "n < RT_PRIO_LEVELS" unfolding rt using that by (simp add: rq_new_def)
  show "map fst (rq_groups (sc_rq (m_sched demo_queued) 0)) = [t_group (m_tcb demo_queued 7)]" using rt(2) t by (simp add: same_task_def)
qed

section \<open>Properties of the scheduler\<close>

text \<open>C3: A task is never on two harts. In every state after boot, the tasks that a hart runs, or has left without having
  finished the switch, are distinct, each names that hart in its word \<open>on_cpu\<close>, and no other hart holds it.
  So the kernel stack of a task is used by one hart at a time.\<close>

theorem no_task_on_two_harts:
  assumes "reachable m" "h < MAX_HARTS" "i \<in> set (held m h)"
  shows "distinct (held m h) \<and> running_hart (m_tcb m i) = Some (of_nat h) \<and> {h'. h' < MAX_HARTS \<and> i \<in> set (held m h')} = {h}"
proof -
  have ok: "h' < MAX_HARTS \<Longrightarrow> hart_held_ok m h'" for h' using reachable_ok [OF assms(1)] by (simp add: mach_ok_def)
  have on: "on_hart (m_tcb m i) h" using ok [OF assms(2)] assms(3) by (simp add: hart_held_ok_def)
  then obtain b where b: "t_on_cpu (m_tcb m i) = marked h b" by (auto simp: on_hart_def)
  have "running_hart (m_tcb m i) = Some (of_nat h)"
    using marked_bits(1,4) [OF assms(2), of b] b by (simp add: running_hart_def marked_def)
  moreover have "h' = h" if "h' < MAX_HARTS" "i \<in> set (held m h')" for h'
    using ok [OF that(1)] that(2) on_hart_unique [OF _ on that(1) assms(2)] by (simp add: hart_held_ok_def)
  moreover have "distinct (held m h)" using ok [OF assms(2)] by (simp add: hart_held_ok_def)
  ultimately show ?thesis using assms(2,3) by blast
qed

text \<open>What the fetch on hart 0 finds in the example.\<close>

lemma demo_fetch: "\<exists>m'. fetch_task demo_env demo_queued = Some (Some 7, m')"
proof -
  have h: "0 < MAX_HARTS" by (simp add: MAX_HARTS_def)
  obtain r s where f: "rq_fetch 0 (of_nat 1000) (m_sched demo_queued) = Some (r, s)"
    and c: "case r of
       None \<Rightarrow> \<forall>i. t_rq_hart (m_tcb demo_queued i) = Some 0 \<longrightarrow> runnable (m_tcb demo_queued i) \<longrightarrow>
         (\<exists>n<RT_PRIO_LEVELS. i \<in> set (rq_rt (sc_rq (m_sched demo_queued) 0) ! n))
     | Some c \<Rightarrow> picked 0 (m_sched demo_queued) s c"
    using fetch_spec [OF reachable_sched_ok [OF demo_queued_reachable] h refl, of "of_nat 1000"] by (auto split: option.splits)
  have "r = Some 7" using c demo_task by (auto simp: picked_def split: option.splits if_splits)
  then show ?thesis using f by (auto simp: fetch_task_def demo_env_def)
qed

lemma demo_running: "\<exists>m. reachable m \<and> 7 \<in> set (held m 0)"
proof -
  obtain m' where f: "fetch_task demo_env demo_queued = Some (Some 7, m')" using demo_fetch by blast
  let ?m = "the (idle_run_next demo_env demo_queued)"
  have run: "idle_run_next demo_env demo_queued = Some ?m" using f by (simp add: idle_run_next_def)
  have "held demo_queued 0 = []"
  proof -
    have "quiet (boot_machine (\<lambda>i. demo_new)) demo_queued"
      unfolding demo_queued_def by (rule add_task_quiet [OF prod.collapse [symmetric]])
    then show ?thesis by (simp add: quiet_def held_def boot_machine_def)
  qed
  then have idle: "sc_current (m_sched demo_queued) 0 = None" "m_pending_ready demo_queued 0 = None" "m_pending_blocked demo_queued 0 = None"
    by (auto simp: held_def opt_list_def split: option.splits)
  have "mach_step demo_queued ?m"
    by (rule mach_step.run_next [OF _ _ _ _ run]) (simp_all add: demo_env_def MAX_HARTS_def idle)
  then have "reachable ?m" using demo_queued_reachable reachable.step by blast
  moreover have "7 \<in> set (held ?m 0)" using f by (simp add: idle_run_next_def held_def Let_def demo_env_def)
  ultimately show ?thesis by blast
qed

theorem no_task_on_two_harts_witness:
  "\<exists>m. reachable m \<and> 7 \<in> set (held m 0) \<and> running_hart (m_tcb m 7) = Some 0 \<and> {h'. h' < MAX_HARTS \<and> 7 \<in> set (held m h')} = {0}"
proof -
  obtain m where m: "reachable m" "7 \<in> set (held m 0)" using demo_running by blast
  then show ?thesis using no_task_on_two_harts [OF m(1) _ m(2)] by (auto simp: MAX_HARTS_def)
qed

text \<open>C6: The run queues agree with the tasks when the operations on them do not interleave, each of adding,
  fetching and removing a task being one step. In every state after boot, a task then occurs once in all the
  queues when its flag \<open>in_ready_queue\<close> is set and nowhere otherwise, its entry is in the queue of the hart it
  names, and the lock-free counters of a hart are the lengths of its queues.\<close>

theorem run_queues_consistent:
  assumes "reachable m" "h < MAX_HARTS"
  shows "debug_count_task_refs i (m_sched m) = of_bool (t_in_ready (m_tcb m i)) \<and>
    entry_count (sc_rq (m_sched m) h) i = of_bool (t_rq_hart (m_tcb m i) = Some h) \<and>
    sc_fair_count (m_sched m) h = fair_len (sc_rq (m_sched m) h) \<and>
    map (sc_rt_count (m_sched m) h) [0..<RT_PRIO_LEVELS] = map length (rq_rt (sc_rq (m_sched m) h))"
proof -
  let ?s = "m_sched m"
  have ok: "sched_ok ?s" by (rule reachable_sched_ok [OF assms(1)])
  have hok: "h' < MAX_HARTS \<Longrightarrow> hart_ok_but {} ?s h'" for h' using ok by (simp add: sched_ok_def)
  have t: "tcb_ok (sc_tcb ?s i)" using ok by (simp add: sched_ok_def)
  have "debug_count_task_refs i ?s = (\<Sum>h'\<leftarrow>[0..<MAX_HARTS]. of_bool (t_rq_hart (sc_tcb ?s i) = Some h'))"
    unfolding debug_count_task_refs_def using hart_okD(4) [OF hok, of _ i] by (intro arg_cong [of _ _ sum_list] map_cong) auto
  also have "\<dots> = (\<Sum>h' = 0..<MAX_HARTS. of_bool (t_rq_hart (sc_tcb ?s i) = Some h'))" by (simp add: sum_list_distinct_conv_sum_set)
  also have "\<dots> = of_bool (t_in_ready (sc_tcb ?s i))"
  proof (cases "t_rq_hart (sc_tcb ?s i)")
    case None
    then show ?thesis using t by (simp add: tcb_ok_def)
  next
    case (Some h0)
    then have "h0 < MAX_HARTS" "t_in_ready (sc_tcb ?s i)" using t by (auto simp: tcb_ok_def)
    then show ?thesis using Some by (simp add: of_bool_def sum.delta)
  qed
  finally show ?thesis using hart_okD [OF hok [OF assms(2)]] rq_ok_butD(1) [OF hart_okD(1) [OF hok [OF assms(2)]]]
    by (auto intro!: nth_equalityI)
qed

theorem run_queues_consistent_witness:
  "reachable demo_queued \<and> debug_count_task_refs 7 (m_sched demo_queued) = 1 \<and> entry_count (sc_rq (m_sched demo_queued) 0) 7 = 1"
proof -
  have "t_in_ready (m_tcb demo_queued 7)"
    using reachable_sched_ok [OF demo_queued_reachable] demo_task(1) [of 7] by (simp add: sched_ok_def tcb_ok_def)
  then show ?thesis using run_queues_consistent [OF demo_queued_reachable, of 0 7] demo_queued_reachable demo_task(1) [of 7] by (simp add: MAX_HARTS_def)
qed

text \<open>C7: Fetching ends and takes the best task. In every state after boot, \<open>fetch_task\<close> returns. A task it returns was
  queued on this hart, ready and off the CPU, is now off the queue and on this CPU; unless the real-time
  class is throttled, it is in the highest non-empty priority that has a task that may run, fair tasks
  coming last. If it returns none, the only tasks of this hart that may run are real-time tasks, and
  their class is throttled.\<close>

theorem fetch_takes_best:
  assumes "reachable m" "env_hart E < MAX_HARTS" "h = env_hart E" "throttled = fst (throttled_on E h m)"
    "rt = (\<lambda>n. set (rq_rt (sc_rq (m_sched m) h) ! n))"
  shows "\<exists>r m'. fetch_task E m = Some (r, m') \<and>
    (case r of
       None \<Rightarrow> {i. t_rq_hart (m_tcb m i) = Some h \<and> runnable (m_tcb m i)} \<subseteq> (if throttled then \<Union> (rt ` {..<RT_PRIO_LEVELS}) else {})
     | Some c \<Rightarrow> t_rq_hart (m_tcb m c) = Some h \<and> runnable (m_tcb m c) \<and> t_rq_hart (m_tcb m' c) = None \<and>
         running_hart (m_tcb m' c) = Some (of_nat h) \<and>
         (throttled \<or> (\<forall>n<RT_PRIO_LEVELS. \<forall>i\<in>rt n. runnable (m_tcb m i) \<longrightarrow> c \<in> \<Union> (rt ` {..n}))))"
proof -
  have th: "throttled = fst (rt_bandwidth_throttled h (of_nat (env_now E)) (m_sched m))"
    using assms(4) by (simp add: throttled_on_def split: prod.splits)
  have h: "h < MAX_HARTS" using assms by simp
  obtain r s where f: "rq_fetch h (of_nat (env_now E)) (m_sched m) = Some (r, s)"
    and c: "case r of
       None \<Rightarrow> \<forall>i. t_rq_hart (m_tcb m i) = Some h \<longrightarrow> runnable (m_tcb m i) \<longrightarrow> throttled \<and> (\<exists>n<RT_PRIO_LEVELS. i \<in> rt n)
     | Some c \<Rightarrow> picked h (m_sched m) s c \<and> (throttled \<or> (\<forall>n<RT_PRIO_LEVELS. \<forall>i\<in>rt n. runnable (m_tcb m i) \<longrightarrow> (\<exists>k\<le>n. c \<in> rt k)))"
    using fetch_spec [OF reachable_sched_ok [OF assms(1)] h th] unfolding assms(5) by blast
  have run: "fetch_task E m = Some (r, m\<lparr>m_sched := s\<rparr>)" using f assms(3) by (simp add: fetch_task_def)
  have on: "running_hart t = Some (of_nat h)" if "t_on_cpu t = of_nat h" for t
    using marked_bits(1,4) [OF h, of False] that by (simp add: running_hart_def marked_def)
  show ?thesis
  proof (cases r)
    case None
    then show ?thesis using run c by auto
  next
    case (Some i)
    then show ?thesis using run c on by (auto simp: picked_def)
  qed
qed

theorem fetch_takes_best_witness:
  "reachable demo_queued \<and>
   (\<exists>m'. fetch_task demo_env demo_queued = Some (Some 7, m') \<and> t_rq_hart (m_tcb m' 7) = None \<and> running_hart (m_tcb m' 7) = Some 0)"
proof -
  have h: "env_hart demo_env < MAX_HARTS" by (simp add: demo_env_def MAX_HARTS_def)
  have "env_hart demo_env = 0" by (simp add: demo_env_def)
  then show ?thesis using fetch_takes_best [OF demo_queued_reachable h refl refl refl] demo_fetch demo_queued_reachable by auto
qed

text \<open>A group's choice is one of its tasks.\<close>

lemma peek_member: "peek_scan g live e fb xs = Some i \<Longrightarrow> (\<forall>v j. fb = Some (v, j) \<longrightarrow> btm_get (fg_tasks g) j \<noteq> None) \<Longrightarrow> btm_get (fg_tasks g) i \<noteq> None"
  by (induction g live e fb xs rule: peek_scan.induct) (auto split: option.splits if_splits)

lemma next_choice_member:
  "next_choice s h xs = Some (k, i) \<Longrightarrow> \<exists>g. btm_get (rq_groups (sc_rq s h)) k = Some g \<and> btm_get (fg_tasks g) i \<noteq> None"
  by (induction s h xs rule: next_choice.induct)
    (auto simp: peek_fair_group_task_def split: option.splits if_splits dest!: peek_member)

text \<open>C18: The look-ahead of wake-up preemption agrees with the choice. When no ready task in the queue is on a CPU and a
  task's entry is in the group its control block names, \<open>fair_task_is_next_on_hart\<close> holds for the task
  exactly when taking the next fair task of the hart returns it.\<close>

theorem fair_next_foretold:
  assumes "reachable m" "h < MAX_HARTS" "s = m_sched m" "Collect (live_on s h) \<subseteq> {i. t_on_cpu (sc_tcb s i) = OFF_CPU}"
    "{k. \<exists>g. btm_get (rq_groups (sc_rq s h)) k = Some g \<and> btm_get (fg_tasks g) i \<noteq> None} \<subseteq> {t_group (sc_tcb s i)}"
  shows "fair_task_is_next_on_hart i h s \<longleftrightarrow> (\<exists>s'. pop_ready_fair_candidate h s = Some (Some i, s'))"
proof -
  have ok: "sched_ok s" using reachable_sched_ok [OF assms(1)] assms(3) by simp
  obtain r s' where p: "pop_ready_fair_candidate h s = Some (r, s')" "fair_result h s r s'"
    using pop_ready_fair_candidate_ok [OF ok assms(2)] by blast
  have r: "r = map_option snd (next_choice s h (rq_order (sc_rq s h)))" using p(2) assms(4) by (auto simp: fair_result_def)
  have "fair_task_is_next_on_hart i h s \<longleftrightarrow> next_choice s h (rq_order (sc_rq s h)) = Some (t_group (sc_tcb s i), i)"
    using assms(2) by (simp add: fair_task_is_next_on_hart_def next_scan_choice)
  also have "\<dots> \<longleftrightarrow> r = Some i"
    using r next_choice_member [of s h "rq_order (sc_rq s h)" _ i] assms(5) by (cases "next_choice s h (rq_order (sc_rq s h))") auto
  finally show ?thesis using p(1) by auto
qed

theorem fair_next_foretold_witness:
  "reachable demo_queued \<and> fair_task_is_next_on_hart 7 0 (m_sched demo_queued) \<and>
   (\<exists>s'. pop_ready_fair_candidate 0 (m_sched demo_queued) = Some (Some 7, s'))"
proof -
  let ?s = "m_sched demo_queued"
  have h: "0 < MAX_HARTS" by (simp add: MAX_HARTS_def)
  have ok: "sched_ok ?s" by (rule reachable_sched_ok [OF demo_queued_reachable])
  have live: "Collect (live_on ?s 0) \<subseteq> {i. t_on_cpu (sc_tcb ?s i) = OFF_CPU}"
    using demo_task(1,2) by (auto simp: live_on_def runnable_def split: if_splits)
  have "btm_get (rq_groups (sc_rq ?s 0)) k = Some g \<Longrightarrow> k = t_group (m_tcb demo_queued 7)" for k g
    using btm_get_in_set [of "rq_groups (sc_rq ?s 0)" k g] demo_task(4) by (metis (no_types) empty_iff empty_set fst_conv image_eqI list.set_map list.simps(15) singletonD)
  then have grp: "{k. \<exists>g. btm_get (rq_groups (sc_rq ?s 0)) k = Some g \<and> btm_get (fg_tasks g) 7 \<noteq> None} \<subseteq> {t_group (sc_tcb ?s 7)}" by blast
  obtain r s' where p: "pop_ready_fair_candidate 0 ?s = Some (r, s')" "fair_result 0 ?s r s'"
    using pop_ready_fair_candidate_ok [OF ok h] by blast
  have "r \<noteq> None"
  proof
    assume r: "r = None"
    then have "sc_tcb s' 7 = sc_tcb ?s 7" using p(2) drops_kept [of 0 ?s s' 7] demo_task(1) [of 7] demo_task(2) by (simp add: fair_result_def)
    then show False using no_group_entry [of s' 0 7] p(2) r h demo_task(1) [of 7] demo_task(3) by (auto simp: fair_result_def)
  qed
  then obtain c where c: "r = Some c" by blast
  then have "picked 0 ?s s' c" using p(2) by (simp add: fair_result_def)
  then have "r = Some 7" using c demo_task(1) [of c] by (simp add: picked_def split: if_splits)
  then show ?thesis using fair_next_foretold [OF demo_queued_reachable h refl live grp] p(1) demo_queued_reachable by blast
qed

section \<open>Where a task is put\<close>

lemma added_cpu_id: "added i h (set_tcb i ((sc_tcb s i)\<lparr>t_cpu_id := c\<rparr>) s) s' \<Longrightarrow> added i h s s'"
proof -
  let ?t = "(sc_tcb s i)\<lparr>t_cpu_id := c\<rparr>"
  have "task_queue_slot ?t = task_queue_slot (sc_tcb s i)" by (rule same_task_slot) (simp add: same_task_def)
  then show "added i h (set_tcb i ?t s) s' \<Longrightarrow> added i h s s'" by (auto simp: added_def same_task_def)
qed

text \<open>The hart that \<open>enqueue_task_with_wakeup_flags\<close> chooses.\<close>

definition placement :: "env \<Rightarrow> task_id \<Rightarrow> enqueue_kind \<Rightarrow> nat option \<Rightarrow> machine \<Rightarrow> nat \<times> tcb" where
  "placement E i kind sync m =
     (let sync' = (case sync of Some h \<Rightarrow> if h < MAX_HARTS then Some h else None | None \<Rightarrow> None)
      in if kind = Enqueue_wakeup
         then (case sync' of
                 Some src \<Rightarrow> resolve_sync_wakeup_hart E m src (online_hart_mask E m) (m_tcb m i)
               | None \<Rightarrow> resolve_wakeup_hart E m (local_hart E) (online_hart_mask E m) (m_tcb m i))
         else resolve_enqueue_hart E m (local_hart E) (online_hart_mask E m) kind (m_tcb m i))"

lemma placement_chosen: "queues_bounded m \<Longrightarrow> chosen E m (m_tcb m i) (placement E i kind sync m)"
  using resolve_enqueue_hart_ok resolve_wakeup_hart_ok resolve_sync_wakeup_hart_ok
  by (auto simp: placement_def Let_def split: option.split)

lemma enqueue_result:
  assumes "queues_bounded m" "t_rq_hart (m_tcb m i) = None" "h = fst (placement E i kind sync m)"
  shows "\<exists>s'. enqueue_task_with_wakeup_flags E i kind sync m = (Some (h, rq_len (sc_rq (m_sched m) h) = 0), m\<lparr>m_sched := s'\<rparr>) \<and>
    added i h (m_sched m) s'"
proof -
  obtain t where p: "placement E i kind sync m = (h, t)" using assms(3) by (metis prod.collapse)
  obtain c where t: "t = (m_tcb m i)\<lparr>t_cpu_id := c\<rparr>" using placement_chosen [OF assms(1), of E i kind sync] p by (auto simp: chosen_def)
  let ?s = "set_tcb i t (m_sched m)"
  have "t_rq_hart (sc_tcb ?s i) = None" using assms(2) t by simp
  from rq_add_added [OF this, of h kind "env_busy E h" "env_now E"] obtain s'
    where a: "rq_add i h kind (env_busy E h) (env_now E) ?s = (Some (rq_len (sc_rq ?s h) = 0), s')" "added i h ?s s'" by blast
  have "enqueue_task_with_wakeup_flags E i kind sync m = (Some (h, rq_len (sc_rq (m_sched m) h) = 0), m\<lparr>m_sched := s'\<rparr>)"
    using p a(1) unfolding enqueue_task_with_wakeup_flags_def placement_def Let_def by simp
  then show ?thesis using a(2) added_cpu_id t by blast
qed



lemma demo_booted:
  "reachable (boot_machine (\<lambda>i. demo_new))" "online_hart_mask demo_env (boot_machine (\<lambda>i. t)) = 1"
  "queues_bounded (boot_machine tasks)"
proof -
  show "reachable (boot_machine (\<lambda>i. demo_new))"
    by (rule reachable.boot) (simp add: fresh_tcb_def demo_new_def demo_tcb_def)
  show "online_hart_mask demo_env (boot_machine (\<lambda>i. t)) = 1"
    by (simp add: online_hart_mask_def demo_env_def boot_machine_def trailing_zeros_def upt_conv_Cons)
  show "queues_bounded (boot_machine tasks)"
    by (simp add: queues_bounded_def boot_machine_def rq_len_def fair_len_def rq_new_def sum_list_replicate)
qed


section \<open>Interrupts sent by a wake-up\<close>

lemma fold_send_ipi: "fold send_ipi hs m = m\<lparr>m_ipis := m_ipis m @ hs\<rparr>"
  by (induction hs arbitrary: m) (simp_all add: send_ipi_def)

lemma fold_need_resched: "fold set_need_resched hs m = m\<lparr>m_need_resched := (\<lambda>h. h \<in> set hs \<or> m_need_resched m h)\<rparr>"
  by (induction hs arbitrary: m) (auto simp: set_need_resched_def fun_eq_iff)

lemma flush_effect:
  assumes "m' = flush E (m, b)"
  shows "m_sched m' = m_sched m" "\<exists>hs. m_ipis m' = m_ipis m @ hs \<and>
      (\<forall>h<MAX_HARTS. h \<noteq> local_hart E \<and> bit (online_hart_mask E m) h \<and> (bit (resched_mask b) h \<or> bit (kick_mask b) h) \<longrightarrow> h \<in> set hs)"
    "h < MAX_HARTS \<Longrightarrow> bit (online_hart_mask E m) h \<Longrightarrow> bit (resched_mask b) h \<Longrightarrow> m_need_resched m' h"
proof -
  define harts where "harts = filter (\<lambda>h. (resched_mask b AND online_hart_mask E m) AND push_bit h 1 \<noteq> 0) [0..<MAX_HARTS]"
  define kicked where "kicked = filter (\<lambda>h. h \<noteq> local_hart E \<and> (kick_mask b AND NOT (resched_mask b)) AND hart_bit h \<noteq> 0) [0..<MAX_HARTS]"
  have m': "m' = m\<lparr>m_need_resched := (\<lambda>h. h \<in> set harts \<or> m_need_resched m h), m_ipis := m_ipis m @ filter (\<lambda>h. h \<noteq> local_hart E) harts @ kicked\<rparr>"
    unfolding assms flush_def request_reschedule_harts_def Let_def prod.case harts_def [symmetric] kicked_def [symmetric] fold_send_ipi fold_need_resched
    by simp
  have h: "h \<in> set harts \<longleftrightarrow> h < MAX_HARTS \<and> bit (resched_mask b) h \<and> bit (online_hart_mask E m) h" for h
    by (auto simp: harts_def and_bit bit_simps)
  have k: "h \<in> set kicked \<longleftrightarrow> h < MAX_HARTS \<and> h \<noteq> local_hart E \<and> bit (kick_mask b) h \<and> \<not> bit (resched_mask b) h" for h
    using and_hart_bit [of h "kick_mask b AND NOT (resched_mask b)"] by (auto simp: kicked_def bit_simps MAX_HARTS_def)
  show "m_sched m' = m_sched m" by (simp add: m')
  show "\<exists>hs. m_ipis m' = m_ipis m @ hs \<and>
      (\<forall>h<MAX_HARTS. h \<noteq> local_hart E \<and> bit (online_hart_mask E m) h \<and> (bit (resched_mask b) h \<or> bit (kick_mask b) h) \<longrightarrow> h \<in> set hs)"
    using h k by (intro exI [of _ "filter (\<lambda>h. h \<noteq> local_hart E) harts @ kicked"]) (auto simp: m')
  show "h < MAX_HARTS \<Longrightarrow> bit (online_hart_mask E m) h \<Longrightarrow> bit (resched_mask b) h \<Longrightarrow> m_need_resched m' h"
    using h by (simp add: m')
qed

text \<open>\<open>outranks E i h m\<close>: task \<open>i\<close> is a real-time task whose class is not throttled on hart \<open>h\<close>, and the hart runs no
  task of that priority or a higher one.\<close>

definition outranks :: "env \<Rightarrow> task_id \<Rightarrow> nat \<Rightarrow> machine \<Rightarrow> bool" where
  "outranks E i h m \<longleftrightarrow> task_queue_slot (m_tcb m i) \<noteq> Slot_fair \<and> \<not> fst (throttled_on E h m) \<and>
     (case sc_current (m_sched m) h of
        None \<Rightarrow> True
      | Some c \<Rightarrow> task_queue_slot (m_tcb m c) = Slot_fair \<or> t_priority (m_tcb m c) < t_priority (m_tcb m i))"

lemma slot_class: "task_queue_slot t = Slot_fair \<longleftrightarrow> fst (task_sched_class_and_priority t) = Sched_fair"
  by (simp add: task_queue_slot_def task_sched_class_and_priority_def split: option.split sched_class.split)

lemma preempt_outranks:
  assumes "outranks E i h m" "h < MAX_HARTS" "env_hart E < MAX_HARTS" "sc_current (m_sched m) h \<noteq> Some i"
  shows "fst (wakeup_should_preempt_target_hart E i h m)"
proof -
  obtain s where t: "throttled_on E h m = (False, m\<lparr>m_sched := s\<rparr>)" "sc_tcb s = sc_tcb (m_sched m)" "sc_current s = sc_current (m_sched m)"
    using assms(1) by (auto simp: outranks_def throttled_on_def rt_bandwidth_throttled_def split: prod.splits)
  have rt: "fst (task_sched_class_and_priority (m_tcb m i)) \<noteq> Sched_fair" using assms(1) by (simp add: outranks_def slot_class)
  have p: "snd (task_sched_class_and_priority t) = t_priority t" for t by (simp add: task_sched_class_and_priority_def)
  have l: "local_hart E = env_hart E" using assms(3) by (simp add: local_hart_def)
  show ?thesis
  proof (cases "sc_current (m_sched m) h")
    case None
    then show ?thesis using t rt assms(2) l
      by (auto simp: wakeup_should_preempt_target_hart_def wakeup_should_preempt_current_def wakeup_should_preempt_hart_def current_task_on_hart_def)
  next
    case (Some c)
    have "wakeup_should_preempt_task E c i h (m\<lparr>m_sched := s\<rparr>)"
      using assms(1,4) Some rt t by (auto simp: wakeup_should_preempt_task_def outranks_def slot_class p split_beta Let_def)
    then show ?thesis using t rt Some assms(2) l
      by (auto simp: wakeup_should_preempt_target_hart_def wakeup_should_preempt_current_def wakeup_should_preempt_hart_def current_task_on_hart_def)
  qed
qed

lemma preempt_sel: "wakeup_should_preempt_target_hart E i h m = (b, m') \<Longrightarrow>
    \<exists>bw. m' = m\<lparr>m_sched := (m_sched m)\<lparr>sc_bw := bw\<rparr>\<rparr>"
proof -
  have "\<exists>bw. m = m\<lparr>m_sched := (m_sched m)\<lparr>sc_bw := bw\<rparr>\<rparr>" by (rule exI [of _ "sc_bw (m_sched m)"]) simp
  then show "wakeup_should_preempt_target_hart E i h m = (b, m') \<Longrightarrow> ?thesis"
    by (auto simp: wakeup_should_preempt_target_hart_def throttled_on_def rt_bandwidth_throttled_def Let_def split: if_splits prod.splits)
qed

lemma outranks_cong:
  assumes "sc_current (m_sched m') = sc_current (m_sched m)" "sc_bw (m_sched m') = sc_bw (m_sched m)" "sc_sysctl (m_sched m') = sc_sysctl (m_sched m)"
    "\<And>j. t_policy (m_tcb m' j) = t_policy (m_tcb m j)" "\<And>j. t_priority (m_tcb m' j) = t_priority (m_tcb m j)"
  shows "outranks E i h m' \<longleftrightarrow> outranks E i h m"
proof -
  have "task_queue_slot (m_tcb m' j) = task_queue_slot (m_tcb m j)" for j
    unfolding task_queue_slot_def by (simp add: assms(4,5) cong: option.case_cong sched_class.case_cong)
  then show ?thesis using assms
    by (simp add: outranks_def throttled_on_def rt_bandwidth_throttled_def Let_def split_beta split: option.split)
qed

lemma choosable_online:
  assumes "usable E m" "choosable (allowed_hart_mask_for_task t (online_hart_mask E m)) E m h"
  shows "h < MAX_HARTS" "bit (online_hart_mask E m) h"
proof -
  have "bit (allowed_hart_mask_for_task t (online_hart_mask E m)) h \<Longrightarrow> bit (online_hart_mask E m) h"
    by (auto simp: allowed_hart_mask_for_task_def Let_def bit_simps split: if_splits)
  then show "h < MAX_HARTS" "bit (online_hart_mask E m) h" using assms by (auto simp: choosable_def split: if_splits)
qed

text \<open>A wake-up of a sleeping task up to the flush of the batch: the task is queued on hart \<open>h\<close>.\<close>

lemma wakeup_inner_queued:
  assumes b: "queues_bounded m" and u: "usable E m"
    and t: "t_res (m_tcb m i)" "t_status (m_tcb m i) = Blocked" "\<not> t_frozen (m_tcb m i)" "t_on_cpu (m_tcb m i) = OFF_CPU" "t_rq_hart (m_tcb m i) = None"
  shows "\<exists>h m2. h < MAX_HARTS \<and> bit (online_hart_mask E m) h \<and>
    wakeup_task_with_batch_inner E i True None (m, batch_new) = note_enqueued E i h (rq_len (sc_rq (m_sched m) h) = 0) (m2, batch_new) \<and>
    (\<exists>s u. m2 = m\<lparr>m_sched := s\<rparr> \<and> sc_tcb s = (sc_tcb (m_sched m))(i := u) \<and> t_rq_hart u = Some h \<and> t_status u = Ready \<and>
      t_policy u = t_policy (m_tcb m i) \<and> t_priority u = t_priority (m_tcb m i) \<and> sc_current s = sc_current (m_sched m) \<and>
      sc_bw s = sc_bw (m_sched m) \<and> sc_sysctl s = sc_sysctl (m_sched m))"
proof -
  let ?t = "m_tcb m i"
  define t1 where "t1 = ?t\<lparr>t_sync_hart := OFF_CPU\<rparr>"
  define sync where "sync = (if unat (t_sync_hart ?t) < MAX_HARTS then Some (unat (t_sync_hart ?t)) else None)"
  define t2 where "t2 = t1\<lparr>t_status := Ready, t_parked := False, t_thaw_wake := False\<rparr>"
  define m1 where "m1 = upd_tcb i t2 (upd_tcb i t1 m)"
  define h where "h = fst (placement E i Enqueue_wakeup sync m1)"
  have d: "defer_wakeup_if_on_cpu None ?t = (False, ?t)" using t(4) by (simp add: defer_wakeup_if_on_cpu_def)
  have sel: "online_hart_mask E m1 = online_hart_mask E m" "usable E m1" "queues_bounded m1" "m_tcb m1 i = t2" "sc_rq (m_sched m1) = sc_rq (m_sched m)"
    "sc_current (m_sched m1) = sc_current (m_sched m)" "sc_bw (m_sched m1) = sc_bw (m_sched m)" "sc_sysctl (m_sched m1) = sc_sysctl (m_sched m)"
    "sc_tcb (m_sched m1) = (sc_tcb (m_sched m))(i := t2)" "m1\<lparr>m_sched := s\<rparr> = m\<lparr>m_sched := s\<rparr>" for s
    using b u by (simp_all add: m1_def upd_tcb_def online_hart_mask_def usable_def queues_bounded_def)
  have q: "t_rq_hart (m_tcb m1 i) = None" using t(5) by (simp add: sel t2_def t1_def)
  obtain s' where e: "enqueue_task_with_wakeup_flags E i Enqueue_wakeup sync m1 = (Some (h, rq_len (sc_rq (m_sched m1) h) = 0), m1\<lparr>m_sched := s'\<rparr>)"
    "added i h (m_sched m1) s'" using enqueue_result [OF sel(3) q h_def] by blast
  have "choosable (allowed_hart_mask_for_task t2 (online_hart_mask E m1)) E m1 h"
    using placement_chosen [OF sel(3), of E i Enqueue_wakeup sync] by (simp add: chosen_def h_def sel(4))
  from choosable_online [OF sel(2) this] have h: "h < MAX_HARTS" "bit (online_hart_mask E m) h" unfolding sel(1) by blast+
  have run: "wakeup_task_with_batch_inner E i True None (m, batch_new) =
      note_enqueued E i h (rq_len (sc_rq (m_sched m) h) = 0) (m\<lparr>m_sched := s'\<rparr>, batch_new)"
    using d e(1) t(1-3)
    by (simp add: wakeup_task_with_batch_inner_def wake_if_blocked_def take_pending_sync_hart_def sync_def [symmetric] t1_def [symmetric] Let_def)
      (simp add: m1_def t2_def t1_def upd_tcb_def sel)
  obtain u where u: "sc_tcb s' = (sc_tcb (m_sched m1))(i := u)" "same_task t2 u" "t_rq_hart u = Some h" using e(2) by (auto simp: added_def sel(4))
  have "sc_current s' = sc_current (m_sched m)" "sc_bw s' = sc_bw (m_sched m)" "sc_sysctl s' = sc_sysctl (m_sched m)"
    using e(2) sel by (simp_all add: added_def)
  moreover have "sc_tcb s' = (sc_tcb (m_sched m))(i := u)" using u(1) sel(9) by simp
  ultimately show ?thesis using h run u(2,3) by (intro exI [of _ h] exI [of _ "m\<lparr>m_sched := s'\<rparr>"]) (auto simp: same_task_def t2_def t1_def)
qed

text \<open>C14: A wake-up reaches the hart. Waking a task that sleeps off the CPU queues it as ready on a hart that is up. If
  that hart is another one with an empty queue, it is sent an interrupt, so that it does not stay in its
  wait for interrupts. If the task outranks what the hart runs, the hart is told to reschedule, with
  an interrupt unless it is the hart of the caller.\<close>

theorem wakeup_reaches_hart:
  assumes "reachable m" "env_hart E < MAX_HARTS" "queues_bounded m" "usable E m" "t = m_tcb m i"
    "t_res t" "t_status t = Blocked" "\<not> t_frozen t" "t_on_cpu t = OFF_CPU" "t_rq_hart t = None" "m' = wakeup_task E i m"
  shows "\<exists>h ipis. h < MAX_HARTS \<and> bit (online_hart_mask E m) h \<and> t_rq_hart (m_tcb m' i) = Some h \<and> t_status (m_tcb m' i) = Ready \<and>
    m_ipis m' = m_ipis m @ ipis \<and> (h \<noteq> env_hart E \<and> rq_len (sc_rq (m_sched m) h) = 0 \<longrightarrow> h \<in> set ipis) \<and>
    (outranks E i h m \<longrightarrow> m_need_resched m' h \<and> (h = env_hart E \<or> h \<in> set ipis))"
proof -
  have l: "local_hart E = env_hart E" using assms(2) by (simp add: local_hart_def)
  obtain h s u where h: "h < MAX_HARTS" "bit (online_hart_mask E m) h"
    and run: "wakeup_task_with_batch_inner E i True None (m, batch_new) = note_enqueued E i h (rq_len (sc_rq (m_sched m) h) = 0) (m\<lparr>m_sched := s\<rparr>, batch_new)"
    and s: "sc_tcb s = (sc_tcb (m_sched m))(i := u)" "t_rq_hart u = Some h" "t_status u = Ready" "t_policy u = t_policy t" "t_priority u = t_priority t"
      "sc_current s = sc_current (m_sched m)" "sc_bw s = sc_bw (m_sched m)" "sc_sysctl s = sc_sysctl (m_sched m)"
    using wakeup_inner_queued [OF assms(3,4), of i] assms(5-10) by auto
  let ?m2 = "m\<lparr>m_sched := s\<rparr>"
  obtain p m3 where p: "wakeup_should_preempt_target_hart E i h ?m2 = (p, m3)" by fastforce
  obtain bw where m3: "m3 = ?m2\<lparr>m_sched := s\<lparr>sc_bw := bw\<rparr>\<rparr>" using preempt_sel [OF p] by auto
  define b where "b = (let b1 = note_idle_kick E h (rq_len (sc_rq (m_sched m) h) = 0) batch_new
    in if p then b1\<lparr>resched_mask := resched_mask b1 OR hart_bit h\<rparr> else b1)"
  have m': "m' = flush E (m3, b)" using assms(11) run p by (simp add: wakeup_task_def note_enqueued_def b_def Let_def)
  note fl = flush_effect [OF m']
  have on: "online_hart_mask E m3 = online_hart_mask E m" by (simp add: m3 online_hart_mask_def)
  have bits: "bit (hart_bit h) h" using h(1) by (simp add: hart_bit_def MAX_HARTS_def bit_simps)
  have kick: "h \<noteq> env_hart E \<Longrightarrow> rq_len (sc_rq (m_sched m) h) = 0 \<Longrightarrow> bit (kick_mask b) h"
    using bits l by (simp add: b_def note_idle_kick_def bit_simps Let_def)
  have pre: "p \<Longrightarrow> bit (resched_mask b) h" using bits by (simp add: b_def bit_simps Let_def)
  have ranks: "p" if "outranks E i h m"
  proof -
    have "outranks E i h ?m2 \<longleftrightarrow> outranks E i h m" using s assms(5) by (intro outranks_cong) auto
    moreover have "sc_current (m_sched m) h \<noteq> Some i"
    proof
      assume "sc_current (m_sched m) h = Some i"
      then have "i \<in> set (held m h)" by (simp add: held_def)
      then have "on_hart (m_tcb m i) h" using reachable_ok [OF assms(1)] h(1) by (simp add: mach_ok_def hart_held_ok_def)
      then show False using not_on_hart [OF _ h(1), of "m_tcb m i"] assms(5,9) by simp
    qed
    ultimately show ?thesis using preempt_outranks [of E i h ?m2] that h(1) assms(2) s(6) p by simp
  qed
  obtain ipis where ipis: "m_ipis m' = m_ipis m3 @ ipis"
    "h \<noteq> local_hart E \<Longrightarrow> bit (resched_mask b) h \<or> bit (kick_mask b) h \<Longrightarrow> h \<in> set ipis" using fl(2) h on by auto
  have "m_need_resched m' h" if "outranks E i h m" using fl(3) h on pre [OF ranks [OF that]] by simp
  moreover have "t_rq_hart (m_tcb m' i) = Some h \<and> t_status (m_tcb m' i) = Ready" using fl(1) s by (simp add: m3)
  moreover have "m_ipis m3 = m_ipis m" by (simp add: m3)
  ultimately show ?thesis using h ipis kick pre ranks l by (intro exI [of _ h] exI [of _ ipis]) auto
qed

text \<open>A task sleeps right after boot and is woken.\<close>

definition demo_sleeper :: tcb where
  "demo_sleeper = demo_new\<lparr>t_status := Blocked\<rparr>"

theorem wakeup_reaches_hart_witness:
  "\<exists>m'. m' = wakeup_task demo_env 5 (boot_machine (\<lambda>i. demo_sleeper)) \<and> reachable (boot_machine (\<lambda>i. demo_sleeper)) \<and>
     t_rq_hart (m_tcb m' 5) = Some 0 \<and> t_status (m_tcb m' 5) = Ready"
proof -
  let ?m = "boot_machine (\<lambda>i. demo_sleeper)"
  have r: "reachable ?m" by (rule reachable.boot) (simp add: fresh_tcb_def demo_sleeper_def demo_new_def demo_tcb_def)
  have u: "usable demo_env ?m" unfolding usable_def demo_booted(2) by (rule exI [of _ 0]) (simp add: MAX_HARTS_def)
  have bit: "bit (1 :: usize) h \<longleftrightarrow> h = 0" for h by (auto simp: bit_1_iff)
  have t: "m_tcb ?m 5 = demo_sleeper" by (simp add: boot_machine_def)
  have e: "env_hart demo_env < MAX_HARTS" by (simp add: demo_env_def MAX_HARTS_def)
  from wakeup_reaches_hart [OF r e demo_booted(3) u refl _ _ _ _ _ refl, of 5] show ?thesis
    using r unfolding t demo_booted(2) bit by (auto simp: demo_sleeper_def demo_new_def demo_tcb_def)
qed

end
