(* ===== verification/Queue_Claims.thy ===== *)
theory Queue_Claims
  imports Task_Wakeup
begin

text \<open>
  The claim on a run queue, instruction by instruction. \<open>TaskManager::add\<close>, \<open>remove\<close> and \<open>fetch\<close>
  (\<open>src/src/task/manager/run_queue.rs\<close>) and \<open>refresh_task_runqueue\<close> (\<open>src/src/task/manager.rs\<close>) change the
  words \<open>ready_queue_hart\<close> and \<open>in_ready_queue\<close> of a task partly outside the lock of a queue. The theories of
  the run queues take each of these operations as one step; this theory follows one task while any number of
  threads are inside the operations, with every atomic access and every acquisition of a lock a step of its
  own.

  \<open>qm_entries\<close> counts the entries of the task in the queue of every hart. The parameter \<open>rt\<close> tells whether the
  task is in the real-time class, whose queues can hold an entry twice, or in the fair class, whose map of
  entities holds it once and whose scan looks at the claim before it takes an entry. With \<open>adds\<close> the rest of
  the kernel may queue the task and change its other fields; with \<open>withdraws\<close> it may call \<open>remove\<close> and
  \<open>refresh_task_runqueue\<close>.

  As long as no claim is withdrawn the claims are exact: a task is in one queue at most, the one that
  \<open>ready_queue_hart\<close> names. When claims are withdrawn while a hart fetches, a ready task can be lost.
\<close>

section \<open>The operations\<close>

record queue_mem =
  qm_tcb :: tcb
  qm_entries :: "nat \<Rightarrow> nat"
  qm_lock :: "nat \<Rightarrow> nat option"

text \<open>The next instruction of a thread. The number is the hart whose queue it works on; the flag of a removal
  tells whether it belongs to a refresh, and the number after a removal how many entries were removed.\<close>

datatype queue_pc = Q_idle
  | Q_add nat | Q_add_flag nat | Q_add_cpu nat | Q_add_lock nat | Q_add_check nat | Q_add_push nat
  | Q_refresh | Q_remove bool | Q_remove_lock bool nat | Q_remove_flag bool nat
  | Q_fetch nat | Q_fetch_pop nat | Q_fetch_cas nat | Q_fetch_flag nat bool | Q_fetch_mark nat

definition take_lock :: "nat \<Rightarrow> nat \<Rightarrow> queue_mem \<Rightarrow> queue_mem" where
  "take_lock a h m = m\<lparr>qm_lock := (qm_lock m)(h := Some a)\<rparr>"

definition drop_lock :: "nat \<Rightarrow> queue_mem \<Rightarrow> queue_mem" where
  "drop_lock h m = m\<lparr>qm_lock := (qm_lock m)(h := None)\<rparr>"

definition store_flag :: "bool \<Rightarrow> queue_mem \<Rightarrow> queue_mem" where
  "store_flag b m = m\<lparr>qm_tcb := (qm_tcb m)\<lparr>t_in_ready := b\<rparr>\<rparr>"

definition store_claim :: "nat option \<Rightarrow> queue_mem \<Rightarrow> queue_mem" where
  "store_claim h m = m\<lparr>qm_tcb := (qm_tcb m)\<lparr>t_rq_hart := h\<rparr>\<rparr>"

definition store_entries :: "nat \<Rightarrow> nat \<Rightarrow> queue_mem \<Rightarrow> queue_mem" where
  "store_entries h n m = m\<lparr>qm_entries := (qm_entries m)(h := n)\<rparr>"

text \<open>\<open>add\<close>: claim, set the flag and the hart, take the lock, check the claim again, insert.\<close>

fun add_turn :: "bool \<Rightarrow> nat \<Rightarrow> queue_pc \<Rightarrow> queue_mem \<Rightarrow> (queue_pc \<times> queue_mem) option" where
  "add_turn rt a (Q_add h) m =
     (if t_rq_hart (qm_tcb m) = None then Some (Q_add_flag h, store_claim (Some h) m) else Some (Q_idle, m))"
| "add_turn rt a (Q_add_flag h) m = Some (Q_add_cpu h, store_flag True m)"
| "add_turn rt a (Q_add_cpu h) m = Some (Q_add_lock h, m\<lparr>qm_tcb := (qm_tcb m)\<lparr>t_cpu_id := h\<rparr>\<rparr>)"
| "add_turn rt a (Q_add_lock h) m = (if qm_lock m h = None then Some (Q_add_check h, take_lock a h m) else None)"
| "add_turn rt a (Q_add_check h) m =
     (if t_rq_hart (qm_tcb m) \<noteq> Some h then Some (Q_idle, drop_lock h (store_flag False m)) else Some (Q_add_push h, m))"
| "add_turn rt a (Q_add_push h) m =
     Some (Q_idle, drop_lock h (store_entries h (if rt then Suc (qm_entries m h) else 1) m))"
| "add_turn rt a pc m = None"

text \<open>\<open>remove\<close>, and \<open>refresh_task_runqueue\<close> around it: the claim is withdrawn before the lock is taken. The
  hart \<open>target\<close> is the one \<open>resolve_enqueue_hart\<close> chooses.\<close>

fun remove_turn :: "nat \<Rightarrow> queue_pc \<Rightarrow> queue_mem \<Rightarrow> (queue_pc \<times> queue_mem) option" where
  "remove_turn target Q_refresh m = Some (if t_in_ready (qm_tcb m) then Q_remove True else Q_idle, m)"
| "remove_turn target (Q_remove refresh) m =
     Some (case t_rq_hart (qm_tcb m) of
         Some queued_hart \<Rightarrow> if queued_hart < MAX_HARTS then Q_remove_lock refresh queued_hart else Q_remove_flag refresh 0
       | None \<Rightarrow> Q_remove_flag refresh 0, store_claim None m)"
| "remove_turn target (Q_remove_lock refresh h) m =
     (if qm_lock m h = None then Some (Q_remove_flag refresh (qm_entries m h), store_entries h 0 m) else None)"
| "remove_turn target (Q_remove_flag refresh removed) m =
     Some (if refresh \<and> removed \<noteq> 0 then Q_add target else Q_idle, store_flag False m)"
| "remove_turn target pc m = None"

text \<open>\<open>fetch\<close>, as far as it meets the task: under the lock of the hart an entry is taken from the queue, the
  claim is released and the flag cleared; if the claim was there, and the task is ready and on no CPU, the
  hart keeps it, otherwise the entry is dropped and the search goes on.\<close>

fun fetch_turn :: "bool \<Rightarrow> nat \<Rightarrow> queue_pc \<Rightarrow> queue_mem \<Rightarrow> (queue_pc \<times> queue_mem) option" where
  "fetch_turn rt a (Q_fetch h) m = (if qm_lock m h = None then Some (Q_fetch_pop h, take_lock a h m) else None)"
| "fetch_turn rt a (Q_fetch_pop h) m =
     (if qm_entries m h = 0 then Some (Q_idle, drop_lock h m)
      else Some (if \<not> rt \<and> t_rq_hart (qm_tcb m) \<noteq> Some h then Q_fetch_flag h False else Q_fetch_cas h,
        store_entries h (qm_entries m h - 1) m))"
| "fetch_turn rt a (Q_fetch_cas h) m =
     (if t_rq_hart (qm_tcb m) = Some h then Some (Q_fetch_flag h True, store_claim None m) else Some (Q_fetch_flag h False, m))"
| "fetch_turn rt a (Q_fetch_flag h still_queued_here) m =
     Some (if still_queued_here then Q_fetch_mark h else Q_fetch_pop h, store_flag False m)"
| "fetch_turn rt a (Q_fetch_mark h) m =
     (if t_status (qm_tcb m) = Ready then
        (case try_mark_on_cpu h (qm_tcb m) of (took, t) \<Rightarrow>
           if took then Some (Q_idle, drop_lock h (m\<lparr>qm_tcb := t\<rparr>)) else Some (Q_fetch_pop h, m\<lparr>qm_tcb := t\<rparr>))
      else Some (Q_fetch_pop h, m))"
| "fetch_turn rt a pc m = None"

definition queue_turn :: "bool \<Rightarrow> nat \<Rightarrow> nat \<Rightarrow> queue_pc \<Rightarrow> queue_mem \<Rightarrow> (queue_pc \<times> queue_mem) option" where
  "queue_turn rt target a pc m =
     (case add_turn rt a pc m of
        Some r \<Rightarrow> Some r
      | None \<Rightarrow> (case remove_turn target pc m of Some r \<Rightarrow> Some r | None \<Rightarrow> fetch_turn rt a pc m))"

section \<open>Threads\<close>

record claim_sys =
  cs_mem :: queue_mem
  cs_pc :: "nat \<Rightarrow> queue_pc"

fun may_begin :: "bool \<Rightarrow> bool \<Rightarrow> queue_pc \<Rightarrow> bool" where
  "may_begin adds withdraws (Q_add h) = (adds \<and> h < MAX_HARTS)"
| "may_begin adds withdraws (Q_remove refresh) = (withdraws \<and> \<not> refresh)"
| "may_begin adds withdraws Q_refresh = withdraws"
| "may_begin adds withdraws (Q_fetch h) = (h < MAX_HARTS)"
| "may_begin adds withdraws pc = False"

inductive claim_step :: "bool \<Rightarrow> bool \<Rightarrow> bool \<Rightarrow> claim_sys \<Rightarrow> claim_sys \<Rightarrow> bool" for adds withdraws rt where
  start: "cs_pc S a = Q_idle \<Longrightarrow> may_begin adds withdraws pc \<Longrightarrow>
    claim_step adds withdraws rt S (S\<lparr>cs_pc := (cs_pc S)(a := pc)\<rparr>)"
| turn: "queue_turn rt target a (cs_pc S a) (cs_mem S) = Some (pc', m') \<Longrightarrow> target < MAX_HARTS \<Longrightarrow>
    claim_step adds withdraws rt S (S\<lparr>cs_mem := m', cs_pc := (cs_pc S)(a := pc')\<rparr>)"
| other: "adds \<Longrightarrow> t_rq_hart t = t_rq_hart (qm_tcb (cs_mem S)) \<Longrightarrow> t_in_ready t = t_in_ready (qm_tcb (cs_mem S)) \<Longrightarrow>
    claim_step adds withdraws rt S (S\<lparr>cs_mem := (cs_mem S)\<lparr>qm_tcb := t\<rparr>\<rparr>)"

abbreviation claim_reach :: "bool \<Rightarrow> bool \<Rightarrow> bool \<Rightarrow> claim_sys \<Rightarrow> claim_sys \<Rightarrow> bool" where
  "claim_reach adds withdraws rt \<equiv> (claim_step adds withdraws rt)\<^sup>*\<^sup>*"

text \<open>A task that is in no queue, and one that is in the queue of hart \<open>h\<close>; no operation is under way.\<close>

definition unqueued :: "claim_sys \<Rightarrow> bool" where
  "unqueued S \<longleftrightarrow> t_rq_hart (qm_tcb (cs_mem S)) = None \<and> qm_entries (cs_mem S) = (\<lambda>h. 0) \<and>
     qm_lock (cs_mem S) = (\<lambda>h. None) \<and> cs_pc S = (\<lambda>a. Q_idle)"

definition queued_on :: "nat \<Rightarrow> claim_sys \<Rightarrow> bool" where
  "queued_on h S \<longleftrightarrow> h < MAX_HARTS \<and> t_rq_hart (qm_tcb (cs_mem S)) = Some h \<and> t_in_ready (qm_tcb (cs_mem S)) \<and>
     t_status (qm_tcb (cs_mem S)) = Ready \<and> t_on_cpu (qm_tcb (cs_mem S)) = OFF_CPU \<and>
     qm_entries (cs_mem S) = (\<lambda>x. 0)(h := 1) \<and> qm_lock (cs_mem S) = (\<lambda>h. None) \<and> cs_pc S = (\<lambda>a. Q_idle)"

lemma mem_simps [simp]:
  "qm_tcb (take_lock a h m) = qm_tcb m" "qm_tcb (drop_lock h m) = qm_tcb m" "qm_tcb (store_entries h n m) = qm_tcb m"
  "qm_entries (take_lock a h m) = qm_entries m" "qm_entries (drop_lock h m) = qm_entries m"
  "qm_entries (store_flag b m) = qm_entries m" "qm_entries (store_claim c m) = qm_entries m"
  "qm_entries (store_entries h n m) = (qm_entries m)(h := n)"
  "qm_lock (store_flag b m) = qm_lock m" "qm_lock (store_claim c m) = qm_lock m" "qm_lock (store_entries h n m) = qm_lock m"
  "qm_lock (take_lock a h m) = (qm_lock m)(h := Some a)" "qm_lock (drop_lock h m) = (qm_lock m)(h := None)"
  "qm_tcb (store_flag b m) = (qm_tcb m)\<lparr>t_in_ready := b\<rparr>" "qm_tcb (store_claim c m) = (qm_tcb m)\<lparr>t_rq_hart := c\<rparr>"
  by (simp_all add: take_lock_def drop_lock_def store_flag_def store_claim_def store_entries_def)

lemma mark_claim: "try_mark_on_cpu h t = (b, t') \<Longrightarrow> t_rq_hart t' = t_rq_hart t \<and> t_in_ready t' = t_in_ready t"
  by (auto simp: try_mark_on_cpu_def Let_def split: if_splits)

section \<open>Claims are exact while none is withdrawn\<close>

text \<open>The hart for which a thread holds the claim: it has claimed and not yet inserted, or it has taken the
  entry and not yet released the claim.\<close>

fun holds_claim :: "queue_pc \<Rightarrow> nat option" where
  "holds_claim (Q_add_flag h) = Some h"
| "holds_claim (Q_add_cpu h) = Some h"
| "holds_claim (Q_add_lock h) = Some h"
| "holds_claim (Q_add_check h) = Some h"
| "holds_claim (Q_add_push h) = Some h"
| "holds_claim (Q_fetch_cas h) = Some h"
| "holds_claim pc = None"

fun withdrawing :: "queue_pc \<Rightarrow> bool" where
  "withdrawing Q_refresh = True"
| "withdrawing (Q_remove r) = True"
| "withdrawing (Q_remove_lock r h) = True"
| "withdrawing (Q_remove_flag r n) = True"
| "withdrawing pc = False"

definition claims_exact :: "claim_sys \<Rightarrow> bool" where
  "claims_exact S \<longleftrightarrow> (\<forall>a. \<not> withdrawing (cs_pc S a)) \<and>
     (t_rq_hart (qm_tcb (cs_mem S)) = None \<and> qm_entries (cs_mem S) = (\<lambda>h. 0) \<and> (\<forall>a. holds_claim (cs_pc S a) = None) \<or>
      (\<exists>h. t_rq_hart (qm_tcb (cs_mem S)) = Some h \<and> qm_entries (cs_mem S) = (\<lambda>x. 0)(h := 1) \<and>
         (\<forall>a. holds_claim (cs_pc S a) = None)) \<or>
      (\<exists>h a. t_rq_hart (qm_tcb (cs_mem S)) = Some h \<and> qm_entries (cs_mem S) = (\<lambda>h. 0) \<and>
         holds_claim (cs_pc S a) = Some h \<and> (\<forall>b. b \<noteq> a \<longrightarrow> holds_claim (cs_pc S b) = None)))"

lemma claims_exact_cases:
  assumes "claims_exact S"
  obtains (free) "t_rq_hart (qm_tcb (cs_mem S)) = None" "qm_entries (cs_mem S) = (\<lambda>h. 0)" "\<And>a. holds_claim (cs_pc S a) = None"
    | (entry) h where "t_rq_hart (qm_tcb (cs_mem S)) = Some h" "qm_entries (cs_mem S) = (\<lambda>x. 0)(h := 1)"
        "\<And>a. holds_claim (cs_pc S a) = None"
    | (held) h a where "t_rq_hart (qm_tcb (cs_mem S)) = Some h" "qm_entries (cs_mem S) = (\<lambda>h. 0)"
        "holds_claim (cs_pc S a) = Some h" "\<And>b. b \<noteq> a \<Longrightarrow> holds_claim (cs_pc S b) = None"
proof -
  from assms consider "t_rq_hart (qm_tcb (cs_mem S)) = None \<and> qm_entries (cs_mem S) = (\<lambda>h. 0) \<and> (\<forall>a. holds_claim (cs_pc S a) = None)"
    | h where "t_rq_hart (qm_tcb (cs_mem S)) = Some h \<and> qm_entries (cs_mem S) = (\<lambda>x. 0)(h := 1) \<and> (\<forall>a. holds_claim (cs_pc S a) = None)"
    | h a where "t_rq_hart (qm_tcb (cs_mem S)) = Some h \<and> qm_entries (cs_mem S) = (\<lambda>h. 0) \<and>
         holds_claim (cs_pc S a) = Some h \<and> (\<forall>b. b \<noteq> a \<longrightarrow> holds_claim (cs_pc S b) = None)"
    unfolding claims_exact_def by blast
  then show thesis by cases (rule free entry held; blast)+
qed

text \<open>What the next instruction of a thread that withdraws nothing does to claim and entries.\<close>

definition plain_pc :: "queue_pc \<Rightarrow> bool" where
  "plain_pc pc \<longleftrightarrow> (case pc of Q_add h \<Rightarrow> False | Q_add_check h \<Rightarrow> False | Q_add_push h \<Rightarrow> False | Q_fetch_pop h \<Rightarrow> False
     | Q_fetch_cas h \<Rightarrow> False | Q_fetch_mark h \<Rightarrow> False | _ \<Rightarrow> True)"

lemma turn_plain:
  assumes "queue_turn rt target a pc m = Some (pc', m')" "\<not> withdrawing pc" "plain_pc pc"
  shows "t_rq_hart (qm_tcb m') = t_rq_hart (qm_tcb m) \<and> qm_entries m' = qm_entries m \<and>
    holds_claim pc' = holds_claim pc \<and> \<not> withdrawing pc'"
  using assms by (cases pc) (auto simp: queue_turn_def plain_pc_def split: if_splits)

lemma turn_cases:
  assumes "queue_turn rt target a pc m = Some (pc', m')" "\<not> withdrawing pc"
  obtains (same) "t_rq_hart (qm_tcb m') = t_rq_hart (qm_tcb m)" "qm_entries m' = qm_entries m"
      "holds_claim pc' = holds_claim pc" "\<not> withdrawing pc'"
    | (claims) h where "t_rq_hart (qm_tcb m) = None" "t_rq_hart (qm_tcb m') = Some h" "qm_entries m' = qm_entries m"
        "holds_claim pc = None" "holds_claim pc' = Some h" "\<not> withdrawing pc'"
    | (pushes) h where "t_rq_hart (qm_tcb m') = t_rq_hart (qm_tcb m)"
        "qm_entries m' = (qm_entries m)(h := if rt then Suc (qm_entries m h) else 1)"
        "holds_claim pc = Some h" "holds_claim pc' = None" "\<not> withdrawing pc'"
    | (gives_up) h where "holds_claim pc = Some h" "t_rq_hart (qm_tcb m) \<noteq> Some h"
    | (pops) h where "qm_entries m h \<noteq> 0" "t_rq_hart (qm_tcb m') = t_rq_hart (qm_tcb m)"
        "qm_entries m' = (qm_entries m)(h := qm_entries m h - 1)" "holds_claim pc = None"
        "holds_claim pc' = (if \<not> rt \<and> t_rq_hart (qm_tcb m) \<noteq> Some h then None else Some h)" "\<not> withdrawing pc'"
    | (releases) h where "t_rq_hart (qm_tcb m) = Some h" "t_rq_hart (qm_tcb m') = None" "qm_entries m' = qm_entries m"
        "holds_claim pc = Some h" "holds_claim pc' = None" "\<not> withdrawing pc'"
proof (cases pc)
  case (Q_add h)
  show thesis
  proof (cases "t_rq_hart (qm_tcb m) = None")
    case True
    show thesis by (rule claims [of h]) (use assms True Q_add in \<open>auto simp: queue_turn_def\<close>)
  next
    case False
    show thesis by (rule same) (use assms False Q_add in \<open>auto simp: queue_turn_def\<close>)
  qed
next
  case (Q_add_check h)
  show thesis
  proof (cases "t_rq_hart (qm_tcb m) = Some h")
    case True
    show thesis by (rule same) (use assms True Q_add_check in \<open>auto simp: queue_turn_def\<close>)
  next
    case False
    show thesis by (rule gives_up [of h]) (use False Q_add_check in simp_all)
  qed
next
  case (Q_add_push h)
  show thesis by (rule pushes [of h]) (use assms Q_add_push in \<open>auto simp: queue_turn_def\<close>)
next
  case (Q_fetch_pop h)
  show thesis
  proof (cases "qm_entries m h = 0")
    case True
    show thesis by (rule same) (use assms True Q_fetch_pop in \<open>auto simp: queue_turn_def\<close>)
  next
    case False
    show thesis by (rule pops [of h]) (use assms False Q_fetch_pop in \<open>auto simp: queue_turn_def split: if_splits\<close>)
  qed
next
  case (Q_fetch_cas h)
  show thesis
  proof (cases "t_rq_hart (qm_tcb m) = Some h")
    case True
    show thesis by (rule releases [of h]) (use assms True Q_fetch_cas in \<open>auto simp: queue_turn_def\<close>)
  next
    case False
    show thesis by (rule gives_up [of h]) (use False Q_fetch_cas in simp_all)
  qed
next
  case (Q_fetch_mark h)
  obtain b t where mk: "try_mark_on_cpu h (qm_tcb m) = (b, t)" by fastforce
  show thesis
    by (rule same) (use assms Q_fetch_mark mk mark_claim [OF mk] in \<open>auto simp: queue_turn_def split: if_splits\<close>)
qed (use turn_plain [OF assms] same in \<open>simp_all add: plain_pc_def\<close>)

lemma exact_free:
  "(\<And>b. \<not> withdrawing (cs_pc S b)) \<Longrightarrow> t_rq_hart (qm_tcb (cs_mem S)) = None \<Longrightarrow> qm_entries (cs_mem S) = (\<lambda>h. 0) \<Longrightarrow>
    (\<And>b. holds_claim (cs_pc S b) = None) \<Longrightarrow> claims_exact S"
  by (simp add: claims_exact_def)

lemma exact_entry:
  "(\<And>b. \<not> withdrawing (cs_pc S b)) \<Longrightarrow> t_rq_hart (qm_tcb (cs_mem S)) = Some h \<Longrightarrow> qm_entries (cs_mem S) = (\<lambda>x. 0)(h := 1) \<Longrightarrow>
    (\<And>b. holds_claim (cs_pc S b) = None) \<Longrightarrow> claims_exact S"
  by (simp add: claims_exact_def)

lemma exact_held:
  "(\<And>b. \<not> withdrawing (cs_pc S b)) \<Longrightarrow> t_rq_hart (qm_tcb (cs_mem S)) = Some h \<Longrightarrow> qm_entries (cs_mem S) = (\<lambda>h. 0) \<Longrightarrow>
    holds_claim (cs_pc S a) = Some h \<Longrightarrow> (\<And>b. b \<noteq> a \<Longrightarrow> holds_claim (cs_pc S b) = None) \<Longrightarrow> claims_exact S"
  unfolding claims_exact_def by blast

text \<open>A thread that holds the claim is the only one, and the claim is for the hart it thinks.\<close>

lemma exact_holder:
  assumes "claims_exact S" "holds_claim (cs_pc S a) = Some h"
  shows "t_rq_hart (qm_tcb (cs_mem S)) = Some h" "qm_entries (cs_mem S) = (\<lambda>h. 0)"
    "b \<noteq> a \<Longrightarrow> holds_claim (cs_pc S b) = None"
proof -
  from assms(1) have "t_rq_hart (qm_tcb (cs_mem S)) = Some h \<and> qm_entries (cs_mem S) = (\<lambda>h. 0) \<and>
      (b \<noteq> a \<longrightarrow> holds_claim (cs_pc S b) = None)"
  proof (cases rule: claims_exact_cases)
    case (held h' a')
    then have "a' = a" using assms(2) by (metis option.distinct(1))
    then show ?thesis using held assms(2) by simp
  qed (use assms(2) in simp_all)
  then show "t_rq_hart (qm_tcb (cs_mem S)) = Some h" "qm_entries (cs_mem S) = (\<lambda>h. 0)"
    "b \<noteq> a \<Longrightarrow> holds_claim (cs_pc S b) = None" by blast+
qed

lemma turn_exact:
  assumes S: "claims_exact S" and e: "queue_turn rt target a (cs_pc S a) (cs_mem S) = Some (pc', m')"
  shows "claims_exact (S\<lparr>cs_mem := m', cs_pc := (cs_pc S)(a := pc')\<rparr>)" (is "claims_exact ?S'")
proof -
  have nw: "\<not> withdrawing (cs_pc S b)" for b using S by (simp add: claims_exact_def)
  from e nw show ?thesis
  proof (cases rule: turn_cases)
    case same
    then have "holds_claim (if b = a then pc' else cs_pc S b) = holds_claim (cs_pc S b)" for b by simp
    then show ?thesis using S nw same by (simp add: claims_exact_def fun_upd_def)
  next
    case (claims h)
    have "qm_entries (cs_mem S) = (\<lambda>h. 0) \<and> (\<forall>b. holds_claim (cs_pc S b) = None)"
      using S by (cases rule: claims_exact_cases) (use claims(1) in simp_all)
    then show ?thesis by (intro exact_held [of ?S' h a]) (use claims nw in auto)
  next
    case (pushes h)
    note ex = exact_holder [OF S pushes(3)]
    show ?thesis by (rule exact_entry [of ?S' h]) (use pushes nw ex in auto)
  next
    case (gives_up h)
    then show ?thesis using exact_holder(1) [OF S gives_up(1)] by simp
  next
    case (pops h)
    have "t_rq_hart (qm_tcb (cs_mem S)) = Some h \<and> qm_entries m' = (\<lambda>h. 0) \<and> (\<forall>b. holds_claim (cs_pc S b) = None)"
      using S by (cases rule: claims_exact_cases) (use pops(1,3) in \<open>auto simp: fun_eq_iff split: if_splits\<close>)
    then show ?thesis by (intro exact_held [of ?S' h a]) (use pops nw in auto)
  next
    case (releases h)
    note ex = exact_holder [OF S releases(4)]
    show ?thesis by (rule exact_free [of ?S']) (use releases nw ex in auto)
  qed
qed

lemma claim_step_exact:
  assumes "claim_step adds False rt S S'" "claims_exact S"
  shows "claims_exact S'"
  using assms(1)
proof cases
  case (start a pc)
  then have "holds_claim pc = None" "\<not> withdrawing pc" by (cases pc; simp)+
  moreover have "holds_claim (cs_pc S a) = None" using start(2) by simp
  ultimately have "holds_claim (if b = a then pc else cs_pc S b) = holds_claim (cs_pc S b)" for b by simp
  then show ?thesis using assms(2) start \<open>\<not> withdrawing pc\<close> by (simp add: claims_exact_def fun_upd_def)
next
  case (turn target a pc' m')
  then show ?thesis using turn_exact [OF assms(2)] by simp
next
  case (other t)
  then show ?thesis using assms(2) by (simp add: claims_exact_def)
qed

lemma claim_reach_exact: "claim_reach adds False rt S S' \<Longrightarrow> claims_exact S \<Longrightarrow> claims_exact S'"
  by (induction rule: rtranclp_induct) (auto intro: claim_step_exact)

section \<open>A refresh that meets a fetch loses the task\<close>

text \<open>A ready task that is in no queue and on no CPU, while no thread is about to insert it.\<close>

fun harmless :: "queue_pc \<Rightarrow> bool" where
  "harmless (Q_remove_flag r n) = (n = 0)"
| "harmless (Q_fetch_cas h) = False"
| "harmless (Q_fetch_flag h b) = (\<not> b)"
| "harmless (Q_fetch_mark h) = False"
| "harmless Q_idle = True"
| "harmless Q_refresh = True"
| "harmless (Q_remove r) = True"
| "harmless (Q_remove_lock r h) = True"
| "harmless (Q_fetch h) = True"
| "harmless (Q_fetch_pop h) = True"
| "harmless pc = False"

definition lost :: "claim_sys \<Rightarrow> bool" where
  "lost S \<longleftrightarrow> t_status (qm_tcb (cs_mem S)) = Ready \<and> t_on_cpu (qm_tcb (cs_mem S)) = OFF_CPU \<and>
     t_rq_hart (qm_tcb (cs_mem S)) = None \<and> (\<forall>h. qm_entries (cs_mem S) h = 0) \<and> (\<forall>a. harmless (cs_pc S a))"

lemma lost_turn:
  assumes "queue_turn rt target a pc m = Some (pc', m')" "harmless pc" "t_rq_hart (qm_tcb m) = None" "\<And>h. qm_entries m h = 0"
  shows "harmless pc'" "t_rq_hart (qm_tcb m') = None" "qm_entries m' h = 0"
    "t_status (qm_tcb m') = t_status (qm_tcb m)" "t_on_cpu (qm_tcb m') = t_on_cpu (qm_tcb m)"
  using assms by (cases pc; auto simp: queue_turn_def split: if_splits)+

lemma lost_step:
  assumes "claim_step False withdraws rt S S'" "lost S"
  shows "lost S'"
  using assms(1)
proof cases
  case (start a pc)
  then have "harmless pc" by (cases pc) simp_all
  then show ?thesis using assms(2) start by (simp add: lost_def)
next
  case (turn target a pc' m')
  have "harmless (cs_pc S a)" "t_rq_hart (qm_tcb (cs_mem S)) = None" "\<And>h. qm_entries (cs_mem S) h = 0"
    using assms(2) by (simp_all add: lost_def)
  from lost_turn [OF turn(2) this] show ?thesis using assms(2) turn(1) by (simp add: lost_def)
qed simp

lemma lost_forever: "claim_reach False withdraws rt S S' \<Longrightarrow> lost S \<Longrightarrow> lost S'"
  by (induction rule: rtranclp_induct) (auto intro: lost_step)

text \<open>The run: thread 0 refreshes, thread 1 is the hart that fetches. Only the memory and the two program
  counters change.\<close>

definition two :: "queue_mem \<Rightarrow> queue_pc \<Rightarrow> queue_pc \<Rightarrow> claim_sys" where
  "two m p q = \<lparr>cs_mem = m, cs_pc = (\<lambda>a. Q_idle)(0 := p, 1 := q)\<rparr>"

lemma two_start:
  "may_begin adds withdraws p \<Longrightarrow> claim_step adds withdraws rt (two m Q_idle q) (two m p q)"
  "may_begin adds withdraws q \<Longrightarrow> claim_step adds withdraws rt (two m p Q_idle) (two m p q)"
  using claim_step.start [of "two m Q_idle q" 0 adds withdraws p rt] claim_step.start [of "two m p Q_idle" 1 adds withdraws q rt]
  by (simp_all add: two_def fun_upd_twist)

lemma two_turn:
  "queue_turn rt 0 0 p m = Some (p', m') \<Longrightarrow> claim_step adds withdraws rt (two m p q) (two m' p' q)"
  "queue_turn rt 0 1 q m = Some (q', m') \<Longrightarrow> claim_step adds withdraws rt (two m p q) (two m' p q')"
  using claim_step.turn [of rt 0 0 "two m p q" p' m' adds withdraws] claim_step.turn [of rt 0 1 "two m p q" q' m' adds withdraws]
  by (simp_all add: two_def fun_upd_twist MAX_HARTS_def)

lemma queued_two: "queued_on h S \<Longrightarrow> S = two (cs_mem S) Q_idle Q_idle"
  by (cases S) (auto simp: queued_on_def two_def)

text \<open>The refresh withdraws the claim; the hart then takes the entry from its queue and drops it.\<close>

lemma refresh_begins:
  assumes "queued_on h S"
  shows "claim_reach False True rt S (two (store_claim None (cs_mem S)) (Q_remove_lock True h) Q_idle)"
proof -
  let ?m = "cs_mem S"
  have q: "t_in_ready (qm_tcb ?m)" "t_rq_hart (qm_tcb ?m) = Some h" "h < MAX_HARTS" using assms by (simp_all add: queued_on_def)
  have "claim_step False True rt (two ?m Q_idle Q_idle) (two ?m Q_refresh Q_idle)" by (rule two_start) simp
  moreover have "claim_step False True rt (two ?m Q_refresh Q_idle) (two ?m (Q_remove True) Q_idle)"
    by (rule two_turn) (use q in \<open>simp add: queue_turn_def\<close>)
  moreover have "claim_step False True rt (two ?m (Q_remove True) Q_idle) (two (store_claim None ?m) (Q_remove_lock True h) Q_idle)"
    by (rule two_turn) (use q in \<open>simp add: queue_turn_def\<close>)
  ultimately have "claim_reach False True rt (two ?m Q_idle Q_idle) (two (store_claim None ?m) (Q_remove_lock True h) Q_idle)"
    by (meson converse_rtranclp_into_rtranclp r_into_rtranclp)
  then show ?thesis using queued_two [OF assms] by simp
qed

lemma fetch_drops:
  assumes "h < MAX_HARTS" "t_rq_hart (qm_tcb m) = None" "qm_entries m = (\<lambda>x. 0)(h := 1)" "qm_lock m = (\<lambda>h. None)"
  shows "\<exists>m'. claim_reach False True rt (two m p Q_idle) (two m' p Q_idle) \<and> qm_entries m' = (\<lambda>h. 0) \<and>
    qm_lock m' = (\<lambda>h. None) \<and> qm_tcb m' = (qm_tcb m)\<lparr>t_in_ready := False\<rparr>"
proof -
  let ?m1 = "take_lock 1 h m" and ?m2 = "store_entries h 0 (take_lock 1 h m)"
  let ?m3 = "store_flag False ?m2"
  have 1: "claim_step False True rt (two m p Q_idle) (two m p (Q_fetch h))" by (rule two_start) (simp add: assms(1))
  have 2: "claim_step False True rt (two m p (Q_fetch h)) (two ?m1 p (Q_fetch_pop h))"
    by (rule two_turn) (simp add: queue_turn_def assms(4))
  have 3: "claim_reach False True rt (two ?m1 p (Q_fetch_pop h)) (two ?m2 p (Q_fetch_flag h False))"
  proof (cases rt)
    case True
    have "claim_step False True rt (two ?m1 p (Q_fetch_pop h)) (two ?m2 p (Q_fetch_cas h))"
      by (rule two_turn) (simp add: queue_turn_def assms(3) True)
    moreover have "claim_step False True rt (two ?m2 p (Q_fetch_cas h)) (two ?m2 p (Q_fetch_flag h False))"
      by (rule two_turn) (simp add: queue_turn_def assms(2))
    ultimately show ?thesis by (meson converse_rtranclp_into_rtranclp r_into_rtranclp)
  next
    case False
    have "claim_step False True rt (two ?m1 p (Q_fetch_pop h)) (two ?m2 p (Q_fetch_flag h False))"
      by (rule two_turn) (simp add: queue_turn_def assms(2,3) False)
    then show ?thesis by (rule r_into_rtranclp)
  qed
  have 4: "claim_step False True rt (two ?m2 p (Q_fetch_flag h False)) (two ?m3 p (Q_fetch_pop h))"
    by (rule two_turn) (simp add: queue_turn_def)
  have 5: "claim_step False True rt (two ?m3 p (Q_fetch_pop h)) (two (drop_lock h ?m3) p Q_idle)"
    by (rule two_turn) (simp add: queue_turn_def)
  have "claim_reach False True rt (two m p Q_idle) (two (drop_lock h ?m3) p Q_idle)"
    using 1 2 3 4 5 by (meson rtranclp.rtrancl_into_rtrancl converse_rtranclp_into_rtranclp)
  moreover have "qm_entries (drop_lock h ?m3) = (\<lambda>h. 0)" "qm_lock (drop_lock h ?m3) = (\<lambda>h. None)"
    using assms(3,4) by (simp_all add: fun_eq_iff)
  ultimately show ?thesis by (intro exI [of _ "drop_lock h ?m3"]) simp
qed

lemma refresh_race:
  assumes "queued_on h S"
  shows "\<exists>S'. claim_reach False True rt S S' \<and> lost S' \<and> cs_pc S' = (\<lambda>a. Q_idle)"
proof -
  let ?m0 = "store_claim None (cs_mem S)"
  have q: "h < MAX_HARTS" "qm_entries ?m0 = (\<lambda>x. 0)(h := 1)" "qm_lock ?m0 = (\<lambda>h. None)" "t_rq_hart (qm_tcb ?m0) = None"
      "t_status (qm_tcb ?m0) = Ready" "t_on_cpu (qm_tcb ?m0) = OFF_CPU"
    using assms by (simp_all add: queued_on_def)
  obtain m1 where run: "claim_reach False True rt (two ?m0 (Q_remove_lock True h) Q_idle) (two m1 (Q_remove_lock True h) Q_idle)"
    and m1: "qm_entries m1 = (\<lambda>h. 0)" "qm_lock m1 = (\<lambda>h. None)" "qm_tcb m1 = (qm_tcb ?m0)\<lparr>t_in_ready := False\<rparr>"
    using fetch_drops [OF q(1,4,2,3)] by blast
  let ?m2 = "store_entries h 0 m1"
  have 1: "claim_step False True rt (two m1 (Q_remove_lock True h) Q_idle) (two ?m2 (Q_remove_flag True 0) Q_idle)"
    by (rule two_turn) (simp add: queue_turn_def m1)
  have 2: "claim_step False True rt (two ?m2 (Q_remove_flag True 0) Q_idle) (two (store_flag False ?m2) Q_idle Q_idle)"
    by (rule two_turn) (simp add: queue_turn_def)
  have "claim_reach False True rt S (two (store_flag False ?m2) Q_idle Q_idle)"
    using refresh_begins [OF assms] run 1 2 by (meson rtranclp.rtrancl_into_rtrancl rtranclp_trans)
  moreover have "lost (two (store_flag False ?m2) Q_idle Q_idle)" using q m1 by (simp add: lost_def two_def)
  moreover have "cs_pc (two (store_flag False ?m2) Q_idle Q_idle) = (\<lambda>a. Q_idle)" by (simp add: two_def fun_eq_iff)
  ultimately show ?thesis by blast
qed

section \<open>Properties\<close>

text \<open>C19: a task is never queued twice, and every claim is accounted for. Whatever threads add and fetch a
  task that was in no queue, with every atomic access a step of its own, it has at most one entry, in the
  queue of the hart that \<open>ready_queue_hart\<close> names; and when a hart is named, the entry is there or exactly one
  thread is between claiming and inserting or between taking the entry and releasing the claim. No thread
  withdraws a claim by \<open>remove\<close>.\<close>

theorem queue_claims_exact:
  assumes "unqueued S" and "claim_reach True False rt S S'"
  shows "qm_entries (cs_mem S') h \<le> 1 \<and>
    (qm_entries (cs_mem S') h \<noteq> 0 \<longrightarrow> t_rq_hart (qm_tcb (cs_mem S')) = Some h) \<and>
    (t_rq_hart (qm_tcb (cs_mem S')) = Some h \<longrightarrow>
       qm_entries (cs_mem S') h = 1 \<or> (\<exists>!a. holds_claim (cs_pc S' a) = Some h))"
proof -
  have "claims_exact S" using assms(1) by (simp add: unqueued_def claims_exact_def)
  from claim_reach_exact [OF assms(2) this] show ?thesis
    by (cases rule: claims_exact_cases) (auto, metis option.distinct(1))
qed

definition demo_claim :: claim_sys where
  "demo_claim = \<lparr>cs_mem = \<lparr>qm_tcb = demo_tcb\<lparr>t_rq_hart := None\<rparr>, qm_entries = (\<lambda>h. 0), qm_lock = (\<lambda>h. None)\<rparr>,
     cs_pc = (\<lambda>a. Q_idle)\<rparr>"

theorem queue_claims_exact_witness:
  "\<exists>S'. claim_reach True False True demo_claim S' \<and> cs_pc S' 0 = Q_add_flag 3 \<and> t_rq_hart (qm_tcb (cs_mem S')) = Some 3 \<and>
     (\<exists>!a. holds_claim (cs_pc S' a) = Some 3)"
proof -
  let ?m = "cs_mem demo_claim" and ?S = "two (store_claim (Some 3) (cs_mem demo_claim)) (Q_add_flag 3) Q_idle"
  have u: "unqueued demo_claim" by (simp add: unqueued_def demo_claim_def)
  have "demo_claim = two ?m Q_idle Q_idle" by (simp add: two_def demo_claim_def fun_eq_iff)
  moreover have "claim_step True False True (two ?m Q_idle Q_idle) (two ?m (Q_add 3) Q_idle)"
    by (rule two_start) (simp add: MAX_HARTS_def)
  moreover have "claim_step True False True (two ?m (Q_add 3) Q_idle) ?S"
    by (rule two_turn) (simp add: queue_turn_def demo_claim_def)
  ultimately have r: "claim_reach True False True demo_claim ?S"
    by (metis converse_rtranclp_into_rtranclp r_into_rtranclp)
  from queue_claims_exact [OF u r, of 3] r show ?thesis
    by (intro exI [of _ ?S]) (simp add: two_def demo_claim_def)
qed

text \<open>C20: a refresh that meets a fetch loses the task. From any state in which a ready task is queued, one
  call of \<open>refresh_task_runqueue\<close> and one \<open>fetch\<close> on the hart of the queue can run so that the refresh
  withdraws the claim, the fetch therefore drops the entry, and the refresh removes nothing and does not queue
  the task again. The task is then ready, in no queue and on no CPU, and no later fetch, removal or refresh
  changes that.\<close>

theorem refresh_loses_task:
  assumes "queued_on h S"
  shows "\<exists>S'. claim_reach False True rt S S' \<and> cs_pc S' = (\<lambda>a. Q_idle) \<and> Collect (claim_reach False True rt S') \<subseteq> Collect lost"
  using refresh_race [OF assms] lost_forever by blast

theorem refresh_loses_task_witness:
  "\<exists>S S'. queued_on 3 S \<and> claim_reach False True False S S' \<and> lost S'"
proof -
  let ?S = "two \<lparr>qm_tcb = demo_tcb\<lparr>t_rq_hart := Some 3, t_in_ready := True\<rparr>, qm_entries = (\<lambda>x. 0)(3 := 1), qm_lock = (\<lambda>h. None)\<rparr> Q_idle Q_idle"
  have q: "queued_on 3 ?S" by (simp add: queued_on_def two_def demo_tcb_def MAX_HARTS_def fun_eq_iff)
  from refresh_loses_task [OF q, of False] obtain S' where "claim_reach False True False ?S S'"
      "Collect (claim_reach False True False S') \<subseteq> Collect lost" by blast
  then show ?thesis using q by (intro exI [of _ ?S] exI [of _ S']) auto
qed

end
