(* ===== verification/Spec2Isabelle.thy ===== *)
theory Spec2Isabelle
  imports Errno Ranges Page_Cache Bpf_Syscall Cbpf Lock_System Sched_Runs Queue_Claims
begin

text \<open>
  A verification library for the kernel under \<open>src/\<close>, a multi-core Unix-like kernel in Rust for
  \<open>riscv64\<close> and \<open>loongarch64\<close>. File names below are relative to \<open>src/src/\<close>.

  \<^bold>\<open>The program.\<close> System calls (\<open>syscall/\<close>) act for the task that runs on the calling hart. They use
  the memory side (\<open>mm/\<close>: frames, address spaces, shared page caches), the task side (\<open>task/\<close>: control
  blocks, run queues, the loop of a hart, file tables), files (\<open>fs/\<close>), and the packet filters (\<open>bpf/\<close> and
  \<open>syscall/net/cbpf.rs\<close>). Blocking calls meet the scheduler at two points: \<open>block_current_and_run_next\<close>
  takes the caller off its hart, and \<open>wakeup_task\<close> puts it back on a queue. The library has one group of
  theories for each of memory, files, filters, file locks and scheduling, over a common prelude.

  \<^bold>\<open>Conventions.\<close>
  \<^item> \<open>u8\<close> to \<open>u64\<close>, \<open>usize\<close> and the signed types are words, so that wrapping, truncation and
    sign extension are those of the code; \<open>saturating_add\<close> and its relatives are functions of
    \<open>Kernel_Prelude\<close>. The scheduler's virtual times and sums are natural or integer numbers with the
    saturation of the code written out (\<open>sat64\<close>, \<open>sat128\<close>).
  \<^item> \<open>BTreeMap\<close> and \<open>BTreeSet\<close> are the sorted lists of \<open>Ordered_Maps\<close> (\<open>btm_*\<close>, \<open>bts_*\<close>), with the
    interface \<open>ordered_dict\<close> interpreted on them.
  \<^item> A \<open>Result\<close> is a sum with the error on the left; a panic is \<open>None\<close> or a constructor of its own.
  \<^item> \<open>Arc\<close> and \<open>Weak\<close> references are identifiers into an explicit store; files are numbers.
  \<^item> Reads and writes of user memory, the clock and the device tree are arguments of the definitions
    that use them.
  \<^item> Grain of concurrency. Functions of the memory, descriptor and filter theories are run without
    interference. In \<open>Lock_System\<close> every critical section of a lock command, close or exit is a step of its
    own, and so is every single wake-up. In \<open>Task_Wakeup\<close> the steps are the changes of the atomic words of one
    task, in \<open>Queue_Claims\<close> every atomic access and lock of an operation on the run queues for one task. In the
    machine of \<open>Sched_Machine\<close> an operation of the scheduler is one step and reads the clock once, which the
    code does not guarantee: it changes the claim on a task outside the lock of a queue. \<open>Queue_Claims\<close> tells
    what remains true of the claims without that assumption, and what does not.

  \<^bold>\<open>Prelude.\<close> \<open>Kernel_Prelude\<close> (types, saturation, byte lists, options), \<open>Ordered_Maps\<close>, \<open>Machines\<close>
  (\<open>forward_machine\<close>: a loop whose turns move forward ends, and in how many turns; \<open>packet_filter\<close>: a total
  verdict of an accepted program), and \<open>Errno\<close> (\<open>syscall/error.rs\<close>).

  \<^bold>\<open>Memory.\<close>
  \<^item> \<open>Address\<close> (\<open>mm/address.rs\<close>): the address types and the conversions between them, rounding, page
    ranges. An address survives the conversion exactly when it is canonical.
  \<^item> \<open>Ranges\<close> (\<open>mm/memory_set/range.rs\<close> and the \<open>mlock\<close> part of \<open>mm/memory_set.rs\<close>): the normal form of
    a set of ranges is unique; the locked byte counts are exact in every reachable state.
  \<^item> \<open>Frames\<close> (\<open>mm/frame_allocator.rs\<close>): construction from the memory map, allocation, contiguous
    allocation, the reference counts of trackers. The interface \<open>frame_pool\<close> is interpreted on
    \<open>StackFrameAllocator\<close>, and \<open>frame_step\<close> is any operation of any holder: managed pages are exactly the
    usable ones, a frame handed out belongs to nobody else, counts equal the live trackers, no drop panics.
  \<^item> \<open>Page_Cache\<close> (\<open>mm/memory_set/backing.rs\<close>): shared file and anonymous pages with their contents:
    what a write and a truncation change, and that allocation fails only when nothing can be reclaimed.

  \<^bold>\<open>Files.\<close>
  \<^item> \<open>Files_Struct\<close> (\<open>task/files_struct.rs\<close>): the table of a process with its log of install and close
    notifications; lowest free descriptor, balanced notifications, complete tear-down.
  \<^item> \<open>Record_Locks\<close>, \<open>Lock_System\<close> (\<open>syscall/filesystem/lock_utils.rs\<close>, \<open>fcntl.rs\<close>, \<open>ctl.rs\<close>): record
    locks as interval lists, \<open>flock\<close>, leases, wait queues and the deadlock search. \<open>lock_step\<close> is any
    critical section of a lock command, close or exit of any thread: locks exclude each other, the interval
    lists change exactly the requested bytes, the search decides reachability, and a sleeper whose request can
    be granted has been woken or is about to be. Waits of single-threaded processes are never circular if
    nothing comes between the deadlock check and the registration; the code does not prevent that, and then
    any two processes can come to wait for each other.

  \<^bold>\<open>Filters.\<close>
  \<^item> \<open>Bpf_Map\<close>, \<open>Bpf_Vm\<close>, \<open>Bpf_Syscall\<close> (\<open>bpf/map.rs\<close>, \<open>uapi.rs\<close>, \<open>verifier.rs\<close>, \<open>runtime.rs\<close>,
    \<open>prog.rs\<close>, \<open>syscall.rs\<close>): maps behind the interface \<open>elem_store\<close>, the static verifier, the interpreter,
    and the system call with copies from user memory as parameters. A verified program never panics, ends
    within its length, and changes nothing but bytes of its maps; this holds of every program that any
    history of system calls loads.
  \<^item> \<open>Cbpf\<close> (\<open>syscall/net/cbpf.rs\<close>): validation and interpretation of classic filters, proved equal to a
    reference semantics by structural recursion on the program.

  \<^bold>\<open>Scheduling.\<close>
  \<^item> \<open>Rt_Sched\<close> (\<open>task/sched.rs\<close>, \<open>task/manager/rt.rs\<close>): policies, sysctl values, real-time bandwidth.
  \<^item> \<open>Task_Block\<close> (\<open>task/task_block.rs\<close>): the scheduling fields of a control block, the \<open>on_cpu\<close> word
    with the deferred wake-up bit. \<open>Task_Wakeup\<close> follows one task at the grain of its atomic words: no
    wake-up is lost when a wake-up takes effect at one moment, and the run in which the two separate critical
    sections of the code lose the task.
  \<^item> \<open>Fair_Queue\<close> (\<open>task/manager/fair.rs\<close>): groups of fair tasks; the choice is the earliest virtual
    deadline among the eligible tasks, the bound being the weighted average or the recorded minimum if that
    is larger.
  \<^item> \<open>Run_Queue\<close> (\<open>task/manager/run_queue.rs\<close>, \<open>HartRunQueue\<close>): the queues of the harts.
    \<open>Sched_Queues\<close> and \<open>Sched_System\<close> prove that queueing, fetching and removing keep them consistent
    with the control blocks and the counters that are read without a lock, and that a fetch returns.
    \<open>Queue_Claims\<close> follows one task through the same operations instruction by instruction: claims are exact
    while none is withdrawn, and a refresh that meets a fetch loses the task.
  \<^item> \<open>Hart_Select\<close>, \<open>Wakeup_Batch\<close> (\<open>task/manager.rs\<close>): the choice of a hart, wake-ups, preemption by a
    woken task, interrupts. \<open>Hart_Loop\<close> (\<open>task/processor.rs\<close>): ticks, yielding, blocking, exit and the
    steps of \<open>idle_task\<close>.
  \<^item> \<open>Sched_Machine\<close>, \<open>Sched_Runs\<close>: all of these as operations of one machine, \<open>mach_step\<close> from
    \<open>boot_machine\<close> on. In every reachable state a task is held by one hart at most and the queues are
    consistent; fetching takes the best task, placement respects affinity, a wake-up reaches its hart. All this is
    under the assumption that an operation is one step.

  \<^bold>\<open>Loops and bounds.\<close> Loops are structural recursion or have a termination proof. The two interpreters
  and the two loops over stale queue entries are partial functions into \<open>option\<close>, and the theorems about
  them state that they return: an accepted filter within as many turns as it has instructions, a fetch
  because each turn takes an entry off a finite queue. There is no fuel. The model of the filters is that of
  a single call: maps shared by programs that run on several harts at once are changed in turn.

  \<^bold>\<open>Not modelled.\<close>
  \<^item> Page tables, traps, context switches, drivers, start-up: assembly, raw pointers and device registers.
  \<^item> Address spaces beyond the locked ranges and the page caches, and the process operations \<open>fork\<close>,
    \<open>exec\<close> and \<open>wait\<close>: they write page tables and user memory throughout.
  \<^item> File systems: inodes of a third-party crate and generated text.
  \<^item> Network protocols and \<open>WireGuard\<close>: a third-party stack and cryptography.
  \<^item> Signals, futexes, timers, polling: their state is in user memory, in trap frames, or in the clock.
    The wake-ups they cause are steps of the machine.
\<close>

end
